(* ===== verification/Aegis_Prelude.thy ===== *)
theory Aegis_Prelude
  imports Main "HOL-Library.Word" "HOL-Library.Product_Lexorder"
begin

text \<open>
  Shared vocabulary of the development: machine integer types, byte strings, the outcome of
  allocations, the binary search loop that the sorted indexes repeat
  (\<^verbatim>\<open>src/src/storage/time_index.c\<close>, \<^verbatim>\<open>tag_index.c\<close>, \<^verbatim>\<open>edge_index.c\<close>, \<^verbatim>\<open>fact_index.c\<close>),
  the \<^verbatim>\<open>memmove\<close> idiom that opens and closes a gap in an array, and the FNV-1a string hash
  that the chained tables use.

  Conventions. \<^verbatim>\<open>uint64_t\<close> identifiers, offsets and times keep their width (\<open>u64\<close>); a
  \<^verbatim>\<open>size_t\<close> that counts elements of an array held in memory is a \<open>nat\<close>. A C string is the
  list of its bytes before the terminating zero, a nullable pointer is an \<open>option\<close>.
  An operation that allocates takes an \<open>alloc\<close>: \<open>mem k\<close> says whether the allocation at its
  \<open>k\<close>-th call site succeeds, so that every out-of-memory branch of the source is a branch of
  the model.
\<close>

unbundle bit_operations_syntax

section \<open>Types\<close>

type_synonym u8 = "8 word"
type_synonym u16 = "16 word"
type_synonym u32 = "32 word"
type_synonym u64 = "64 word"
type_synonym bytes = "u8 list"
type_synonym cstr = "u8 list"
type_synonym alloc = "nat \<Rightarrow> bool"

abbreviation mem_ok :: alloc where
  "mem_ok \<equiv> \<lambda>_. True"

text \<open>The bytes of a string literal of the source.\<close>

definition lit :: "string \<Rightarrow> cstr" where
  "lit s = map of_char s"

text \<open>What \<^verbatim>\<open>strlen\<close> and the other string functions see of a byte buffer.\<close>

definition cstr_of :: "bytes \<Rightarrow> cstr" where
  "cstr_of b = takeWhile (\<lambda>x. x \<noteq> 0) b"

named_theorems cursor_simps \<open>reading a field back from a buffer that starts with its encoding\<close>
named_theorems array_simps \<open>opening and closing a gap in an array\<close>

lemma cstr_of_idem [simp]: "cstr_of (cstr_of b) = cstr_of b"
  by (simp add: cstr_of_def)

lemma cstr_of_id: "0 \<notin> set s \<Longrightarrow> cstr_of s = s"
  by (simp add: cstr_of_def takeWhile_eq_all_conv) (metis)

lemma cstr_of_no_zero [simp]: "0 \<notin> set (cstr_of b)"
  by (auto simp: cstr_of_def dest: set_takeWhileD)

text \<open>An order on pairs is, in particular, one on the first components.\<close>

lemma sorted_fst_key:
  "sorted (map (\<lambda>x. (f x :: 'a::linorder, g x :: 'b::linorder)) xs) \<Longrightarrow> sorted (map f xs)"
  by (induction xs) (auto simp: less_eq_prod_simp)

section \<open>Gaps in arrays\<close>

text \<open>
  \<^verbatim>\<open>memmove(&e[pos + 1], &e[pos], (n - pos) * sizeof *e); e[pos] = x; n++\<close> and
  \<^verbatim>\<open>memmove(&e[pos], &e[pos + 1], (n - pos - 1) * sizeof *e); n--\<close>.
\<close>

definition insert_at :: "nat \<Rightarrow> 'a \<Rightarrow> 'a list \<Rightarrow> 'a list" where
  "insert_at pos x xs = take pos xs @ x # drop pos xs"

definition remove_at :: "nat \<Rightarrow> 'a list \<Rightarrow> 'a list" where
  "remove_at pos xs = take pos xs @ drop (Suc pos) xs"

lemma set_insert_at [array_simps]: "set (insert_at pos x xs) = insert x (set xs)"
proof -
  have "set (take pos xs) \<union> set (drop pos xs) = set xs"
    by (metis append_take_drop_id set_append)
  then show ?thesis by (auto simp: insert_at_def)
qed

lemma length_insert_at [array_simps]: "length (insert_at pos x xs) = Suc (length xs)"
  by (simp add: insert_at_def)

lemma length_remove_at [array_simps]:
  "pos < length xs \<Longrightarrow> length (remove_at pos xs) = length xs - 1"
  by (simp add: remove_at_def)

lemma map_insert_at [array_simps]: "map f (insert_at pos x xs) = insert_at pos (f x) (map f xs)"
  by (simp add: insert_at_def take_map drop_map)

lemma map_remove_at [array_simps]: "map f (remove_at pos xs) = remove_at pos (map f xs)"
  by (simp add: remove_at_def take_map drop_map)

lemma set_remove_at_distinct:
  assumes "distinct xs" and "pos < length xs"
  shows "set (remove_at pos xs) = set xs - {xs ! pos}"
proof -
  have "xs = take pos xs @ xs ! pos # drop (Suc pos) xs"
    using assms(2) by (simp add: id_take_nth_drop)
  then show ?thesis
    using assms(1) unfolding remove_at_def
    by (metis Diff_insert_absorb Un_insert_right distinct_append distinct.simps(2)
        disjoint_iff list.set_intros(1) list.simps(15) set_append UnE)
qed

section \<open>Binary search\<close>

text \<open>
  \<^verbatim>\<open>while (lo < hi) { mid = lo + (hi - lo) / 2; if (before mid) lo = mid + 1; else hi = mid; }\<close>
\<close>

function bsearch :: "(nat \<Rightarrow> bool) \<Rightarrow> nat \<Rightarrow> nat \<Rightarrow> nat" where
  "bsearch before lo hi =
     (if lo < hi
      then let mid = lo + (hi - lo) div 2
           in if before mid then bsearch before (Suc mid) hi else bsearch before lo mid
      else lo)"
  by pat_completeness auto
termination
  by (relation "measure (\<lambda>(before, lo, hi). hi - lo)") auto

declare bsearch.simps [simp del]

lemma bsearch_spec:
  assumes "lo \<le> hi"
    and "\<And>i j. i \<le> j \<Longrightarrow> j < hi \<Longrightarrow> before j \<Longrightarrow> before i"
  shows "lo \<le> bsearch before lo hi \<and> bsearch before lo hi \<le> hi \<and>
    (\<forall>i. lo \<le> i \<and> i < bsearch before lo hi \<longrightarrow> before i) \<and>
    (\<forall>i. bsearch before lo hi \<le> i \<and> i < hi \<longrightarrow> \<not> before i)"
  using assms
proof (induction before lo hi rule: bsearch.induct)
  case (1 before lo hi)
  define mid where "mid = lo + (hi - lo) div 2"
  show ?case
  proof (cases "lo < hi")
    case False
    with 1(3) have "lo = hi" by simp
    then show ?thesis by (auto simp: bsearch.simps [of before hi hi])
  next
    case lh: True
    then have m: "lo \<le> mid" "mid < hi" by (auto simp: mid_def)
    show ?thesis
    proof (cases "before mid")
      case True
      with lh have eq: "bsearch before lo hi = bsearch before (Suc mid) hi"
        by (simp add: bsearch.simps [of before lo hi] mid_def Let_def)
      have ih: "Suc mid \<le> bsearch before (Suc mid) hi \<and> bsearch before (Suc mid) hi \<le> hi \<and>
        (\<forall>i. Suc mid \<le> i \<and> i < bsearch before (Suc mid) hi \<longrightarrow> before i) \<and>
        (\<forall>i. bsearch before (Suc mid) hi \<le> i \<and> i < hi \<longrightarrow> \<not> before i)"
        by (rule 1(1) [OF lh mid_def True]) (use m 1(4) in auto)
      have "before i" if "i \<le> mid" for i
        using 1(4) [OF that m(2) True] .
      with ih m eq show ?thesis by (metis Suc_leI le_trans not_le less_imp_le_nat less_Suc_eq_le)
    next
      case False
      with lh have eq: "bsearch before lo hi = bsearch before lo mid"
        by (simp add: bsearch.simps [of before lo hi] mid_def Let_def)
      have ih: "lo \<le> bsearch before lo mid \<and> bsearch before lo mid \<le> mid \<and>
        (\<forall>i. lo \<le> i \<and> i < bsearch before lo mid \<longrightarrow> before i) \<and>
        (\<forall>i. bsearch before lo mid \<le> i \<and> i < mid \<longrightarrow> \<not> before i)"
        by (rule 1(2) [OF lh mid_def False]) (use m 1(4) in auto)
      have "\<not> before i" if "mid \<le> i" "i < hi" for i
        using 1(4) [OF that] False by blast
      with ih m eq show ?thesis by (metis le_trans less_imp_le_nat not_le)
    qed
  qed
qed

text \<open>
  The contract of a sorted array: a comparison that locates an element relative to a key.
  The arrays of the indexes differ in their element type and in the comparison they write out;
  what follows from the order is shown here once.
\<close>

locale sorted_array =
  fixes key :: "'e \<Rightarrow> 'k::linorder"
    and before :: "'e \<Rightarrow> 'k \<Rightarrow> bool"
  assumes before_iff: "before e k \<longleftrightarrow> key e < k"
begin

lemma lower_bound:
  assumes "sorted (map key xs)"
    and pos: "pos = bsearch (\<lambda>i. before (xs ! i) k) 0 (length xs)"
  shows "pos \<le> length xs"
    and "\<And>i. i < pos \<Longrightarrow> key (xs ! i) < k"
    and "\<And>i. pos \<le> i \<Longrightarrow> i < length xs \<Longrightarrow> k \<le> key (xs ! i)"
proof -
  have mono: "before (xs ! i) k" if "i \<le> j" "j < length xs" "before (xs ! j) k" for i j
  proof -
    have "key (xs ! i) \<le> key (xs ! j)"
      using sorted_nth_mono [OF assms(1), of i j] that by simp
    with that(3) show ?thesis by (simp add: before_iff)
  qed
  have s: "pos \<le> length xs \<and> (\<forall>i. 0 \<le> i \<and> i < pos \<longrightarrow> before (xs ! i) k) \<and>
      (\<forall>i. pos \<le> i \<and> i < length xs \<longrightarrow> \<not> before (xs ! i) k)"
    unfolding pos
    using bsearch_spec [of 0 "length xs" "\<lambda>i. before (xs ! i) k"] mono by blast
  then show "pos \<le> length xs"
    and "\<And>i. i < pos \<Longrightarrow> key (xs ! i) < k"
    and "\<And>i. pos \<le> i \<Longrightarrow> i < length xs \<Longrightarrow> k \<le> key (xs ! i)"
    by (auto simp: before_iff not_less)
qed

lemma take_below:
  assumes "sorted (map key xs)"
    and "pos = bsearch (\<lambda>i. before (xs ! i) k) 0 (length xs)"
    and "e \<in> set (take pos xs)"
  shows "key e < k"
  using assms lower_bound [OF assms(1,2)] by (auto simp: in_set_conv_nth)

lemma drop_above:
  assumes "sorted (map key xs)"
    and "pos = bsearch (\<lambda>i. before (xs ! i) k) 0 (length xs)"
    and "e \<in> set (drop pos xs)"
  shows "k \<le> key e"
  using assms lower_bound [OF assms(1,2)] by (auto simp: in_set_conv_nth)

lemma take_eq_filter:
  assumes "sorted (map key xs)"
    and "pos = bsearch (\<lambda>i. before (xs ! i) k) 0 (length xs)"
  shows "take pos xs = filter (\<lambda>e. key e < k) xs"
    and "drop pos xs = filter (\<lambda>e. k \<le> key e) xs"
proof -
  have t: "\<And>e. e \<in> set (take pos xs) \<Longrightarrow> key e < k"
    and d: "\<And>e. e \<in> set (drop pos xs) \<Longrightarrow> k \<le> key e"
    using take_below [OF assms] drop_above [OF assms] by blast+
  have split: "filter P xs = filter P (take pos xs) @ filter P (drop pos xs)" for P
    by (metis append_take_drop_id filter_append)
  have "filter (\<lambda>e. key e < k) (take pos xs) = take pos xs"
    "filter (\<lambda>e. k \<le> key e) (drop pos xs) = drop pos xs"
    using t d by (simp_all add: filter_id_conv)
  moreover have "filter (\<lambda>e. key e < k) (drop pos xs) = []"
    "filter (\<lambda>e. k \<le> key e) (take pos xs) = []"
    using t d by (auto simp: filter_empty_conv not_less not_le)
  ultimately show "take pos xs = filter (\<lambda>e. key e < k) xs"
    and "drop pos xs = filter (\<lambda>e. k \<le> key e) xs"
    by (simp_all add: split)
qed

lemma found_iff:
  assumes "sorted (map key xs)"
    and "pos = bsearch (\<lambda>i. before (xs ! i) k) 0 (length xs)"
  shows "(pos < length xs \<and> key (xs ! pos) = k) \<longleftrightarrow> k \<in> key ` set xs"
proof
  assume "k \<in> key ` set xs"
  then obtain i where i: "i < length xs" "key (xs ! i) = k"
    by (auto simp: in_set_conv_nth)
  have "pos \<le> i"
    using lower_bound(2) [OF assms, of i] i by (meson less_irrefl not_le)
  moreover from this have "key (xs ! pos) \<le> key (xs ! i)"
    using sorted_nth_mono [OF assms(1), of pos i] i(1) by simp
  moreover have "k \<le> key (xs ! pos)"
    using lower_bound(3) [OF assms, of pos] i(1) \<open>pos \<le> i\<close> by simp
  ultimately show "pos < length xs \<and> key (xs ! pos) = k"
    using i by simp
qed (auto intro: rev_image_eqI)

lemma sorted_insert:
  assumes "sorted (map key xs)"
    and "pos = bsearch (\<lambda>i. before (xs ! i) (key x)) 0 (length xs)"
  shows "sorted (map key (insert_at pos x xs))"
  using assms take_below [OF assms] drop_above [OF assms] sorted_wrt_take [of "(\<le>)" "map key xs" pos]
    sorted_wrt_drop [of "(\<le>)" "map key xs" pos]
  by (fastforce simp: insert_at_def sorted_append take_map drop_map)

lemma distinct_insert:
  assumes "sorted (map key xs)" and "distinct (map key xs)" and "key x \<notin> key ` set xs"
    and "pos = bsearch (\<lambda>i. before (xs ! i) (key x)) 0 (length xs)"
  shows "distinct (map key (insert_at pos x xs))"
proof -
  have "distinct (map key (take pos xs @ drop pos xs))" using assms(2) by simp
  then have "distinct (map key (take pos xs))" "distinct (map key (drop pos xs))"
    "key ` set (take pos xs) \<inter> key ` set (drop pos xs) = {}"
    by (simp_all only: map_append distinct_append set_map)
  moreover have "key x \<notin> key ` set (take pos xs)" "key x \<notin> key ` set (drop pos xs)"
    using assms(3) set_take_subset [of pos xs] set_drop_subset [of pos xs] by blast+
  ultimately show ?thesis by (auto simp: insert_at_def)
qed

lemma sorted_remove: "sorted (map key xs) \<Longrightarrow> sorted (map key (remove_at pos xs))"
proof -
  assume s: "sorted (map key xs)"
  have "sorted (take pos (map key xs) @ drop pos (map key xs))" using s by simp
  then have "sorted (take pos (map key xs))"
    and le: "\<forall>x \<in> set (take pos (map key xs)). \<forall>y \<in> set (drop pos (map key xs)). x \<le> y"
    unfolding sorted_append by blast+
  moreover have "sorted (drop (Suc pos) (map key xs))" using s by (rule sorted_wrt_drop)
  moreover have "set (drop (Suc pos) (map key xs)) \<subseteq> set (drop pos (map key xs))"
    by (simp add: set_drop_subset_set_drop)
  ultimately have "sorted (take pos (map key xs) @ drop (Suc pos) (map key xs))"
    unfolding sorted_append by blast
  then show ?thesis by (simp add: remove_at_def take_map drop_map)
qed

lemma distinct_remove: "distinct (map key xs) \<Longrightarrow> distinct (map key (remove_at pos xs))"
proof -
  assume d: "distinct (map key xs)"
  have "distinct (take pos (map key xs) @ drop pos (map key xs))" using d by simp
  then have "distinct (take pos (map key xs) @ drop (Suc pos) (map key xs))"
    using d set_drop_subset_set_drop [of pos "Suc pos" "map key xs"]
    by (auto simp: distinct_append simp del: append_take_drop_id)
  then show ?thesis by (simp add: remove_at_def take_map drop_map)
qed

end

section \<open>The FNV-1a string hash\<close>

text \<open>
  \<^verbatim>\<open>h ^= (unsigned char)*s; h *= 1099511628211ULL;\<close> from the offset basis, over the bytes of
  the string; each chained table then reduces it modulo its number of buckets.
\<close>

definition fnv1a :: "cstr \<Rightarrow> u64" where
  "fnv1a s = fold (\<lambda>c h. (h XOR ucast c) * 1099511628211) s 1469598103934665603"

section \<open>Words as numbers\<close>

lemma unat_lt: "unat (w :: 'a::len word) < 2 ^ LENGTH('a)"
  by (rule unsigned_less)

lemma unat_add_nowrap: "unat a + unat b < 2 ^ LENGTH('a) \<Longrightarrow> unat (a + b) = unat a + unat (b :: 'a::len word)"
  by (simp add: unat_word_ariths)

lemma unat_mult_nowrap: "unat a * unat b < 2 ^ LENGTH('a) \<Longrightarrow> unat (a * b) = unat a * unat (b :: 'a::len word)"
  by (simp add: unat_word_ariths)

lemma unat_take: "unat (take_bit n x) = unat (x :: 'a::len word) mod 2 ^ n"
  unfolding unsigned_take_bit_eq by (rule take_bit_eq_mod)

lemma unat_drop: "unat (drop_bit n x) = unat (x :: 'a::len word) div 2 ^ n"
  unfolding unsigned_drop_bit_eq drop_bit_eq_div
  by (metis drop_bit_eq_div take_bit_nat_eq_self unsigned_drop_bit_eq unsigned_less unsigned_take_bit_eq)

lemma unat_push: "unat (push_bit n x) = unat (x :: 'a::len word) * 2 ^ n mod 2 ^ LENGTH('a)"
  unfolding unsigned_push_bit_eq by (simp add: take_bit_eq_mod push_bit_eq_mult)

lemma unat_up: "LENGTH('n) \<le> LENGTH('m) \<Longrightarrow> unat (ucast (w :: 'n::len word) :: 'm::len word) = unat w"
  by (simp add: unsigned_ucast_eq take_bit_nat_eq_self less_le_trans [OF unat_lt])

lemma unat_down: "unat (ucast (w :: 'n::len word) :: 'm::len word) = unat w mod 2 ^ LENGTH('m)"
  unfolding unsigned_ucast_eq by (simp add: take_bit_eq_mod)

lemma unat_lt32: "unat (x :: u32) < 2 ^ 32"
  using unat_lt [of x] by simp

section \<open>Masks of power-of-two tables\<close>

lemma and_pow2_mask: "(n::nat) AND (2 ^ k - 1) = n mod 2 ^ k"
  by (metis mask_eq_exp_minus_1 take_bit_eq_mask take_bit_eq_mod)

lemma and_cap_mask: "cap = 2 ^ k \<Longrightarrow> (n::nat) AND (cap - 1) = n mod cap"
  using and_pow2_mask by simp

section \<open>Association lists kept as sorted arrays\<close>

lemma map_of_insert_at:
  assumes "k \<notin> fst ` set xs"
  shows "map_of (insert_at pos (k, v) xs) = (map_of xs)(k \<mapsto> v)"
proof -
  have m: "map_of xs = map_of (take pos xs @ drop pos xs)" by simp
  have "map_of (take pos xs) k = None" using assms by (auto simp: map_of_eq_None_iff dest: in_set_takeD)
  then show ?thesis unfolding insert_at_def m map_of_append
    by (auto simp: fun_eq_iff map_add_def split: option.splits)
qed

lemma map_of_at:
  assumes "distinct (map fst xs)" and "pos < length xs" and "fst (xs ! pos) = k"
  shows "map_of xs k = Some (snd (xs ! pos))" and "map_of (xs[pos := (k, v)]) = (map_of xs)(k \<mapsto> v)"
    and "map_of (remove_at pos xs) = (map_of xs)(k := None)"
proof -
  let ?l = "take pos xs" and ?r = "drop (Suc pos) xs"
  have xs: "xs = ?l @ xs ! pos # ?r" using assms(2) by (rule id_take_nth_drop)
  have "distinct (map fst (?l @ xs ! pos # ?r))" using assms(1) xs by metis
  then have k: "k \<notin> fst ` set ?l" "k \<notin> fst ` set ?r" using assms(3) by auto
  have m: "map_of xs = map_of (?l @ xs ! pos # ?r)" using xs by simp
  obtain u where u: "xs ! pos = (k, u)" using assms(3) by (cases "xs ! pos") auto
  from k have kl: "map_of ?l k = None" "map_of ?r k = None" by (simp_all add: map_of_eq_None_iff)
  show "map_of xs k = Some (snd (xs ! pos))" unfolding m using kl u by (simp add: map_add_def)
  have "xs[pos := (k, v)] = ?l @ (k, v) # ?r" using assms(2) by (rule upd_conv_take_nth_drop)
  then show "map_of (xs[pos := (k, v)]) = (map_of xs)(k \<mapsto> v)"
    unfolding m using kl u by (auto simp: fun_eq_iff map_add_def split: option.splits)
  show "map_of (remove_at pos xs) = (map_of xs)(k := None)"
    unfolding m remove_at_def using kl u by (auto simp: fun_eq_iff map_add_def split: option.splits)
qed

lemma map_of_snoc: "map_of xs k = None \<Longrightarrow> map_of (xs @ [(k, v)]) = (map_of xs)(k \<mapsto> v)"
  by (induction xs) (auto simp: fun_eq_iff split: if_splits)

end
