(* ===== verification/Status.thy ===== *)
theory Status
  imports Aegis_Prelude
begin

text \<open>
  Result codes and memory classes: \<^verbatim>\<open>src/include/aegisdb/errors.h\<close>,
  \<^verbatim>\<open>src/include/aegisdb/types.h\<close> and \<^verbatim>\<open>src/src/util/status.c\<close>.
\<close>

datatype aegis_status_t =
    AEGIS_OK
  | AEGIS_ERR_INVALID_REQUEST
  | AEGIS_ERR_NOT_FOUND
  | AEGIS_ERR_PAYLOAD_TOO_LARGE
  | AEGIS_ERR_IMMUTABLE
  | AEGIS_ERR_NOT_READY
  | AEGIS_ERR_UNAUTHORIZED
  | AEGIS_ERR_FORBIDDEN
  | AEGIS_ERR_QUOTA_EXCEEDED
  | AEGIS_ERR_RATE_LIMITED
  | AEGIS_ERR_READ_ONLY
  | AEGIS_ERR_MEMORY_LIMIT
  | AEGIS_ERR_INTERNAL

datatype MemoryType = MEM_WORKING | MEM_EPISODIC | MEM_SEMANTIC

fun aegis_status_code :: "aegis_status_t \<Rightarrow> string" where
  "aegis_status_code AEGIS_OK = ''OK''"
| "aegis_status_code AEGIS_ERR_INVALID_REQUEST = ''INVALID_REQUEST''"
| "aegis_status_code AEGIS_ERR_NOT_FOUND = ''NOT_FOUND''"
| "aegis_status_code AEGIS_ERR_PAYLOAD_TOO_LARGE = ''PAYLOAD_TOO_LARGE''"
| "aegis_status_code AEGIS_ERR_IMMUTABLE = ''IMMUTABLE''"
| "aegis_status_code AEGIS_ERR_NOT_READY = ''NOT_READY''"
| "aegis_status_code AEGIS_ERR_UNAUTHORIZED = ''UNAUTHORIZED''"
| "aegis_status_code AEGIS_ERR_FORBIDDEN = ''FORBIDDEN''"
| "aegis_status_code AEGIS_ERR_QUOTA_EXCEEDED = ''QUOTA_EXCEEDED''"
| "aegis_status_code AEGIS_ERR_RATE_LIMITED = ''RATE_LIMITED''"
| "aegis_status_code AEGIS_ERR_READ_ONLY = ''READ_ONLY''"
| "aegis_status_code AEGIS_ERR_MEMORY_LIMIT = ''MEMORY_LIMIT''"
| "aegis_status_code AEGIS_ERR_INTERNAL = ''INTERNAL''"

fun aegis_status_message :: "aegis_status_t \<Rightarrow> string" where
  "aegis_status_message AEGIS_OK = ''ok''"
| "aegis_status_message AEGIS_ERR_INVALID_REQUEST = ''malformed or incomplete request''"
| "aegis_status_message AEGIS_ERR_NOT_FOUND = ''memory not found''"
| "aegis_status_message AEGIS_ERR_PAYLOAD_TOO_LARGE = ''payload exceeds configured limit''"
| "aegis_status_message AEGIS_ERR_IMMUTABLE = ''record is immutable''"
| "aegis_status_message AEGIS_ERR_NOT_READY = ''feature not enabled for current phase''"
| "aegis_status_message AEGIS_ERR_UNAUTHORIZED = ''authentication required or invalid token''"
| "aegis_status_message AEGIS_ERR_FORBIDDEN = ''not permitted for this token''"
| "aegis_status_message AEGIS_ERR_QUOTA_EXCEEDED = ''tenant storage quota exceeded''"
| "aegis_status_message AEGIS_ERR_RATE_LIMITED = ''tenant request rate limit exceeded''"
| "aegis_status_message AEGIS_ERR_READ_ONLY = ''server is a read-only replica; write to the primary''"
| "aegis_status_message AEGIS_ERR_MEMORY_LIMIT = ''server index-memory limit reached; free memory or raise --max-index-bytes''"
| "aegis_status_message AEGIS_ERR_INTERNAL = ''internal server error''"

text \<open>The wire type strings; \<open>None\<close> is the return value \<open>-1\<close> of the parser.\<close>

definition memory_type_from_string :: "cstr option \<Rightarrow> MemoryType option" where
  "memory_type_from_string s =
     (case s of
        None \<Rightarrow> None
      | Some s \<Rightarrow>
          if s = lit ''working'' then Some MEM_WORKING
          else if s = lit ''episodic'' then Some MEM_EPISODIC
          else if s = lit ''semantic'' then Some MEM_SEMANTIC
          else None)"

fun memory_type_to_string :: "MemoryType \<Rightarrow> cstr" where
  "memory_type_to_string MEM_WORKING = lit ''working''"
| "memory_type_to_string MEM_EPISODIC = lit ''episodic''"
| "memory_type_to_string MEM_SEMANTIC = lit ''semantic''"

text \<open>The persisted values of the enumeration.\<close>

fun memory_type_code :: "MemoryType \<Rightarrow> u8" where
  "memory_type_code MEM_WORKING = 0"
| "memory_type_code MEM_EPISODIC = 1"
| "memory_type_code MEM_SEMANTIC = 2"

definition memory_type_of_code :: "u8 \<Rightarrow> MemoryType option" where
  "memory_type_of_code c =
     (if c = 0 then Some MEM_WORKING
      else if c = 1 then Some MEM_EPISODIC
      else if c = 2 then Some MEM_SEMANTIC
      else None)"

lemma memory_type_code_inverse [simp]: "memory_type_of_code (memory_type_code t) = Some t"
  by (cases t) (simp_all add: memory_type_of_code_def)

lemma memory_type_of_code_None: "memory_type_of_code c = None \<longleftrightarrow> 2 < c"
proof -
  have "c \<le> 2 \<Longrightarrow> c = 0 \<or> c = 1 \<or> c = 2"
    by unat_arith
  then show ?thesis by (auto simp: memory_type_of_code_def not_le [symmetric])
qed

lemma aegis_status_code_inj: "aegis_status_code a = aegis_status_code b \<Longrightarrow> a = b"
  by (cases a; cases b) simp_all

lemma memory_type_string_roundtrip:
  "memory_type_from_string (Some (memory_type_to_string t)) = Some t"
  by (cases t) (simp_all add: memory_type_from_string_def lit_def)

end
