(* ===== verification/Endian.thy ===== *)
theory Endian
  imports Aegis_Prelude
begin

text \<open>
  The little-endian codec of \<^verbatim>\<open>src/include/aegisdb/endian.h\<close> and the 64-bit mixer of
  \<^verbatim>\<open>src/include/aegisdb/hash_mix.h\<close>. Each \<^verbatim>\<open>put\<close> writes the bytes of its argument from the
  least significant one; each \<^verbatim>\<open>get\<close> shifts the bytes back into place. The lemmas are the
  round trips in both directions.
\<close>

section \<open>Writing\<close>

definition le_put :: "nat \<Rightarrow> 'a::len word \<Rightarrow> bytes" where
  "le_put n v = map (\<lambda>i. ucast (drop_bit (8 * i) v)) [0..<n]"

definition aegis_put_u16le :: "u16 \<Rightarrow> bytes" where
  "aegis_put_u16le v = [ucast v, ucast (drop_bit 8 v)]"

definition aegis_put_u32le :: "u32 \<Rightarrow> bytes" where
  "aegis_put_u32le v = le_put 4 v"

definition aegis_put_u64le :: "u64 \<Rightarrow> bytes" where
  "aegis_put_u64le v = le_put 8 v"

section \<open>Reading\<close>

definition le_get :: "nat \<Rightarrow> bytes \<Rightarrow> 'a::len word" where
  "le_get n b = fold (\<lambda>i v. v OR push_bit (8 * i) (ucast (b ! i))) [0..<n] 0"

definition aegis_get_u16le :: "bytes \<Rightarrow> u16" where
  "aegis_get_u16le b = ucast (b ! 0) OR push_bit 8 (ucast (b ! 1))"

definition aegis_get_u32le :: "bytes \<Rightarrow> u32" where
  "aegis_get_u32le b =
     ucast (b ! 0) OR push_bit 8 (ucast (b ! 1)) OR push_bit 16 (ucast (b ! 2)) OR
     push_bit 24 (ucast (b ! 3))"

definition aegis_get_u64le :: "bytes \<Rightarrow> u64" where
  "aegis_get_u64le b = le_get 8 b"

section \<open>Round trips\<close>

lemma length_le_put [simp]: "length (le_put n v) = n"
  by (simp add: le_put_def)

lemma bit_fold_or:
  "bit (fold (\<lambda>i v. v OR push_bit (8 * i) (f i)) xs (a :: 'a::len word)) k \<longleftrightarrow>
   bit a k \<or> (\<exists>i \<in> set xs. bit (push_bit (8 * i) (f i)) k)"
  by (induction xs arbitrary: a) (auto simp: bit_or_iff)

lemma bit_le_get:
  "bit (le_get n b :: 'a::len word) k \<longleftrightarrow>
   (\<exists>i < n. 8 * i \<le> k \<and> k < LENGTH('a) \<and> bit (b ! i) (k - 8 * i))"
  unfolding le_get_def by (auto simp: bit_fold_or bit_simps)

lemma le_get_put:
  assumes "LENGTH('a::len) = 8 * n"
  shows "le_get n (le_put n v @ rest) = (v :: 'a word)"
proof (rule bit_word_eqI)
  fix k assume k: "k < LENGTH('a)"
  have "k div 8 < n" "8 * (k div 8) \<le> k" "k - 8 * (k div 8) < 8"
    using k assms by auto
  then show "bit (le_get n (le_put n v @ rest) :: 'a word) k = bit v k"
    by (auto simp: bit_le_get le_put_def nth_append bit_simps k intro!: exI [of _ "k div 8"])
qed

lemma le_put_get:
  assumes "LENGTH('a::len) = 8 * n" and "length b = n"
  shows "le_put n (le_get n b :: 'a word) = b"
proof (rule nth_equalityI)
  show "length (le_put n (le_get n b :: 'a word)) = length b" using assms by simp
next
  fix i assume "i < length (le_put n (le_get n b :: 'a word))"
  then have i: "i < n" by simp
  have "ucast (drop_bit (8 * i) (le_get n b :: 'a word)) = b ! i"
  proof (rule bit_word_eqI)
    fix k assume k: "k < LENGTH(8)"
    have "(\<exists>j < n. 8 * j \<le> 8 * i + k \<and> 8 * i + k < LENGTH('a) \<and> bit (b ! j) (8 * i + k - 8 * j)) \<longleftrightarrow>
      bit (b ! i) k"
    proof
      assume "\<exists>j < n. 8 * j \<le> 8 * i + k \<and> 8 * i + k < LENGTH('a) \<and> bit (b ! j) (8 * i + k - 8 * j)"
      then obtain j where j: "8 * j \<le> 8 * i + k" "bit (b ! j) (8 * i + k - 8 * j)" by blast
      then have "8 * i + k - 8 * j < 8"
        using bit_imp_le_length [of "b ! j"] by simp
      with j(1) k have "j = i" by simp
      with j show "bit (b ! i) k" by simp
    next
      assume "bit (b ! i) k"
      then show "\<exists>j < n. 8 * j \<le> 8 * i + k \<and> 8 * i + k < LENGTH('a) \<and> bit (b ! j) (8 * i + k - 8 * j)"
        using i k assms(1) by (intro exI [of _ i]) simp
    qed
    then show "bit (ucast (drop_bit (8 * i) (le_get n b :: 'a word)) :: u8) k = bit (b ! i) k"
      using k by (simp add: bit_simps bit_le_get)
  qed
  with i show "le_put n (le_get n b :: 'a word) ! i = b ! i" by (simp add: le_put_def)
qed

lemma put_u16le_alt: "aegis_put_u16le v = le_put 2 v"
  by (simp add: aegis_put_u16le_def le_put_def numeral_eq_Suc)

lemma get_u16le_alt: "aegis_get_u16le b = le_get 2 b"
  by (simp add: aegis_get_u16le_def le_get_def numeral_eq_Suc)

lemma get_u32le_alt: "aegis_get_u32le b = le_get 4 b"
  by (simp add: aegis_get_u32le_def le_get_def upt_rec or.assoc numeral_2_eq_2 numeral_3_eq_3)

lemmas le_alts = put_u16le_alt aegis_put_u32le_def aegis_put_u64le_def
  get_u16le_alt get_u32le_alt aegis_get_u64le_def

lemma length_put_u16le [simp]: "length (aegis_put_u16le v) = 2"
  and length_put_u32le [simp]: "length (aegis_put_u32le w) = 4"
  and length_put_u64le [simp]: "length (aegis_put_u64le x) = 8"
  by (simp_all add: le_alts)

lemma get_put_u16le [simp]: "aegis_get_u16le (aegis_put_u16le v @ rest) = v"
  and get_put_u32le [simp]: "aegis_get_u32le (aegis_put_u32le w @ rest) = w"
  and get_put_u64le [simp]: "aegis_get_u64le (aegis_put_u64le x @ rest) = x"
  unfolding le_alts by (rule le_get_put; simp)+

lemma get_put_u16le' [simp]: "aegis_get_u16le (aegis_put_u16le v) = v"
  and get_put_u32le' [simp]: "aegis_get_u32le (aegis_put_u32le w) = w"
  and get_put_u64le' [simp]: "aegis_get_u64le (aegis_put_u64le x) = x"
  using get_put_u16le [of v "[]"] get_put_u32le [of w "[]"] get_put_u64le [of x "[]"] by simp_all

lemma put_get_u16le: "length b = 2 \<Longrightarrow> aegis_put_u16le (aegis_get_u16le b) = b"
  and put_get_u32le: "length b = 4 \<Longrightarrow> aegis_put_u32le (aegis_get_u32le b) = b"
  and put_get_u64le: "length b = 8 \<Longrightarrow> aegis_put_u64le (aegis_get_u64le b) = b"
  unfolding le_alts by (rule le_put_get; simp)+

lemma le_get_take: "n \<le> m \<Longrightarrow> le_get n (take m b) = le_get n b"
  by (rule bit_eqI) (auto simp: bit_le_get)

lemma get_u32le_take [simp]: "4 \<le> m \<Longrightarrow> aegis_get_u32le (take m b) = aegis_get_u32le b"
  by (simp add: le_alts le_get_take)

lemma get_u64le_take [simp]: "8 \<le> m \<Longrightarrow> aegis_get_u64le (take m b) = aegis_get_u64le b"
  by (simp add: le_alts le_get_take)

section \<open>The 64-bit mixer\<close>

definition mix64 :: "u64 \<Rightarrow> u64" where
  "mix64 x0 =
     (let x1 = x0 XOR drop_bit 33 x0;
          x2 = x1 * 0xff51afd7ed558ccd;
          x3 = x2 XOR drop_bit 33 x2;
          x4 = x3 * 0xc4ceb9fe1a85ec53
      in x4 XOR drop_bit 33 x4)"

text \<open>
  The mixer is injective: a shift by at least half the width is undone by applying it again,
  and both multipliers are odd, with the inverses below. So two ids share a home slot only
  because of the mask, never because their hashes coincide.
\<close>

lemma xorshift33_inv: "(x XOR drop_bit 33 x) XOR drop_bit 33 (x XOR drop_bit 33 x) = (x :: u64)"
  by (rule bit_word_eqI) (auto simp: bit_simps)

lemma mix64_inj: "mix64 x = mix64 y \<Longrightarrow> x = y"
proof -
  have xs: "a = b" if "a XOR drop_bit 33 a = b XOR drop_bit 33 b" for a b :: u64
    using that xorshift33_inv [of a] xorshift33_inv [of b] by simp
  have i1: "(0xff51afd7ed558ccd :: u64) * 5725274745694666757 = 1" by simp
  have i2: "(0xc4ceb9fe1a85ec53 :: u64) * 11291846944257947611 = 1" by simp
  have m1: "a = b" if "a * 0xff51afd7ed558ccd = b * (0xff51afd7ed558ccd :: u64)" for a b
  proof -
    have "a * 0xff51afd7ed558ccd * 5725274745694666757 = b * 0xff51afd7ed558ccd * 5725274745694666757"
      using that by (rule arg_cong)
    then show ?thesis unfolding mult.assoc i1 by (simp only: mult_1_right)
  qed
  have m2: "a = b" if "a * 0xc4ceb9fe1a85ec53 = b * (0xc4ceb9fe1a85ec53 :: u64)" for a b
  proof -
    have "a * 0xc4ceb9fe1a85ec53 * 11291846944257947611 = b * 0xc4ceb9fe1a85ec53 * 11291846944257947611"
      using that by (rule arg_cong)
    then show ?thesis unfolding mult.assoc i2 by (simp only: mult_1_right)
  qed
  assume "mix64 x = mix64 y"
  then show ?thesis
    unfolding mix64_def Let_def by (rule xs [OF m1, OF xs, OF m2, OF xs])
qed

end
