(* ===== verification/Open_Addressing.thy ===== *)
theory Open_Addressing
  imports Endian
begin

text \<open>
  Linear probing over power-of-two tables. The id-keyed tables of the program (the primary
  hash index, the edge index's targets, the fact index's subject and object tables, the usage
  index) run the same three loops over an array of slots that are empty, live or dead: a bounded
  search, a bounded search for a slot to claim that remembers the first tombstone, and an
  unbounded walk to a free slot while rehashing. The loops are written once, over the state of a
  slot and the test the component makes; each component's own functions call them with its
  record fields.

  The locale \<open>probe_table\<close> is the contract between a slot type and these loops. Inside it the
  loops are shown to implement a finite map: the search finds exactly the live keys, claiming,
  overwriting and killing a slot update one key, and rehashing keeps the map. The walk of the
  rehash is a partial function; that it returns is part of what is shown.
\<close>

section \<open>The loops\<close>

datatype slot_state = SLOT_EMPTY | SLOT_LIVE | SLOT_DEAD

fun probe_find :: "('s \<Rightarrow> slot_state) \<Rightarrow> ('s \<Rightarrow> bool) \<Rightarrow> 's list \<Rightarrow> nat \<Rightarrow> nat \<Rightarrow> nat \<Rightarrow> nat option" where
  "probe_find st hit sl i probe 0 = None"
| "probe_find st hit sl i probe (Suc n) =
     (let j = (i + probe) AND (length sl - 1)
      in if st (sl ! j) = SLOT_EMPTY then None
         else if st (sl ! j) = SLOT_LIVE \<and> hit (sl ! j) then Some j
         else probe_find st hit sl i (Suc probe) n)"

text \<open>\<open>Inl j\<close>: the key is already at \<open>j\<close>; \<open>Inr j\<close>: claim the free slot \<open>j\<close>; \<open>None\<close>: table full.\<close>

fun probe_claim ::
  "('s \<Rightarrow> slot_state) \<Rightarrow> ('s \<Rightarrow> bool) \<Rightarrow> 's list \<Rightarrow> nat \<Rightarrow> nat \<Rightarrow> nat option \<Rightarrow> nat \<Rightarrow> (nat + nat) option" where
  "probe_claim st hit sl i probe reuse 0 = None"
| "probe_claim st hit sl i probe reuse (Suc n) =
     (let j = (i + probe) AND (length sl - 1)
      in case st (sl ! j) of
           SLOT_LIVE \<Rightarrow>
             if hit (sl ! j) then Some (Inl j)
             else probe_claim st hit sl i (Suc probe) reuse n
         | SLOT_DEAD \<Rightarrow>
             probe_claim st hit sl i (Suc probe)
               (case reuse of None \<Rightarrow> Some j | Some r \<Rightarrow> Some r) n
         | SLOT_EMPTY \<Rightarrow> Some (Inr (case reuse of None \<Rightarrow> j | Some r \<Rightarrow> r)))"

partial_function (option) probe_until :: "('s \<Rightarrow> bool) \<Rightarrow> 's list \<Rightarrow> nat \<Rightarrow> nat option" where
  "probe_until stop sl j =
     (if stop (sl ! j) then Some j
      else probe_until stop sl ((j + 1) AND (length sl - 1)))"

fun rehash_into ::
  "('s \<Rightarrow> slot_state) \<Rightarrow> ('s \<Rightarrow> 's \<Rightarrow> bool) \<Rightarrow> ('s \<Rightarrow> u64) \<Rightarrow> 's list \<Rightarrow> 's list \<Rightarrow> 's list option" where
  "rehash_into st stop h [] nt = Some nt"
| "rehash_into st stop h (s # ss) nt =
     (if st s \<noteq> SLOT_LIVE then rehash_into st stop h ss nt
      else case probe_until (stop s) nt (unat (h s) AND (length nt - 1)) of
             None \<Rightarrow> None
           | Some j \<Rightarrow> rehash_into st stop h ss (nt[j := s]))"

section \<open>Invariant and abstraction\<close>

definition slot_map :: "('s \<Rightarrow> slot_state) \<Rightarrow> ('s \<Rightarrow> 'k) \<Rightarrow> 's list \<Rightarrow> 'k \<rightharpoonup> 's" where
  "slot_map st key sl = map_of (map (\<lambda>s. (key s, s)) (filter (\<lambda>s. st s = SLOT_LIVE) sl))"

definition reach :: "('s \<Rightarrow> slot_state) \<Rightarrow> 's list \<Rightarrow> u64 \<Rightarrow> nat \<Rightarrow> bool" where
  "reach st sl h j \<longleftrightarrow>
     (\<exists>p < length sl. (unat h + p) mod length sl = j \<and>
        (\<forall>q < p. st (sl ! ((unat h + q) mod length sl)) \<noteq> SLOT_EMPTY))"

definition probe_ok :: "('s \<Rightarrow> slot_state) \<Rightarrow> ('s \<Rightarrow> 'k) \<Rightarrow> ('k \<Rightarrow> u64) \<Rightarrow> 's list \<Rightarrow> bool" where
  "probe_ok st key hash sl \<longleftrightarrow>
     (\<exists>m. length sl = 2 ^ m) \<and>
     (\<forall>j < length sl. st (sl ! j) = SLOT_LIVE \<longrightarrow> reach st sl (hash (key (sl ! j))) j) \<and>
     (\<forall>i < length sl. \<forall>j < length sl. st (sl ! i) = SLOT_LIVE \<and> st (sl ! j) = SLOT_LIVE \<and>
        key (sl ! i) = key (sl ! j) \<longrightarrow> i = j)"

definition count_state :: "('s \<Rightarrow> slot_state) \<Rightarrow> slot_state \<Rightarrow> 's list \<Rightarrow> nat" where
  "count_state st x sl = length (filter (\<lambda>s. st s = x) sl)"

lemma count_state_total:
  "count_state st SLOT_EMPTY sl + count_state st SLOT_LIVE sl + count_state st SLOT_DEAD sl = length sl"
proof (induction sl)
  case (Cons a sl)
  then show ?case by (cases "st a") (auto simp: count_state_def)
qed (simp add: count_state_def)

lemma count_state_update:
  assumes "j < length sl"
  shows "count_state st x (sl[j := s]) + (if st (sl ! j) = x then 1 else 0) =
    count_state st x sl + (if st s = x then 1 else 0)"
proof -
  have "sl = take j sl @ sl ! j # drop (Suc j) sl" using assms by (rule id_take_nth_drop)
  then have "count_state st x sl = count_state st x (take j sl @ sl ! j # drop (Suc j) sl)" by simp
  moreover have "sl[j := s] = take j sl @ s # drop (Suc j) sl"
    using assms by (rule upd_conv_take_nth_drop)
  ultimately show ?thesis by (simp add: count_state_def)
qed

lemma ex_state_of_count: "0 < count_state st x sl \<Longrightarrow> \<exists>e < length sl. st (sl ! e) = x"
  by (auto simp: count_state_def filter_empty_conv in_set_conv_nth)

lemma probe_okD:
  assumes "probe_ok st key hash sl"
  shows probe_ok_pow2: "\<exists>m. length sl = 2 ^ m"
    and probe_ok_reach: "j < length sl \<Longrightarrow> st (sl ! j) = SLOT_LIVE \<Longrightarrow> reach st sl (hash (key (sl ! j))) j"
    and probe_ok_uniq: "i < length sl \<Longrightarrow> j < length sl \<Longrightarrow> st (sl ! i) = SLOT_LIVE \<Longrightarrow>
      st (sl ! j) = SLOT_LIVE \<Longrightarrow> key (sl ! i) = key (sl ! j) \<Longrightarrow> i = j"
  using assms by (auto simp: probe_ok_def)

lemma reach_mono:
  assumes "reach st sl h j" and "length sl' = length sl"
    and "\<And>i. i < length sl \<Longrightarrow> st (sl ! i) \<noteq> SLOT_EMPTY \<Longrightarrow> st (sl' ! i) \<noteq> SLOT_EMPTY"
  shows "reach st sl' h j"
proof -
  obtain p where p: "p < length sl" "(unat h + p) mod length sl = j"
    "\<And>q. q < p \<Longrightarrow> st (sl ! ((unat h + q) mod length sl)) \<noteq> SLOT_EMPTY"
    using assms(1) by (auto simp: reach_def)
  have "st (sl' ! ((unat h + q) mod length sl)) \<noteq> SLOT_EMPTY" if "q < p" for q
    using p(1) by (intro assms(3) p(3) that mod_less_divisor) linarith
  with p(1,2) assms(2) show ?thesis by (auto simp: reach_def)
qed

lemma slot_map_iff:
  assumes "probe_ok st key hash sl"
  shows "slot_map st key sl k = Some s \<longleftrightarrow>
    (\<exists>j < length sl. sl ! j = s \<and> st s = SLOT_LIVE \<and> key s = k)"
proof
  assume "slot_map st key sl k = Some s"
  then have "(k, s) \<in> set (map (\<lambda>s. (key s, s)) (filter (\<lambda>s. st s = SLOT_LIVE) sl))"
    unfolding slot_map_def by (rule map_of_SomeD)
  then show "\<exists>j < length sl. sl ! j = s \<and> st s = SLOT_LIVE \<and> key s = k"
    by (auto simp: in_set_conv_nth)
next
  assume "\<exists>j < length sl. sl ! j = s \<and> st s = SLOT_LIVE \<and> key s = k"
  then obtain j where j: "j < length sl" "sl ! j = s" "st s = SLOT_LIVE" "key s = k" by blast
  then have "(k, s) \<in> set (map (\<lambda>s. (key s, s)) (filter (\<lambda>s. st s = SLOT_LIVE) sl))"
    by (force simp: in_set_conv_nth)
  then obtain t where t: "slot_map st key sl k = Some t"
    unfolding slot_map_def by (metis weak_map_of_SomeI)
  then have "(k, t) \<in> set (map (\<lambda>s. (key s, s)) (filter (\<lambda>s. st s = SLOT_LIVE) sl))"
    unfolding slot_map_def by (rule map_of_SomeD)
  then obtain i where "i < length sl" "sl ! i = t" "st t = SLOT_LIVE" "key t = k"
    by (auto simp: in_set_conv_nth)
  with j probe_ok_uniq [OF assms, of i j] have "t = s" by auto
  with t show "slot_map st key sl k = Some s" by simp
qed

lemma slot_map_None:
  "slot_map st key sl k = None \<longleftrightarrow> (\<forall>j < length sl. st (sl ! j) = SLOT_LIVE \<longrightarrow> key (sl ! j) \<noteq> k)"
  unfolding slot_map_def map_of_eq_None_iff by (force simp: in_set_conv_nth)

lemma dom_slot_map: "dom (slot_map st key sl) = key ` {s \<in> set sl. st s = SLOT_LIVE}"
  unfolding slot_map_def by (auto simp: dom_map_of_conv_image_fst image_iff)

section \<open>The walks, position by position\<close>

lemma probe_pos:
  assumes "length sl = 2 ^ m"
  shows "((unat (h :: u64) AND (length sl - 1)) + p) AND (length sl - 1) = (unat h + p) mod length sl"
  by (simp only: and_cap_mask [OF assms] mod_add_left_eq)

lemma cyc_offset:
  assumes "e < n"
  shows "\<exists>t < n. ((h :: nat) + t) mod n = e"
proof -
  define t where "t = (e + (n - h mod n)) mod n"
  have lt: "h mod n < n" using assms by simp
  have "(h + t) mod n = (h mod n + (e + (n - h mod n))) mod n"
    unfolding t_def by (simp add: mod_simps)
  also have "h mod n + (e + (n - h mod n)) = e + n" using lt by linarith
  finally have "(h + t) mod n = e" using assms by simp
  moreover have "t < n" using assms by (simp add: t_def)
  ultimately show ?thesis by blast
qed

lemma probe_find_sound:
  "probe_find st P sl i p n = Some j \<Longrightarrow>
   (\<exists>q < p + n. j = (i + q) AND (length sl - 1)) \<and> st (sl ! j) = SLOT_LIVE \<and> P (sl ! j)"
proof (induction n arbitrary: p)
  case (Suc n)
  show ?case
  proof (cases "probe_find st P sl i (Suc p) n = Some j")
    case True
    from Suc.IH [OF this] show ?thesis by auto
  next
    case False
    with Suc.prems show ?thesis by (auto simp: Let_def split: if_splits intro!: exI [of _ p])
  qed
qed simp

lemma probe_find_complete:
  "p \<le> t \<Longrightarrow> t < p + n \<Longrightarrow>
   (\<And>q. p \<le> q \<Longrightarrow> q < t \<Longrightarrow> st (sl ! ((i + q) AND (length sl - 1))) \<noteq> SLOT_EMPTY) \<Longrightarrow>
   st (sl ! ((i + t) AND (length sl - 1))) = SLOT_LIVE \<Longrightarrow> P (sl ! ((i + t) AND (length sl - 1))) \<Longrightarrow>
   probe_find st P sl i p n \<noteq> None"
proof (induction n arbitrary: p)
  case (Suc n)
  show ?case
  proof (cases "p = t")
    case True
    with Suc.prems(4,5) show ?thesis by (simp add: Let_def)
  next
    case False
    then have "probe_find st P sl i (Suc p) n \<noteq> None"
      using Suc.prems by (intro Suc.IH) auto
    moreover have "st (sl ! ((i + p) AND (length sl - 1))) \<noteq> SLOT_EMPTY"
      using Suc.prems(1,3) False by simp
    ultimately show ?thesis by (simp add: Let_def)
  qed
qed simp

lemma probe_claim_Inl:
  "probe_claim st P sl i p r n = Some (Inl j) \<Longrightarrow>
   (\<exists>q < p + n. j = (i + q) AND (length sl - 1)) \<and> st (sl ! j) = SLOT_LIVE \<and> P (sl ! j)"
proof (induction n arbitrary: p r)
  case (Suc n)
  let ?j = "(i + p) AND (length sl - 1)"
  show ?case
  proof (cases "j = ?j \<and> st (sl ! j) = SLOT_LIVE \<and> P (sl ! j)")
    case True
    then show ?thesis by (auto intro!: exI [of _ p])
  next
    case False
    with Suc.prems have "\<exists>r'. probe_claim st P sl i (Suc p) r' n = Some (Inl j)"
      by (auto simp: Let_def split: slot_state.splits if_splits)
    with Suc.IH show ?thesis by fastforce
  qed
qed simp

lemma probe_claim_Inr:
  assumes "probe_claim st P sl i p r n = Some (Inr j)"
    and "\<And>q. q < p \<Longrightarrow> st (sl ! ((i + q) AND (length sl - 1))) \<noteq> SLOT_EMPTY"
    and "\<And>d. r = Some d \<Longrightarrow> \<exists>q < p. d = (i + q) AND (length sl - 1) \<and> st (sl ! d) = SLOT_DEAD"
  shows "(\<exists>t < p + n. j = (i + t) AND (length sl - 1) \<and> st (sl ! j) \<noteq> SLOT_LIVE \<and>
      (\<forall>q < t. st (sl ! ((i + q) AND (length sl - 1))) \<noteq> SLOT_EMPTY)) \<and>
    (\<exists>t < p + n. p \<le> t \<and> st (sl ! ((i + t) AND (length sl - 1))) = SLOT_EMPTY \<and>
      (\<forall>q. p \<le> q \<and> q < t \<longrightarrow> \<not> (st (sl ! ((i + q) AND (length sl - 1))) = SLOT_LIVE \<and>
        P (sl ! ((i + q) AND (length sl - 1))))))"
  using assms
proof (induction n arbitrary: p r)
  case (Suc n)
  let ?j = "\<lambda>q. (i + q) AND (length sl - 1)"
  have step: "(\<exists>t < p + Suc n. j = ?j t \<and> st (sl ! j) \<noteq> SLOT_LIVE \<and> (\<forall>q < t. st (sl ! ?j q) \<noteq> SLOT_EMPTY)) \<and>
    (\<exists>t < p + Suc n. p \<le> t \<and> st (sl ! ?j t) = SLOT_EMPTY \<and>
      (\<forall>q. p \<le> q \<and> q < t \<longrightarrow> \<not> (st (sl ! ?j q) = SLOT_LIVE \<and> P (sl ! ?j q))))"
    if "(\<exists>t < Suc p + n. j = ?j t \<and> st (sl ! j) \<noteq> SLOT_LIVE \<and> (\<forall>q < t. st (sl ! ?j q) \<noteq> SLOT_EMPTY)) \<and>
      (\<exists>t < Suc p + n. Suc p \<le> t \<and> st (sl ! ?j t) = SLOT_EMPTY \<and>
        (\<forall>q. Suc p \<le> q \<and> q < t \<longrightarrow> \<not> (st (sl ! ?j q) = SLOT_LIVE \<and> P (sl ! ?j q))))"
      and "\<not> (st (sl ! ?j p) = SLOT_LIVE \<and> P (sl ! ?j p))"
  proof -
    from that(1) obtain t where t: "t < p + Suc n" "p \<le> t" "st (sl ! ?j t) = SLOT_EMPTY"
      and nh: "\<And>q. Suc p \<le> q \<Longrightarrow> q < t \<Longrightarrow> \<not> (st (sl ! ?j q) = SLOT_LIVE \<and> P (sl ! ?j q))"
      by auto
    have "\<not> (st (sl ! ?j q) = SLOT_LIVE \<and> P (sl ! ?j q))" if "p \<le> q \<and> q < t" for q
      using that nh [of q] \<open>\<not> (st (sl ! ?j p) = SLOT_LIVE \<and> P (sl ! ?j p))\<close> by (cases "q = p") auto
    with t have "\<exists>t < p + Suc n. p \<le> t \<and> st (sl ! ?j t) = SLOT_EMPTY \<and>
      (\<forall>q. p \<le> q \<and> q < t \<longrightarrow> \<not> (st (sl ! ?j q) = SLOT_LIVE \<and> P (sl ! ?j q)))" by blast
    with that(1) show ?thesis by simp
  qed
  show ?case
  proof (cases "st (sl ! ?j p)")
    case SLOT_EMPTY
    have "\<exists>t < p + Suc n. j = ?j t \<and> st (sl ! j) \<noteq> SLOT_LIVE \<and> (\<forall>q < t. st (sl ! ?j q) \<noteq> SLOT_EMPTY)"
    proof (cases r)
      case None
      with SLOT_EMPTY Suc.prems(1) have "j = ?j p" by simp
      with SLOT_EMPTY Suc.prems(2) show ?thesis by (intro exI [of _ p]) auto
    next
      case (Some d)
      with SLOT_EMPTY Suc.prems(1) have "j = d" by simp
      with Suc.prems(3) [OF Some] obtain q where "q < p" "j = ?j q" "st (sl ! j) = SLOT_DEAD" by blast
      with Suc.prems(2) show ?thesis by (intro exI [of _ q]) auto
    qed
    moreover have "\<exists>t < p + Suc n. p \<le> t \<and> st (sl ! ?j t) = SLOT_EMPTY \<and>
        (\<forall>q. p \<le> q \<and> q < t \<longrightarrow> \<not> (st (sl ! ?j q) = SLOT_LIVE \<and> P (sl ! ?j q)))"
      using SLOT_EMPTY by (intro exI [of _ p]) auto
    ultimately show ?thesis by blast
  next
    case SLOT_LIVE
    with Suc.prems(1) have np: "\<not> P (sl ! ?j p)"
      and rec: "probe_claim st P sl i (Suc p) r n = Some (Inr j)"
      by (auto simp: Let_def split: if_splits)
    have ne: "st (sl ! ?j q) \<noteq> SLOT_EMPTY" if "q < Suc p" for q
      using that SLOT_LIVE Suc.prems(2) by (cases "q = p") auto
    have rs: "\<exists>q < Suc p. d = ?j q \<and> st (sl ! d) = SLOT_DEAD" if "r = Some d" for d
      using Suc.prems(3) [OF that] by (auto intro: less_SucI)
    have "\<not> (st (sl ! ?j p) = SLOT_LIVE \<and> P (sl ! ?j p))" using np by simp
    with Suc.IH [OF rec ne rs] show ?thesis by (rule step)
  next
    case SLOT_DEAD
    define r' where "r' = (case r of None \<Rightarrow> Some (?j p) | Some d \<Rightarrow> Some d)"
    from SLOT_DEAD Suc.prems(1) have rec: "probe_claim st P sl i (Suc p) r' n = Some (Inr j)"
      by (cases r) (simp_all add: Let_def r'_def)
    have r': "\<exists>q < Suc p. d = ?j q \<and> st (sl ! d) = SLOT_DEAD" if "r' = Some d" for d
      using that Suc.prems(3) SLOT_DEAD by (cases r) (auto simp: r'_def intro: less_SucI)
    have ne: "st (sl ! ?j q) \<noteq> SLOT_EMPTY" if "q < Suc p" for q
      using that SLOT_DEAD Suc.prems(2) by (cases "q = p") auto
    have "\<not> (st (sl ! ?j p) = SLOT_LIVE \<and> P (sl ! ?j p))" using SLOT_DEAD by simp
    with Suc.IH [OF rec ne r'] show ?thesis by (rule step)
  qed
qed simp

lemma probe_claim_total:
  "p \<le> t \<Longrightarrow> t < p + n \<Longrightarrow> st (sl ! ((i + t) AND (length sl - 1))) = SLOT_EMPTY \<Longrightarrow>
   probe_claim st P sl i p r n \<noteq> None"
proof (induction n arbitrary: p r)
  case (Suc n)
  show ?case
  proof (cases "p = t")
    case True
    with Suc.prems(3) show ?thesis by (simp add: Let_def)
  next
    case False
    then have "probe_claim st P sl i (Suc p) r' n \<noteq> None" for r'
      using Suc.prems by (intro Suc.IH) auto
    then show ?thesis by (auto simp: Let_def split: slot_state.splits)
  qed
qed simp

lemma probe_until_least:
  assumes "length sl = 2 ^ m" and "i < length sl"
    and "stop (sl ! ((i + t) mod length sl))"
    and "\<And>q. q < t \<Longrightarrow> \<not> stop (sl ! ((i + q) mod length sl))"
  shows "probe_until stop sl i = Some ((i + t) mod length sl)"
  using assms(2-)
proof (induction t arbitrary: i)
  case 0
  then show ?case by (simp add: probe_until.simps)
next
  case (Suc t)
  have pos: "0 < length sl" using Suc.prems(1) by linarith
  have ns: "\<not> stop (sl ! i)" using Suc.prems(1) Suc.prems(3) [of 0] by simp
  let ?i = "(i + 1) mod length sl"
  have sh: "(?i + q) mod length sl = (i + Suc q) mod length sl" for q
    by (simp add: mod_add_left_eq)
  have "probe_until stop sl ?i = Some ((?i + t) mod length sl)"
  proof (rule Suc.IH)
    show "stop (sl ! ((?i + t) mod length sl))" unfolding sh by (rule Suc.prems(2))
    show "\<not> stop (sl ! ((?i + q) mod length sl))" if "q < t" for q
      unfolding sh by (rule Suc.prems(3)) (use that in simp)
  qed (use pos in simp)
  then show ?case
    using ns sh by (subst probe_until.simps) (simp add: and_cap_mask [OF assms(1), unfolded One_nat_def])
qed

section \<open>The contract of a slot type\<close>

locale probe_table =
  fixes st :: "'s \<Rightarrow> slot_state"
    and key :: "'s \<Rightarrow> 'k"
    and hash :: "'k \<Rightarrow> u64"
    and hit :: "'k \<Rightarrow> 's \<Rightarrow> bool"
    and stop :: "'s \<Rightarrow> 's \<Rightarrow> bool"
    and blank :: 's
  assumes hit_iff: "st s = SLOT_LIVE \<Longrightarrow> hit k s \<longleftrightarrow> key s = k"
    and stop_free: "st t \<noteq> SLOT_LIVE \<Longrightarrow> stop s t"
    and stop_live: "st t = SLOT_LIVE \<Longrightarrow> stop s t \<Longrightarrow> key t = key s"
    and blank_empty: "st blank = SLOT_EMPTY"
begin

abbreviation ok :: "'s list \<Rightarrow> bool" where
  "ok sl \<equiv> probe_ok st key hash sl"

abbreviation tmap :: "'s list \<Rightarrow> 'k \<rightharpoonup> 's" where
  "tmap sl \<equiv> slot_map st key sl"

abbreviation start :: "'k \<Rightarrow> 's list \<Rightarrow> nat" where
  "start k sl \<equiv> unat (hash k) AND (length sl - 1)"

lemma find_iff:
  assumes "ok sl"
  shows "probe_find st (hit k) sl (start k sl) 0 (length sl) = Some j \<longleftrightarrow>
    j < length sl \<and> st (sl ! j) = SLOT_LIVE \<and> key (sl ! j) = k"
proof -
  obtain m where m: "length sl = 2 ^ m" using probe_ok_pow2 [OF assms] by blast
  then have pos: "0 < length sl" by simp
  note at = probe_pos [OF m] probe_pos [OF m, unfolded One_nat_def]
  have sound: "i < length sl \<and> st (sl ! i) = SLOT_LIVE \<and> key (sl ! i) = k"
    if "probe_find st (hit k) sl (start k sl) 0 (length sl) = Some i" for i
    using probe_find_sound [OF that] pos by (auto simp: at hit_iff)
  show ?thesis
  proof
    assume j: "j < length sl \<and> st (sl ! j) = SLOT_LIVE \<and> key (sl ! j) = k"
    then obtain p where "p < length sl" "(unat (hash k) + p) mod length sl = j"
      "\<forall>q < p. st (sl ! ((unat (hash k) + q) mod length sl)) \<noteq> SLOT_EMPTY"
      using probe_ok_reach [OF assms, of j] by (auto simp: reach_def)
    with j have "probe_find st (hit k) sl (start k sl) 0 (length sl) \<noteq> None"
      by (intro probe_find_complete [where t = p]) (auto simp: at hit_iff)
    then obtain i where "probe_find st (hit k) sl (start k sl) 0 (length sl) = Some i" by blast
    with sound [OF this] j probe_ok_uniq [OF assms, of i j]
    show "probe_find st (hit k) sl (start k sl) 0 (length sl) = Some j" by auto
  qed (rule sound)
qed

lemma find_map:
  assumes "ok sl"
  shows "map_option (\<lambda>j. sl ! j) (probe_find st (hit k) sl (start k sl) 0 (length sl)) = tmap sl k"
proof (cases "probe_find st (hit k) sl (start k sl) 0 (length sl)")
  case None
  then have "tmap sl k = None"
    using find_iff [OF assms, of k] by (auto simp: slot_map_None)
  with None show ?thesis by simp
next
  case (Some j)
  then have "tmap sl k = Some (sl ! j)"
    using find_iff [OF assms, of k j] by (auto simp: slot_map_iff [OF assms])
  with Some show ?thesis by simp
qed

lemma map_update:
  assumes "ok sl" and "ok (sl[j := s])" and "j < length sl"
    and "st s = SLOT_LIVE" and "st (sl ! j) = SLOT_LIVE \<Longrightarrow> key (sl ! j) = key s"
  shows "tmap (sl[j := s]) = (tmap sl)(key s \<mapsto> s)"
proof
  fix k
  show "tmap (sl[j := s]) k = ((tmap sl)(key s \<mapsto> s)) k"
  proof (cases "k = key s")
    case True
    with assms(3,4) have "tmap (sl[j := s]) k = Some s"
      unfolding slot_map_iff [OF assms(2)] by (intro exI [of _ j]) simp
    with True show ?thesis by simp
  next
    case False
    have "i < length (sl[j := s]) \<and> sl[j := s] ! i = t \<and> st t = SLOT_LIVE \<and> key t = k \<longleftrightarrow>
        i < length sl \<and> sl ! i = t \<and> st t = SLOT_LIVE \<and> key t = k" for i t
      using False assms(3,5) by (cases "i = j") auto
    then have "tmap (sl[j := s]) k = Some t \<longleftrightarrow> tmap sl k = Some t" for t
      unfolding slot_map_iff [OF assms(1)] slot_map_iff [OF assms(2)] by presburger
    then have "tmap (sl[j := s]) k = tmap sl k" by (metis not_None_eq)
    with False show ?thesis by simp
  qed
qed

lemma overwrite:
  assumes "ok sl" and "j < length sl" and "st (sl ! j) = SLOT_LIVE"
    and "st s = SLOT_LIVE" and "key s = key (sl ! j)"
  shows "ok (sl[j := s])" and "tmap (sl[j := s]) = (tmap sl)(key s \<mapsto> s)"
proof -
  have nth: "st (sl[j := s] ! i) = st (sl ! i) \<and> key (sl[j := s] ! i) = key (sl ! i)" for i
    using assms by (cases "i = j") simp_all
  have "reach st (sl[j := s]) h i" if "reach st sl h i" for h i
    using that by (rule reach_mono) (simp_all add: nth)
  with assms(1) show ok: "ok (sl[j := s])"
    unfolding probe_ok_def by (simp add: nth)
  show "tmap (sl[j := s]) = (tmap sl)(key s \<mapsto> s)"
    using assms by (intro map_update ok) auto
qed

lemma place:
  assumes "ok sl" and "tmap sl (key s) = None" and "st s = SLOT_LIVE"
    and "j < length sl" and "st (sl ! j) \<noteq> SLOT_LIVE" and "reach st sl (hash (key s)) j"
  shows "ok (sl[j := s])" and "tmap (sl[j := s]) = (tmap sl)(key s \<mapsto> s)"
proof -
  have rm: "reach st (sl[j := s]) h i" if "reach st sl h i" for h i
    using that by (rule reach_mono) (use assms(3,4) in \<open>auto simp: nth_list_update\<close>)
  have r: "reach st (sl[j := s]) (hash (key (sl[j := s] ! i))) i"
    if "i < length sl" "st (sl[j := s] ! i) = SLOT_LIVE" for i
    using that rm [OF assms(6)] rm [OF probe_ok_reach [OF assms(1), of i]] assms(4)
    by (cases "i = j") auto
  have absent: "st (sl ! i) = SLOT_LIVE \<Longrightarrow> key (sl ! i) \<noteq> key s" if "i < length sl" for i
    using assms(2) that by (simp add: slot_map_None)
  have u: "i = i'" if "i < length sl" "i' < length sl" "st (sl[j := s] ! i) = SLOT_LIVE"
    "st (sl[j := s] ! i') = SLOT_LIVE" "key (sl[j := s] ! i) = key (sl[j := s] ! i')" for i i'
    using that absent [of i] absent [of i'] probe_ok_uniq [OF assms(1), of i i']
    by (cases "i = j"; cases "i' = j") auto
  show ok: "ok (sl[j := s])"
    unfolding probe_ok_def using probe_ok_pow2 [OF assms(1)] r u by simp
  show "tmap (sl[j := s]) = (tmap sl)(key s \<mapsto> s)"
    using assms by (intro map_update ok) auto
qed

lemma kill:
  assumes "ok sl" and "j < length sl" and "st (sl ! j) = SLOT_LIVE" and "st s = SLOT_DEAD"
  shows "ok (sl[j := s])" and "tmap (sl[j := s]) = (tmap sl)(key (sl ! j) := None)"
proof -
  have rm: "reach st (sl[j := s]) h i" if "reach st sl h i" for h i
    using that by (rule reach_mono) (use assms(2,4) in \<open>auto simp: nth_list_update\<close>)
  have live: "st (sl[j := s] ! i) = SLOT_LIVE \<longleftrightarrow> i \<noteq> j \<and> st (sl ! i) = SLOT_LIVE" for i
    using assms(2,4) by (cases "i = j") auto
  show ok: "ok (sl[j := s])"
    unfolding probe_ok_def
    using probe_ok_pow2 [OF assms(1)] rm probe_ok_reach [OF assms(1)] probe_ok_uniq [OF assms(1)]
    by (auto simp: live)
  have "tmap (sl[j := s]) k = Some t \<longleftrightarrow> ((tmap sl)(key (sl ! j) := None)) k = Some t" for k t
  proof -
    have "i < length sl \<and> sl[j := s] ! i = t \<and> st t = SLOT_LIVE \<and> key t = k \<longleftrightarrow>
      i < length sl \<and> i \<noteq> j \<and> sl ! i = t \<and> st t = SLOT_LIVE \<and> key t = k" for i
      using assms(2,4) by (cases "i = j") auto
    moreover have "key (sl ! i) = key (sl ! j) \<Longrightarrow> i = j"
      if "i < length sl" "st (sl ! i) = SLOT_LIVE" for i
      using probe_ok_uniq [OF assms(1), of i j] that assms(2,3) by blast
    ultimately show ?thesis
      by (auto simp: slot_map_iff [OF assms(1)] slot_map_iff [OF ok])
  qed
  then show "tmap (sl[j := s]) = (tmap sl)(key (sl ! j) := None)"
    by (intro ext) (metis not_None_eq)
qed

lemma claim:
  assumes "ok sl" and "0 < count_state st SLOT_EMPTY sl"
  obtains (old) j where "probe_claim st (hit k) sl (start k sl) 0 None (length sl) = Some (Inl j)"
      and "j < length sl" and "st (sl ! j) = SLOT_LIVE" and "key (sl ! j) = k"
  | (new) j where "probe_claim st (hit k) sl (start k sl) 0 None (length sl) = Some (Inr j)"
      and "j < length sl" and "st (sl ! j) \<noteq> SLOT_LIVE" and "reach st sl (hash k) j"
      and "tmap sl k = None"
proof -
  obtain m where m: "length sl = 2 ^ m" using probe_ok_pow2 [OF assms(1)] by blast
  then have pos: "0 < length sl" by simp
  note at = probe_pos [OF m] probe_pos [OF m, unfolded One_nat_def]
  obtain e where e: "e < length sl" "st (sl ! e) = SLOT_EMPTY"
    using ex_state_of_count [OF assms(2)] by blast
  obtain t where "t < length sl" "(unat (hash k) + t) mod length sl = e"
    using cyc_offset [OF e(1)] by blast
  then have "probe_claim st (hit k) sl (start k sl) 0 None (length sl) \<noteq> None"
    using e(2) by (intro probe_claim_total [where t = t]) (auto simp: at)
  then obtain r where r: "probe_claim st (hit k) sl (start k sl) 0 None (length sl) = Some r" by blast
  show thesis
  proof (cases r)
    case (Inl j)
    from probe_claim_Inl [OF r [unfolded Inl]] pos show ?thesis
      by (intro old [OF r [unfolded Inl]]) (auto simp: at hit_iff)
  next
    case (Inr j)
    from probe_claim_Inr [OF r [unfolded Inr]]
    obtain u v where u: "u < length sl" "j = (unat (hash k) + u) mod length sl" "st (sl ! j) \<noteq> SLOT_LIVE"
        "\<And>q. q < u \<Longrightarrow> st (sl ! ((unat (hash k) + q) mod length sl)) \<noteq> SLOT_EMPTY"
      and v: "v < length sl" "st (sl ! ((unat (hash k) + v) mod length sl)) = SLOT_EMPTY"
        "\<And>q. q < v \<Longrightarrow> \<not> (st (sl ! ((unat (hash k) + q) mod length sl)) = SLOT_LIVE \<and>
          hit k (sl ! ((unat (hash k) + q) mod length sl)))"
      by (auto simp: at)
    have "key (sl ! i) \<noteq> k" if i: "i < length sl" "st (sl ! i) = SLOT_LIVE" for i
    proof
      assume k: "key (sl ! i) = k"
      with probe_ok_reach [OF assms(1) i] obtain p where p: "(unat (hash k) + p) mod length sl = i"
        "\<And>q. q < p \<Longrightarrow> st (sl ! ((unat (hash k) + q) mod length sl)) \<noteq> SLOT_EMPTY"
        by (auto simp: reach_def)
      have "\<not> v < p" using p(2) v(2) by blast
      moreover have "\<not> p < v" using v(3) [of p] p(1) i(2) k by (auto simp: hit_iff)
      moreover have "p \<noteq> v" using p(1) v(2) i(2) by auto
      ultimately show False by simp
    qed
    then have "tmap sl k = None" by (simp add: slot_map_None)
    with u pos show ?thesis
      by (intro new [OF r [unfolded Inr]]) (auto simp: reach_def)
  qed
qed

lemma walk:
  assumes "ok nt" and "0 < count_state st SLOT_EMPTY nt" and "count_state st SLOT_DEAD nt = 0"
    and "tmap nt (key s) = None"
  obtains j where "probe_until (stop s) nt (unat (hash (key s)) AND (length nt - 1)) = Some j"
    and "j < length nt" and "st (nt ! j) = SLOT_EMPTY" and "reach st nt (hash (key s)) j"
proof -
  obtain m where m: "length nt = 2 ^ m" using probe_ok_pow2 [OF assms(1)] by blast
  then have pos: "0 < length nt" by simp
  let ?h = "unat (hash (key s))"
  obtain e where e: "e < length nt" "st (nt ! e) = SLOT_EMPTY"
    using ex_state_of_count [OF assms(2)] by blast
  define P where "P t \<longleftrightarrow> stop s (nt ! ((?h + t) mod length nt))" for t
  obtain t0 where t0: "t0 < length nt" "(?h + t0) mod length nt = e"
    using cyc_offset [OF e(1)] by blast
  with e(2) have "P t0" by (simp add: P_def stop_free)
  define t where "t = (LEAST t. P t)"
  have Pt: "P t" and lt: "\<And>q. q < t \<Longrightarrow> \<not> P q" and tb: "t < length nt"
    using \<open>P t0\<close> t0(1) unfolding t_def by (auto intro: LeastI dest: not_less_Least Least_le le_less_trans)
  define j where "j = (?h + t) mod length nt"
  have jl: "j < length nt" using pos by (simp add: j_def)
  have "probe_until (stop s) nt (?h mod length nt) = Some ((?h mod length nt + t) mod length nt)"
    using pos Pt lt by (intro probe_until_least [OF m]) (simp_all add: P_def mod_add_left_eq)
  then have "probe_until (stop s) nt (?h AND (length nt - 1)) = Some j"
    by (simp only: and_cap_mask [OF m] j_def mod_add_left_eq)
  moreover have "st (nt ! j) \<noteq> SLOT_LIVE"
    using Pt stop_live [of "nt ! j" s] assms(4) jl by (auto simp: P_def j_def slot_map_None)
  moreover have nd: "st (nt ! i) \<noteq> SLOT_DEAD" if "i < length nt" for i
    using assms(3) that by (auto simp: count_state_def filter_empty_conv)
  ultimately have "st (nt ! j) = SLOT_EMPTY" using jl by (cases "st (nt ! j)") auto
  moreover have "st (nt ! ((?h + q) mod length nt)) \<noteq> SLOT_EMPTY" if "q < t" for q
    using lt [OF that] stop_free [of "nt ! ((?h + q) mod length nt)" s] by (auto simp: P_def)
  then have "reach st nt (hash (key s)) j"
    unfolding reach_def using tb by (auto simp: j_def intro!: exI [of _ t])
  ultimately show thesis
    using that \<open>probe_until (stop s) nt (?h AND (length nt - 1)) = Some j\<close> jl by blast
qed

lemma rehash_into_ok:
  assumes "ok nt" and "count_state st SLOT_DEAD nt = 0"
    and "count_state st SLOT_LIVE ss + count_state st SLOT_LIVE nt < length nt"
    and "\<And>s. s \<in> set ss \<Longrightarrow> st s = SLOT_LIVE \<Longrightarrow> tmap nt (key s) = None"
    and "distinct (map key (filter (\<lambda>s. st s = SLOT_LIVE) ss))"
  shows "\<exists>nt'. rehash_into st stop (\<lambda>s. hash (key s)) ss nt = Some nt' \<and> ok nt' \<and>
    length nt' = length nt \<and> count_state st SLOT_DEAD nt' = 0 \<and>
    count_state st SLOT_LIVE nt' = count_state st SLOT_LIVE ss + count_state st SLOT_LIVE nt \<and>
    tmap nt' = tmap nt ++ slot_map st key ss"
  using assms
proof (induction ss arbitrary: nt)
  case Nil
  then show ?case by (simp add: slot_map_def count_state_def)
next
  case (Cons s ss)
  show ?case
  proof (cases "st s = SLOT_LIVE")
    case False
    then have "count_state st SLOT_LIVE (s # ss) = count_state st SLOT_LIVE ss"
      and "slot_map st key (s # ss) = slot_map st key ss"
      by (simp_all add: count_state_def slot_map_def)
    with False Cons.IH [OF Cons.prems(1,2)] Cons.prems(3-5) show ?thesis by simp
  next
    case True
    have cl: "count_state st SLOT_LIVE (s # ss) = Suc (count_state st SLOT_LIVE ss)"
      using True by (simp add: count_state_def)
    have ce: "0 < count_state st SLOT_EMPTY nt"
      using count_state_total [of st nt] Cons.prems(2,3) cl by linarith
    obtain j where j: "probe_until (stop s) nt (unat (hash (key s)) AND (length nt - 1)) = Some j"
      "j < length nt" "st (nt ! j) = SLOT_EMPTY" "reach st nt (hash (key s)) j"
      using walk [OF Cons.prems(1) ce Cons.prems(2), of s] Cons.prems(4) True by auto
    let ?nt = "nt[j := s]"
    have pl: "ok ?nt" "tmap ?nt = (tmap nt)(key s \<mapsto> s)"
      using place [OF Cons.prems(1), of s j] Cons.prems(4) [of s] True j by auto
    have cd: "count_state st SLOT_DEAD ?nt = 0" "count_state st SLOT_LIVE ?nt = Suc (count_state st SLOT_LIVE nt)"
      using count_state_update [OF j(2), of st SLOT_DEAD s] count_state_update [OF j(2), of st SLOT_LIVE s]
        Cons.prems(2) True j(3) by simp_all
    have fresh: "tmap ?nt (key t) = None" if "t \<in> set ss" "st t = SLOT_LIVE" for t
      using Cons.prems(4) [of t] Cons.prems(5) that True pl(2) by (auto simp: image_iff)
    have "key s \<notin> dom (slot_map st key ss)"
      using Cons.prems(5) True by (auto simp: dom_slot_map)
    then have nd: "slot_map st key ss (key s) = None" by (simp add: domIff)
    have sm: "slot_map st key (s # ss) = (slot_map st key ss)(key s \<mapsto> s)"
      using True by (simp add: slot_map_def)
    have "\<exists>nt'. rehash_into st stop (\<lambda>s. hash (key s)) ss ?nt = Some nt' \<and> ok nt' \<and>
      length nt' = length ?nt \<and> count_state st SLOT_DEAD nt' = 0 \<and>
      count_state st SLOT_LIVE nt' = count_state st SLOT_LIVE ss + count_state st SLOT_LIVE ?nt \<and>
      tmap nt' = tmap ?nt ++ slot_map st key ss"
      using pl(1) cd Cons.prems(3,5) cl True fresh by (intro Cons.IH) auto
    moreover have "tmap ?nt ++ slot_map st key ss = tmap nt ++ slot_map st key (s # ss)"
      unfolding pl(2) sm using nd by (auto simp: map_add_def fun_eq_iff split: option.splits)
    ultimately show ?thesis using True j(1) cl cd by auto
  qed
qed

lemma ok_blank: "ok (replicate (2 ^ m) blank)"
  by (auto simp: probe_ok_def blank_empty)

lemma tmap_blank: "tmap (replicate n blank) = Map.empty"
  by (simp add: slot_map_def blank_empty)

lemma ok_distinct_keys:
  assumes "ok sl"
  shows "distinct (map key (filter (\<lambda>s. st s = SLOT_LIVE) sl))"
proof -
  have "distinct (map key (filter (\<lambda>s. st s = SLOT_LIVE) xs))"
    if "\<And>i j. i < length xs \<Longrightarrow> j < length xs \<Longrightarrow> st (xs ! i) = SLOT_LIVE \<Longrightarrow> st (xs ! j) = SLOT_LIVE \<Longrightarrow>
      key (xs ! i) = key (xs ! j) \<Longrightarrow> i = j" for xs
    using that
  proof (induction xs)
    case (Cons x xs)
    have "distinct (map key (filter (\<lambda>s. st s = SLOT_LIVE) xs))"
      using Cons.prems [of "Suc _" "Suc _"] by (intro Cons.IH) auto
    moreover have "key x \<notin> key ` {y \<in> set xs. st y = SLOT_LIVE}" if "st x = SLOT_LIVE"
      using Cons.prems [of 0 "Suc _"] that by (fastforce simp: in_set_conv_nth)
    ultimately show ?case by auto
  qed simp
  with probe_ok_uniq [OF assms] show ?thesis by blast
qed

lemma regrow:
  assumes "sl = [] \<or> ok sl" and "count_state st SLOT_LIVE sl < 2 ^ m"
  shows "\<exists>nt. rehash_into st stop (\<lambda>s. hash (key s)) sl (replicate (2 ^ m) blank) = Some nt \<and> ok nt \<and>
    length nt = 2 ^ m \<and> count_state st SLOT_DEAD nt = 0 \<and>
    count_state st SLOT_LIVE nt = count_state st SLOT_LIVE sl \<and> tmap nt = tmap sl"
proof -
  have "distinct (map key (filter (\<lambda>s. st s = SLOT_LIVE) sl))"
    using assms(1) ok_distinct_keys by auto
  then show ?thesis
    using rehash_into_ok [OF ok_blank [of m], of sl] assms(2)
    by (simp add: tmap_blank count_state_def blank_empty)
qed

end

end
