(* ===== verification/Crc32.thy ===== *)
theory Crc32
  imports Endian
begin

text \<open>
  The checksum of \<^verbatim>\<open>src/src/util/crc32.c\<close>: the table of \<^verbatim>\<open>build_table\<close>, the byte-at-a-time
  \<^verbatim>\<open>crc32_update\<close> and \<^verbatim>\<open>crc32_compute\<close>. Shown: continuing a checksum over two buffers is the
  checksum of their concatenation (the hash checkpoint relies on it); the table-driven loop
  computes the bitwise division by the reflected polynomial; and damage confined to a window
  of at most four bytes always changes the checksum. The last fact is the law of the locale
  \<open>checksum\<close>, through which the log uses it.
\<close>

section \<open>The program\<close>

definition crc_bit :: "u32 \<Rightarrow> u32" where
  "crc_bit c = (if c AND 1 \<noteq> 0 then 0xEDB88320 XOR drop_bit 1 c else drop_bit 1 c)"

definition g_table :: "u32 list" where
  "g_table = map (\<lambda>i. (crc_bit ^^ 8) (of_nat i)) [0..<256]"

definition crc_byte :: "u8 \<Rightarrow> u32 \<Rightarrow> u32" where
  "crc_byte p c = g_table ! unat ((c XOR ucast p) AND 0xff) XOR drop_bit 8 c"

definition crc32_update :: "u32 \<Rightarrow> bytes \<Rightarrow> u32" where
  "crc32_update crc data = NOT (fold crc_byte data (NOT crc))"

definition crc32_compute :: "bytes \<Rightarrow> u32" where
  "crc32_compute data = crc32_update 0 data"

section \<open>Chaining\<close>

lemma crc32_update_append: "crc32_update (crc32_update c a) b = crc32_update c (a @ b)"
  by (simp add: crc32_update_def)

lemma crc32_compute_append: "crc32_update (crc32_compute a) b = crc32_compute (a @ b)"
  by (simp add: crc32_compute_def crc32_update_append)

section \<open>The table computes eight bit steps\<close>

lemma xor_cancel_right: "a XOR c = b XOR c \<Longrightarrow> a = (b :: u32)"
proof -
  assume "a XOR c = b XOR c"
  then have "(a XOR c) XOR c = (b XOR c) XOR c" by simp
  then show "a = b" by (simp add: xor.assoc)
qed

lemma crc_bit_xor: "crc_bit (a XOR b) = crc_bit a XOR crc_bit b"
proof -
  have lsb: "c AND 1 \<noteq> 0 \<longleftrightarrow> bit c 0" for c :: u32
    by (simp add: and_one_eq bit_0 odd_iff_mod_2_eq_one)
  show ?thesis
    unfolding crc_bit_def lsb
    by (auto simp: bit_simps drop_bit_xor xor.assoc xor.left_commute)
qed

lemma crc_bits_xor: "(crc_bit ^^ n) (a XOR b) = (crc_bit ^^ n) a XOR (crc_bit ^^ n) b"
  by (induction n) (simp_all add: crc_bit_xor)

lemma crc_bit_inj: "crc_bit a = crc_bit b \<Longrightarrow> a = b"
proof -
  have lsb: "c AND 1 \<noteq> 0 \<longleftrightarrow> bit c 0" for c :: u32
    by (simp add: and_one_eq bit_0 odd_iff_mod_2_eq_one)
  have zero: "c = 0" if "crc_bit c = 0" for c
  proof (rule bit_word_eqI)
    have "bit (crc_bit c) 31 \<longleftrightarrow> bit c 0"
      unfolding crc_bit_def lsb by (auto simp: bit_simps dest: bit_imp_le_length)
    with that have b0: "\<not> bit c 0" by simp
    with that have "drop_bit 1 c = 0" by (simp add: crc_bit_def lsb)
    moreover have "bit c (Suc k) = bit (drop_bit 1 c) k" for k by (simp add: bit_simps)
    ultimately have "\<not> bit c (Suc k)" for k by simp
    with b0 show "bit c n = bit 0 n" for n by (cases n) simp_all
  qed
  assume "crc_bit a = crc_bit b"
  then have "crc_bit (a XOR b) = 0" by (simp add: crc_bit_xor)
  then have "a XOR b = b XOR b" by (simp add: zero)
  then show "a = b" by (rule xor_cancel_right)
qed

lemma crc_bits_inj: "(crc_bit ^^ n) a = (crc_bit ^^ n) b \<Longrightarrow> a = b"
  by (induction n) (auto dest: crc_bit_inj)

lemma crc_bits_shift:
  assumes "\<And>i. i < n \<Longrightarrow> \<not> bit c i"
  shows "(crc_bit ^^ n) c = drop_bit n c"
  using assms
proof (induction n arbitrary: c)
  case (Suc n)
  then have "\<not> bit c 0" by blast
  then have "crc_bit c = drop_bit 1 c"
    by (simp add: crc_bit_def and_one_eq bit_0 odd_iff_mod_2_eq_one even_iff_mod_2_eq_zero)
  moreover have "(crc_bit ^^ n) (drop_bit 1 c) = drop_bit n (drop_bit 1 c)"
    by (rule Suc.IH) (use Suc.prems in \<open>simp add: bit_simps\<close>)
  ultimately show ?case by (simp add: funpow_Suc_right drop_bit_drop_bit del: funpow.simps)
qed simp

lemma crc_byte_bits: "crc_byte p c = (crc_bit ^^ 8) (c XOR ucast p)"
proof -
  define x where "x = c XOR ucast p"
  have hi: "drop_bit 8 x = drop_bit 8 c"
    unfolding x_def by (rule bit_word_eqI) (auto simp: bit_simps dest: bit_imp_le_length)
  have lt: "unat (x AND 0xff) < 256"
  proof -
    have "x AND 0xff = take_bit 8 x"
      by (simp add: take_bit_eq_mask mask_eq_exp_minus_1)
    then show ?thesis by (simp add: word_less_nat_alt [symmetric] take_bit_eq_mod unat_mod)
  qed
  have "g_table ! unat (x AND 0xff) = (crc_bit ^^ 8) (x AND 0xff)"
    using lt by (simp add: g_table_def)
  moreover have "(crc_bit ^^ 8) (x AND NOT 0xff) = drop_bit 8 x"
  proof -
    have m: "(0xff :: u32) = mask 8" by (simp add: mask_eq_exp_minus_1)
    have "(crc_bit ^^ 8) (x AND NOT 0xff) = drop_bit 8 (x AND NOT 0xff)"
      by (rule crc_bits_shift) (auto simp: m bit_simps)
    also have "\<dots> = drop_bit 8 x"
      by (rule bit_word_eqI) (auto simp: m bit_simps dest: bit_imp_le_length)
    finally show ?thesis .
  qed
  moreover have "x = (x AND 0xff) XOR (x AND NOT 0xff)"
    by (rule bit_word_eqI) (auto simp: bit_simps)
  ultimately have "(crc_bit ^^ 8) x = g_table ! unat (x AND 0xff) XOR drop_bit 8 c"
    by (metis crc_bits_xor hi)
  then show ?thesis by (simp add: crc_byte_def x_def)
qed

text \<open>The reference: feed the message to the shift register one bit step at a time.\<close>

fun crc32_bitwise :: "bytes \<Rightarrow> u32 \<Rightarrow> u32" where
  "crc32_bitwise [] c = c"
| "crc32_bitwise (p # ps) c = crc32_bitwise ps ((crc_bit ^^ 8) (c XOR ucast p))"

lemma fold_crc_byte: "fold crc_byte ps c = crc32_bitwise ps c"
  by (induction ps arbitrary: c) (simp_all add: crc_byte_bits)

section \<open>Burst detection\<close>

text \<open>Up to four message bytes enter the register as one little-endian word.\<close>

fun le_word :: "bytes \<Rightarrow> u32" where
  "le_word [] = 0"
| "le_word (b # bs) = ucast b XOR push_bit 8 (le_word bs)"

lemma bit_le_word_bound: "bit (le_word bs) k \<Longrightarrow> k < 8 * length bs"
  by (induction bs arbitrary: k) (auto simp: bit_simps dest: bit_imp_le_length, fastforce)

lemma crc32_bitwise_word:
  "length bs \<le> 4 \<Longrightarrow> crc32_bitwise bs c = (crc_bit ^^ (8 * length bs)) (c XOR le_word bs)"
proof (induction bs arbitrary: c)
  case (Cons b bs)
  let ?n = "8 * length bs"
  have "(crc_bit ^^ 8) (push_bit 8 (le_word bs)) = drop_bit 8 (push_bit 8 (le_word bs))"
    by (rule crc_bits_shift) (auto simp: bit_simps)
  also have "\<dots> = le_word bs"
    using Cons.prems by (intro bit_word_eqI) (auto simp: bit_simps dest: bit_le_word_bound)
  finally have sh: "(crc_bit ^^ 8) (push_bit 8 (le_word bs)) = le_word bs" .
  have "crc32_bitwise (b # bs) c = (crc_bit ^^ ?n) ((crc_bit ^^ 8) (c XOR ucast b) XOR le_word bs)"
    using Cons by simp
  also have "\<dots> = (crc_bit ^^ ?n) ((crc_bit ^^ 8) (c XOR ucast b XOR push_bit 8 (le_word bs)))"
    by (simp only: crc_bits_xor sh xor.assoc)
  also have "\<dots> = (crc_bit ^^ (?n + 8)) (c XOR le_word (b # bs))"
    by (simp only: funpow_add comp_apply le_word.simps)
  finally show ?case by (simp add: add.commute)
qed simp

lemma le_word_inj:
  "length xs = length ys \<Longrightarrow> length xs \<le> 4 \<Longrightarrow> le_word xs = le_word ys \<Longrightarrow> xs = ys"
proof (induction xs ys rule: list_induct2)
  case (Cons x xs y ys)
  have lo: "ucast (ucast b XOR push_bit 8 w) = b" for b :: u8 and w :: u32
    by (rule bit_word_eqI) (auto simp: bit_simps)
  have hi: "drop_bit 8 (le_word (b # bs)) = le_word bs" if "length bs \<le> 3" for b bs
    using that by (intro bit_word_eqI) (auto simp: bit_simps dest: bit_le_word_bound bit_imp_le_length)
  have "x = y" using Cons.prems(2) lo by (metis le_word.simps(2))
  moreover have "le_word xs = le_word ys"
    using Cons.prems Cons.hyps hi [of xs x] hi [of ys y] by simp
  ultimately show ?case using Cons by simp
qed simp

lemma crc32_bitwise_append: "crc32_bitwise (a @ b) c = crc32_bitwise b (crc32_bitwise a c)"
  by (induction a arbitrary: c) simp_all

lemma crc32_bitwise_state_inj: "crc32_bitwise ps c = crc32_bitwise ps d \<Longrightarrow> c = d"
proof (induction ps arbitrary: c d)
  case (Cons p ps)
  then have "c XOR ucast p = d XOR ucast p"
    by (fastforce dest: crc_bits_inj)
  then show ?case by (rule xor_cancel_right)
qed simp

text \<open>
  The interface the log relies on: a checksum that tells apart any two messages that differ
  only inside one window of four bytes.
\<close>

locale checksum =
  fixes sum :: "bytes \<Rightarrow> u32"
  assumes burst: "length w = length w' \<Longrightarrow> length w \<le> 4 \<Longrightarrow>
    sum (pre @ w @ post) = sum (pre @ w' @ post) \<Longrightarrow> w = w'"
begin

lemma one_byte:
  assumes "i < length m" and "sum (m[i := b]) = sum m"
  shows "b = m ! i"
proof -
  have "m[i := b] = take i m @ [b] @ drop (Suc i) m"
    and "m = take i m @ [m ! i] @ drop (Suc i) m"
    using assms(1) by (simp_all add: upd_conv_take_nth_drop id_take_nth_drop)
  then have "sum (take i m @ [b] @ drop (Suc i) m) = sum (take i m @ [m ! i] @ drop (Suc i) m)"
    using assms(2) by simp
  from burst [OF _ _ this] show ?thesis by simp
qed

end

lemma crc32_burst:
  assumes "length w = length w'" and "length w \<le> 4"
    and "crc32_compute (pre @ w @ post) = crc32_compute (pre @ w' @ post)"
  shows "w = w'"
proof -
  let ?c = "crc32_bitwise pre (NOT 0)"
  have "crc32_bitwise post (crc32_bitwise w ?c) = crc32_bitwise post (crc32_bitwise w' ?c)"
    using assms(3)
    by (simp add: crc32_compute_def crc32_update_def fold_crc_byte crc32_bitwise_append
        del: fold_append)
  then have "crc32_bitwise w ?c = crc32_bitwise w' ?c"
    by (rule crc32_bitwise_state_inj)
  then have "?c XOR le_word w = ?c XOR le_word w'"
    using assms(1,2) by (auto simp: crc32_bitwise_word dest: crc_bits_inj)
  then have "le_word w = le_word w'" by (metis xor.commute xor_cancel_right)
  with assms(1,2) show ?thesis by (rule le_word_inj)
qed

interpretation crc: checksum crc32_compute
  by unfold_locales (rule crc32_burst)

section \<open>Properties\<close>

text \<open>
  C35. The table-driven update computes the bit-serial register of the reflected polynomial: a
  checksum continued over a second buffer is the one of the concatenation, and both are the
  complement of eight shift steps per byte from the complemented seed.
\<close>

theorem crc32_update_bitwise:
  "crc32_update crc data = NOT (crc32_bitwise data (NOT crc)) \<and>
   crc32_update (crc32_update crc data) more = crc32_update crc (data @ more)"
  by (simp add: crc32_update_append) (simp add: crc32_update_def fold_crc_byte)

text \<open>
  Two buffers that differ only inside a window of at most four bytes never have the same
  checksum.
\<close>

lemma crc32_detects_burst:
  assumes "length w = length w'" and "length w \<le> 4" and "w \<noteq> w'"
  shows "crc32_compute (pre @ w @ post) \<noteq> crc32_compute (pre @ w' @ post)"
  using assms crc.burst by blast

end
