(* ===== verification/Hash_Index.thy ===== *)
theory Hash_Index
  imports Open_Addressing Crc32
begin

text \<open>
  The primary index of \<^verbatim>\<open>src/src/storage/hash_index.c\<close>: record id to log location, an open
  addressing table without deletion (a tombstone is an entry whose \<^verbatim>\<open>deleted\<close> byte is set), and
  its checkpoint image. The array and its capacity field are one list.

  Shown: the table refines a finite map from ids to entries, with the latest put of an id
  winning; the probe loop, which has no bound in the source, returns on every reachable table;
  the checkpoint image loads back to the same map; and an image with one damaged byte is refused.
\<close>

section \<open>State\<close>

record HashEntry =
  he_id :: u64
  he_offset :: u64
  he_expires_at :: u64
  he_length :: u32
  he_type :: u8
  he_deleted :: u8
  he_used :: bool

record HashIndex =
  hx_buckets :: "HashEntry list"
  hx_count :: nat

text \<open>A slot as \<^verbatim>\<open>calloc\<close> leaves it.\<close>

definition blank_entry :: HashEntry where
  "blank_entry = \<lparr>he_id = 0, he_offset = 0, he_expires_at = 0, he_length = 0, he_type = 0,
     he_deleted = 0, he_used = False\<rparr>"

definition entry_state :: "HashEntry \<Rightarrow> slot_state" where
  "entry_state e = (if he_used e then SLOT_LIVE else SLOT_EMPTY)"

section \<open>Operations\<close>

definition hash_index_create :: "alloc \<Rightarrow> HashIndex option" where
  "hash_index_create mem =
     (if \<not> mem 0 then None
      else if \<not> mem 1 then None
      else Some \<lparr>hx_buckets = replicate 1024 blank_entry, hx_count = 0\<rparr>)"

text \<open>
  \<^verbatim>\<open>find_slot\<close> loops until it meets a free slot or the id; \<open>None\<close> is a run that never returns.
\<close>

definition find_slot :: "HashEntry list \<Rightarrow> u64 \<Rightarrow> nat option" where
  "find_slot buckets rid =
     probe_until (\<lambda>e. \<not> he_used e \<or> he_id e = rid) buckets (unat (mix64 rid) AND (length buckets - 1))"

definition rehash :: "HashIndex \<Rightarrow> nat \<Rightarrow> HashIndex option" where
  "rehash h newcap =
     map_option (\<lambda>nb. h\<lparr>hx_buckets := nb\<rparr>)
       (rehash_into entry_state (\<lambda>s e. \<not> he_used e \<or> he_id e = he_id s) (\<lambda>e. mix64 (he_id e))
          (hx_buckets h) (replicate newcap blank_entry))"

text \<open>
  The load test \<^verbatim>\<open>(double)(count + 1) > (double)cap * 0.7\<close> is written over integers: a capacity
  is a power of two, so the product is exact up to the rounding of the literal 0.7, and it is
  never within 0.1 of an integer. The result is the return code with the table; \<open>None\<close> means that
  the call does not return.
\<close>

definition hash_index_put ::
  "alloc \<Rightarrow> HashIndex \<Rightarrow> u64 \<Rightarrow> u64 \<Rightarrow> u32 \<Rightarrow> u8 \<Rightarrow> u8 \<Rightarrow> u64 \<Rightarrow> (int \<times> HashIndex) option" where
  "hash_index_put mem h rid offset len type deleted expires_at =
     (let full = 7 * length (hx_buckets h) < 10 * (hx_count h + 1)
      in if full \<and> \<not> mem 0 then Some (-1, h)
         else case (if full then rehash h (length (hx_buckets h) * 2) else Some h) of
                None \<Rightarrow> None
              | Some h1 \<Rightarrow>
                  (case find_slot (hx_buckets h1) rid of
                     None \<Rightarrow> None
                   | Some i \<Rightarrow>
                       let e = hx_buckets h1 ! i;
                           e1 = (if he_used e then e else e\<lparr>he_used := True, he_id := rid\<rparr>);
                           e2 = e1\<lparr>he_offset := offset, he_length := len, he_type := type,
                                   he_deleted := deleted, he_expires_at := expires_at\<rparr>
                       in Some (0, h1\<lparr>hx_buckets := (hx_buckets h1)[i := e2],
                                     hx_count := (if he_used e then hx_count h1 else hx_count h1 + 1)\<rparr>)))"

definition hash_index_get :: "HashIndex \<Rightarrow> u64 \<Rightarrow> HashEntry option option" where
  "hash_index_get h rid =
     (case find_slot (hx_buckets h) rid of
        None \<Rightarrow> None
      | Some i \<Rightarrow>
          let e = hx_buckets h ! i
          in Some (if he_used e \<and> he_deleted e = 0 then Some e else None))"

definition hash_index_count :: "HashIndex \<Rightarrow> nat" where
  "hash_index_count h = hx_count h"

section \<open>The checkpoint image\<close>

text \<open>
  Integers are copied with \<^verbatim>\<open>memcpy\<close>; the model fixes the little-endian byte order that the
  comment of the format states. \<^verbatim>\<open>ckpt_write\<close> and \<^verbatim>\<open>ckpt_read\<close> carry the image to and from the file:
  \<open>file\<close> is the plaintext that \<^verbatim>\<open>ckpt_read\<close> delivers, \<open>None\<close> its failure.
\<close>

definition IDX_HDR :: nat where
  "IDX_HDR = 36"

definition IDX_ENTRY :: nat where
  "IDX_ENTRY = 30"

definition IDX_VERSION :: u32 where
  "IDX_VERSION = 4"

definition entry_bytes :: "HashEntry \<Rightarrow> bytes" where
  "entry_bytes e =
     aegis_put_u64le (he_id e) @ aegis_put_u64le (he_offset e) @ aegis_put_u32le (he_length e) @
     [he_type e, he_deleted e] @ aegis_put_u64le (he_expires_at e)"

definition hash_index_serialize :: "alloc \<Rightarrow> HashIndex \<Rightarrow> u64 \<Rightarrow> u64 \<Rightarrow> bytes option" where
  "hash_index_serialize mem h covered_log_size next_id =
     (if \<not> mem 0 then None
      else let live = filter he_used (hx_buckets h);
               entries = concat (map entry_bytes live);
               hdr = lit ''AIDX'' @ aegis_put_u32le IDX_VERSION @ aegis_put_u64le (of_nat (length live)) @
                     aegis_put_u64le covered_log_size @ aegis_put_u64le next_id;
               crc = crc32_update (crc32_compute hdr) entries
           in Some (hdr @ aegis_put_u32le crc @ entries))"

text \<open>
  The loop over the entries ignores the result of each put, as the source does; \<open>mem n\<close> holds the
  allocation outcomes of the put that leaves \<open>n\<close> entries to go.
\<close>

fun load_entries :: "(nat \<Rightarrow> alloc) \<Rightarrow> HashIndex \<Rightarrow> bytes \<Rightarrow> nat \<Rightarrow> HashIndex option" where
  "load_entries mem h r 0 = Some h"
| "load_entries mem h r (Suc n) =
     (case hash_index_put (mem n) h (aegis_get_u64le r) (aegis_get_u64le (drop 8 r))
             (aegis_get_u32le (drop 16 r)) (r ! 20) (r ! 21) (aegis_get_u64le (drop 22 r)) of
        None \<Rightarrow> None
      | Some (_, h') \<Rightarrow> load_entries mem h' (drop IDX_ENTRY r) n)"

definition hash_index_load ::
  "(nat \<Rightarrow> alloc) \<Rightarrow> HashIndex \<Rightarrow> bytes option \<Rightarrow> (int \<times> HashIndex \<times> (u64 \<times> u64) option) option" where
  "hash_index_load mem h file =
     (case file of
        None \<Rightarrow> Some (-1, h, None)
      | Some f \<Rightarrow>
          if length f < IDX_HDR \<or> take 4 f \<noteq> lit ''AIDX'' then Some (-1, h, None)
          else if aegis_get_u32le (drop 4 f) \<noteq> IDX_VERSION then Some (-1, h, None)
          else let cnt = unat (aegis_get_u64le (drop 8 f));
                   covered = aegis_get_u64le (drop 16 f);
                   next_id = aegis_get_u64le (drop 24 f);
                   want_crc = aegis_get_u32le (drop 32 f)
               in if (2 ^ 64 - 2) div IDX_ENTRY < cnt then Some (-1, h, None)
                  else let body = cnt * IDX_ENTRY
                       in if length f \<noteq> (IDX_HDR + body) mod 2 ^ 64 then Some (-1, h, None)
                          else let entries = drop IDX_HDR f;
                                   crc = crc32_update (crc32_compute (take 32 f)) (take body entries)
                               in if crc \<noteq> want_crc then Some (-1, h, None)
                                  else map_option (\<lambda>h'. (0, h', Some (covered, next_id)))
                                         (load_entries mem h entries cnt))"

section \<open>Invariant and abstraction\<close>

definition hash_inv :: "HashIndex \<Rightarrow> bool" where
  "hash_inv h \<longleftrightarrow>
     probe_ok entry_state he_id mix64 (hx_buckets h) \<and>
     hx_count h = count_state entry_state SLOT_LIVE (hx_buckets h) \<and>
     10 * hx_count h \<le> 7 * length (hx_buckets h) \<and> 2 \<le> length (hx_buckets h)"

text \<open>The finite map an index stands for; the tombstones are in it.\<close>

definition hash_lookup :: "HashIndex \<Rightarrow> u64 \<rightharpoonup> HashEntry" where
  "hash_lookup h = slot_map entry_state he_id (hx_buckets h)"

definition mk_entry :: "u64 \<Rightarrow> u64 \<Rightarrow> u32 \<Rightarrow> u8 \<Rightarrow> u8 \<Rightarrow> u64 \<Rightarrow> HashEntry" where
  "mk_entry rid offset len type deleted expires_at =
     \<lparr>he_id = rid, he_offset = offset, he_expires_at = expires_at, he_length = len, he_type = type,
      he_deleted = deleted, he_used = True\<rparr>"

lemma entry_state_simps [simp]:
  "entry_state e = SLOT_LIVE \<longleftrightarrow> he_used e"
  "entry_state e = SLOT_EMPTY \<longleftrightarrow> \<not> he_used e"
  "entry_state e \<noteq> SLOT_DEAD"
  by (simp_all add: entry_state_def)

interpretation hx: probe_table entry_state he_id mix64 "\<lambda>k e. he_id e = k"
  "\<lambda>s e. \<not> he_used e \<or> he_id e = he_id s" blank_entry
  by unfold_locales (auto simp: blank_entry_def)

lemma no_dead [simp]: "count_state entry_state SLOT_DEAD sl = 0"
  by (simp add: count_state_def filter_empty_conv)

lemma hash_inv_space:
  assumes "hash_inv h"
  shows "0 < count_state entry_state SLOT_EMPTY (hx_buckets h)"
  using assms count_state_total [of entry_state "hx_buckets h"] by (auto simp: hash_inv_def)

lemma find_slot_spec:
  assumes ok: "probe_ok entry_state he_id mix64 b" and space: "0 < count_state entry_state SLOT_EMPTY b"
  obtains (old) j where "find_slot b rid = Some j" "j < length b" "he_used (b ! j)" "he_id (b ! j) = rid"
  | (new) j where "find_slot b rid = Some j" "j < length b" "\<not> he_used (b ! j)"
      "reach entry_state b (mix64 rid) j" "slot_map entry_state he_id b rid = None"
proof (cases "slot_map entry_state he_id b rid")
  case None
  let ?s = "mk_entry rid 0 0 0 0 0"
  have k: "he_id ?s = rid" by (simp add: mk_entry_def)
  from hx.walk [OF ok space no_dead, of ?s] None
  obtain j where "probe_until (\<lambda>e. \<not> he_used e \<or> he_id e = rid) b (unat (mix64 rid) AND (length b - 1)) = Some j"
    "j < length b" "entry_state (b ! j) = SLOT_EMPTY" "reach entry_state b (mix64 rid) j"
    unfolding k by blast
  with None show ?thesis by (intro new) (auto simp: find_slot_def)
next
  case (Some e)
  then obtain i where i: "i < length b" "b ! i = e" "he_used e" "he_id e = rid"
    by (auto simp: slot_map_iff [OF ok])
  obtain m where m: "length b = 2 ^ m" using probe_ok_pow2 [OF ok] by blast
  obtain p where p: "p < length b" "(unat (mix64 rid) + p) mod length b = i"
    "\<And>q. q < p \<Longrightarrow> he_used (b ! ((unat (mix64 rid) + q) mod length b))"
    using probe_ok_reach [OF ok i(1)] i by (auto simp: reach_def)
  define P where "P t \<longleftrightarrow> he_id (b ! ((unat (mix64 rid) + t) mod length b)) = rid" for t
  have "P p" using p(2) i by (simp add: P_def)
  define t where "t = (LEAST t. P t)"
  have Pt: "P t" and lt: "\<And>q. q < t \<Longrightarrow> \<not> P q" and tp: "t \<le> p"
    using \<open>P p\<close> unfolding t_def by (auto intro: LeastI Least_le dest: not_less_Least)
  define j where "j = (unat (mix64 rid) + t) mod length b"
  have pos: "0 < length b" using i(1) by linarith
  have used: "he_used (b ! j)"
    using tp p(3) [of t] i p(2) by (cases "t = p") (auto simp: j_def)
  have "probe_until (\<lambda>e. \<not> he_used e \<or> he_id e = rid) b (unat (mix64 rid) mod length b) =
      Some ((unat (mix64 rid) mod length b + t) mod length b)"
    using pos Pt lt p(3) tp by (intro probe_until_least [OF m]) (simp_all add: P_def mod_add_left_eq)
  then have "find_slot b rid = Some j"
    by (simp only: find_slot_def and_cap_mask [OF m] j_def mod_add_left_eq)
  with pos Pt used show ?thesis by (intro old) (auto simp: j_def P_def)
qed

lemma mk_entry_fields:
  "he_used e \<Longrightarrow> e\<lparr>he_offset := offset, he_length := len, he_type := type, he_deleted := deleted,
     he_expires_at := expires_at\<rparr> = mk_entry (he_id e) offset len type deleted expires_at"
  "e\<lparr>he_used := True, he_id := rid, he_offset := offset, he_length := len, he_type := type,
     he_deleted := deleted, he_expires_at := expires_at\<rparr> = mk_entry rid offset len type deleted expires_at"
  by (simp_all add: mk_entry_def)

lemma mk_entry_self:
  "he_used v \<Longrightarrow> mk_entry (he_id v) (he_offset v) (he_length v) (he_type v) (he_deleted v) (he_expires_at v) = v"
  by (cases v) (simp add: mk_entry_def)

lemma rehash_ok:
  assumes "hash_inv h"
  shows "\<exists>h'. rehash h (length (hx_buckets h) * 2) = Some h' \<and> hash_inv h' \<and>
    hash_lookup h' = hash_lookup h \<and> hx_count h' = hx_count h \<and>
    length (hx_buckets h') = 2 * length (hx_buckets h)"
proof -
  have ok: "probe_ok entry_state he_id mix64 (hx_buckets h)" using assms by (simp add: hash_inv_def)
  obtain m where m: "length (hx_buckets h) = 2 ^ m" using probe_ok_pow2 [OF ok] by blast
  then have m2: "length (hx_buckets h) * 2 = 2 ^ Suc m" by simp
  have "count_state entry_state SLOT_LIVE (hx_buckets h) < 2 ^ Suc m"
    using count_state_total [of entry_state "hx_buckets h"] hash_inv_space [OF assms] m by simp
  from hx.regrow [OF disjI2 [OF ok] this] obtain nt where
    nt: "rehash_into entry_state (\<lambda>s e. \<not> he_used e \<or> he_id e = he_id s) (\<lambda>e. mix64 (he_id e))
          (hx_buckets h) (replicate (2 ^ Suc m) blank_entry) = Some nt"
      "probe_ok entry_state he_id mix64 nt" "length nt = 2 ^ Suc m"
      "count_state entry_state SLOT_LIVE nt = count_state entry_state SLOT_LIVE (hx_buckets h)"
      "slot_map entry_state he_id nt = slot_map entry_state he_id (hx_buckets h)"
    by blast
  have "rehash h (length (hx_buckets h) * 2) = Some (h\<lparr>hx_buckets := nt\<rparr>)"
    unfolding m2 rehash_def nt(1) by simp
  with nt assms m show ?thesis by (auto simp: hash_inv_def hash_lookup_def)
qed

lemma store_ok:
  assumes inv: "hash_inv h" and room: "10 * (hx_count h + 1) \<le> 7 * length (hx_buckets h)"
    and r: "r = (case find_slot (hx_buckets h) rid of
       None \<Rightarrow> None
     | Some i \<Rightarrow>
         let e = hx_buckets h ! i;
             e1 = (if he_used e then e else e\<lparr>he_used := True, he_id := rid\<rparr>);
             e2 = e1\<lparr>he_offset := offset, he_length := len, he_type := type,
                     he_deleted := deleted, he_expires_at := expires_at\<rparr>
         in Some (0 :: int, h\<lparr>hx_buckets := (hx_buckets h)[i := e2],
                       hx_count := (if he_used e then hx_count h else hx_count h + 1)\<rparr>))"
  shows "\<exists>h'. r = Some (0, h') \<and> hash_inv h' \<and>
    hash_lookup h' = (hash_lookup h)(rid \<mapsto> mk_entry rid offset len type deleted expires_at)"
proof -
  let ?b = "hx_buckets h" and ?e = "mk_entry rid offset len type deleted expires_at"
  have ok: "probe_ok entry_state he_id mix64 ?b" using inv by (simp add: hash_inv_def)
  have me: "he_used ?e" "he_id ?e = rid" by (simp_all add: mk_entry_def)
  show ?thesis
  proof (cases rule: find_slot_spec [OF ok hash_inv_space [OF inv], of rid, case_names old new])
    case (old j)
    have "r = Some (0, h\<lparr>hx_buckets := ?b[j := ?e]\<rparr>)"
      using old r by (simp add: Let_def mk_entry_fields)
    moreover have "probe_ok entry_state he_id mix64 (?b[j := ?e])"
      "slot_map entry_state he_id (?b[j := ?e]) = (slot_map entry_state he_id ?b)(rid \<mapsto> ?e)"
      using hx.overwrite [OF ok old(2), of ?e] old me by simp_all
    moreover have "count_state entry_state SLOT_LIVE (?b[j := ?e]) = count_state entry_state SLOT_LIVE ?b"
      using count_state_update [OF old(2), of entry_state SLOT_LIVE ?e] old me by simp
    ultimately show ?thesis using inv by (simp add: hash_inv_def hash_lookup_def)
  next
    case (new j)
    have "r = Some (0, h\<lparr>hx_buckets := ?b[j := ?e], hx_count := hx_count h + 1\<rparr>)"
      using new r by (simp add: Let_def mk_entry_fields)
    moreover have "probe_ok entry_state he_id mix64 (?b[j := ?e])"
      "slot_map entry_state he_id (?b[j := ?e]) = (slot_map entry_state he_id ?b)(rid \<mapsto> ?e)"
      using hx.place [OF ok, of ?e j] new me by simp_all
    moreover have "count_state entry_state SLOT_LIVE (?b[j := ?e]) = count_state entry_state SLOT_LIVE ?b + 1"
      using count_state_update [OF new(2), of entry_state SLOT_LIVE ?e] new me by simp
    ultimately show ?thesis using inv room by (simp add: hash_inv_def hash_lookup_def)
  qed
qed


lemma hash_create_ok:
  "mem 0 \<Longrightarrow> mem 1 \<Longrightarrow> \<exists>h. hash_index_create mem = Some h \<and> hash_inv h \<and> hash_lookup h = Map.empty"
  using hx.ok_blank [of 10] hx.tmap_blank [of 1024]
  by (simp add: hash_index_create_def hash_inv_def hash_lookup_def count_state_def blank_entry_def)

lemma hash_put_ok:
  assumes inv: "hash_inv h" and mem: "mem 0"
  shows "\<exists>h'. hash_index_put mem h rid offset len type deleted expires_at = Some (0, h') \<and> hash_inv h' \<and>
    hash_lookup h' = (hash_lookup h)(rid \<mapsto> mk_entry rid offset len type deleted expires_at)"
proof (cases "7 * length (hx_buckets h) < 10 * (hx_count h + 1)")
  case False
  then show ?thesis
    using mem by (intro store_ok [OF inv]) (auto simp: hash_index_put_def Let_def)
next
  case True
  obtain h1 where h1: "rehash h (length (hx_buckets h) * 2) = Some h1" "hash_inv h1"
    "hash_lookup h1 = hash_lookup h" "hx_count h1 = hx_count h"
    "length (hx_buckets h1) = 2 * length (hx_buckets h)"
    using rehash_ok [OF inv] by blast
  have "10 * (hx_count h1 + 1) \<le> 7 * length (hx_buckets h1)"
    using inv h1(4,5) by (simp add: hash_inv_def)
  from store_ok [OF h1(2) this refl, where rid = rid and offset = offset and len = len and
      type = type and deleted = deleted and expires_at = expires_at] h1(1,3) True mem
  show ?thesis by (simp add: hash_index_put_def Let_def)
qed

lemma hash_put_oom:
  assumes "hash_inv h" and "\<not> mem 0"
  shows "hash_index_put mem h rid offset len type deleted expires_at = Some (-1, h) \<or>
    (\<exists>h'. hash_index_put mem h rid offset len type deleted expires_at = Some (0, h') \<and> hash_inv h' \<and>
    hash_lookup h' = (hash_lookup h)(rid \<mapsto> mk_entry rid offset len type deleted expires_at))"
proof (cases "7 * length (hx_buckets h) < 10 * (hx_count h + 1)")
  case True
  then show ?thesis using assms(2) by (simp add: hash_index_put_def Let_def)
next
  case False
  then show ?thesis
    by (intro disjI2 store_ok [OF assms(1)]) (auto simp: hash_index_put_def Let_def)
qed

lemma hash_get_ok:
  assumes inv: "hash_inv h"
  shows "hash_index_get h rid =
    Some (case hash_lookup h rid of None \<Rightarrow> None | Some e \<Rightarrow> if he_deleted e = 0 then Some e else None)"
proof -
  have ok: "probe_ok entry_state he_id mix64 (hx_buckets h)" using inv by (simp add: hash_inv_def)
  show ?thesis
  proof (cases rule: find_slot_spec [OF ok hash_inv_space [OF inv], of rid, case_names old new])
    case (old j)
    then have "hash_lookup h rid = Some (hx_buckets h ! j)"
      by (auto simp: hash_lookup_def slot_map_iff [OF ok])
    with old show ?thesis by (simp add: hash_index_get_def Let_def)
  next
    case (new j)
    then show ?thesis by (simp add: hash_index_get_def Let_def hash_lookup_def)
  qed
qed


section \<open>An index by key, as its clients see it\<close>

text \<open>
  The contract that recovery, the checkpoint loader and the database rely on: a put that is given
  memory succeeds, keeps the index well-formed and maps the key to the new value. The lemma is
  what a client gets for a whole sequence of puts.
\<close>

locale keyed_index =
  fixes inv :: "'h \<Rightarrow> bool"
    and put :: "'h \<Rightarrow> 'v \<Rightarrow> 'h option"
    and look :: "'h \<Rightarrow> 'k \<rightharpoonup> 'v"
    and key :: "'v \<Rightarrow> 'k"
    and fits :: "'v \<Rightarrow> bool"
  assumes put_law: "inv h \<Longrightarrow> fits v \<Longrightarrow> \<exists>h'. put h v = Some h' \<and> inv h' \<and> look h' = (look h)(key v \<mapsto> v)"
begin

primrec put_all :: "'h \<Rightarrow> 'v list \<Rightarrow> 'h option" where
  "put_all h [] = Some h"
| "put_all h (v # vs) = Option.bind (put h v) (\<lambda>h'. put_all h' vs)"

lemma put_all_law:
  "inv h \<Longrightarrow> list_all fits vs \<Longrightarrow> \<exists>h'. put_all h vs = Some h' \<and> inv h' \<and>
     look h' = look h ++ map_of (rev (map (\<lambda>v. (key v, v)) vs))"
proof (induction vs arbitrary: h)
  case (Cons v vs)
  from put_law [OF Cons.prems(1), of v] Cons.prems(2) obtain h1 where
    h1: "put h v = Some h1" "inv h1" "look h1 = (look h)(key v \<mapsto> v)" by auto
  show ?case using Cons.IH [OF h1(2)] Cons.prems(2) h1 by (auto simp: map_add_def split: option.splits intro!: ext)
qed simp

end

text \<open>One put of a whole entry, as a client of the hash index issues it.\<close>

definition put_entry :: "HashIndex \<Rightarrow> HashEntry \<Rightarrow> HashIndex option" where
  "put_entry h e =
     map_option snd (hash_index_put mem_ok h (he_id e) (he_offset e) (he_length e) (he_type e)
       (he_deleted e) (he_expires_at e))"


interpretation ix: keyed_index hash_inv put_entry hash_lookup he_id he_used
proof
  fix h and v :: HashEntry
  assume "hash_inv h" and "he_used v"
  with hash_put_ok [of h mem_ok "he_id v" "he_offset v" "he_length v" "he_type v" "he_deleted v" "he_expires_at v"]
  show "\<exists>h'. put_entry h v = Some h' \<and> hash_inv h' \<and> hash_lookup h' = (hash_lookup h)(he_id v \<mapsto> v)"
    by (auto simp: put_entry_def mk_entry_self)
qed

lemma length_entry_bytes [simp]: "length (entry_bytes e) = IDX_ENTRY"
  by (simp add: entry_bytes_def IDX_ENTRY_def)

lemma length_entries [simp]: "length (concat (map entry_bytes es)) = length es * IDX_ENTRY"
  by (induction es) simp_all

lemma entry_fields [simp]:
  "aegis_get_u64le (entry_bytes e @ rest) = he_id e"
  "aegis_get_u64le (drop 8 (entry_bytes e @ rest)) = he_offset e"
  "aegis_get_u32le (drop 16 (entry_bytes e @ rest)) = he_length e"
  "(entry_bytes e @ rest) ! 20 = he_type e"
  "(entry_bytes e @ rest) ! 21 = he_deleted e"
  "aegis_get_u64le (drop 22 (entry_bytes e @ rest)) = he_expires_at e"
  by (simp_all add: entry_bytes_def nth_append drop_Cons')

lemma hash_put_mem: "mem 0 \<Longrightarrow> hash_index_put mem h = hash_index_put mem_ok h"
  by (intro ext) (simp add: hash_index_put_def)

lemma load_entries_step:
  assumes "mem n 0"
  shows "load_entries mem h (entry_bytes e @ rest) (Suc n) =
    Option.bind (put_entry h e) (\<lambda>h'. load_entries mem h' rest n)"
proof -
  have "drop IDX_ENTRY (entry_bytes e @ rest) = rest" by simp
  with assms show ?thesis
    by (simp add: hash_put_mem [of "mem n"] put_entry_def split: option.split del: drop_append)
qed

lemma load_entries_put_all:
  assumes "\<And>n. mem n 0"
  shows "load_entries mem h (concat (map entry_bytes es) @ rest) (length es) = ix.put_all h es"
  by (induction es arbitrary: h) (simp_all add: load_entries_step assms del: load_entries.simps(2))

text \<open>What \<^verbatim>\<open>hash_index_load\<close> accepts, apart from the framing of the count.\<close>

definition image_crc_ok :: "bytes \<Rightarrow> bool" where
  "image_crc_ok f \<longleftrightarrow> crc32_compute (take 32 f @ drop 36 f) = aegis_get_u32le (take 4 (drop 32 f))"

lemma hash_load_bad_crc:
  assumes "\<not> image_crc_ok f"
  shows "hash_index_load mem h (Some f) = Some (-1, h, None)"
proof -
  define body where "body = unat (aegis_get_u64le (drop 8 f)) * IDX_ENTRY"
  show ?thesis
  proof (cases "length f = (IDX_HDR + body) mod 2 ^ 64")
    case True
    then have "take body (drop IDX_HDR f) = drop 36 f"
      using mod_less_eq_dividend [of "IDX_HDR + body" "2 ^ 64"] by (simp add: IDX_HDR_def)
    with assms have "crc32_update (crc32_compute (take 32 f)) (take body (drop IDX_HDR f)) \<noteq>
        aegis_get_u32le (drop 32 f)"
      by (simp add: image_crc_ok_def crc32_compute_append)
    then show ?thesis
      by (simp only: hash_index_load_def option.case Let_def body_def [symmetric] simp_thms if_True if_cancel)
  qed (simp only: hash_index_load_def option.case Let_def body_def [symmetric] simp_thms if_True if_cancel)
qed

lemma list_update_drop_take:
  "i < n \<Longrightarrow> take n (xs[i := b]) = (take n xs)[i := b]"
  "i < n \<Longrightarrow> drop n (xs[i := b]) = drop n xs"
  "n \<le> i \<Longrightarrow> take n (xs[i := b]) = take n xs"
  "n \<le> i \<Longrightarrow> drop n (xs[i := b]) = (drop n xs)[i - n := b]"
  by (simp_all add: take_update_swap drop_update_swap list_update_beyond)

lemma image_crc_one_byte:
  assumes ok: "image_crc_ok f" and len: "36 \<le> length f" and i: "i < length f" and b: "b \<noteq> f ! i"
  shows "\<not> image_crc_ok (f[i := b])"
proof
  assume bad: "image_crc_ok (f[i := b])"
  let ?m = "take 32 f @ drop 36 f"
  consider "i < 32" | "32 \<le> i" "i < 36" | "36 \<le> i" by linarith
  then show False
  proof cases
    case 1
    then have "crc32_compute (?m[i := b]) = crc32_compute ?m"
      using bad ok len by (simp add: image_crc_ok_def list_update_drop_take list_update_append1)
    from crc.one_byte [OF _ this] 1 len b show False by (simp add: nth_append less_diff_conv)
  next
    case 2
    let ?w = "take 4 (drop 32 f)"
    have "aegis_get_u32le (?w[i - 32 := b]) = aegis_get_u32le ?w"
      using bad ok 2 by (simp add: image_crc_ok_def list_update_drop_take)
    then have "?w[i - 32 := b] = ?w"
      using put_get_u32le [of ?w] put_get_u32le [of "?w[i - 32 := b]"] len by simp
    then have "?w[i - 32 := b] ! (i - 32) = ?w ! (i - 32)" by simp
    with 2 len b show False by simp
  next
    case 3
    then obtain k where k: "i = 36 + k" using le_Suc_ex by blast
    have "?m[32 + k := b] = take 32 f @ (drop 36 f)[k := b]"
      using len by (simp add: list_update_append)
    then have "crc32_compute (?m[32 + k := b]) = crc32_compute ?m"
      using bad ok k by (simp add: image_crc_ok_def list_update_drop_take)
    from crc.one_byte [OF _ this] len b i k show False by (simp add: nth_append)
  qed
qed

text \<open>The image in two parts: the 32 bytes of the header and the entries.\<close>

definition image_hdr :: "nat \<Rightarrow> u64 \<Rightarrow> u64 \<Rightarrow> bytes" where
  "image_hdr n covered next_id =
     lit ''AIDX'' @ aegis_put_u32le IDX_VERSION @ aegis_put_u64le (of_nat n) @
     aegis_put_u64le covered @ aegis_put_u64le next_id"

lemma length_image_hdr [simp]: "length (image_hdr n c d) = 32"
  by (simp add: image_hdr_def lit_def)

lemma image_hdr_fields [simp]:
  "take 4 (image_hdr n c d) = lit ''AIDX''"
  "aegis_get_u32le (drop 4 (image_hdr n c d) @ rest) = IDX_VERSION"
  "aegis_get_u64le (drop 8 (image_hdr n c d) @ rest) = of_nat n"
  "aegis_get_u64le (drop 16 (image_hdr n c d) @ rest) = c"
  "aegis_get_u64le (drop 24 (image_hdr n c d) @ rest) = d"
  by (simp_all add: image_hdr_def lit_def drop_Cons')

lemma serialize_split:
  "hash_index_serialize mem h cov nid = (if \<not> mem 0 then None else
     let live = filter he_used (hx_buckets h);
         hdr = image_hdr (length live) cov nid;
         entries = concat (map entry_bytes live)
     in Some (hdr @ aegis_put_u32le (crc32_compute (hdr @ entries)) @ entries))"
  by (simp add: hash_index_serialize_def image_hdr_def Let_def crc32_compute_append)

lemma serialize_crc_ok:
  assumes "hash_index_serialize mem h cov nid = Some img"
  shows "image_crc_ok img" and "36 \<le> length img"
  using assms by (auto simp: serialize_split Let_def image_crc_ok_def split: if_splits)

lemma hash_load_image:
  assumes "mem 0" and "\<And>n. mems n 0" and "IDX_HDR + IDX_ENTRY * length (filter he_used (hx_buckets h)) < 2 ^ 64"
    and "hash_index_serialize mem h cov nid = Some img"
  shows "hash_index_load mems g (Some img) =
    map_option (\<lambda>g'. (0, g', Some (cov, nid))) (ix.put_all g (filter he_used (hx_buckets h)))"
proof -
  let ?es = "filter he_used (hx_buckets h)"
  let ?n = "length ?es" and ?b = "concat (map entry_bytes ?es)"
  have img: "img = image_hdr ?n cov nid @ aegis_put_u32le (crc32_compute (image_hdr ?n cov nid @ ?b)) @ ?b"
    using assms(1,4) by (simp add: serialize_split Let_def)
  have n: "unat (of_nat ?n :: u64) = ?n" "\<not> (2 ^ 64 - 2) div IDX_ENTRY < ?n"
    using assms(3) by (simp_all add: unat_of_nat IDX_ENTRY_def IDX_HDR_def)
  have "load_entries mems g ?b ?n = ix.put_all g ?es"
    using load_entries_put_all [of mems g ?es "[]"] assms(2) by simp
  then show ?thesis
    using assms(3) n unfolding hash_index_load_def img Let_def
    by (simp add: IDX_HDR_def crc32_compute_append mult.commute)
qed

lemma hash_inv_filter_used: "hash_inv h \<Longrightarrow> length (filter he_used (hx_buckets h)) = hx_count h"
  by (simp add: hash_inv_def count_state_def)

lemma map_of_rev: "distinct (map fst xs) \<Longrightarrow> map_of (rev xs) = map_of xs"
proof -
  assume d: "distinct (map fst xs)"
  then have "distinct (map fst (rev xs))" by (simp add: rev_map [symmetric])
  from map_of_inject_set [OF this d] show ?thesis by simp
qed

lemma hash_lookup_filter_used:
  assumes "hash_inv h"
  shows "map_of (rev (map (\<lambda>v. (he_id v, v)) (filter he_used (hx_buckets h)))) = hash_lookup h"
proof -
  have "distinct (map he_id (filter he_used (hx_buckets h)))"
    using hx.ok_distinct_keys [of "hx_buckets h"] assms by (simp add: hash_inv_def)
  then show ?thesis
    by (subst map_of_rev) (simp_all add: hash_lookup_def slot_map_def comp_def)
qed

lemma hash_inv_card: "hash_inv h \<Longrightarrow> hx_count h = card (dom (hash_lookup h))"
proof -
  assume inv: "hash_inv h"
  let ?es = "filter he_used (hx_buckets h)"
  have d: "distinct (map he_id ?es)"
    using hx.ok_distinct_keys [of "hx_buckets h"] inv by (simp add: hash_inv_def)
  have "dom (hash_lookup h) = set (map he_id ?es)"
    by (auto simp: hash_lookup_def dom_slot_map)
  then show ?thesis using distinct_card [OF d] hash_inv_filter_used [OF inv] by simp
qed

text \<open>Two small tables, for concrete runs.\<close>

definition small_index :: HashIndex where
  "small_index = \<lparr>hx_buckets = [blank_entry, blank_entry], hx_count = 0\<rparr>"

definition small_full :: HashIndex where
  "small_full = \<lparr>hx_buckets = (replicate 2 blank_entry)[unat (mix64 7) mod 2 := mk_entry 7 64 10 0 0 0],
     hx_count = 1\<rparr>"

lemma small_index_inv: "hash_inv small_index"
  using hx.ok_blank [of 1]
  by (simp add: hash_inv_def small_index_def count_state_def blank_entry_def numeral_2_eq_2)

lemma small_index_empty: "hash_lookup small_index = Map.empty"
  using hx.tmap_blank [of 2] by (simp add: hash_lookup_def small_index_def numeral_2_eq_2)

lemma small_index_count: "hx_count small_index = 0" and small_full_count: "hx_count small_full = 1"
  by (simp_all add: small_index_def small_full_def)

lemma small_full_inv: "hash_inv small_full"
proof -
  let ?e = "mk_entry 7 64 10 0 0 0" and ?b = "replicate 2 blank_entry" and ?j = "unat (mix64 7) mod 2"
  have e: "he_used ?e" "he_id ?e = 7" by (simp_all add: mk_entry_def)
  have "probe_ok entry_state he_id mix64 (?b[?j := ?e])"
    using hx.ok_blank [of 1] hx.tmap_blank [of 2] e
    by (intro hx.place(1)) (auto simp: reach_def blank_entry_def intro!: exI [of _ 0])
  moreover have "count_state entry_state SLOT_LIVE (?b[?j := ?e]) = 1"
    using count_state_update [of ?j ?b entry_state SLOT_LIVE ?e] e
    by (simp add: count_state_def blank_entry_def)
  ultimately show ?thesis by (simp add: hash_inv_def small_full_def)
qed

section \<open>Properties\<close>

text \<open>
  C22. On every well-formed index, a put that gets its memory returns 0, whatever chain of probes
  it meets, and keeps the index well-formed; a get afterwards, which also returns, finds the new
  location under its id, nothing if the put recorded a tombstone, and what it found before the
  put under every other id.
\<close>

theorem hash_index_put_get:
  assumes "hash_inv h" and "mem 0"
  shows "\<exists>h'. hash_index_put mem h rid offset len type deleted expires_at = Some (0, h') \<and> hash_inv h' \<and>
    (\<forall>k. hash_index_get h' k =
       (if k = rid
        then Some (if deleted = 0 then Some (mk_entry rid offset len type deleted expires_at) else None)
        else hash_index_get h k)) \<and>
    hash_index_count h' = hash_index_count h + (if hash_lookup h rid = None then 1 else 0)"
proof -
  obtain h' where put: "hash_index_put mem h rid offset len type deleted expires_at = Some (0, h')"
    and inv: "hash_inv h'"
    and look: "hash_lookup h' = (hash_lookup h)(rid \<mapsto> mk_entry rid offset len type deleted expires_at)"
    using hash_put_ok [of h mem, OF assms] by blast
  have "hash_index_count h' = hash_index_count h + (if hash_lookup h rid = None then 1 else 0)"
    using hash_inv_card [OF assms(1)] hash_inv_card [OF inv]
    by (auto simp: hash_index_count_def look card_insert_if domIff)
  moreover have "he_deleted (mk_entry rid offset len type deleted expires_at) = deleted"
    by (simp add: mk_entry_def)
  ultimately show ?thesis using put inv by (auto simp: hash_get_ok look assms)
qed

theorem hash_index_put_get_witness:
  "hash_inv small_index \<and>
   (\<exists>h'. hash_index_put mem_ok small_index 7 64 10 0 0 0 = Some (0, h') \<and>
      hash_index_get h' 7 = Some (Some (mk_entry 7 64 10 0 0 0)) \<and>
      hash_index_get h' 8 = hash_index_get small_index 8 \<and> hash_index_count h' = 1)"
  using hash_index_put_get [OF small_index_inv, of mem_ok 7 64 10 0 0 0]
  by (auto simp: small_index_inv small_index_empty hash_index_count_def small_index_count)

text \<open>
  C27. The image of a well-formed index, loaded into an empty one, gives back the watermark and the
  id counter and an index that answers every get as the original does.
\<close>

theorem hash_index_checkpoint_roundtrip:
  assumes "hash_inv h" and "hash_inv g" and "hash_lookup g = Map.empty"
    and "mem 0" and "\<And>n. mems n 0" and "IDX_HDR + IDX_ENTRY * hash_index_count h < 2 ^ 64"
  shows "\<exists>img g'. hash_index_serialize mem h covered next_id = Some img \<and>
    hash_index_load mems g (Some img) = Some (0, g', Some (covered, next_id)) \<and>
    hash_inv g' \<and> (\<forall>k. hash_index_get g' k = hash_index_get h k)"
proof -
  let ?es = "filter he_used (hx_buckets h)"
  obtain img where img: "hash_index_serialize mem h covered next_id = Some img"
    using assms(4) by (simp add: serialize_split Let_def)
  obtain g' where g': "ix.put_all g ?es = Some g'" "hash_inv g'"
    "hash_lookup g' = hash_lookup g ++ map_of (rev (map (\<lambda>v. (he_id v, v)) ?es))"
    using ix.put_all_law [OF assms(2), of ?es] by (auto simp: list_all_iff)
  have "hash_lookup g' = hash_lookup h"
    by (simp add: g'(3) assms(3) hash_lookup_filter_used [OF assms(1)])
  moreover have "hash_index_load mems g (Some img) = Some (0, g', Some (covered, next_id))"
    using hash_load_image [of mem mems h covered next_id img g, OF assms(4,5) _ img] assms(6) g'(1)
    by (simp add: hash_inv_filter_used [OF assms(1)] hash_index_count_def)
  ultimately show ?thesis using img g'(2) assms(1) by (auto simp: hash_get_ok)
qed

theorem hash_index_checkpoint_roundtrip_witness:
  "hash_inv small_full \<and> hash_inv small_index \<and>
   (\<exists>img g'. hash_index_serialize mem_ok small_full 99 8 = Some img \<and>
      hash_index_load (\<lambda>_. mem_ok) small_index (Some img) = Some (0, g', Some (99, 8)) \<and>
      hash_index_get g' 7 = hash_index_get small_full 7)"
  using hash_index_checkpoint_roundtrip [OF small_full_inv small_index_inv small_index_empty,
      of mem_ok "\<lambda>_. mem_ok" 99 8]
  by (auto simp: small_full_inv small_index_inv hash_index_count_def small_full_count
      IDX_HDR_def IDX_ENTRY_def)

text \<open>
  An image in which one byte, in the header, in the checksum or in an entry, has another value
  is refused, and the index that was to be filled is left as it was.
\<close>

lemma hash_index_load_rejects_damage:
  assumes "hash_index_serialize mem h covered next_id = Some img"
    and "i < length img" and "b \<noteq> img ! i"
  shows "hash_index_load mems g (Some (img[i := b])) = Some (-1, g, None)"
  by (rule hash_load_bad_crc)
    (rule image_crc_one_byte [OF serialize_crc_ok [OF assms(1)] assms(2,3)])

end
