(* ===== verification/Time_Index.thy ===== *)
theory Time_Index
  imports Aegis_Prelude "HOL-Library.Multiset"
begin

text \<open>
  The temporal index of \<^verbatim>\<open>src/src/storage/time_index.c\<close>: an array of (created, id) pairs in
  ascending order. Shown: add and remove keep the order and change the multiset of entries by
  exactly the given pair; both range queries return, in chronological order, the ids in the
  range, cut at the oldest or at the most recent \<^verbatim>\<open>max\<close>.
\<close>

section \<open>State\<close>

record TimeEntry =
  te_created :: u64
  te_id :: u64

record TimeIndex =
  ti_e :: "TimeEntry list"
  ti_cap :: nat

section \<open>Operations\<close>

definition time_index_create :: "alloc \<Rightarrow> TimeIndex option" where
  "time_index_create mem = (if \<not> mem 0 then None else Some \<lparr>ti_e = [], ti_cap = 0\<rparr>)"

definition cmp_key :: "u64 \<Rightarrow> u64 \<Rightarrow> u64 \<Rightarrow> u64 \<Rightarrow> int" where
  "cmp_key ca ia cb ib =
     (if ca < cb then -1 else if cb < ca then 1
      else if ia < ib then -1 else if ib < ia then 1 else 0)"

definition lower_bound :: "TimeEntry list \<Rightarrow> u64 \<Rightarrow> u64 \<Rightarrow> nat" where
  "lower_bound e created i =
     bsearch (\<lambda>mid. cmp_key (te_created (e ! mid)) (te_id (e ! mid)) created i < 0) 0 (length e)"

definition time_index_add :: "alloc \<Rightarrow> TimeIndex \<Rightarrow> u64 \<Rightarrow> u64 \<Rightarrow> int \<times> TimeIndex" where
  "time_index_add mem t created i =
     (if length (ti_e t) = ti_cap t \<and> \<not> mem 0 then (-1, t)
      else let cap = (if length (ti_e t) = ti_cap t
                      then if ti_cap t \<noteq> 0 then ti_cap t * 2 else 256 else ti_cap t);
               pos = lower_bound (ti_e t) created i
           in (0, t\<lparr>ti_e := insert_at pos \<lparr>te_created = created, te_id = i\<rparr> (ti_e t), ti_cap := cap\<rparr>))"

definition time_index_remove :: "TimeIndex \<Rightarrow> u64 \<Rightarrow> u64 \<Rightarrow> TimeIndex" where
  "time_index_remove t created i =
     (let pos = lower_bound (ti_e t) created i
      in if pos < length (ti_e t) \<and> te_created (ti_e t ! pos) = created \<and> te_id (ti_e t ! pos) = i
         then t\<lparr>ti_e := remove_at pos (ti_e t)\<rparr> else t)"

text \<open>
  The collecting loop; \<open>es\<close> is what is left of the array, \<open>mem (length ids)\<close> the outcome of the
  \<^verbatim>\<open>realloc\<close> when the result array is full.
\<close>

fun range_loop :: "alloc \<Rightarrow> u64 \<Rightarrow> nat \<Rightarrow> TimeEntry list \<Rightarrow> u64 list \<Rightarrow> nat \<Rightarrow> u64 list option" where
  "range_loop mem stop mx [] ids cap = Some ids"
| "range_loop mem stop mx (e # es) ids cap =
     (if stop < te_created e then Some ids
      else if mx \<noteq> 0 \<and> mx \<le> length ids then Some ids
      else if length ids = cap \<and> \<not> mem (length ids) then None
      else range_loop mem stop mx es (ids @ [te_id e]) (if length ids = cap then cap * 2 else cap))"

definition time_index_range :: "alloc \<Rightarrow> TimeIndex \<Rightarrow> u64 \<Rightarrow> u64 \<Rightarrow> nat \<Rightarrow> u64 list option" where
  "time_index_range mem t start stop mx =
     (let pos = lower_bound (ti_e t) start 0
      in if \<not> mem 0 then None else range_loop mem stop mx (drop pos (ti_e t)) [] 16)"

definition time_index_range_recent ::
  "alloc \<Rightarrow> TimeIndex \<Rightarrow> u64 \<Rightarrow> u64 \<Rightarrow> nat \<Rightarrow> (u64 list \<times> bool) option" where
  "time_index_range_recent mem t start stop mx =
     (let lo = lower_bound (ti_e t) start 0;
          hi = bsearch (\<lambda>mid. \<not> stop < te_created (ti_e t ! mid)) lo (length (ti_e t));
          total = hi - lo;
          truncated = (mx \<noteq> 0 \<and> mx < total);
          tk = (if truncated then mx else total);
          lo' = (if truncated then hi - mx else lo)
      in if \<not> mem 0 then None
         else Some (map (\<lambda>i. te_id (ti_e t ! (lo' + i))) [0..<tk], truncated))"

section \<open>Invariant\<close>

abbreviation te_key :: "TimeEntry \<Rightarrow> u64 \<times> u64" where
  "te_key e \<equiv> (te_created e, te_id e)"

definition time_inv :: "TimeIndex \<Rightarrow> bool" where
  "time_inv t \<longleftrightarrow> sorted (map te_key (ti_e t)) \<and> length (ti_e t) \<le> ti_cap t"

text \<open>The ids of the entries created in the closed interval, in the order of the array.\<close>

definition ids_between :: "TimeIndex \<Rightarrow> u64 \<Rightarrow> u64 \<Rightarrow> u64 list" where
  "ids_between t start stop = map te_id (filter (\<lambda>e. start \<le> te_created e \<and> te_created e \<le> stop) (ti_e t))"

interpretation te: sorted_array te_key "\<lambda>e k. cmp_key (te_created e) (te_id e) (fst k) (snd k) < 0"
  by unfold_locales (auto simp: cmp_key_def less_prod_simp split: prod.splits)

lemma lower_bound_te:
  "lower_bound e c i =
     bsearch (\<lambda>mid. cmp_key (te_created (e ! mid)) (te_id (e ! mid)) (fst (c, i)) (snd (c, i)) < 0) 0 (length e)"
  by (simp add: lower_bound_def)

lemma mset_insert_at: "mset (insert_at pos x xs) = add_mset x (mset xs)"
proof -
  have "mset (take pos xs) + mset (drop pos xs) = mset xs"
    by (metis append_take_drop_id mset_append)
  then show ?thesis by (simp add: insert_at_def)
qed

lemma insert_at_Nil [simp]: "insert_at pos x [] = [x]"
  by (simp add: insert_at_def)

lemma mset_remove_at: "pos < length xs \<Longrightarrow> mset (remove_at pos xs) = mset xs - {#xs ! pos#}"
proof -
  assume "pos < length xs"
  then have "xs = take pos xs @ xs ! pos # drop (Suc pos) xs" by (simp add: id_take_nth_drop)
  then have "mset xs = add_mset (xs ! pos) (mset (remove_at pos xs))"
    unfolding remove_at_def by (metis mset_append mset.simps(2) union_mset_add_mset_right)
  then show ?thesis by simp
qed

lemma time_add_inv:
  assumes "time_inv t" and "time_index_add mem t c i = (rv, t')"
  shows "time_inv t'" and "rv = 0 \<Longrightarrow> mset (ti_e t') = add_mset \<lparr>te_created = c, te_id = i\<rparr> (mset (ti_e t))"
    and "rv \<noteq> 0 \<Longrightarrow> t' = t"
  using assms te.sorted_insert [of "ti_e t" _ "\<lparr>te_created = c, te_id = i\<rparr>"]
  by (auto simp: time_index_add_def time_inv_def Let_def lower_bound_te length_insert_at mset_insert_at
      split: if_splits)

lemma te_self [simp]: "\<lparr>te_created = te_created e, te_id = te_id e\<rparr> = e"
  by (cases e) simp

lemma te_eqI: "te_created e = c \<Longrightarrow> te_id e = i \<Longrightarrow> e = \<lparr>te_created = c, te_id = i\<rparr>"
  by (cases e) simp

lemma time_remove_inv:
  assumes inv: "time_inv t"
  shows "time_inv (time_index_remove t c i)"
    and "mset (ti_e (time_index_remove t c i)) = mset (ti_e t) - {#\<lparr>te_created = c, te_id = i\<rparr>#}"
proof -
  let ?x = "\<lparr>te_created = c, te_id = i\<rparr>" and ?pos = "lower_bound (ti_e t) c i"
  have s: "sorted (map te_key (ti_e t))" using inv by (simp add: time_inv_def)
  have found: "?pos < length (ti_e t) \<and> te_key (ti_e t ! ?pos) = (c, i) \<longleftrightarrow> (c, i) \<in> te_key ` set (ti_e t)"
    by (rule te.found_iff [OF s]) (simp add: lower_bound_te)
  show "time_inv (time_index_remove t c i)"
    using inv te.sorted_remove [OF s] by (auto simp: time_index_remove_def Let_def time_inv_def length_remove_at)
  show "mset (ti_e (time_index_remove t c i)) = mset (ti_e t) - {#?x#}"
  proof (cases "?x \<in> set (ti_e t)")
    case True
    then have "(c, i) \<in> te_key ` set (ti_e t)" by (force simp: image_iff)
    then have "?pos < length (ti_e t)" "te_created (ti_e t ! ?pos) = c" "te_id (ti_e t ! ?pos) = i"
      using found by auto
    moreover from this have "ti_e t ! ?pos = ?x" by (intro te_eqI) simp_all
    ultimately show ?thesis by (simp add: time_index_remove_def Let_def mset_remove_at)
  next
    case False
    then have "(c, i) \<notin> te_key ` set (ti_e t)" by auto
    then have "time_index_remove t c i = t" using found by (auto simp: time_index_remove_def Let_def)
    then show ?thesis using False by (simp add: diff_single_trivial)
  qed
qed


lemma te_mset_inj:
  assumes "mset xs = mset ys" and "sorted (map te_key xs)" and "sorted (map te_key ys)"
  shows "xs = ys"
proof -
  have inj: "inj te_key" by (rule injI) (metis te_self prod.inject)
  have "mset (map te_key xs) = mset (map te_key ys)" using assms(1) by simp
  then have "map te_key xs = map te_key ys"
    using properties_for_sort [of "map te_key xs" "map te_key ys"] sorted_sort_id [OF assms(3)] assms(2) by simp
  then show ?thesis using inj by (simp add: inj_map_eq_map)
qed

section \<open>The range queries\<close>

lemma from_start:
  assumes "time_inv t"
  shows "drop (lower_bound (ti_e t) start 0) (ti_e t) = filter (\<lambda>e. start \<le> te_created e) (ti_e t)"
    and "lower_bound (ti_e t) start 0 \<le> length (ti_e t)"
proof -
  have s: "sorted (map te_key (ti_e t))" using assms by (simp add: time_inv_def)
  have k: "((start, 0) \<le> te_key e) = (start \<le> te_created e)" for e
    by (auto simp: less_eq_prod_simp)
  show "drop (lower_bound (ti_e t) start 0) (ti_e t) = filter (\<lambda>e. start \<le> te_created e) (ti_e t)"
    using te.take_eq_filter(2) [OF s lower_bound_te] by (simp only: k)
  show "lower_bound (ti_e t) start 0 \<le> length (ti_e t)"
    by (rule te.lower_bound(1) [OF s lower_bound_te])
qed

lemma sorted_created: "sorted (map te_key es) \<Longrightarrow> sorted (map te_created es)"
  by (rule sorted_fst_key)

lemma range_loop_take:
  assumes "\<And>n. mem n" and "sorted (map te_created es)"
  shows "range_loop mem stop mx es ids cap =
    Some (ids @ (let r = map te_id (filter (\<lambda>e. te_created e \<le> stop) es)
                 in if mx = 0 then r else take (mx - length ids) r))"
  using assms(2)
proof (induction es arbitrary: ids cap)
  case (Cons e es)
  have none: "filter (\<lambda>e. te_created e \<le> stop) es = []" if "stop < te_created e"
    using Cons.prems that by (auto simp: filter_empty_conv)
  have d: "mx - Suc (length ids) = mx - length ids - 1" by simp
  show ?case
    using Cons none assms(1) by (cases "mx - length ids") (auto simp: Let_def not_less d)
qed simp

lemma filter_between:
  "filter (\<lambda>e. te_created e \<le> stop) (filter (\<lambda>e. start \<le> te_created e) es) =
   filter (\<lambda>e. start \<le> te_created e \<and> te_created e \<le> stop) es"
  by (simp add: conj_commute)

lemma range_exact:
  assumes "time_inv t" and "\<And>n. mem n"
  shows "time_index_range mem t start stop mx =
    Some (if mx = 0 then ids_between t start stop else take mx (ids_between t start stop))"
proof -
  have "sorted (map te_created (filter (\<lambda>e. start \<le> te_created e) (ti_e t)))"
    using assms(1) by (intro sorted_created sorted_filter) (simp add: time_inv_def)
  from range_loop_take [of mem, OF assms(2) this] show ?thesis
    by (simp add: time_index_range_def from_start [OF assms(1)] assms(2) ids_between_def
        filter_between Let_def take_map)
qed

lemma span_eq_filter:
  assumes "sorted (map te_created es)" and "lo \<le> length es"
    and "hi = bsearch (\<lambda>mid. \<not> stop < te_created (es ! mid)) lo (length es)"
  shows "take (hi - lo) (drop lo es) = filter (\<lambda>e. te_created e \<le> stop) (drop lo es)"
    and "lo \<le> hi" and "hi \<le> length es"
proof -
  have "\<not> stop < te_created (es ! i)" if "i \<le> j" "j < length es" "\<not> stop < te_created (es ! j)" for i j
    using sorted_nth_mono [OF assms(1) that(1)] that by simp
  then have b: "lo \<le> hi \<and> hi \<le> length es \<and> (\<forall>i. lo \<le> i \<and> i < hi \<longrightarrow> \<not> stop < te_created (es ! i)) \<and>
      (\<forall>i. hi \<le> i \<and> i < length es \<longrightarrow> stop < te_created (es ! i))"
    using bsearch_spec [OF assms(2), of "\<lambda>mid. \<not> stop < te_created (es ! mid)"] unfolding assms(3) by blast
  then show "lo \<le> hi" and "hi \<le> length es" by auto
  let ?a = "take (hi - lo) (drop lo es)" and ?z = "drop hi es"
  have split: "drop lo es = ?a @ ?z"
    using b by (metis append_take_drop_id drop_drop le_add_diff_inverse2)
  have "filter (\<lambda>e. te_created e \<le> stop) ?a = ?a" "filter (\<lambda>e. te_created e \<le> stop) ?z = []"
    using b by (auto simp: filter_id_conv filter_empty_conv in_set_conv_nth not_less not_le)
  then show "?a = filter (\<lambda>e. te_created e \<le> stop) (drop lo es)"
    by (subst split) simp
qed

lemma map_nth_span:
  "lo + k \<le> length es \<Longrightarrow> map (\<lambda>i. f (es ! (lo + i))) [0..<k] = map f (take k (drop lo es))"
  by (rule nth_equalityI) simp_all

lemma recent_exact:
  assumes "time_inv t" and "mem 0"
  shows "time_index_range_recent mem t start stop mx =
    (let r = ids_between t start stop
     in Some (if mx \<noteq> 0 \<and> mx < length r then (drop (length r - mx) r, True) else (r, False)))"
proof -
  let ?e = "ti_e t"
  define lo where "lo = lower_bound ?e start 0"
  define hi where "hi = bsearch (\<lambda>mid. \<not> stop < te_created (?e ! mid)) lo (length ?e)"
  have s: "sorted (map te_created ?e)" using assms(1) by (simp add: time_inv_def sorted_created)
  have lo: "lo \<le> length ?e" unfolding lo_def by (rule from_start(2) [OF assms(1)])
  note sp = span_eq_filter [OF s lo hi_def]
  have r: "ids_between t start stop = map te_id (take (hi - lo) (drop lo ?e))"
    unfolding sp(1) unfolding lo_def from_start(1) [OF assms(1)] filter_between ids_between_def ..
  have len: "length (ids_between t start stop) = hi - lo" using r sp(2,3) by simp
  have all: "map (\<lambda>i. te_id (?e ! (lo + i))) [0..<hi - lo] = ids_between t start stop"
    using sp(2,3) by (simp add: r map_nth_span)
  have cut: "map (\<lambda>i. te_id (?e ! (hi - mx + i))) [0..<mx] = drop (hi - lo - mx) (ids_between t start stop)"
    if "mx < hi - lo"
    using that sp(2,3) by (subst map_nth_span) (auto simp: r drop_map drop_take)
  show ?thesis
  proof (cases "mx \<noteq> 0 \<and> mx < hi - lo")
    case True
    then show ?thesis
      using assms(2) cut len
      by (simp only: time_index_range_recent_def Let_def lo_def [symmetric] hi_def [symmetric]) simp
  next
    case False
    then show ?thesis
      unfolding time_index_range_recent_def Let_def lo_def [symmetric] hi_def [symmetric]
      using assms(2) all len by auto
  qed
qed

section \<open>Properties\<close>

text \<open>
  Adding keeps the array sorted and adds exactly one entry, or fails for want of memory and
  changes nothing; removing keeps it sorted and takes away exactly one entry with the given
  time and id, or nothing if there is none; so a removal undoes an addition.
\<close>

lemma time_index_add_remove:
  assumes "time_inv t" and "time_index_add mem t created i = (rv, t')"
  shows "time_inv t' \<and> time_inv (time_index_remove t' created i) \<and>
    (if rv = 0
     then mset (ti_e t') = add_mset \<lparr>te_created = created, te_id = i\<rparr> (mset (ti_e t)) \<and>
          ti_e (time_index_remove t' created i) = ti_e t
     else rv = -1 \<and> t' = t)"
proof -
  note add = time_add_inv [OF assms]
  note rem = time_remove_inv [OF add(1), of created i]
  have "ti_e (time_index_remove t' created i) = ti_e t" if "rv = 0"
  proof (rule te_mset_inj)
    show "mset (ti_e (time_index_remove t' created i)) = mset (ti_e t)"
      using rem(2) add(2) [OF that] by simp
  qed (use rem(1) assms(1) in \<open>simp_all add: time_inv_def\<close>)
  moreover have "rv \<noteq> 0 \<Longrightarrow> rv = -1" using assms(2) by (auto simp: time_index_add_def Let_def split: if_splits)
  ultimately show ?thesis using add rem(1) by auto
qed

text \<open>
  C29. The range query returns the ids created in the closed interval, oldest first, and at most
  the oldest \<^verbatim>\<open>max\<close> of them when a bound is given.
\<close>

theorem time_index_range_exact:
  assumes "time_inv t" and "\<And>n. mem n"
  shows "time_index_range mem t start stop mx =
    Some (if mx = 0 then ids_between t start stop else take mx (ids_between t start stop))"
  by (rule range_exact [OF assms])

theorem time_index_range_exact_witness:
  "time_index_range mem_ok \<lparr>ti_e = [\<lparr>te_created = 3, te_id = 7\<rparr>, \<lparr>te_created = 4, te_id = 2\<rparr>,
     \<lparr>te_created = 9, te_id = 5\<rparr>], ti_cap = 256\<rparr> 4 9 1 = Some [2]"
  using time_index_range_exact [of "\<lparr>ti_e = [\<lparr>te_created = 3, te_id = 7\<rparr>, \<lparr>te_created = 4, te_id = 2\<rparr>,
     \<lparr>te_created = 9, te_id = 5\<rparr>], ti_cap = 256\<rparr>" mem_ok 4 9 1]
  by (simp add: time_inv_def ids_between_def)

text \<open>
  The bounded recency query returns the same ids in the same order when they fit, and
  otherwise exactly the most recent \<^verbatim>\<open>max\<close> of them, and it reports a truncation if and only if
  something was dropped.
\<close>

lemma time_index_range_recent_exact:
  assumes "time_inv t" and "mem 0"
  shows "time_index_range_recent mem t start stop mx =
    (let r = ids_between t start stop
     in Some (if mx \<noteq> 0 \<and> mx < length r then (drop (length r - mx) r, True) else (r, False)))"
  using assms by (rule recent_exact)

end
