(* ===== verification/String_Table.thy ===== *)
theory String_Table
  imports Aegis_Prelude
begin

text \<open>
  The chained hash tables keyed by a C string that the tag index, the edge index and the fact
  index share in shape: a fixed array of buckets, each a singly linked list. A bucket array is a
  function from the bucket number to the list of its nodes, head first. Shown: find, insertion
  at the head, in-place change and unlinking act on the finite map from strings to nodes.
\<close>

section \<open>Operations on a table\<close>

definition hash_bucket :: "nat \<Rightarrow> cstr \<Rightarrow> nat" where
  "hash_bucket nb s = unat (fnv1a s) mod nb"

definition table_find :: "('n \<Rightarrow> cstr) \<Rightarrow> nat \<Rightarrow> (nat \<Rightarrow> 'n list) \<Rightarrow> cstr \<Rightarrow> 'n option" where
  "table_find key nb bk s = find (\<lambda>n. key n = s) (bk (hash_bucket nb s))"

text \<open>\<^verbatim>\<open>n->next = buckets[b]; buckets[b] = n;\<close>\<close>

definition table_push :: "('n \<Rightarrow> cstr) \<Rightarrow> nat \<Rightarrow> (nat \<Rightarrow> 'n list) \<Rightarrow> 'n \<Rightarrow> nat \<Rightarrow> 'n list" where
  "table_push key nb bk n = bk(hash_bucket nb (key n) := n # bk (hash_bucket nb (key n)))"

text \<open>A store through the pointer to the first node with the given string.\<close>

fun chain_update :: "('n \<Rightarrow> cstr) \<Rightarrow> cstr \<Rightarrow> ('n \<Rightarrow> 'n) \<Rightarrow> 'n list \<Rightarrow> 'n list" where
  "chain_update key s f [] = []"
| "chain_update key s f (n # ns) = (if key n = s then f n # ns else n # chain_update key s f ns)"

definition table_update :: "('n \<Rightarrow> cstr) \<Rightarrow> nat \<Rightarrow> (nat \<Rightarrow> 'n list) \<Rightarrow> cstr \<Rightarrow> ('n \<Rightarrow> 'n) \<Rightarrow> nat \<Rightarrow> 'n list" where
  "table_update key nb bk s f = bk(hash_bucket nb s := chain_update key s f (bk (hash_bucket nb s)))"

text \<open>Unlinking the first node with the given string.\<close>

fun chain_unlink :: "('n \<Rightarrow> cstr) \<Rightarrow> cstr \<Rightarrow> 'n list \<Rightarrow> 'n list" where
  "chain_unlink key s [] = []"
| "chain_unlink key s (n # ns) = (if key n = s then ns else n # chain_unlink key s ns)"

definition table_unlink :: "('n \<Rightarrow> cstr) \<Rightarrow> nat \<Rightarrow> (nat \<Rightarrow> 'n list) \<Rightarrow> cstr \<Rightarrow> nat \<Rightarrow> 'n list" where
  "table_unlink key nb bk s = bk(hash_bucket nb s := chain_unlink key s (bk (hash_bucket nb s)))"

section \<open>Well-formed tables and the map they stand for\<close>

definition table_ok :: "('n \<Rightarrow> cstr) \<Rightarrow> nat \<Rightarrow> (nat \<Rightarrow> 'n list) \<Rightarrow> bool" where
  "table_ok key nb bk \<longleftrightarrow>
     (\<forall>b. distinct (map key (bk b)) \<and> (\<forall>n \<in> set (bk b). hash_bucket nb (key n) = b))"

lemma table_find_key: "table_find key nb bk s = Some n \<Longrightarrow> key n = s"
  by (auto simp: table_find_def find_Some_iff)

lemma table_find_in: "table_find key nb bk s = Some n \<Longrightarrow> n \<in> set (bk (hash_bucket nb s))"
  by (auto simp: table_find_def find_Some_iff)

lemma table_find_None: "table_find key nb bk s = None \<longleftrightarrow> s \<notin> key ` set (bk (hash_bucket nb s))"
  by (auto simp: table_find_def find_None_iff)

lemma table_ok_empty [simp]: "table_ok key nb (\<lambda>_. [])"
  by (simp add: table_ok_def)

lemma table_find_empty [simp]: "table_find key nb (\<lambda>_. []) s = None"
  by (simp add: table_find_def)

lemma table_find_push:
  "table_find key nb (table_push key nb bk n) s = (if s = key n then Some n else table_find key nb bk s)"
  by (auto simp: table_find_def table_push_def)

lemma table_ok_push:
  assumes "table_ok key nb bk" and "table_find key nb bk (key n) = None"
  shows "table_ok key nb (table_push key nb bk n)"
  using assms by (auto simp: table_ok_def table_push_def table_find_None)

lemma find_chain_update:
  "(\<And>n. key n = s \<Longrightarrow> key (f n) = s) \<Longrightarrow>
   find (\<lambda>n. key n = s') (chain_update key s f ns) =
     (if s' = s then map_option f (find (\<lambda>n. key n = s) ns) else find (\<lambda>n. key n = s') ns)"
  by (induction ns) auto

lemma table_find_update:
  assumes "\<And>n. key n = s \<Longrightarrow> key (f n) = s"
  shows "table_find key nb (table_update key nb bk s f) s' =
    (if s' = s then map_option f (table_find key nb bk s) else table_find key nb bk s')"
  using find_chain_update [of key s f, OF assms] by (simp add: table_find_def table_update_def)

lemma map_key_chain_update:
  "(\<And>n. key n = s \<Longrightarrow> key (f n) = s) \<Longrightarrow> map key (chain_update key s f ns) = map key ns"
  by (induction ns) auto

lemma table_ok_update:
  assumes "table_ok key nb bk" and "\<And>n. key n = s \<Longrightarrow> key (f n) = s"
  shows "table_ok key nb (table_update key nb bk s f)"
proof -
  have m: "map key (table_update key nb bk s f b) = map key (bk b)" for b
    using map_key_chain_update [of key s f, OF assms(2)] by (simp add: table_update_def)
  have "hash_bucket nb (key n) = b" if "n \<in> set (table_update key nb bk s f b)" for n b
  proof -
    have "key n \<in> set (map key (bk b))" using that unfolding m [symmetric] by simp
    then show ?thesis using assms(1) by (auto simp: table_ok_def)
  qed
  then show ?thesis using assms(1) by (simp add: table_ok_def m)
qed

lemma set_chain_unlink: "distinct (map key ns) \<Longrightarrow> set (chain_unlink key s ns) = {n \<in> set ns. key n \<noteq> s}"
  by (induction ns) (auto simp: image_iff)

lemma distinct_chain_unlink: "distinct (map key ns) \<Longrightarrow> distinct (map key (chain_unlink key s ns))"
  by (induction ns) (auto simp: set_chain_unlink)

lemma find_chain_unlink:
  "distinct (map key ns) \<Longrightarrow>
   find (\<lambda>n. key n = s') (chain_unlink key s ns) = (if s' = s then None else find (\<lambda>n. key n = s') ns)"
  by (induction ns) (auto simp: find_None_iff image_iff)

lemma table_find_unlink:
  assumes "table_ok key nb bk"
  shows "table_find key nb (table_unlink key nb bk s) s' = (if s' = s then None else table_find key nb bk s')"
  using assms by (simp add: table_find_def table_unlink_def table_ok_def find_chain_unlink)

lemma table_ok_unlink: "table_ok key nb bk \<Longrightarrow> table_ok key nb (table_unlink key nb bk s)"
  by (auto simp: table_ok_def table_unlink_def distinct_chain_unlink set_chain_unlink)

text \<open>A property of every node, and how the operations keep it.\<close>

lemma table_all_update:
  assumes "\<And>b n. n \<in> set (bk b) \<Longrightarrow> P n" and "\<And>n. table_find key nb bk s = Some n \<Longrightarrow> P (f n)"
    and "n \<in> set (table_update key nb bk s f b)"
  shows "P n"
proof (cases "b = hash_bucket nb s")
  case True
  have "n \<in> set (chain_update key s f ns) \<Longrightarrow> n \<in> set ns \<or> (\<exists>m. find (\<lambda>n. key n = s) ns = Some m \<and> n = f m)"
    for n ns by (induction ns) (auto split: if_splits)
  with assms True show ?thesis by (fastforce simp: table_update_def table_find_def)
qed (use assms in \<open>auto simp: table_update_def\<close>)

end
