(* ===== verification/Tag_Index.thy ===== *)
theory Tag_Index
  imports String_Table
begin

text \<open>
  The inverted tag index of \<^verbatim>\<open>src/src/storage/tag_index.c\<close>: a chained table from tags to sorted
  arrays of record ids. Shown: add and remove act on the set of ids of their tag and on no
  other; the query returns, in ascending order and without duplicates, the intersection or the
  union of the sets of the requested tags; a tag whose last id goes away leaves the table.
\<close>

section \<open>State\<close>

record TagNode =
  tn_tag :: cstr
  tn_ids :: "u64 list"
  tn_cap :: nat

record TagIndex =
  tx_buckets :: "nat \<Rightarrow> TagNode list"

definition NBUCKETS :: nat where
  "NBUCKETS = 1024"

definition hash_str :: "cstr \<Rightarrow> nat" where
  "hash_str s = hash_bucket NBUCKETS s"

section \<open>Operations\<close>

definition tag_index_create :: "alloc \<Rightarrow> TagIndex option" where
  "tag_index_create mem = (if \<not> mem 0 then None else Some \<lparr>tx_buckets = (\<lambda>_. [])\<rparr>)"

definition tag_index_count :: "TagIndex option \<Rightarrow> nat" where
  "tag_index_count t =
     (case t of None \<Rightarrow> 0
      | Some t \<Rightarrow> fold (\<lambda>i n. n + length (tx_buckets t i)) [0..<NBUCKETS] 0)"

definition find_node :: "TagIndex \<Rightarrow> cstr \<Rightarrow> TagNode option" where
  "find_node t tag = table_find tn_tag NBUCKETS (tx_buckets t) tag"

definition id_lower_bound :: "u64 list \<Rightarrow> u64 \<Rightarrow> nat" where
  "id_lower_bound ids i = bsearch (\<lambda>mid. ids ! mid < i) 0 (length ids)"

text \<open>The test \<^verbatim>\<open>pos < n && ids[pos] == id\<close> that follows every search.\<close>

definition id_at :: "u64 list \<Rightarrow> nat \<Rightarrow> u64 \<Rightarrow> bool" where
  "id_at ids pos i \<longleftrightarrow> pos < length ids \<and> ids ! pos = i"

definition tag_index_add :: "alloc \<Rightarrow> TagIndex \<Rightarrow> cstr \<Rightarrow> u64 \<Rightarrow> int \<times> TagIndex" where
  "tag_index_add mem t tag i =
     (if find_node t tag = None \<and> (\<not> mem 0 \<or> \<not> mem 1) then (-1, t)
      else let t1 = (case find_node t tag of
                       Some _ \<Rightarrow> t
                     | None \<Rightarrow> t\<lparr>tx_buckets := table_push tn_tag NBUCKETS (tx_buckets t)
                                    \<lparr>tn_tag = tag, tn_ids = [], tn_cap = 0\<rparr>\<rparr>);
               n = the (find_node t1 tag);
               pos = id_lower_bound (tn_ids n) i
           in if id_at (tn_ids n) pos i then (0, t1)
              else if length (tn_ids n) = tn_cap n \<and> \<not> mem 2 then (-1, t1)
              else let cap = (if length (tn_ids n) = tn_cap n
                              then if tn_cap n \<noteq> 0 then tn_cap n * 2 else 8 else tn_cap n)
                   in (0, t1\<lparr>tx_buckets := table_update tn_tag NBUCKETS (tx_buckets t1) tag
                              (\<lambda>n. n\<lparr>tn_ids := insert_at pos i (tn_ids n), tn_cap := cap\<rparr>)\<rparr>))"

definition tag_index_remove :: "TagIndex \<Rightarrow> cstr \<Rightarrow> u64 \<Rightarrow> TagIndex" where
  "tag_index_remove t tag i =
     (case find_node t tag of
        None \<Rightarrow> t
      | Some n \<Rightarrow>
          let pos = id_lower_bound (tn_ids n) i;
              ids = (if id_at (tn_ids n) pos i then remove_at pos (tn_ids n) else tn_ids n)
          in if length ids = 0
             then t\<lparr>tx_buckets := table_unlink tn_tag NBUCKETS (tx_buckets t) tag\<rparr>
             else t\<lparr>tx_buckets := table_update tn_tag NBUCKETS (tx_buckets t) tag (\<lambda>n. n\<lparr>tn_ids := ids\<rparr>)\<rparr>)"

fun in_all :: "TagIndex \<Rightarrow> cstr list \<Rightarrow> u64 \<Rightarrow> bool" where
  "in_all t [] i = True"
| "in_all t (tag # tags) i =
     (case find_node t tag of
        None \<Rightarrow> False
      | Some nj \<Rightarrow> if \<not> id_at (tn_ids nj) (id_lower_bound (tn_ids nj) i) i then False
                   else in_all t tags i)"

text \<open>
  The two accumulation loops. \<open>mem (length acc)\<close> is the outcome of the \<^verbatim>\<open>realloc\<close> that a full
  result array of that length asks for.
\<close>

fun collect_all :: "alloc \<Rightarrow> TagIndex \<Rightarrow> cstr list \<Rightarrow> u64 list \<Rightarrow> u64 list \<Rightarrow> nat \<Rightarrow> u64 list option" where
  "collect_all mem t tags [] acc cap = Some acc"
| "collect_all mem t tags (i # ids) acc cap =
     (if in_all t tags i
      then if length acc = cap \<and> \<not> mem (length acc) then None
           else collect_all mem t tags ids (acc @ [i]) (if length acc = cap then cap * 2 else cap)
      else collect_all mem t tags ids acc cap)"

fun merge_ids :: "alloc \<Rightarrow> u64 list \<Rightarrow> u64 list \<Rightarrow> nat \<Rightarrow> (u64 list \<times> nat) option" where
  "merge_ids mem [] acc cap = Some (acc, cap)"
| "merge_ids mem (i # ids) acc cap =
     (let pos = id_lower_bound acc i
      in if id_at acc pos i then merge_ids mem ids acc cap
         else if length acc = cap \<and> \<not> mem (length acc) then None
         else merge_ids mem ids (insert_at pos i acc) (if length acc = cap then cap * 2 else cap))"

fun collect_any :: "alloc \<Rightarrow> TagIndex \<Rightarrow> cstr list \<Rightarrow> u64 list \<Rightarrow> nat \<Rightarrow> u64 list option" where
  "collect_any mem t [] acc cap = Some acc"
| "collect_any mem t (tag # tags) acc cap =
     (case find_node t tag of
        None \<Rightarrow> collect_any mem t tags acc cap
      | Some nj \<Rightarrow>
          (case merge_ids mem (tn_ids nj) acc cap of
             None \<Rightarrow> None
           | Some (acc', cap') \<Rightarrow> collect_any mem t tags acc' cap'))"

definition tag_index_query :: "alloc \<Rightarrow> TagIndex \<Rightarrow> cstr list \<Rightarrow> bool \<Rightarrow> u64 list option" where
  "tag_index_query mem t tags match_all =
     (case tags of
        [] \<Rightarrow> Some []
      | tag0 # rest \<Rightarrow>
          if \<not> mem 0 then None
          else if match_all
          then case find_node t tag0 of
                 None \<Rightarrow> Some []
               | Some base \<Rightarrow> collect_all mem t rest (tn_ids base) [] 16
          else collect_any mem t tags [] 16)"

section \<open>Invariant and abstraction\<close>

definition node_ok :: "TagNode \<Rightarrow> bool" where
  "node_ok n \<longleftrightarrow> sorted (tn_ids n) \<and> distinct (tn_ids n) \<and> length (tn_ids n) \<le> tn_cap n"

definition tag_inv :: "TagIndex \<Rightarrow> bool" where
  "tag_inv t \<longleftrightarrow> table_ok tn_tag NBUCKETS (tx_buckets t) \<and> (\<forall>b. \<forall>n \<in> set (tx_buckets t b). node_ok n)"

definition tag_ids :: "TagIndex \<Rightarrow> cstr \<Rightarrow> u64 set" where
  "tag_ids t tag = (case find_node t tag of None \<Rightarrow> {} | Some n \<Rightarrow> set (tn_ids n))"

section \<open>Sorted arrays of ids\<close>

interpretation ida: sorted_array "\<lambda>i :: u64. i" "(<)"
  by unfold_locales simp

lemma id_at_iff: "sorted ids \<Longrightarrow> id_at ids (id_lower_bound ids i) i \<longleftrightarrow> i \<in> set ids"
  using ida.found_iff [of ids "id_lower_bound ids i" i] by (simp add: id_at_def id_lower_bound_def)

lemma ids_insert:
  assumes "sorted ids" and "distinct ids" and "i \<notin> set ids" and "pos = id_lower_bound ids i"
  shows "sorted (insert_at pos i ids)" and "distinct (insert_at pos i ids)"
    and "set (insert_at pos i ids) = insert i (set ids)"
  using assms ida.sorted_insert [of ids pos i] ida.distinct_insert [of ids i pos]
  by (simp_all add: id_lower_bound_def set_insert_at)

lemma ids_remove:
  assumes "sorted ids" and "distinct ids" and "id_at ids pos i"
  shows "sorted (remove_at pos ids)" and "distinct (remove_at pos ids)"
    and "set (remove_at pos ids) = set ids - {i}" and "length (remove_at pos ids) \<le> length ids"
  using assms ida.sorted_remove [of ids pos] ida.distinct_remove [of ids pos]
    set_remove_at_distinct [of ids pos] length_remove_at [of pos ids]
  by (simp_all add: id_at_def)

lemma find_node_ok: "tag_inv t \<Longrightarrow> find_node t tag = Some n \<Longrightarrow> node_ok n"
  by (auto simp: tag_inv_def find_node_def dest: table_find_in)

section \<open>The operations on the sets\<close>

lemma ensure_node:
  assumes inv: "tag_inv t"
    and t1: "t1 = (case find_node t tag of Some _ \<Rightarrow> t
      | None \<Rightarrow> t\<lparr>tx_buckets := table_push tn_tag NBUCKETS (tx_buckets t) \<lparr>tn_tag = tag, tn_ids = [], tn_cap = 0\<rparr>\<rparr>)"
  shows "tag_inv t1" and "tag_ids t1 = tag_ids t" and "\<exists>n. find_node t1 tag = Some n"
proof -
  show "tag_inv t1"
    using inv table_ok_push [of tn_tag NBUCKETS "tx_buckets t" "\<lparr>tn_tag = tag, tn_ids = [], tn_cap = 0\<rparr>"]
    by (auto simp: t1 tag_inv_def find_node_def node_ok_def table_push_def split: option.split)
  show "tag_ids t1 = tag_ids t"
    by (rule ext) (auto simp: t1 tag_ids_def find_node_def table_find_push split: option.splits)
  show "\<exists>n. find_node t1 tag = Some n"
    by (auto simp: t1 find_node_def table_find_push split: option.split)
qed

lemma update_node:
  assumes inv: "tag_inv t" and n: "find_node t tag = Some n" and ok: "node_ok (f n)"
    and key: "\<And>m. tn_tag (f m) = tn_tag m"
    and t': "t' = t\<lparr>tx_buckets := table_update tn_tag NBUCKETS (tx_buckets t) tag f\<rparr>"
  shows "tag_inv t'" and "tag_ids t' = (tag_ids t)(tag := set (tn_ids (f n)))"
proof -
  have all: "\<And>b m. m \<in> set (tx_buckets t b) \<Longrightarrow> node_ok m" using inv by (simp add: tag_inv_def)
  have "table_ok tn_tag NBUCKETS (tx_buckets t')"
    using inv key by (auto simp: t' tag_inv_def intro: table_ok_update)
  moreover have "node_ok m" if "m \<in> set (tx_buckets t' b)" for m b
    by (rule table_all_update [of "tx_buckets t" node_ok, OF all])
      (use that n ok in \<open>auto simp: t' find_node_def\<close>)
  ultimately show "tag_inv t'" by (simp add: tag_inv_def)
  show "tag_ids t' = (tag_ids t)(tag := set (tn_ids (f n)))"
    using n key by (intro ext) (simp add: t' tag_ids_def find_node_def table_find_update)
qed

lemma tag_add_ok:
  assumes inv: "tag_inv t" and add: "tag_index_add mem t tag i = (rv, t')"
  shows "tag_inv t' \<and>
    tag_ids t' = (if rv = 0 then (tag_ids t)(tag := insert i (tag_ids t tag)) else tag_ids t) \<and>
    (rv = 0 \<or> rv = -1)"
proof (cases "find_node t tag = None \<and> (\<not> mem 0 \<or> \<not> mem 1)")
  case False
  define t1 where "t1 = (case find_node t tag of Some _ \<Rightarrow> t
      | None \<Rightarrow> t\<lparr>tx_buckets := table_push tn_tag NBUCKETS (tx_buckets t) \<lparr>tn_tag = tag, tn_ids = [], tn_cap = 0\<rparr>\<rparr>)"
  note e = ensure_node [OF inv t1_def]
  obtain n where n: "find_node t1 tag = Some n" using e(3) by blast
  have ok: "node_ok n" using find_node_ok [OF e(1) n] .
  have ids: "tag_ids t tag = set (tn_ids n)" unfolding e(2) [symmetric] by (simp add: tag_ids_def n)
  define pos where "pos = id_lower_bound (tn_ids n) i"
  define cap where "cap = (if length (tn_ids n) = tn_cap n
      then if tn_cap n \<noteq> 0 then tn_cap n * 2 else 8 else tn_cap n)"
  have r: "tag_index_add mem t tag i =
      (if id_at (tn_ids n) pos i then (0, t1)
       else if length (tn_ids n) = tn_cap n \<and> \<not> mem 2 then (-1, t1)
       else (0, t1\<lparr>tx_buckets := table_update tn_tag NBUCKETS (tx_buckets t1) tag
                  (\<lambda>n. n\<lparr>tn_ids := insert_at pos i (tn_ids n), tn_cap := cap\<rparr>)\<rparr>))"
    unfolding tag_index_add_def t1_def [symmetric] Let_def if_not_P [OF False] n option.sel
      pos_def cap_def ..
  show ?thesis
  proof (cases "i \<in> set (tn_ids n)")
    case True
    then have "id_at (tn_ids n) pos i" using ok by (simp add: pos_def id_at_iff node_ok_def)
    with r add e(1,2) True ids show ?thesis by (auto simp: insert_absorb fun_eq_iff)
  next
    case new: False
    let ?f = "\<lambda>n. n\<lparr>tn_ids := insert_at pos i (tn_ids n), tn_cap := cap\<rparr>"
    have at: "\<not> id_at (tn_ids n) pos i" using new ok by (simp add: pos_def id_at_iff node_ok_def)
    note ins = ids_insert [of "tn_ids n" i pos, OF _ _ new pos_def]
    have "node_ok (?f n)" using ok ins by (auto simp: node_ok_def length_insert_at cap_def)
    note u = update_node [of t1 tag n ?f, OF e(1) n this _ refl]
    show ?thesis
      using r add at u ins ok e ids by (auto simp: node_ok_def split: if_splits)
  qed
qed (use add inv in \<open>simp add: tag_index_add_def\<close>)

lemma tag_remove_ok:
  assumes inv: "tag_inv t"
  shows "tag_inv (tag_index_remove t tag i) \<and>
    tag_ids (tag_index_remove t tag i) = (tag_ids t)(tag := tag_ids t tag - {i}) \<and>
    (tag_ids t tag \<subseteq> {i} \<longrightarrow> find_node (tag_index_remove t tag i) tag = None)"
proof (cases "find_node t tag")
  case None
  then show ?thesis using inv by (auto simp: tag_index_remove_def tag_ids_def fun_eq_iff)
next
  case (Some n)
  define pos where "pos = id_lower_bound (tn_ids n) i"
  define ids where "ids = (if id_at (tn_ids n) pos i then remove_at pos (tn_ids n) else tn_ids n)"
  have ok: "node_ok n" using find_node_ok [OF inv Some] .
  then have srt: "sorted (tn_ids n)" "distinct (tn_ids n)" "length (tn_ids n) \<le> tn_cap n"
    by (simp_all add: node_ok_def)
  have "set ids = set (tn_ids n) - {i} \<and> sorted ids \<and> distinct ids \<and> length ids \<le> tn_cap n"
  proof (cases "id_at (tn_ids n) pos i")
    case True
    then show ?thesis using ids_remove [OF srt(1,2) True] srt(3) by (simp add: ids_def)
  next
    case False
    then have "i \<notin> set (tn_ids n)" using id_at_iff [OF srt(1)] by (simp add: pos_def)
    then show ?thesis using False srt by (simp add: ids_def)
  qed
  then have ids: "set ids = set (tn_ids n) - {i}" and okf: "node_ok (n\<lparr>tn_ids := ids\<rparr>)"
    by (auto simp: node_ok_def)
  have r: "tag_index_remove t tag i = (if ids = []
      then t\<lparr>tx_buckets := table_unlink tn_tag NBUCKETS (tx_buckets t) tag\<rparr>
      else t\<lparr>tx_buckets := table_update tn_tag NBUCKETS (tx_buckets t) tag (\<lambda>n. n\<lparr>tn_ids := ids\<rparr>)\<rparr>)"
    unfolding tag_index_remove_def Some option.case Let_def pos_def [symmetric] ids_def [symmetric] length_0_conv ..
  show ?thesis
  proof (cases "ids = []")
    case True
    have t: "table_ok tn_tag NBUCKETS (tx_buckets t)" using inv by (simp add: tag_inv_def)
    have "tag_inv (t\<lparr>tx_buckets := table_unlink tn_tag NBUCKETS (tx_buckets t) tag\<rparr>)"
      using inv table_ok_unlink [OF t, of tag] t
      by (auto simp: tag_inv_def table_unlink_def set_chain_unlink table_ok_def)
    then show ?thesis
      using True r ids Some table_find_unlink [OF t, of tag]
      by (auto simp: tag_ids_def find_node_def fun_eq_iff)
  next
    case False
    then have "\<not> tag_ids t tag \<subseteq> {i}" using ids Some set_empty [of ids] by (simp add: tag_ids_def)
    with False update_node [of t tag n "\<lambda>n. n\<lparr>tn_ids := ids\<rparr>", OF inv Some okf _ refl] r ids Some show ?thesis by (auto simp: tag_ids_def)
  qed
qed

section \<open>The queries\<close>

lemma in_all_iff: "tag_inv t \<Longrightarrow> in_all t tags i \<longleftrightarrow> (\<forall>tag \<in> set tags. i \<in> tag_ids t tag)"
proof (induction tags)
  case (Cons tag tags)
  show ?case
  proof (cases "find_node t tag")
    case (Some n)
    then have "sorted (tn_ids n)" using find_node_ok [OF Cons.prems] by (simp add: node_ok_def)
    with Some Cons show ?thesis by (auto simp: tag_ids_def id_at_iff)
  qed (simp add: tag_ids_def)
qed simp

lemma collect_all_filter:
  assumes "\<And>n. mem n"
  shows "collect_all mem t tags ids acc cap = Some (acc @ filter (in_all t tags) ids)"
  using assms by (induction ids arbitrary: acc cap) simp_all

lemma merge_ids_ok:
  assumes "\<And>n. mem n" and "sorted acc" and "distinct acc"
  shows "\<exists>acc' cap'. merge_ids mem ids acc cap = Some (acc', cap') \<and> sorted acc' \<and> distinct acc' \<and>
    set acc' = set acc \<union> set ids"
  using assms(2,3)
proof (induction ids arbitrary: acc cap)
  case (Cons i ids)
  define pos where "pos = id_lower_bound acc i"
  show ?case
  proof (cases "i \<in> set acc")
    case True
    then have "id_at acc pos i" using Cons.prems by (simp add: pos_def id_at_iff)
    with Cons.IH [OF Cons.prems, of cap] True show ?thesis by (auto simp: pos_def Let_def)
  next
    case False
    then have "\<not> id_at acc pos i" using Cons.prems by (simp add: pos_def id_at_iff)
    moreover note ins = ids_insert [OF Cons.prems False pos_def]
    ultimately show ?thesis
      using Cons.IH [OF ins(1,2)] assms(1) ins(3) by (simp add: pos_def [symmetric] Let_def)
  qed
qed simp

lemma collect_any_ok:
  assumes "\<And>n. mem n" and "tag_inv t" and "sorted acc" and "distinct acc"
  shows "\<exists>acc'. collect_any mem t tags acc cap = Some acc' \<and> sorted acc' \<and> distinct acc' \<and>
    set acc' = set acc \<union> (\<Union>tag \<in> set tags. tag_ids t tag)"
  using assms(3,4)
proof (induction tags arbitrary: acc cap)
  case (Cons tag tags)
  show ?case
  proof (cases "find_node t tag")
    case None
    then show ?thesis using Cons.IH [OF Cons.prems] by (simp add: tag_ids_def)
  next
    case (Some n)
    obtain acc' cap' where m: "merge_ids mem (tn_ids n) acc cap = Some (acc', cap')" "sorted acc'"
      "distinct acc'" "set acc' = set acc \<union> set (tn_ids n)"
      using merge_ids_ok [of mem acc "tn_ids n" cap, OF assms(1) Cons.prems] by blast
    show ?thesis using Cons.IH [OF m(2,3), of cap'] m Some by (auto simp: tag_ids_def)
  qed
qed simp

definition wanted_ids :: "TagIndex \<Rightarrow> cstr list \<Rightarrow> bool \<Rightarrow> u64 set" where
  "wanted_ids t tags match_all =
     (if tags = [] then {}
      else if match_all then (\<Inter>tag \<in> set tags. tag_ids t tag) else (\<Union>tag \<in> set tags. tag_ids t tag))"

lemma query_ok:
  assumes mem: "\<And>n. mem n" and inv: "tag_inv t"
  shows "\<exists>out. tag_index_query mem t tags match_all = Some out \<and> sorted out \<and> distinct out \<and>
    set out = wanted_ids t tags match_all"
proof (cases tags)
  case (Cons tag0 rest)
  show ?thesis
  proof (cases match_all)
    case False
    then show ?thesis
      using collect_any_ok [of mem t "[]" tags 16, OF mem inv] Cons mem
      by (auto simp: tag_index_query_def wanted_ids_def simp del: collect_any.simps)
  next
    case True
    show ?thesis
    proof (cases "find_node t tag0")
      case None
      then show ?thesis using True Cons mem by (simp add: tag_index_query_def wanted_ids_def tag_ids_def)
    next
      case (Some n)
      let ?out = "filter (in_all t rest) (tn_ids n)"
      have "tag_index_query mem t tags match_all = Some ?out"
        using True Cons Some mem by (simp add: tag_index_query_def collect_all_filter)
      moreover have "sorted ?out" "distinct ?out"
        using find_node_ok [OF inv Some] sorted_filter [of "\<lambda>x. x" "tn_ids n"] by (simp_all add: node_ok_def)
      moreover have "set ?out = wanted_ids t tags match_all"
        using True Cons Some in_all_iff [OF inv] by (auto simp: wanted_ids_def tag_ids_def)
      ultimately show ?thesis by blast
    qed
  qed
qed (simp add: tag_index_query_def wanted_ids_def)

lemma create_inv: "tag_inv \<lparr>tx_buckets = (\<lambda>_. [])\<rparr>"
  by (simp add: tag_inv_def)

section \<open>Properties\<close>

text \<open>
  An add that returns 0 inserts the id into the set of its tag and changes no other set; one
  that returns -1 changes no set. A remove deletes the id from the set of its tag and from no
  other, and a tag left without ids is unlinked from its chain. All keep the index well-formed.
\<close>

lemma tag_index_add_remove:
  assumes "tag_inv t" and "tag_index_add mem t tag i = (rv, t')"
  shows "tag_inv t' \<and> (rv = 0 \<or> rv = -1) \<and>
    tag_ids t' = (if rv = 0 then (tag_ids t)(tag := insert i (tag_ids t tag)) else tag_ids t) \<and>
    tag_inv (tag_index_remove t tag i) \<and>
    tag_ids (tag_index_remove t tag i) = (tag_ids t)(tag := tag_ids t tag - {i}) \<and>
    (tag_ids t tag \<subseteq> {i} \<longrightarrow> find_node (tag_index_remove t tag i) tag = None)"
  using tag_add_ok [OF assms] tag_remove_ok [OF assms(1), of tag i] by simp

text \<open>
  C28. A query with at least one tag returns the ids that carry all of the tags, or any of them, in
  ascending order and without duplicates; a query without tags returns nothing.
\<close>

theorem tag_index_query_exact:
  assumes "tag_inv t" and "\<And>n. mem n"
  shows "tag_index_query mem t tags match_all = Some (sorted_list_of_set (wanted_ids t tags match_all))"
proof -
  obtain out where out: "tag_index_query mem t tags match_all = Some out" "sorted out" "distinct out"
    "set out = wanted_ids t tags match_all"
    using query_ok [of mem t tags match_all, OF assms(2,1)] by blast
  then show ?thesis using sorted_list_of_set.idem_if_sorted_distinct [of out] by simp
qed

theorem tag_index_query_exact_witness:
  "tag_index_query mem_ok \<lparr>tx_buckets = (\<lambda>_. [])\<rparr> [lit ''a''] False = Some []"
  using tag_index_query_exact [OF create_inv, of mem_ok "[lit ''a'']" False]
  by (simp add: wanted_ids_def tag_ids_def find_node_def)

end
