(* ===== verification/Edge_Index.thy ===== *)
theory Edge_Index
  imports String_Table Open_Addressing Endian
begin

text \<open>
  The reverse relationship index of \<^verbatim>\<open>src/src/storage/edge_index.c\<close>: an open addressing table
  from a target id to the sorted postings (source id, interned kind), beside a chained table
  that interns the kind strings. A pointer to a table slot is its position. A kind node is
  shared in C between its chain and \<^verbatim>\<open>kind_by_id\<close>; its name and id never change, so both places
  hold them, and its use counter is kept once, in \<open>ei_uses\<close> under the index that the node has in
  \<^verbatim>\<open>kind_by_id\<close>.

  Shown: interning is injective and stable; add, remove and remove-target act on the set of
  edges; the counters of edges and of kinds in use are exact; a query returns the postings of
  its target that pass the filter, in ascending order of the source.
\<close>

section \<open>State\<close>

record KindNode =
  kn_name :: cstr
  kn_id :: u16

record EdgePost =
  ep_from :: u64
  ep_kind :: u16

record EdgeTarget =
  et_to :: u64
  et_posts :: "EdgePost list"
  et_cap :: nat
  et_state :: slot_state

record EdgeIndex =
  ei_targets :: "EdgeTarget list"
  ei_tgt_live :: nat
  ei_tgt_used :: nat
  ei_edges :: nat
  ei_kind_buckets :: "nat \<Rightarrow> KindNode list"
  ei_kind_by_id :: "KindNode list"
  ei_uses :: "nat list"
  ei_kinds_live :: nat
  ei_kind_by_id_cap :: nat

record EdgeSource =
  es_from :: u64
  es_kind :: "cstr option"
  es_kind_unknown :: bool

definition EDGE_KIND_NBUCKETS :: nat where
  "EDGE_KIND_NBUCKETS = 1024"

definition EDGE_KIND_NONE :: u16 where
  "EDGE_KIND_NONE = 0"

definition EDGE_KIND_UNKNOWN :: u16 where
  "EDGE_KIND_UNKNOWN = 65535"

definition EDGE_MAX_KINDS :: nat where
  "EDGE_MAX_KINDS = 4096"

definition EDGE_MAX_KIND_LEN :: nat where
  "EDGE_MAX_KIND_LEN = 64"

definition blank_target :: EdgeTarget where
  "blank_target = \<lparr>et_to = 0, et_posts = [], et_cap = 0, et_state = SLOT_EMPTY\<rparr>"

section \<open>Kind interning\<close>

definition kind_hash :: "cstr \<Rightarrow> nat" where
  "kind_hash s = hash_bucket EDGE_KIND_NBUCKETS s"

definition kind_find :: "EdgeIndex \<Rightarrow> cstr \<Rightarrow> KindNode option" where
  "kind_find e kind = table_find kn_name EDGE_KIND_NBUCKETS (ei_kind_buckets e) kind"

definition kind_intern :: "alloc \<Rightarrow> EdgeIndex \<Rightarrow> cstr option \<Rightarrow> u16 \<times> EdgeIndex" where
  "kind_intern mem e kind =
     (case kind of
        None \<Rightarrow> (EDGE_KIND_NONE, e)
      | Some s \<Rightarrow>
          if length s = 0 then (EDGE_KIND_NONE, e)
          else if EDGE_MAX_KIND_LEN < length s then (EDGE_KIND_UNKNOWN, e)
          else case kind_find e s of
                 Some n \<Rightarrow> (kn_id n, e)
               | None \<Rightarrow>
                   let count = length (ei_kind_by_id e);
                       full = (count = ei_kind_by_id_cap e)
                   in if EDGE_MAX_KINDS \<le> count then (EDGE_KIND_UNKNOWN, e)
                      else if full \<and> \<not> mem 0 then (EDGE_KIND_UNKNOWN, e)
                      else let nc = (if full then if ei_kind_by_id_cap e \<noteq> 0 then ei_kind_by_id_cap e * 2 else 16
                                     else ei_kind_by_id_cap e);
                               e1 = e\<lparr>ei_kind_by_id_cap := nc\<rparr>
                           in if \<not> mem 1 then (EDGE_KIND_UNKNOWN, e1)
                              else if \<not> mem 2 then (EDGE_KIND_UNKNOWN, e1)
                              else let n = \<lparr>kn_name = s, kn_id = of_nat (count + 1)\<rparr>
                                   in (kn_id n,
                                       e1\<lparr>ei_kind_buckets := table_push kn_name EDGE_KIND_NBUCKETS (ei_kind_buckets e) n,
                                          ei_kind_by_id := ei_kind_by_id e @ [n],
                                          ei_uses := ei_uses e @ [0]\<rparr>))"

definition kind_lookup :: "EdgeIndex \<Rightarrow> cstr option \<Rightarrow> u16" where
  "kind_lookup e kind =
     (case kind of
        None \<Rightarrow> EDGE_KIND_NONE
      | Some s \<Rightarrow> if s = [] then EDGE_KIND_NONE
                  else case kind_find e s of Some n \<Rightarrow> kn_id n | None \<Rightarrow> EDGE_KIND_UNKNOWN)"

text \<open>The position of the node in \<^verbatim>\<open>kind_by_id\<close>.\<close>

definition kind_node :: "EdgeIndex \<Rightarrow> u16 \<Rightarrow> nat option" where
  "kind_node e k =
     (if k = EDGE_KIND_NONE \<or> k = EDGE_KIND_UNKNOWN \<or> length (ei_kind_by_id e) < unat k then None
      else Some (unat k - 1))"

definition kind_name :: "EdgeIndex \<Rightarrow> u16 \<Rightarrow> cstr option" where
  "kind_name e k = map_option (\<lambda>j. kn_name (ei_kind_by_id e ! j)) (kind_node e k)"

definition kind_use :: "EdgeIndex \<Rightarrow> u16 \<Rightarrow> int \<Rightarrow> EdgeIndex" where
  "kind_use e k delta =
     (case kind_node e k of
        None \<Rightarrow> e
      | Some j \<Rightarrow>
          let u = ei_uses e ! j
          in if 0 < delta
             then e\<lparr>ei_uses := (ei_uses e)[j := u + 1],
                    ei_kinds_live := (if u = 0 then ei_kinds_live e + 1 else ei_kinds_live e)\<rparr>
             else if u \<noteq> 0
             then e\<lparr>ei_uses := (ei_uses e)[j := u - 1],
                    ei_kinds_live := (if u - 1 = 0 then ei_kinds_live e - 1 else ei_kinds_live e)\<rparr>
             else e)"

section \<open>The target table\<close>

definition edge_index_create :: "alloc \<Rightarrow> EdgeIndex option" where
  "edge_index_create mem =
     (if \<not> mem 0 then None
      else Some \<lparr>ei_targets = [], ei_tgt_live = 0, ei_tgt_used = 0, ei_edges = 0,
                 ei_kind_buckets = (\<lambda>_. []), ei_kind_by_id = [], ei_uses = [], ei_kinds_live = 0,
                 ei_kind_by_id_cap = 0\<rparr>)"

definition tgt_find :: "EdgeIndex \<Rightarrow> u64 \<Rightarrow> nat option" where
  "tgt_find e to_id =
     (let tg = ei_targets e
      in if length tg = 0 then None
         else probe_find et_state (\<lambda>t. et_to t = to_id) tg (unat (mix64 to_id) AND (length tg - 1)) 0 (length tg))"

text \<open>\<open>None\<close> is a copy loop that finds no free slot and never returns.\<close>

definition tgt_grow :: "alloc \<Rightarrow> EdgeIndex \<Rightarrow> (int \<times> EdgeIndex) option" where
  "tgt_grow mem e =
     (let ncap = (if length (ei_targets e) \<noteq> 0 then length (ei_targets e) * 2 else 64)
      in if \<not> mem 3 then Some (-1, e)
         else map_option (\<lambda>nt. (0, e\<lparr>ei_targets := nt, ei_tgt_used := ei_tgt_live e\<rparr>))
                (rehash_into et_state (\<lambda>_ t. et_state t \<noteq> SLOT_LIVE) (\<lambda>t. mix64 (et_to t))
                   (ei_targets e) (replicate ncap blank_target)))"

definition empty_target :: "u64 \<Rightarrow> EdgeTarget" where
  "empty_target to_id = \<lparr>et_to = to_id, et_posts = [], et_cap = 0, et_state = SLOT_LIVE\<rparr>"

text \<open>The probe of \<^verbatim>\<open>tgt_put\<close>, which keeps the first tombstone in mind while it looks for the id.\<close>

definition tgt_claim :: "EdgeIndex \<Rightarrow> u64 \<Rightarrow> nat option \<times> EdgeIndex" where
  "tgt_claim e to_id =
     (let tg = ei_targets e
      in case probe_claim et_state (\<lambda>t. et_to t = to_id) tg
                (unat (mix64 to_id) AND (length tg - 1)) 0 None (length tg) of
           None \<Rightarrow> (None, e)
         | Some (Inl j) \<Rightarrow> (Some j, e)
         | Some (Inr j) \<Rightarrow>
             (Some j, e\<lparr>
                ei_targets := tg[j := empty_target to_id],
                ei_tgt_used := (if et_state (tg ! j) = SLOT_EMPTY then ei_tgt_used e + 1 else ei_tgt_used e),
                ei_tgt_live := ei_tgt_live e + 1\<rparr>))"

definition tgt_put :: "alloc \<Rightarrow> EdgeIndex \<Rightarrow> u64 \<Rightarrow> (nat option \<times> EdgeIndex) option" where
  "tgt_put mem e to_id =
     (case (if length (ei_targets e) = 0 \<or> length (ei_targets e) * 3 \<le> (ei_tgt_used e + 1) * 4
            then tgt_grow mem e else Some (0, e)) of
        None \<Rightarrow> None
      | Some (rv, e1) \<Rightarrow> if rv \<noteq> 0 then Some (None, e1) else Some (tgt_claim e1 to_id))"

definition tgt_retire :: "EdgeIndex \<Rightarrow> nat \<Rightarrow> EdgeIndex" where
  "tgt_retire e j =
     e\<lparr>ei_targets := (ei_targets e)[j := (ei_targets e ! j)\<lparr>et_posts := [], et_cap := 0, et_state := SLOT_DEAD\<rparr>],
       ei_tgt_live := ei_tgt_live e - 1\<rparr>"

section \<open>Postings\<close>

definition post_cmp :: "u64 \<Rightarrow> u16 \<Rightarrow> u64 \<Rightarrow> u16 \<Rightarrow> int" where
  "post_cmp a_from a_kind b_from b_kind =
     (if a_from \<noteq> b_from then if a_from < b_from then -1 else 1
      else if a_kind \<noteq> b_kind then if a_kind < b_kind then -1 else 1
      else 0)"

definition post_lower_bound :: "EdgePost list \<Rightarrow> u64 \<Rightarrow> u16 \<Rightarrow> nat" where
  "post_lower_bound p from_id kind =
     bsearch (\<lambda>mid. post_cmp (ep_from (p ! mid)) (ep_kind (p ! mid)) from_id kind < 0) 0 (length p)"

definition post_at :: "EdgePost list \<Rightarrow> nat \<Rightarrow> u64 \<Rightarrow> u16 \<Rightarrow> bool" where
  "post_at p pos from_id kind \<longleftrightarrow> pos < length p \<and> ep_from (p ! pos) = from_id \<and> ep_kind (p ! pos) = kind"

text \<open>The body of \<^verbatim>\<open>edge_index_add\<close> once the target slot \<open>j\<close> is there.\<close>

definition post_add :: "alloc \<Rightarrow> EdgeIndex \<Rightarrow> nat \<Rightarrow> u64 \<Rightarrow> u16 \<Rightarrow> int \<times> EdgeIndex" where
  "post_add mem e j from_id k =
     (let t = ei_targets e ! j;
          pos = post_lower_bound (et_posts t) from_id k;
          full = (length (et_posts t) = et_cap t)
      in if post_at (et_posts t) pos from_id k then (0, e)
         else if full \<and> \<not> mem 4
         then (-1, if length (et_posts t) = 0 then tgt_retire e j else e)
         else let nc = (if full then if et_cap t \<noteq> 0 then et_cap t * 2 else 1 else et_cap t);
                  t' = t\<lparr>et_posts := insert_at pos \<lparr>ep_from = from_id, ep_kind = k\<rparr> (et_posts t), et_cap := nc\<rparr>
              in (0, kind_use (e\<lparr>ei_targets := (ei_targets e)[j := t'], ei_edges := ei_edges e + 1\<rparr>) k 1))"

text \<open>Every entry point answers a null index at once.\<close>

definition edge_index_add ::
  "alloc \<Rightarrow> EdgeIndex option \<Rightarrow> u64 \<Rightarrow> u64 \<Rightarrow> cstr option \<Rightarrow> (int \<times> EdgeIndex option) option" where
  "edge_index_add mem eo from_id to_id kind =
     (case eo of
        None \<Rightarrow> Some (0, None)
      | Some e \<Rightarrow>
          let (k, e1) = kind_intern mem e kind
          in case tgt_put mem e1 to_id of
               None \<Rightarrow> None
             | Some (None, e2) \<Rightarrow> Some (-1, Some e2)
             | Some (Some j, e2) \<Rightarrow> let (rv, e3) = post_add mem e2 j from_id k in Some (rv, Some e3))"

definition edge_index_remove :: "EdgeIndex option \<Rightarrow> u64 \<Rightarrow> u64 \<Rightarrow> cstr option \<Rightarrow> EdgeIndex option" where
  "edge_index_remove eo from_id to_id kind =
     (case eo of
        None \<Rightarrow> None
      | Some e \<Rightarrow>
          (case tgt_find e to_id of
             None \<Rightarrow> Some e
           | Some j \<Rightarrow>
               let t = ei_targets e ! j;
                   k = kind_lookup e kind;
                   pos = post_lower_bound (et_posts t) from_id k
               in if \<not> post_at (et_posts t) pos from_id k then Some e
                  else let posts = remove_at pos (et_posts t);
                           e1 = kind_use (e\<lparr>ei_targets := (ei_targets e)[j := t\<lparr>et_posts := posts\<rparr>],
                                            ei_edges := ei_edges e - 1\<rparr>) k (-1)
                       in Some (if length posts = 0 then tgt_retire e1 j else e1)))"

definition edge_index_remove_target :: "EdgeIndex option \<Rightarrow> u64 \<Rightarrow> EdgeIndex option" where
  "edge_index_remove_target eo to_id =
     (case eo of
        None \<Rightarrow> None
      | Some e \<Rightarrow>
          (case tgt_find e to_id of
             None \<Rightarrow> Some e
           | Some j \<Rightarrow>
               let posts = et_posts (ei_targets e ! j);
                   e1 = fold (\<lambda>p e. kind_use e (ep_kind p) (-1)) posts e
               in Some (tgt_retire (e1\<lparr>ei_edges := ei_edges e1 - length posts\<rparr>) j)))"

section \<open>Queries\<close>

text \<open>The filter resolved to ids, with the flag for a requested kind that was never interned.\<close>

fun resolve_kinds :: "EdgeIndex \<Rightarrow> cstr option list \<Rightarrow> u16 list \<Rightarrow> bool \<Rightarrow> u16 list \<times> bool" where
  "resolve_kinds e [] want unresolved = (want, unresolved)"
| "resolve_kinds e (kd # kinds) want unresolved =
     (if kd = None \<or> kd = Some [] then resolve_kinds e kinds want unresolved
      else let k = kind_lookup e kd
           in if k = EDGE_KIND_UNKNOWN then resolve_kinds e kinds want True
              else resolve_kinds e kinds (want @ [k]) unresolved)"

definition keep_post :: "bool \<Rightarrow> u16 list \<times> bool \<Rightarrow> u16 \<Rightarrow> bool" where
  "keep_post filtered want k \<longleftrightarrow>
     (if filtered then (k = EDGE_KIND_UNKNOWN \<and> snd want) \<or> k \<in> set (fst want) else True)"

definition edge_index_sources ::
  "alloc \<Rightarrow> EdgeIndex option \<Rightarrow> u64 \<Rightarrow> cstr option list \<Rightarrow> EdgeSource list option" where
  "edge_index_sources mem eo to_id kinds =
     (case eo of
        None \<Rightarrow> Some []
      | Some e \<Rightarrow>
          (case tgt_find e to_id of
             None \<Rightarrow> Some []
           | Some j \<Rightarrow>
               let posts = et_posts (ei_targets e ! j)
               in if length posts = 0 then Some []
                  else if kinds \<noteq> [] \<and> \<not> mem 0 then None
                  else if \<not> mem 1 then None
                  else let want = resolve_kinds e kinds [] False
                       in Some (map (\<lambda>p. \<lparr>es_from = ep_from p, es_kind = kind_name e (ep_kind p),
                                          es_kind_unknown = (ep_kind p = EDGE_KIND_UNKNOWN)\<rparr>)
                                 (filter (\<lambda>p. keep_post (kinds \<noteq> []) want (ep_kind p)) posts))))"

definition edge_index_edges :: "EdgeIndex option \<Rightarrow> nat" where
  "edge_index_edges eo = (case eo of None \<Rightarrow> 0 | Some e \<Rightarrow> ei_edges e)"

definition edge_index_kinds :: "EdgeIndex option \<Rightarrow> nat" where
  "edge_index_kinds eo = (case eo of None \<Rightarrow> 0 | Some e \<Rightarrow> ei_kinds_live e)"

section \<open>Invariant and abstraction\<close>

definition live_map :: "EdgeIndex \<Rightarrow> u64 \<rightharpoonup> EdgeTarget" where
  "live_map e = slot_map et_state et_to (ei_targets e)"

abbreviation post_key :: "EdgePost \<Rightarrow> u64 \<times> u16" where
  "post_key p \<equiv> (ep_from p, ep_kind p)"

text \<open>The edges as triples of source, target and interned kind.\<close>

definition map_edges :: "(u64 \<rightharpoonup> EdgeTarget) \<Rightarrow> (u64 \<times> u64 \<times> u16) set" where
  "map_edges m = {(from_id, to_id, k). \<exists>t. m to_id = Some t \<and> (from_id, k) \<in> post_key ` set (et_posts t)}"

definition edge_set :: "EdgeIndex \<Rightarrow> (u64 \<times> u64 \<times> u16) set" where
  "edge_set e = map_edges (live_map e)"

definition map_total :: "('t \<Rightarrow> nat) \<Rightarrow> ('k \<rightharpoonup> 't) \<Rightarrow> nat" where
  "map_total w m = (\<Sum>k \<in> dom m. w (the (m k)))"

definition kind_posts :: "u16 \<Rightarrow> EdgePost list \<Rightarrow> nat" where
  "kind_posts k ps = length (filter (\<lambda>p. ep_kind p = k) ps)"

definition uses_state :: "nat \<Rightarrow> slot_state" where
  "uses_state u = (if u = 0 then SLOT_EMPTY else SLOT_LIVE)"

definition kinds_ok :: "EdgeIndex \<Rightarrow> bool" where
  "kinds_ok e \<longleftrightarrow>
     table_ok kn_name EDGE_KIND_NBUCKETS (ei_kind_buckets e) \<and>
     (\<forall>s n. kind_find e s = Some n \<longleftrightarrow> n \<in> set (ei_kind_by_id e) \<and> kn_name n = s) \<and>
     (\<forall>j < length (ei_kind_by_id e). kn_id (ei_kind_by_id e ! j) = of_nat (j + 1) \<and> kn_name (ei_kind_by_id e ! j) \<noteq> []) \<and>
     length (ei_kind_by_id e) \<le> EDGE_MAX_KINDS \<and>
     length (ei_uses e) = length (ei_kind_by_id e) \<and>
     ei_kinds_live e = count_state uses_state SLOT_LIVE (ei_uses e)"

definition tgt_ok :: "EdgeIndex \<Rightarrow> bool" where
  "tgt_ok e \<longleftrightarrow>
     (if ei_targets e = [] then ei_tgt_live e = 0 \<and> ei_tgt_used e = 0
      else probe_ok et_state et_to mix64 (ei_targets e) \<and>
           ei_tgt_live e = count_state et_state SLOT_LIVE (ei_targets e) \<and>
           ei_tgt_used e = ei_tgt_live e + count_state et_state SLOT_DEAD (ei_targets e) \<and>
           4 * ei_tgt_used e < 3 * length (ei_targets e) \<and> 64 \<le> length (ei_targets e))"

definition valid_kind :: "EdgeIndex \<Rightarrow> u16 \<Rightarrow> bool" where
  "valid_kind e k \<longleftrightarrow> k = EDGE_KIND_UNKNOWN \<or> unat k \<le> length (ei_kind_by_id e)"

definition posts_ok :: "EdgeIndex \<Rightarrow> EdgeTarget \<Rightarrow> bool" where
  "posts_ok e t \<longleftrightarrow>
     sorted (map post_key (et_posts t)) \<and> distinct (map post_key (et_posts t)) \<and>
     length (et_posts t) \<le> et_cap t \<and> (\<forall>p \<in> set (et_posts t). valid_kind e (ep_kind p))"

definition counts_ok :: "EdgeIndex \<Rightarrow> bool" where
  "counts_ok e \<longleftrightarrow>
     ei_edges e = map_total (\<lambda>t. length (et_posts t)) (live_map e) \<and>
     (\<forall>j < length (ei_uses e). ei_uses e ! j = map_total (\<lambda>t. kind_posts (of_nat (j + 1)) (et_posts t)) (live_map e))"

definition edge_inv :: "EdgeIndex \<Rightarrow> bool" where
  "edge_inv e \<longleftrightarrow>
     kinds_ok e \<and> tgt_ok e \<and> counts_ok e \<and> (\<forall>t \<in> ran (live_map e). posts_ok e t \<and> et_posts t \<noteq> [])"

section \<open>Sums over the table\<close>

lemma map_total_upd:
  assumes "finite (dom m)"
  shows "map_total w (m(k \<mapsto> t)) + (case m k of None \<Rightarrow> 0 | Some t0 \<Rightarrow> w t0) = map_total w m + w t"
proof -
  have same: "(\<Sum>k' \<in> dom m - {k}. w (the ((m(k \<mapsto> t)) k'))) = (\<Sum>k' \<in> dom m - {k}. w (the (m k')))"
    by (rule sum.cong) auto
  have "map_total w (m(k \<mapsto> t)) = w t + (\<Sum>k' \<in> dom m - {k}. w (the (m k')))"
    using assms same by (simp add: map_total_def sum.insert_remove)
  moreover have "map_total w m = (case m k of None \<Rightarrow> 0 | Some t0 \<Rightarrow> w t0) + (\<Sum>k' \<in> dom m - {k}. w (the (m k')))"
    using assms by (cases "m k") (auto simp: map_total_def domIff sum.remove [of "dom m" k])
  ultimately show ?thesis by simp
qed

lemma map_total_del:
  assumes "finite (dom m)"
  shows "map_total w (m(k := None)) + (case m k of None \<Rightarrow> 0 | Some t0 \<Rightarrow> w t0) = map_total w m"
proof -
  have same: "(\<Sum>k' \<in> dom m - {k}. w (the ((m(k := None)) k'))) = (\<Sum>k' \<in> dom m - {k}. w (the (m k')))"
    by (rule sum.cong) auto
  show ?thesis
    using assms same by (cases "m k") (auto simp: map_total_def domIff sum.remove [of "dom m" k])
qed

lemma finite_live_map [simp]: "finite (dom (live_map e))"
  by (simp add: live_map_def dom_slot_map)

section \<open>Kinds\<close>

lemma sentinels [simp]:
  "n \<le> EDGE_MAX_KINDS \<Longrightarrow> j < n \<Longrightarrow> unat (of_nat (j + 1) :: u16) = j + 1"
  "n \<le> EDGE_MAX_KINDS \<Longrightarrow> j < n \<Longrightarrow> (of_nat (j + 1) :: u16) \<noteq> EDGE_KIND_NONE"
  "n \<le> EDGE_MAX_KINDS \<Longrightarrow> j < n \<Longrightarrow> (of_nat (j + 1) :: u16) \<noteq> EDGE_KIND_UNKNOWN"
proof -
  have u: "unat (of_nat (j + 1) :: u16) = j + 1" if "n \<le> EDGE_MAX_KINDS" "j < n"
    using that by (simp only: unat_of_nat) (simp add: EDGE_MAX_KINDS_def)
  show "n \<le> EDGE_MAX_KINDS \<Longrightarrow> j < n \<Longrightarrow> unat (of_nat (j + 1) :: u16) = j + 1" by (fact u)
  show "n \<le> EDGE_MAX_KINDS \<Longrightarrow> j < n \<Longrightarrow> (of_nat (j + 1) :: u16) \<noteq> EDGE_KIND_NONE"
    using u by (metis EDGE_KIND_NONE_def add_is_0 one_neq_zero unat_0)
  show "n \<le> EDGE_MAX_KINDS \<Longrightarrow> j < n \<Longrightarrow> (of_nat (j + 1) :: u16) \<noteq> EDGE_KIND_UNKNOWN"
  proof
    assume a: "n \<le> EDGE_MAX_KINDS" "j < n" "(of_nat (j + 1) :: u16) = EDGE_KIND_UNKNOWN"
    have "j + 1 = unat EDGE_KIND_UNKNOWN" using u [OF a(1,2)] a(3) by simp
    with a(1,2) show False by (simp add: EDGE_KIND_UNKNOWN_def EDGE_MAX_KINDS_def)
  qed
qed

lemma kind_node_iff:
  assumes "kinds_ok e"
  shows "kind_node e k = Some j \<longleftrightarrow> j < length (ei_kind_by_id e) \<and> k = of_nat (j + 1)"
proof
  assume "kind_node e k = Some j"
  then have *: "k \<noteq> 0" "unat k \<le> length (ei_kind_by_id e)" "j = unat k - 1"
    by (auto simp: kind_node_def EDGE_KIND_NONE_def split: if_splits)
  then have "0 < unat k" by (simp add: unat_gt_0)
  with * have "unat k = j + 1" "j < length (ei_kind_by_id e)" by auto
  moreover have "k = of_nat (unat k)" by simp
  ultimately show "j < length (ei_kind_by_id e) \<and> k = of_nat (j + 1)" by simp
next
  assume r: "j < length (ei_kind_by_id e) \<and> k = of_nat (j + 1)"
  have le: "length (ei_kind_by_id e) \<le> EDGE_MAX_KINDS" using assms by (simp add: kinds_ok_def)
  show "kind_node e k = Some j"
    using r sentinels [OF le, of j] by (simp add: kind_node_def)
qed

lemma kind_use_fields [simp]:
  "ei_targets (kind_use e k d) = ei_targets e" "ei_tgt_live (kind_use e k d) = ei_tgt_live e"
  "ei_tgt_used (kind_use e k d) = ei_tgt_used e" "ei_edges (kind_use e k d) = ei_edges e"
  "ei_kind_buckets (kind_use e k d) = ei_kind_buckets e" "ei_kind_by_id (kind_use e k d) = ei_kind_by_id e"
  "length (ei_uses (kind_use e k d)) = length (ei_uses e)" "live_map (kind_use e k d) = live_map e"
  by (simp_all add: kind_use_def Let_def live_map_def split: option.split)

lemma kind_use_ok:
  assumes "kinds_ok e"
  shows "kinds_ok (kind_use e k d)"
    and "\<And>j. j < length (ei_uses e) \<Longrightarrow> ei_uses (kind_use e k d) ! j =
      (if k = of_nat (j + 1) then if 0 < d then ei_uses e ! j + 1 else ei_uses e ! j - 1 else ei_uses e ! j)"
proof -
  have len: "length (ei_uses e) = length (ei_kind_by_id e)" using assms by (simp add: kinds_ok_def)
  have "ei_kinds_live (kind_use e k d) = count_state uses_state SLOT_LIVE (ei_uses (kind_use e k d))"
  proof (cases "kind_node e k")
    case None
    then show ?thesis using assms by (simp add: kind_use_def kinds_ok_def)
  next
    case (Some j)
    then have j: "j < length (ei_uses e)" using kind_node_iff [OF assms] len by simp
    show ?thesis
      using assms count_state_update [OF j, of uses_state SLOT_LIVE "ei_uses e ! j + 1"]
        count_state_update [OF j, of uses_state SLOT_LIVE "ei_uses e ! j - 1"]
      by (auto simp: kind_use_def Some kinds_ok_def Let_def uses_state_def split: if_splits)
  qed
  then show "kinds_ok (kind_use e k d)" using assms by (simp add: kinds_ok_def kind_find_def)
  fix j assume j: "j < length (ei_uses e)"
  show "ei_uses (kind_use e k d) ! j =
      (if k = of_nat (j + 1) then if 0 < d then ei_uses e ! j + 1 else ei_uses e ! j - 1 else ei_uses e ! j)"
  proof (cases "kind_node e k")
    case None
    then have "k \<noteq> of_nat (j + 1)" using kind_node_iff [OF assms, of k j] j len by auto
    with None show ?thesis by (simp add: kind_use_def)
  next
    case (Some i)
    then have "i = j \<longleftrightarrow> k = of_nat (j + 1)"
      using kind_node_iff [OF assms, of k j] kind_node_iff [OF assms, of k i] j len by auto
    with Some j show ?thesis by (auto simp: kind_use_def Let_def nth_list_update)
  qed
qed

lemma kind_use_fold:
  assumes "kinds_ok e"
  shows "kinds_ok (fold (\<lambda>p e. kind_use e (ep_kind p) (-1)) ps e) \<and>
    (\<forall>j < length (ei_uses e). ei_uses (fold (\<lambda>p e. kind_use e (ep_kind p) (-1)) ps e) ! j =
       ei_uses e ! j - kind_posts (of_nat (j + 1)) ps) \<and>
    (let e' = fold (\<lambda>p e. kind_use e (ep_kind p) (-1)) ps e in
      ei_targets e' = ei_targets e \<and> ei_tgt_live e' = ei_tgt_live e \<and> ei_tgt_used e' = ei_tgt_used e \<and>
      ei_edges e' = ei_edges e \<and> ei_kind_by_id e' = ei_kind_by_id e \<and> length (ei_uses e') = length (ei_uses e))"
  using assms
proof (induction ps arbitrary: e)
  case (Cons p ps)
  note IH = Cons.IH [OF kind_use_ok(1) [OF Cons.prems, of "ep_kind p" "-1"]]
  show ?case
    using IH kind_use_ok(2) [OF Cons.prems, of _ "ep_kind p" "-1"]
    by (auto simp: kind_posts_def Let_def)
qed (simp add: kind_posts_def)

section \<open>The target table as a map\<close>

interpretation et: probe_table et_state et_to mix64 "\<lambda>k t. et_to t = k" "\<lambda>_ t. et_state t \<noteq> SLOT_LIVE" blank_target
  by unfold_locales (auto simp: blank_target_def)

lemma tgt_find_ok:
  assumes "tgt_ok e"
  shows "tgt_find e to_id = Some j \<Longrightarrow>
      j < length (ei_targets e) \<and> et_state (ei_targets e ! j) = SLOT_LIVE \<and>
      et_to (ei_targets e ! j) = to_id \<and> live_map e to_id = Some (ei_targets e ! j)"
    and "tgt_find e to_id = None \<Longrightarrow> live_map e to_id = None"
proof -
  have ok: "ei_targets e \<noteq> [] \<Longrightarrow> probe_ok et_state et_to mix64 (ei_targets e)"
    using assms by (simp add: tgt_ok_def)
  assume "tgt_find e to_id = Some j"
  moreover from this have ne: "ei_targets e \<noteq> []" by (auto simp: tgt_find_def Let_def)
  ultimately show "j < length (ei_targets e) \<and> et_state (ei_targets e ! j) = SLOT_LIVE \<and>
      et_to (ei_targets e ! j) = to_id \<and> live_map e to_id = Some (ei_targets e ! j)"
    using et.find_iff [OF ok [OF ne], of to_id j] et.find_map [OF ok [OF ne], of to_id]
    by (auto simp: tgt_find_def Let_def live_map_def)
next
  assume "tgt_find e to_id = None"
  then show "live_map e to_id = None"
    using et.find_map [of "ei_targets e" to_id] assms
    by (cases "ei_targets e = []") (auto simp: tgt_find_def tgt_ok_def Let_def live_map_def slot_map_def)
qed

lemma tgt_grow_ok:
  assumes "tgt_ok e" and "mem 3"
  shows "\<exists>e'. tgt_grow mem e = Some (0, e') \<and> tgt_ok e' \<and> live_map e' = live_map e \<and>
    ei_targets e' \<noteq> [] \<and> ei_tgt_live e' = ei_tgt_live e \<and> 4 * (ei_tgt_used e' + 1) < 3 * length (ei_targets e') \<and>
    e' = e\<lparr>ei_targets := ei_targets e', ei_tgt_used := ei_tgt_used e'\<rparr>"
proof -
  let ?tg = "ei_targets e"
  define ncap where "ncap = (if length ?tg \<noteq> 0 then length ?tg * 2 else 64)"
  have ok: "?tg = [] \<or> probe_ok et_state et_to mix64 ?tg" using assms(1) by (auto simp: tgt_ok_def split: if_splits)
  have live: "ei_tgt_live e = count_state et_state SLOT_LIVE ?tg"
    using assms(1) by (auto simp: tgt_ok_def count_state_def split: if_splits)
  have room: "4 * (ei_tgt_live e + 1) < 3 * ncap" and big: "64 \<le> ncap"
    using assms(1) by (auto simp: tgt_ok_def ncap_def split: if_splits)
  obtain m where m: "ncap = 2 ^ m"
  proof (cases "?tg = []")
    case True
    then show ?thesis using that [of 6] by (simp add: ncap_def)
  next
    case False
    then obtain m where "length ?tg = 2 ^ m" using ok probe_ok_pow2 by blast
    with False show ?thesis using that [of "Suc m"] by (simp add: ncap_def)
  qed
  have "count_state et_state SLOT_LIVE ?tg < 2 ^ m" using room live unfolding m by simp
  from et.regrow [OF ok this] obtain nt where nt:
    "rehash_into et_state (\<lambda>_ t. et_state t \<noteq> SLOT_LIVE) (\<lambda>t. mix64 (et_to t)) ?tg (replicate ncap blank_target) = Some nt"
    "probe_ok et_state et_to mix64 nt" "length nt = ncap" "count_state et_state SLOT_DEAD nt = 0"
    "count_state et_state SLOT_LIVE nt = count_state et_state SLOT_LIVE ?tg"
    "slot_map et_state et_to nt = slot_map et_state et_to ?tg"
    unfolding m by blast
  let ?e = "e\<lparr>ei_targets := nt, ei_tgt_used := ei_tgt_live e\<rparr>"
  have "tgt_grow mem e = Some (0, ?e)"
    unfolding tgt_grow_def Let_def ncap_def [symmetric] nt(1) using assms(2) by simp
  moreover have "nt \<noteq> []" using nt(3) room by auto
  ultimately show ?thesis using nt live room big by (auto simp: tgt_ok_def live_map_def)
qed

lemma tgt_claim_ok:
  assumes ok: "tgt_ok e" and ne: "ei_targets e \<noteq> []" and room: "4 * (ei_tgt_used e + 1) < 3 * length (ei_targets e)"
  shows "\<exists>j e'. tgt_claim e to_id = (Some j, e') \<and> tgt_ok e' \<and> j < length (ei_targets e') \<and>
    et_state (ei_targets e' ! j) = SLOT_LIVE \<and> et_to (ei_targets e' ! j) = to_id \<and>
    live_map e' = (live_map e)(to_id \<mapsto> ei_targets e' ! j) \<and>
    (live_map e to_id = Some (ei_targets e' ! j) \<or> live_map e to_id = None \<and> ei_targets e' ! j = empty_target to_id) \<and>
    e' = e\<lparr>ei_targets := ei_targets e', ei_tgt_used := ei_tgt_used e', ei_tgt_live := ei_tgt_live e'\<rparr>"
proof -
  let ?tg = "ei_targets e"
  have po: "probe_ok et_state et_to mix64 ?tg" and cnt: "ei_tgt_live e = count_state et_state SLOT_LIVE ?tg"
    "ei_tgt_used e = ei_tgt_live e + count_state et_state SLOT_DEAD ?tg"
    using ok ne by (simp_all add: tgt_ok_def)
  have sp: "0 < count_state et_state SLOT_EMPTY ?tg"
    using count_state_total [of et_state ?tg] cnt room by auto
  show ?thesis
  proof (cases rule: et.claim [OF po sp, of to_id, case_names old new])
    case (old j)
    then have "live_map e to_id = Some (?tg ! j)" by (auto simp: live_map_def slot_map_iff [OF po])
    with old ok show ?thesis
      by (intro exI [of _ j] exI [of _ e]) (auto simp: tgt_claim_def Let_def fun_upd_idem)
  next
    case (new j)
    let ?n = "empty_target to_id"
    have n: "et_state ?n = SLOT_LIVE" "et_to ?n = to_id" by (simp_all add: empty_target_def)
    let ?e = "e\<lparr>ei_targets := ?tg[j := ?n],
      ei_tgt_used := (if et_state (?tg ! j) = SLOT_EMPTY then ei_tgt_used e + 1 else ei_tgt_used e),
      ei_tgt_live := ei_tgt_live e + 1\<rparr>"
    have "probe_ok et_state et_to mix64 (?tg[j := ?n])"
      and map: "slot_map et_state et_to (?tg[j := ?n]) = (slot_map et_state et_to ?tg)(to_id \<mapsto> ?n)"
      using et.place [OF po, of ?n j] new n by simp_all
    moreover have "count_state et_state SLOT_LIVE (?tg[j := ?n]) = count_state et_state SLOT_LIVE ?tg + 1"
      "count_state et_state SLOT_DEAD (?tg[j := ?n]) + (if et_state (?tg ! j) = SLOT_DEAD then 1 else 0) =
       count_state et_state SLOT_DEAD ?tg"
      using count_state_update [OF new(2), of et_state SLOT_LIVE ?n]
        count_state_update [OF new(2), of et_state SLOT_DEAD ?n] new n by auto
    ultimately have "tgt_ok ?e"
      using cnt room ne new(3) ok by (cases "et_state (?tg ! j)") (auto simp: tgt_ok_def)
    then show ?thesis
      using new n map by (intro exI [of _ j] exI [of _ ?e]) (auto simp: tgt_claim_def Let_def live_map_def)
  qed
qed

lemma tgt_put_ok:
  assumes "tgt_ok e" and "tgt_put mem e to_id = r"
  shows "(\<exists>j e'. r = Some (Some j, e') \<and> tgt_ok e' \<and> j < length (ei_targets e') \<and>
      et_state (ei_targets e' ! j) = SLOT_LIVE \<and> et_to (ei_targets e' ! j) = to_id \<and>
      live_map e' = (live_map e)(to_id \<mapsto> ei_targets e' ! j) \<and>
      (live_map e to_id = Some (ei_targets e' ! j) \<or> live_map e to_id = None \<and> ei_targets e' ! j = empty_target to_id) \<and>
      e' = e\<lparr>ei_targets := ei_targets e', ei_tgt_used := ei_tgt_used e', ei_tgt_live := ei_tgt_live e'\<rparr>) \<or>
    r = Some (None, e) \<and> \<not> mem 3"
proof (cases "length (ei_targets e) = 0 \<or> length (ei_targets e) * 3 \<le> (ei_tgt_used e + 1) * 4")
  case False
  then show ?thesis
    using tgt_claim_ok [OF assms(1), of to_id] assms(2) by (auto simp: tgt_put_def)
next
  case True
  show ?thesis
  proof (cases "mem 3")
    case False
    then show ?thesis using True assms(2) by (auto simp: tgt_put_def tgt_grow_def Let_def)
  next
    case mem: True
    obtain e1 where e1: "tgt_grow mem e = Some (0, e1)" "tgt_ok e1" "live_map e1 = live_map e" "ei_targets e1 \<noteq> []"
      "4 * (ei_tgt_used e1 + 1) < 3 * length (ei_targets e1)"
      "e1 = e\<lparr>ei_targets := ei_targets e1, ei_tgt_used := ei_tgt_used e1\<rparr>"
      using tgt_grow_ok [OF assms(1), of mem] mem by blast
    from tgt_claim_ok [OF e1(2,4,5), of to_id] obtain j e' where c:
      "r = Some (Some j, e')" "tgt_ok e'" "j < length (ei_targets e')"
      "et_state (ei_targets e' ! j) = SLOT_LIVE" "et_to (ei_targets e' ! j) = to_id"
      "live_map e' = (live_map e)(to_id \<mapsto> ei_targets e' ! j)"
      "live_map e to_id = Some (ei_targets e' ! j) \<or> live_map e to_id = None \<and> ei_targets e' ! j = empty_target to_id"
      "e' = e1\<lparr>ei_targets := ei_targets e', ei_tgt_used := ei_tgt_used e', ei_tgt_live := ei_tgt_live e'\<rparr>"
      using True e1(1,3) assms(2) by (auto simp: tgt_put_def)
    have "e' = e\<lparr>ei_targets := ei_targets e', ei_tgt_used := ei_tgt_used e', ei_tgt_live := ei_tgt_live e'\<rparr>"
      by (subst c(8), subst e1(6)) simp
    with c(1-7) show ?thesis by blast
  qed
qed

lemma tgt_ok_cong:
  "tgt_ok e \<Longrightarrow> ei_targets e' = ei_targets e \<Longrightarrow> ei_tgt_live e' = ei_tgt_live e \<Longrightarrow>
   ei_tgt_used e' = ei_tgt_used e \<Longrightarrow> tgt_ok e'"
  by (simp only: tgt_ok_def)

lemma tgt_store_ok:
  assumes ok: "tgt_ok e" and j: "j < length (ei_targets e)" "et_state (ei_targets e ! j) = SLOT_LIVE"
    and t: "et_state t = SLOT_LIVE" "et_to t = et_to (ei_targets e ! j)"
  shows "tgt_ok (e\<lparr>ei_targets := (ei_targets e)[j := t]\<rparr>)"
    and "slot_map et_state et_to ((ei_targets e)[j := t]) = (live_map e)(et_to t \<mapsto> t)"
proof -
  let ?tg = "ei_targets e"
  have ne: "?tg \<noteq> []" using j by auto
  have po: "probe_ok et_state et_to mix64 ?tg" using ok ne by (simp add: tgt_ok_def)
  note o = et.overwrite [OF po j t]
  have "count_state et_state x (?tg[j := t]) = count_state et_state x ?tg" for x
    using count_state_update [OF j(1), of et_state x t] j t by simp
  then show "tgt_ok (e\<lparr>ei_targets := ?tg[j := t]\<rparr>)" using ok ne o(1) by (simp add: tgt_ok_def)
  show "slot_map et_state et_to (?tg[j := t]) = (live_map e)(et_to t \<mapsto> t)"
    using o(2) by (simp add: live_map_def)
qed

lemma tgt_retire_ok:
  assumes ok: "tgt_ok e" and j: "j < length (ei_targets e)" "et_state (ei_targets e ! j) = SLOT_LIVE"
  shows "tgt_ok (tgt_retire e j)"
    and "live_map (tgt_retire e j) = (live_map e)(et_to (ei_targets e ! j) := None)"
proof -
  let ?tg = "ei_targets e"
  let ?t = "(?tg ! j)\<lparr>et_posts := [], et_cap := 0, et_state := SLOT_DEAD\<rparr>"
  have ne: "?tg \<noteq> []" using j by auto
  have po: "probe_ok et_state et_to mix64 ?tg" using ok ne by (simp add: tgt_ok_def)
  have k: "probe_ok et_state et_to mix64 (?tg[j := ?t])"
    "slot_map et_state et_to (?tg[j := ?t]) = (slot_map et_state et_to ?tg)(et_to (?tg ! j) := None)"
    using et.kill [OF po j, of ?t] by simp_all
  have "count_state et_state SLOT_LIVE (?tg[j := ?t]) + 1 = count_state et_state SLOT_LIVE ?tg"
    "count_state et_state SLOT_DEAD (?tg[j := ?t]) = count_state et_state SLOT_DEAD ?tg + 1"
    using count_state_update [OF j(1), of et_state SLOT_LIVE ?t]
      count_state_update [OF j(1), of et_state SLOT_DEAD ?t] j by simp_all
  then show "tgt_ok (tgt_retire e j)" using ok ne k(1) by (auto simp: tgt_ok_def tgt_retire_def)
  show "live_map (tgt_retire e j) = (live_map e)(et_to (?tg ! j) := None)"
    using k(2) by (simp add: live_map_def tgt_retire_def)
qed

section \<open>Postings as sorted arrays\<close>

interpretation ep: sorted_array post_key "\<lambda>p k. post_cmp (ep_from p) (ep_kind p) (fst k) (snd k) < 0"
  by unfold_locales (auto simp: post_cmp_def less_prod_simp split: prod.splits)

lemma post_lower_bound_ep:
  "post_lower_bound p f k =
     bsearch (\<lambda>mid. post_cmp (ep_from (p ! mid)) (ep_kind (p ! mid)) (fst (f, k)) (snd (f, k)) < 0) 0 (length p)"
  by (simp add: post_lower_bound_def)

lemma post_at_iff:
  "sorted (map post_key ps) \<Longrightarrow> post_at ps (post_lower_bound ps f k) f k \<longleftrightarrow> (f, k) \<in> post_key ` set ps"
  using ep.found_iff [of ps "post_lower_bound ps f k" "(f, k)"]
  by (auto simp: post_at_def post_lower_bound_ep)

lemma post_self [simp]: "\<lparr>ep_from = ep_from p, ep_kind = ep_kind p\<rparr> = p"
  by (cases p) simp

lemma kind_posts_Nil [simp]: "kind_posts k [] = 0"
  by (simp add: kind_posts_def)

lemma kind_posts_insert: "kind_posts k (insert_at pos p ps) = kind_posts k ps + (if ep_kind p = k then 1 else 0)"
proof -
  have "kind_posts k (take pos ps) + kind_posts k (drop pos ps) = kind_posts k ps"
    unfolding kind_posts_def by (metis append_take_drop_id filter_append length_append)
  then show ?thesis by (simp add: insert_at_def kind_posts_def)
qed

lemma kind_posts_remove:
  "pos < length ps \<Longrightarrow> kind_posts k (remove_at pos ps) + (if ep_kind (ps ! pos) = k then 1 else 0) = kind_posts k ps"
proof -
  assume "pos < length ps"
  then have "ps = take pos ps @ ps ! pos # drop (Suc pos) ps" by (simp add: id_take_nth_drop)
  then have "kind_posts k ps = kind_posts k (take pos ps @ ps ! pos # drop (Suc pos) ps)" by simp
  then show ?thesis by (simp add: remove_at_def kind_posts_def)
qed

lemma posts_insert_ok:
  assumes "posts_ok e t" and "(f, k) \<notin> post_key ` set (et_posts t)" and "valid_kind e k"
    and "nc \<ge> length (et_posts t) + 1"
  shows "posts_ok e (t\<lparr>et_posts := insert_at (post_lower_bound (et_posts t) f k) \<lparr>ep_from = f, ep_kind = k\<rparr> (et_posts t),
      et_cap := nc\<rparr>)"
  using assms ep.sorted_insert [of "et_posts t" _ "\<lparr>ep_from = f, ep_kind = k\<rparr>", OF _ refl]
    ep.distinct_insert [of "et_posts t" "\<lparr>ep_from = f, ep_kind = k\<rparr>", OF _ _ _ refl]
  by (auto simp: posts_ok_def post_lower_bound_ep set_insert_at length_insert_at)

lemma posts_remove_ok:
  assumes "posts_ok e t" and "post_at (et_posts t) pos f k"
  shows "posts_ok e (t\<lparr>et_posts := remove_at pos (et_posts t)\<rparr>)"
    and "post_key ` set (remove_at pos (et_posts t)) = post_key ` set (et_posts t) - {(f, k)}"
proof -
  let ?ps = "et_posts t"
  have pos: "pos < length ?ps" "post_key (?ps ! pos) = (f, k)" using assms(2) by (auto simp: post_at_def)
  have d: "distinct (map post_key ?ps)" and dp: "distinct ?ps"
    using assms(1) by (auto simp: posts_ok_def distinct_map)
  have sub: "set (remove_at pos ?ps) \<subseteq> set ?ps" using set_remove_at_distinct [OF dp pos(1)] by auto
  show "posts_ok e (t\<lparr>et_posts := remove_at pos ?ps\<rparr>)"
    using assms(1) ep.sorted_remove [of ?ps pos] ep.distinct_remove [of ?ps pos] sub length_remove_at [OF pos(1)]
    by (auto simp: posts_ok_def)
  have "set (remove_at pos (map post_key ?ps)) = set (map post_key ?ps) - {map post_key ?ps ! pos}"
    using set_remove_at_distinct [OF d] pos(1) by simp
  then show "post_key ` set (remove_at pos ?ps) = post_key ` set ?ps - {(f, k)}"
    using pos by (simp add: map_remove_at [symmetric])
qed

section \<open>Interning keeps the invariant\<close>

lemma kind_find_inj:
  assumes "kinds_ok e" and "kind_find e s = Some n" and "kind_find e s' = Some n'" and "kn_id n = kn_id n'"
  shows "s = s'"
proof -
  have le: "length (ei_kind_by_id e) \<le> EDGE_MAX_KINDS" using assms(1) by (simp add: kinds_ok_def)
  obtain j j' where j: "j < length (ei_kind_by_id e)" "n = ei_kind_by_id e ! j" "kn_name n = s"
    and j': "j' < length (ei_kind_by_id e)" "n' = ei_kind_by_id e ! j'" "kn_name n' = s'"
    using assms(1-3) by (auto simp: kinds_ok_def in_set_conv_nth)
  have "kn_id n = of_nat (j + 1)" "kn_id n' = of_nat (j' + 1)" using assms(1) j j' by (auto simp: kinds_ok_def)
  then have "j + 1 = j' + 1" using sentinels(1) [OF le] j(1) j'(1) assms(4) by metis
  with j j' show ?thesis by simp
qed

lemma kind_find_id:
  assumes "kinds_ok e" and "kind_find e s = Some n"
  shows "s \<noteq> []" and "kn_id n \<noteq> EDGE_KIND_UNKNOWN" and "kn_id n \<noteq> EDGE_KIND_NONE" and "kind_name e (kn_id n) = Some s"
    and "valid_kind e (kn_id n)"
proof -
  have le: "length (ei_kind_by_id e) \<le> EDGE_MAX_KINDS" using assms(1) by (simp add: kinds_ok_def)
  obtain j where j: "j < length (ei_kind_by_id e)" "n = ei_kind_by_id e ! j" "kn_name n = s"
    using assms by (auto simp: kinds_ok_def in_set_conv_nth)
  have n: "kn_id n = of_nat (j + 1)" "kn_name n \<noteq> []" using assms(1) j by (auto simp: kinds_ok_def)
  show "s \<noteq> []" using n(2) j(3) by simp
  show "kn_id n \<noteq> EDGE_KIND_UNKNOWN" "kn_id n \<noteq> EDGE_KIND_NONE" using n(1) sentinels [OF le j(1)] by simp_all
  have "kind_node e (kn_id n) = Some j" using kind_node_iff [OF assms(1)] j(1) n(1) by blast
  then show "kind_name e (kn_id n) = Some s" using j by (simp add: kind_name_def)
  show "valid_kind e (kn_id n)" using n(1) j(1) sentinels(1) [OF le j(1)] by (simp add: valid_kind_def)
qed

lemma valid_kind_none [simp]: "valid_kind e EDGE_KIND_NONE" "valid_kind e EDGE_KIND_UNKNOWN"
  by (simp_all add: valid_kind_def EDGE_KIND_NONE_def)

lemma fresh_kind_unused:
  assumes "edge_inv e" and "length (ei_kind_by_id e) < EDGE_MAX_KINDS"
  shows "map_total (\<lambda>t. kind_posts (of_nat (length (ei_kind_by_id e) + 1)) (et_posts t)) (live_map e) = 0"
proof -
  let ?c = "length (ei_kind_by_id e)"
  have fresh: "\<not> valid_kind e (of_nat (?c + 1))"
    using sentinels(1,3) [of "Suc ?c" ?c] assms(2) by (simp add: valid_kind_def)
  have "kind_posts (of_nat (?c + 1)) (et_posts t) = 0" if "live_map e k = Some t" for k t
  proof -
    have "posts_ok e t" using assms(1) that by (auto simp: edge_inv_def ran_def)
    with fresh show ?thesis by (auto simp: kind_posts_def posts_ok_def filter_empty_conv)
  qed
  then show ?thesis by (auto simp: map_total_def)
qed

lemma mint_ok:
  assumes inv: "edge_inv e" and room: "length (ei_kind_by_id e) < EDGE_MAX_KINDS"
    and s: "s \<noteq> []" "kind_find e s = None"
    and n: "n = \<lparr>kn_name = s, kn_id = of_nat (length (ei_kind_by_id e) + 1)\<rparr>"
    and e': "e' = e\<lparr>ei_kind_by_id_cap := nc,
      ei_kind_buckets := table_push kn_name EDGE_KIND_NBUCKETS (ei_kind_buckets e) n,
      ei_kind_by_id := ei_kind_by_id e @ [n], ei_uses := ei_uses e @ [0]\<rparr>"
  shows "edge_inv e'" and "kind_find e' s = Some n" and "\<And>s'. s' \<noteq> s \<Longrightarrow> kind_find e' s' = kind_find e s'"
proof -
  have k: "kinds_ok e" and c: "counts_ok e" using inv by (simp_all add: edge_inv_def)
  have find: "kind_find e' s' = (if s' = s then Some n else kind_find e s')" for s'
    by (simp add: kind_find_def e' table_find_push n)
  then show "kind_find e' s = Some n" and "\<And>s'. s' \<noteq> s \<Longrightarrow> kind_find e' s' = kind_find e s'" by simp_all
  have lm: "live_map e' = live_map e" by (simp add: live_map_def e')
  have all: "\<And>s' m. kind_find e s' = Some m \<longleftrightarrow> m \<in> set (ei_kind_by_id e) \<and> kn_name m = s'"
    using k by (simp add: kinds_ok_def)
  have none: "m \<in> set (ei_kind_by_id e) \<Longrightarrow> kn_name m \<noteq> s" for m using all [of s m] s(2) by auto
  have "table_ok kn_name EDGE_KIND_NBUCKETS (ei_kind_buckets e')"
    using k s(2) by (simp add: e' kinds_ok_def table_ok_push kind_find_def n)
  moreover have "(kind_find e' s' = Some m) = (m \<in> set (ei_kind_by_id e') \<and> kn_name m = s')" for s' m
    using all none unfolding find by (auto simp: e' n)
  moreover have "count_state uses_state SLOT_LIVE (ei_uses e') = count_state uses_state SLOT_LIVE (ei_uses e)"
    by (simp add: e' count_state_def uses_state_def)
  ultimately have "kinds_ok e'"
    using k room s(1) by (auto simp: kinds_ok_def e' n nth_append less_Suc_eq)
  moreover have "counts_ok e'"
    using c k fresh_kind_unused [OF inv room]
    by (auto simp: counts_ok_def lm) (auto simp: e' nth_append less_Suc_eq kinds_ok_def)
  moreover have "tgt_ok e'" using inv by (auto simp: edge_inv_def tgt_ok_def e' split: if_splits)
  moreover have "posts_ok e' t" if "posts_ok e t" for t
    using that by (auto simp: posts_ok_def valid_kind_def e')
  ultimately show "edge_inv e'" using inv by (simp add: edge_inv_def lm)
qed

lemma edge_inv_cap [simp]: "edge_inv (e\<lparr>ei_kind_by_id_cap := nc\<rparr>) = edge_inv e"
  by (simp add: edge_inv_def kinds_ok_def tgt_ok_def counts_ok_def posts_ok_def valid_kind_def live_map_def kind_find_def)

lemma kind_intern_ok:
  assumes inv: "edge_inv e" and r: "kind_intern mem e kind = (k, e1)"
  shows "edge_inv e1 \<and> valid_kind e1 k \<and> live_map e1 = live_map e \<and>
    (\<forall>s n. kind_find e s = Some n \<longrightarrow> kind_find e1 s = Some n) \<and>
    (k \<noteq> EDGE_KIND_UNKNOWN \<longrightarrow> k = kind_lookup e1 kind) \<and>
    ((\<forall>n. mem n) \<and> length (ei_kind_by_id e) < EDGE_MAX_KINDS \<and>
     (case kind of None \<Rightarrow> True | Some s \<Rightarrow> length s \<le> EDGE_MAX_KIND_LEN) \<longrightarrow> k \<noteq> EDGE_KIND_UNKNOWN)"
proof (cases "kind = None \<or> kind = Some []")
  case True
  then show ?thesis
    using r inv
    by (auto simp: kind_intern_def kind_lookup_def valid_kind_def EDGE_KIND_NONE_def EDGE_KIND_UNKNOWN_def)
next
  case False
  then obtain s where s: "kind = Some s" "s \<noteq> []" by auto
  let ?n = "\<lparr>kn_name = s, kn_id = of_nat (length (ei_kind_by_id e) + 1)\<rparr> :: KindNode"
  have ko: "kinds_ok e" using inv by (simp add: edge_inv_def)
  show ?thesis
  proof (cases "EDGE_MAX_KIND_LEN < length s")
    case long: True
    then show ?thesis using r inv s by (auto simp: kind_intern_def)
  next
    case short: False
    show ?thesis
    proof (cases "kind_find e s")
      case (Some n)
      then have "k = kn_id n" "e1 = e" using r s short by (auto simp: kind_intern_def)
      then show ?thesis using inv kind_find_id [OF ko Some] Some s by (auto simp: kind_lookup_def)
    next
      case none: None
      show ?thesis
      proof (cases "k = EDGE_KIND_UNKNOWN")
        case True
        then have "\<exists>nc. e1 = e\<lparr>ei_kind_by_id_cap := nc\<rparr> \<or> e1 = e"
          and "\<not> ((\<forall>n. mem n) \<and> length (ei_kind_by_id e) < EDGE_MAX_KINDS)"
          using r s short none sentinels(3) [of "Suc (length (ei_kind_by_id e))" "length (ei_kind_by_id e)"]
          by (auto simp: kind_intern_def Let_def split: if_splits)
        with True inv show ?thesis by (auto simp: live_map_def kind_find_def)
      next
        case False
        define nc where "nc = (if length (ei_kind_by_id e) = ei_kind_by_id_cap e
          then if ei_kind_by_id_cap e \<noteq> 0 then ei_kind_by_id_cap e * 2 else 16 else ei_kind_by_id_cap e)"
        from False have room: "length (ei_kind_by_id e) < EDGE_MAX_KINDS" and k: "k = kn_id ?n"
          and e1: "e1 = e\<lparr>ei_kind_by_id_cap := nc,
            ei_kind_buckets := table_push kn_name EDGE_KIND_NBUCKETS (ei_kind_buckets e) ?n,
            ei_kind_by_id := ei_kind_by_id e @ [?n], ei_uses := ei_uses e @ [0]\<rparr>"
          using r [unfolded kind_intern_def Let_def, folded nc_def] s short none
          by (auto simp: not_le split: if_splits)
        note m = mint_ok [OF inv room s(2) none refl e1]
        have "kinds_ok e1" using m(1) by (simp add: edge_inv_def)
        from kind_find_id [OF this m(2)] m none s k False show ?thesis
          by (auto simp: kind_lookup_def live_map_def e1) (metis option.distinct(1))
      qed
    qed
  qed
qed

section \<open>The operations on the set of edges\<close>

lemma map_edges_upd:
  "map_edges (m(to_id \<mapsto> t)) =
     {(f, d, k) \<in> map_edges m. d \<noteq> to_id} \<union> {(f, to_id, k) | f k. (f, k) \<in> post_key ` set (et_posts t)}"
  by (auto simp: map_edges_def split: if_splits)

lemma map_edges_at: "m to_id = Some t \<Longrightarrow> (f, to_id, k) \<in> map_edges m \<longleftrightarrow> (f, k) \<in> post_key ` set (et_posts t)"
  by (simp add: map_edges_def)

lemma map_edges_none: "m to_id = None \<Longrightarrow> (f, to_id, k) \<notin> map_edges m"
  by (simp add: map_edges_def)

lemma map_edges_del: "map_edges (m(to_id := None)) = {(f, d, k) \<in> map_edges m. d \<noteq> to_id}"
  by (auto simp: map_edges_def split: if_splits)

lemma map_edges_insert:
  assumes "m to_id = Some t \<or> m to_id = None \<and> et_posts t = []"
    and "post_key ` set (et_posts t') = insert (f, k) (post_key ` set (et_posts t))"
  shows "map_edges (m(to_id \<mapsto> t')) = insert (f, to_id, k) (map_edges m)"
  using assms unfolding map_edges_upd by (auto simp: map_edges_def)

lemma map_edges_remove:
  assumes "m to_id = Some t" and "post_key ` set ps = post_key ` set (et_posts t) - {(f, k)}"
  shows "map_edges (m(to_id \<mapsto> t\<lparr>et_posts := ps\<rparr>)) = map_edges m - {(f, to_id, k)}"
    and "ps = [] \<Longrightarrow> map_edges (m(to_id := None)) = map_edges m - {(f, to_id, k)}"
proof -
  show "map_edges (m(to_id \<mapsto> t\<lparr>et_posts := ps\<rparr>)) = map_edges m - {(f, to_id, k)}"
    using assms unfolding map_edges_upd by (auto simp: map_edges_def)
  assume "ps = []"
  then have "post_key p = (f, k)" if "p \<in> set (et_posts t)" for p using assms(2) that by auto
  then show "map_edges (m(to_id := None)) = map_edges m - {(f, to_id, k)}"
    using assms(1) unfolding map_edges_del by (auto simp: map_edges_def)
qed

text \<open>The slot that \<^verbatim>\<open>tgt_put\<close> returned, before a posting lands in it: \<open>m\<close> is the map before the call.\<close>

definition slot_ready :: "EdgeIndex \<Rightarrow> nat \<Rightarrow> u64 \<Rightarrow> (u64 \<rightharpoonup> EdgeTarget) \<Rightarrow> bool" where
  "slot_ready e j to_id m \<longleftrightarrow>
     kinds_ok e \<and> tgt_ok e \<and> j < length (ei_targets e) \<and> et_state (ei_targets e ! j) = SLOT_LIVE \<and>
     et_to (ei_targets e ! j) = to_id \<and> live_map e = m(to_id \<mapsto> ei_targets e ! j) \<and> finite (dom m) \<and>
     (m to_id = Some (ei_targets e ! j) \<or> m to_id = None \<and> ei_targets e ! j = empty_target to_id) \<and>
     ei_edges e = map_total (\<lambda>t. length (et_posts t)) m \<and>
     (\<forall>i < length (ei_uses e). ei_uses e ! i = map_total (\<lambda>t. kind_posts (of_nat (i + 1)) (et_posts t)) m) \<and>
     (\<forall>t \<in> ran m. posts_ok e t \<and> et_posts t \<noteq> [])"

lemma slot_readyD:
  assumes "slot_ready e j to_id m"
  shows "kinds_ok e" and "tgt_ok e" and "j < length (ei_targets e)" and "et_state (ei_targets e ! j) = SLOT_LIVE"
    and "et_to (ei_targets e ! j) = to_id" and "live_map e = m(to_id \<mapsto> ei_targets e ! j)" and "finite (dom m)"
    and "m to_id = Some (ei_targets e ! j) \<or> m to_id = None \<and> ei_targets e ! j = empty_target to_id"
    and "ei_edges e = map_total (\<lambda>t. length (et_posts t)) m"
    and "\<And>i. i < length (ei_uses e) \<Longrightarrow> ei_uses e ! i = map_total (\<lambda>t. kind_posts (of_nat (i + 1)) (et_posts t)) m"
    and "\<And>t. t \<in> ran m \<Longrightarrow> posts_ok e t \<and> et_posts t \<noteq> []" and "posts_ok e (ei_targets e ! j)"
proof -
  have "posts_ok e (empty_target to_id)" by (simp add: posts_ok_def empty_target_def)
  then show "posts_ok e (ei_targets e ! j)" using assms by (metis ranI slot_ready_def)
qed (use assms in \<open>simp_all add: slot_ready_def\<close>)

lemma post_insert_ok:
  assumes rdy: "slot_ready e j to_id m" and vk: "valid_kind e k"
    and t: "t = ei_targets e ! j" and new: "(f, k) \<notin> post_key ` set (et_posts t)"
    and nc: "length (et_posts t) + 1 \<le> nc"
    and t': "t' = t\<lparr>et_posts := insert_at (post_lower_bound (et_posts t) f k) \<lparr>ep_from = f, ep_kind = k\<rparr> (et_posts t),
      et_cap := nc\<rparr>"
    and e1: "e1 = e\<lparr>ei_targets := (ei_targets e)[j := t'], ei_edges := ei_edges e + 1\<rparr>"
  shows "edge_inv (kind_use e1 k 1)" and "edge_set (kind_use e1 k 1) = insert (f, to_id, k) (map_edges m)"
proof -
  note d = slot_readyD [OF rdy, folded t]
  have pt': "posts_ok e t'" unfolding t' by (rule posts_insert_ok [OF d(12) new vk]) (use nc in simp)
  have st: "et_state t' = SLOT_LIVE" "et_to t' = et_to (ei_targets e ! j)" using d(4,5) t by (simp_all add: t')
  note so = tgt_store_ok [OF d(2,3) d(4) [unfolded t] st]
  have lm1: "live_map e1 = m(to_id \<mapsto> t')"
    using so(2) d(5,6) st(2) t by (simp add: live_map_def e1)
  have w: "map_total w (m(to_id \<mapsto> t')) + w t = map_total w m + w t'" if "w (empty_target to_id) = 0" for w
    using map_total_upd [OF d(7), of w to_id t'] d(8) that by (auto split: option.splits)
  have ko1: "kinds_ok e1" using d(1) by (simp add: kinds_ok_def e1 kind_find_def)
  have "ei_edges (kind_use e1 k 1) = map_total (\<lambda>t. length (et_posts t)) (live_map (kind_use e1 k 1))"
    using w [of "\<lambda>t. length (et_posts t)"] d(9)
    by (simp add: lm1) (simp add: e1 t' length_insert_at empty_target_def)
  moreover have "ei_uses (kind_use e1 k 1) ! i =
      map_total (\<lambda>t. kind_posts (of_nat (i + 1)) (et_posts t)) (live_map (kind_use e1 k 1))"
    if "i < length (ei_uses (kind_use e1 k 1))" for i
    using that w [of "\<lambda>t. kind_posts (of_nat (i + 1)) (et_posts t)"] d(10) [of i] kind_use_ok(2) [OF ko1, of i k 1]
    by (simp add: lm1) (auto simp: e1 t' kind_posts_insert empty_target_def)
  ultimately have "counts_ok (kind_use e1 k 1)" by (simp add: counts_ok_def)
  moreover have "tgt_ok (kind_use e1 k 1)" by (rule tgt_ok_cong [OF so(1)]) (simp_all add: e1)
  moreover have "posts_ok (kind_use e1 k 1) u \<and> et_posts u \<noteq> []" if "u \<in> ran (live_map (kind_use e1 k 1))" for u
  proof -
    have "posts_ok e u \<and> et_posts u \<noteq> []"
      using that d(11) pt' by (auto simp: lm1 ran_def t' insert_at_def split: if_splits)
    then show ?thesis by (simp add: posts_ok_def valid_kind_def e1)
  qed
  ultimately show "edge_inv (kind_use e1 k 1)" using kind_use_ok(1) [OF ko1, of k 1] by (simp add: edge_inv_def)
  show "edge_set (kind_use e1 k 1) = insert (f, to_id, k) (map_edges m)"
    unfolding edge_set_def using map_edges_insert [of m to_id t t' f k] d(8)
    by (auto simp: lm1 t' set_insert_at empty_target_def)
qed

lemma post_add_ok:
  assumes rdy: "slot_ready e j to_id m" and vk: "valid_kind e k" and r: "post_add mem e j f k = (rv, e')"
  shows "edge_inv e' \<and> edge_set e' = (if rv = 0 then insert (f, to_id, k) (map_edges m) else map_edges m) \<and>
    ei_kind_by_id e' = ei_kind_by_id e \<and> (rv = 0 \<or> rv = -1 \<and> \<not> mem 4)"
proof -
  let ?t = "ei_targets e ! j" and ?ps = "et_posts (ei_targets e ! j)"
  note d = slot_readyD [OF rdy]
  define pos where "pos = post_lower_bound ?ps f k"
  have at: "post_at ?ps pos f k \<longleftrightarrow> (f, k) \<in> post_key ` set ?ps"
    unfolding pos_def using d(12) by (intro post_at_iff) (simp add: posts_ok_def)
  have ne: "?ps \<noteq> [] \<longleftrightarrow> m to_id = Some ?t" using d(8,11) by (auto simp: ran_def empty_target_def)
  have same: "edge_inv e \<and> edge_set e = map_edges m" if "?ps \<noteq> []"
  proof -
    have "live_map e = m" using ne that d(6) by (simp add: fun_upd_idem)
    then show ?thesis using d(1,2,9-11) by (simp add: edge_inv_def counts_ok_def edge_set_def)
  qed
  consider (present) "post_at ?ps pos f k" | (oom) "\<not> post_at ?ps pos f k" "length ?ps = et_cap ?t \<and> \<not> mem 4"
    | (ins) "\<not> post_at ?ps pos f k" "\<not> (length ?ps = et_cap ?t \<and> \<not> mem 4)" by blast
  then show ?thesis
  proof cases
    case present
    then have "rv = 0" "e' = e" using r by (auto simp: post_add_def Let_def pos_def)
    moreover have "?ps \<noteq> []" using present by (auto simp: post_at_def)
    moreover have "(f, to_id, k) \<in> map_edges m"
      using present at ne calculation map_edges_at by blast
    ultimately show ?thesis using same by (auto simp: insert_absorb)
  next
    case oom
    then have e': "rv = -1" "e' = (if length ?ps = 0 then tgt_retire e j else e)"
      using r by (auto simp: post_add_def Let_def pos_def split: if_splits)
    show ?thesis
    proof (cases "?ps = []")
      case True
      then have none: "m to_id = None" using ne d(8) by auto
      have lm': "live_map (tgt_retire e j) = m"
        using tgt_retire_ok(2) [OF d(2-4)] d(5,6) none by (auto simp: fun_upd_idem_iff)
      have "edge_inv (tgt_retire e j)"
        using tgt_retire_ok(1) [OF d(2-4)] d(1,9-11) lm'
        by (auto simp: edge_inv_def counts_ok_def tgt_retire_def kinds_ok_def kind_find_def posts_ok_def valid_kind_def)
      then show ?thesis using True e' oom lm' by (simp add: edge_set_def tgt_retire_def)
    next
      case False
      then have "e' = e" using e'(2) by simp
      then show ?thesis using same False e'(1) oom by simp
    qed
  next
    case ins
    define nc where "nc = (if length ?ps = et_cap ?t then if et_cap ?t \<noteq> 0 then et_cap ?t * 2 else 1 else et_cap ?t)"
    define t' where "t' = ?t\<lparr>et_posts := insert_at pos \<lparr>ep_from = f, ep_kind = k\<rparr> ?ps, et_cap := nc\<rparr>"
    define e1 where "e1 = e\<lparr>ei_targets := (ei_targets e)[j := t'], ei_edges := ei_edges e + 1\<rparr>"
    have rr: "rv = 0" "e' = kind_use e1 k 1"
      using r ins unfolding post_add_def Let_def pos_def [symmetric] nc_def [symmetric] t'_def [symmetric] e1_def [symmetric]
      by auto
    have "length ?ps + 1 \<le> nc" using d(12) by (auto simp: nc_def posts_ok_def)
    from post_insert_ok [OF rdy vk refl _ this, OF _ t'_def [unfolded pos_def] e1_def] ins(1) at rr
    show ?thesis by (simp add: e1_def)
  qed
qed

lemma edge_add_ok:
  assumes inv: "edge_inv e"
  shows "\<exists>rv e'. edge_index_add mem (Some e) f to_id kind = Some (rv, Some e') \<and> edge_inv e' \<and>
    edge_set e' = (if rv = 0 then insert (f, to_id, fst (kind_intern mem e kind)) (edge_set e) else edge_set e) \<and>
    ei_kind_by_id e' = ei_kind_by_id (snd (kind_intern mem e kind)) \<and>
    (rv = 0 \<or> rv = -1 \<and> (\<not> mem 3 \<or> \<not> mem 4))"
proof -
  obtain k e1 where k: "kind_intern mem e kind = (k, e1)" by fastforce
  note ki = kind_intern_ok [OF inv k]
  then have i1: "edge_inv e1" and vk: "valid_kind e1 k" and lm: "live_map e1 = live_map e" by blast+
  have to1: "tgt_ok e1" using i1 by (simp add: edge_inv_def)
  show ?thesis
  proof (cases "tgt_put mem e1 to_id = Some (None, e1) \<and> \<not> mem 3")
    case True
    with k i1 lm show ?thesis by (auto simp: edge_index_add_def edge_set_def)
  next
    case False
    then obtain j e2 where p: "tgt_put mem e1 to_id = Some (Some j, e2)" "tgt_ok e2" "j < length (ei_targets e2)"
      "et_state (ei_targets e2 ! j) = SLOT_LIVE" "et_to (ei_targets e2 ! j) = to_id"
      "live_map e2 = (live_map e1)(to_id \<mapsto> ei_targets e2 ! j)"
      "live_map e1 to_id = Some (ei_targets e2 ! j) \<or> live_map e1 to_id = None \<and> ei_targets e2 ! j = empty_target to_id"
      "e2 = e1\<lparr>ei_targets := ei_targets e2, ei_tgt_used := ei_tgt_used e2, ei_tgt_live := ei_tgt_live e2\<rparr>"
      using tgt_put_ok [OF to1 refl, of mem to_id] by blast
    have f2: "ei_kind_by_id e2 = ei_kind_by_id e1" "ei_uses e2 = ei_uses e1" "ei_edges e2 = ei_edges e1"
      "ei_kind_buckets e2 = ei_kind_buckets e1" "ei_kinds_live e2 = ei_kinds_live e1"
      using arg_cong [OF p(8), of ei_kind_by_id] arg_cong [OF p(8), of ei_uses] arg_cong [OF p(8), of ei_edges]
        arg_cong [OF p(8), of ei_kind_buckets] arg_cong [OF p(8), of ei_kinds_live] by simp_all
    obtain rv e3 where r: "post_add mem e2 j f k = (rv, e3)" by fastforce
    have ko2: "kinds_ok e2" using i1 f2 by (simp add: edge_inv_def kinds_ok_def kind_find_def)
    have v2: "valid_kind e2 = valid_kind e1" by (simp add: valid_kind_def f2 fun_eq_iff)
    have "slot_ready e2 j to_id (live_map e1)"
      using ko2 p(2-7) i1 f2 v2 unfolding slot_ready_def by (auto simp: edge_inv_def counts_ok_def posts_ok_def)
    from post_add_ok [OF this _ r] vk v2
    have "edge_inv e3 \<and> edge_set e3 = (if rv = 0 then insert (f, to_id, k) (map_edges (live_map e1))
        else map_edges (live_map e1)) \<and> ei_kind_by_id e3 = ei_kind_by_id e2 \<and> (rv = 0 \<or> rv = -1 \<and> \<not> mem 4)"
      by simp
    with r k p(1) lm f2(1) show ?thesis by (auto simp: edge_index_add_def edge_set_def)
  qed
qed

text \<open>What remains of the counters when the postings of one target shrink.\<close>

lemma shrink_ok:
  assumes inv: "edge_inv e" and at: "live_map e to_id = Some t"
    and ps: "posts_ok e (t\<lparr>et_posts := ps\<rparr>)"
    and lm': "live_map e' = (if ps = [] then (live_map e)(to_id := None) else (live_map e)(to_id \<mapsto> t\<lparr>et_posts := ps\<rparr>))"
    and to': "tgt_ok e'" and ko': "kinds_ok e'" and kb: "ei_kind_by_id e' = ei_kind_by_id e"
    and ee: "ei_edges e' + (length (et_posts t) - length ps) = ei_edges e" and le: "length ps \<le> length (et_posts t)"
    and uu: "\<And>i. i < length (ei_uses e) \<Longrightarrow>
      ei_uses e' ! i = ei_uses e ! i - (kind_posts (of_nat (i + 1)) (et_posts t) - kind_posts (of_nat (i + 1)) ps)"
    and kle: "\<And>k. kind_posts k ps \<le> kind_posts k (et_posts t)"
  shows "edge_inv e'"
proof -
  have co: "counts_ok e" using inv by (simp add: edge_inv_def)
  have w: "map_total w (live_map e') + w t = map_total w (live_map e) + w (t\<lparr>et_posts := ps\<rparr>)"
    if "ps = [] \<Longrightarrow> w (t\<lparr>et_posts := ps\<rparr>) = 0" for w
    using map_total_upd [of "live_map e" w to_id "t\<lparr>et_posts := ps\<rparr>"] map_total_del [of "live_map e" w to_id] that
    by (auto simp: lm' at)
  have len: "length (ei_uses e') = length (ei_uses e)" using ko' inv kb by (simp add: edge_inv_def kinds_ok_def)
  have "ei_edges e' = map_total (\<lambda>t. length (et_posts t)) (live_map e')"
    using w [of "\<lambda>t. length (et_posts t)"] co ee le by (simp add: counts_ok_def)
  moreover have "ei_uses e' ! i = map_total (\<lambda>t. kind_posts (of_nat (i + 1)) (et_posts t)) (live_map e')"
    if "i < length (ei_uses e')" for i
    using w [of "\<lambda>t. kind_posts (of_nat (i + 1)) (et_posts t)"] co uu [of i] kle [of "of_nat (i + 1)"] that len
    by (simp add: counts_ok_def)
  ultimately have "counts_ok e'" by (simp add: counts_ok_def)
  moreover have "posts_ok e' u \<and> et_posts u \<noteq> []" if "u \<in> ran (live_map e')" for u
  proof -
    have "posts_ok e u \<and> et_posts u \<noteq> []"
      using that inv ps by (auto simp: lm' edge_inv_def ran_def split: if_splits)
    then show ?thesis by (simp add: posts_ok_def valid_kind_def kb)
  qed
  ultimately show ?thesis using to' ko' by (simp add: edge_inv_def)
qed

lemma shrink_edges:
  assumes "edge_inv e" and "live_map e to_id = Some t"
  shows "length (et_posts t) \<le> ei_edges e"
  using map_total_del [of "live_map e" "\<lambda>t. length (et_posts t)" to_id] assms
  by (simp add: edge_inv_def counts_ok_def)

lemma edge_remove_ok:
  assumes inv: "edge_inv e"
  shows "\<exists>e'. edge_index_remove (Some e) f to_id kind = Some e' \<and> edge_inv e' \<and>
    edge_set e' = edge_set e - {(f, to_id, kind_lookup e kind)} \<and> ei_kind_by_id e' = ei_kind_by_id e"
proof (cases "tgt_find e to_id")
  case None
  have "live_map e to_id = None" using tgt_find_ok(2) [OF _ None] inv by (simp add: edge_inv_def)
  then have "(f, to_id, kind_lookup e kind) \<notin> edge_set e" by (simp add: edge_set_def map_edges_none)
  then show ?thesis using None inv by (simp add: edge_index_remove_def)
next
  case (Some j)
  let ?k = "kind_lookup e kind" and ?t = "ei_targets e ! j"
  have ko: "kinds_ok e" and to: "tgt_ok e" using inv by (simp_all add: edge_inv_def)
  note t = tgt_find_ok(1) [OF to Some]
  have po: "posts_ok e ?t" using inv t by (auto simp: edge_inv_def ran_def)
  define pos where "pos = post_lower_bound (et_posts ?t) f ?k"
  have at: "post_at (et_posts ?t) pos f ?k \<longleftrightarrow> (f, to_id, ?k) \<in> edge_set e"
    using post_at_iff [of "et_posts ?t" f ?k] po t by (simp add: pos_def edge_set_def map_edges_at posts_ok_def)
  show ?thesis
  proof (cases "post_at (et_posts ?t) pos f ?k")
    case False
    then show ?thesis
      using Some inv at by (auto simp: edge_index_remove_def Let_def pos_def)
  next
    case True
    let ?ps = "remove_at pos (et_posts ?t)"
    define t' where "t' = ?t\<lparr>et_posts := ?ps\<rparr>"
    define e1 where "e1 = e\<lparr>ei_targets := (ei_targets e)[j := t'], ei_edges := ei_edges e - 1\<rparr>"
    define e2 where "e2 = kind_use e1 ?k (-1)"
    define e' where "e' = (if length ?ps = 0 then tgt_retire e2 j else e2)"
    have r: "edge_index_remove (Some e) f to_id kind = Some e'"
      unfolding edge_index_remove_def option.case Some Let_def pos_def [symmetric] t'_def [symmetric]
        e1_def [symmetric] e2_def [symmetric] e'_def [symmetric] using True by simp
    have pos: "pos < length (et_posts ?t)" "ep_kind (et_posts ?t ! pos) = ?k" using True by (auto simp: post_at_def)
    have st: "et_state t' = SLOT_LIVE" "et_to t' = et_to ?t" using t by (simp_all add: t'_def)
    note so = tgt_store_ok [OF to _ _ st] and rm = posts_remove_ok [OF po True]
    have lm2: "live_map e2 = (live_map e)(to_id \<mapsto> t')"
      using so(2) t st(2) by (simp add: e2_def e1_def live_map_def)
    have to2: "tgt_ok e2" using t by (intro tgt_ok_cong [OF so(1)]) (simp_all add: e2_def e1_def)
    have j2: "j < length (ei_targets e2)" "et_state (ei_targets e2 ! j) = SLOT_LIVE" "et_to (ei_targets e2 ! j) = to_id"
      using t st by (simp_all add: e2_def e1_def)
    have ko1: "kinds_ok e1" using ko by (simp add: e1_def kinds_ok_def kind_find_def)
    have ko2: "kinds_ok e2" using kind_use_ok(1) [OF ko1] by (simp add: e2_def)
    have lm: "live_map e' = (if ?ps = [] then (live_map e)(to_id := None) else (live_map e)(to_id \<mapsto> t'))"
      using tgt_retire_ok(2) [OF to2 j2(1,2)] lm2 j2(3) by (auto simp: e'_def)
    have "edge_inv e'"
    proof (rule shrink_ok [OF inv _ rm(1) lm [unfolded t'_def]])
      show "tgt_ok e'" using tgt_retire_ok(1) [OF to2 j2(1,2)] to2 by (simp add: e'_def)
      show "kinds_ok e'" using ko2 by (simp add: e'_def tgt_retire_def kinds_ok_def kind_find_def)
      show "ei_edges e' + (length (et_posts ?t) - length ?ps) = ei_edges e"
        using shrink_edges [OF inv, of to_id ?t] pos(1) t
        by (auto simp: e'_def e2_def e1_def tgt_retire_def length_remove_at)
      show "ei_uses e' ! i = ei_uses e ! i - (kind_posts (of_nat (i + 1)) (et_posts ?t) - kind_posts (of_nat (i + 1)) ?ps)"
        if "i < length (ei_uses e)" for i
        using kind_use_ok(2) [OF ko1, of i ?k "-1"] that kind_posts_remove [OF pos(1), of "of_nat (i + 1)"] pos(2)
        by (auto simp: e'_def e2_def tgt_retire_def) (auto simp: e1_def)
      show "kind_posts k ?ps \<le> kind_posts k (et_posts ?t)" for k
        using kind_posts_remove [OF pos(1), of k] by simp
    qed (use t pos in \<open>auto simp: e'_def e2_def e1_def tgt_retire_def length_remove_at\<close>)
    moreover have "edge_set e' = edge_set e - {(f, to_id, ?k)}"
      using map_edges_remove [OF _ rm(2), of "live_map e" to_id] t lm by (auto simp: edge_set_def t'_def)
    ultimately show ?thesis using r by (auto simp: e'_def e2_def e1_def tgt_retire_def)
  qed
qed

lemma edge_remove_target_ok:
  assumes inv: "edge_inv e"
  shows "\<exists>e'. edge_index_remove_target (Some e) to_id = Some e' \<and> edge_inv e' \<and>
    edge_set e' = {(f, d, k) \<in> edge_set e. d \<noteq> to_id} \<and> ei_kind_by_id e' = ei_kind_by_id e"
proof (cases "tgt_find e to_id")
  case None
  have "live_map e to_id = None" using tgt_find_ok(2) [OF _ None] inv by (simp add: edge_inv_def)
  then have "(f, to_id, k) \<notin> edge_set e" for f k by (simp add: edge_set_def map_edges_none)
  then show ?thesis using None inv by (auto simp: edge_index_remove_target_def)
next
  case (Some j)
  let ?t = "ei_targets e ! j"
  define e1 where "e1 = fold (\<lambda>p e. kind_use e (ep_kind p) (-1)) (et_posts ?t) e"
  define e2 where "e2 = e1\<lparr>ei_edges := ei_edges e1 - length (et_posts ?t)\<rparr>"
  define e' where "e' = tgt_retire e2 j"
  have ko: "kinds_ok e" and to: "tgt_ok e" using inv by (simp_all add: edge_inv_def)
  note t = tgt_find_ok(1) [OF to Some]
  have r: "edge_index_remove_target (Some e) to_id = Some e'"
    by (simp add: edge_index_remove_target_def Some Let_def e1_def e2_def e'_def)
  have kf: "kinds_ok e1" "\<forall>i < length (ei_uses e). ei_uses e1 ! i = ei_uses e ! i - kind_posts (of_nat (i + 1)) (et_posts ?t)"
    "ei_targets e1 = ei_targets e" "ei_tgt_live e1 = ei_tgt_live e" "ei_tgt_used e1 = ei_tgt_used e"
    "ei_edges e1 = ei_edges e" "ei_kind_by_id e1 = ei_kind_by_id e"
    using kind_use_fold [OF ko, of "et_posts ?t"] by (simp_all add: e1_def Let_def)
  have to2: "tgt_ok e2" by (rule tgt_ok_cong [OF to]) (simp_all add: e2_def kf)
  have j2: "j < length (ei_targets e2)" "et_state (ei_targets e2 ! j) = SLOT_LIVE" "et_to (ei_targets e2 ! j) = to_id"
    using t by (simp_all add: e2_def kf)
  have lm: "live_map e' = (live_map e)(to_id := None)"
    using tgt_retire_ok(2) [OF to2 j2(1,2)] j2(3) by (simp add: e'_def live_map_def e2_def kf)
  have "edge_inv e'"
  proof (rule shrink_ok [of e to_id ?t "[]"])
    show "posts_ok e (?t\<lparr>et_posts := []\<rparr>)" by (simp add: posts_ok_def)
    show "tgt_ok e'" using tgt_retire_ok(1) [OF to2 j2(1,2)] by (simp add: e'_def)
    show "kinds_ok e'" using kf(1) by (simp add: e'_def e2_def tgt_retire_def kinds_ok_def kind_find_def)
    show "ei_edges e' + (length (et_posts ?t) - length []) = ei_edges e"
      using shrink_edges [OF inv, of to_id ?t] t by (simp add: e'_def e2_def tgt_retire_def kf)
  qed (use inv t lm kf in \<open>auto simp: e'_def e2_def tgt_retire_def\<close>)
  then show ?thesis using r lm kf(7) by (auto simp: edge_set_def map_edges_del e'_def e2_def tgt_retire_def)
qed

section \<open>Queries and counters\<close>

lemma kind_lookup_named:
  assumes "kinds_ok e" and "s \<noteq> []" and "valid_kind e k" and "kind_lookup e (Some s) \<noteq> EDGE_KIND_UNKNOWN"
  shows "kind_lookup e (Some s) = k \<longleftrightarrow> kind_name e k = Some s"
proof -
  obtain n where n: "kind_find e s = Some n" "kind_lookup e (Some s) = kn_id n"
    using assms(2,4) by (auto simp: kind_lookup_def split: option.splits)
  note i = kind_find_id [OF assms(1) n(1)]
  show ?thesis
  proof
    assume "kind_name e k = Some s"
    then obtain j where j: "kind_node e k = Some j" "kn_name (ei_kind_by_id e ! j) = s"
      by (auto simp: kind_name_def)
    then have "j < length (ei_kind_by_id e)" "k = of_nat (j + 1)" using kind_node_iff [OF assms(1)] by auto
    moreover from this have "kn_id (ei_kind_by_id e ! j) = k" using assms(1) by (simp add: kinds_ok_def)
    moreover have "kind_find e s = Some (ei_kind_by_id e ! j)"
      using assms(1) j(2) calculation(1) by (simp add: kinds_ok_def)
    ultimately show "kind_lookup e (Some s) = k" using n by simp
  qed (use n i in auto)
qed

lemma resolve_kinds_set:
  "set (fst (resolve_kinds e kinds want u)) = set want \<union>
     {kind_lookup e (Some s) | s. Some s \<in> set kinds \<and> s \<noteq> [] \<and> kind_lookup e (Some s) \<noteq> EDGE_KIND_UNKNOWN}"
  "snd (resolve_kinds e kinds want u) \<longleftrightarrow>
     u \<or> (\<exists>s. Some s \<in> set kinds \<and> s \<noteq> [] \<and> kind_lookup e (Some s) = EDGE_KIND_UNKNOWN)"
  by (induction kinds arbitrary: want u) (auto simp: Let_def)

text \<open>What a filter admits, by the names of the kinds.\<close>

definition admits :: "EdgeIndex \<Rightarrow> cstr option list \<Rightarrow> u16 \<Rightarrow> bool" where
  "admits e kinds k \<longleftrightarrow> kinds = [] \<or>
     (\<exists>s. Some s \<in> set kinds \<and> s \<noteq> [] \<and>
        (kind_name e k = Some s \<or> k = EDGE_KIND_UNKNOWN \<and> kind_lookup e (Some s) = EDGE_KIND_UNKNOWN))"

lemma keep_post_admits:
  assumes "kinds_ok e" and "valid_kind e k"
  shows "keep_post (kinds \<noteq> []) (resolve_kinds e kinds [] False) k \<longleftrightarrow> admits e kinds k"
proof -
  have unk: "kind_name e EDGE_KIND_UNKNOWN = None" by (simp add: kind_name_def kind_node_def)
  have nm: "kind_name e k = Some s \<Longrightarrow> s \<noteq> [] \<Longrightarrow> kind_lookup e (Some s) \<noteq> EDGE_KIND_UNKNOWN" for s
  proof -
    assume a: "kind_name e k = Some s" "s \<noteq> []"
    then obtain j where "j < length (ei_kind_by_id e)" "kn_name (ei_kind_by_id e ! j) = s"
      using kind_node_iff [OF assms(1)] by (auto simp: kind_name_def)
    then have "kind_find e s = Some (ei_kind_by_id e ! j)" using assms(1) by (simp add: kinds_ok_def)
    with a(2) kind_find_id(2) [OF assms(1) this] show ?thesis by (simp add: kind_lookup_def)
  qed
  show ?thesis
    using kind_lookup_named [OF assms(1) _ assms(2)] nm unk
    unfolding keep_post_def admits_def resolve_kinds_set by auto
qed

lemma sources_ok:
  assumes inv: "edge_inv e" and mem: "mem 0" "mem 1"
  shows "\<exists>out. edge_index_sources mem (Some e) to_id kinds = Some out \<and> sorted (map es_from out) \<and>
    set out = {\<lparr>es_from = f, es_kind = kind_name e k, es_kind_unknown = (k = EDGE_KIND_UNKNOWN)\<rparr> | f k.
       (f, to_id, k) \<in> edge_set e \<and> admits e kinds k}"
proof (cases "tgt_find e to_id")
  case None
  have "live_map e to_id = None" using tgt_find_ok(2) [OF _ None] inv by (simp add: edge_inv_def)
  then show ?thesis using None by (simp add: edge_index_sources_def edge_set_def map_edges_none)
next
  case (Some j)
  let ?ps = "et_posts (ei_targets e ! j)"
  have ko: "kinds_ok e" using inv by (simp add: edge_inv_def)
  have t: "live_map e to_id = Some (ei_targets e ! j)" using tgt_find_ok(1) [OF _ Some] inv by (simp add: edge_inv_def)
  then have po: "posts_ok e (ei_targets e ! j)" "?ps \<noteq> []" using inv by (auto simp: edge_inv_def ran_def)
  let ?mk = "\<lambda>p. \<lparr>es_from = ep_from p, es_kind = kind_name e (ep_kind p), es_kind_unknown = (ep_kind p = EDGE_KIND_UNKNOWN)\<rparr>"
  let ?out = "map ?mk (filter (\<lambda>p. keep_post (kinds \<noteq> []) (resolve_kinds e kinds [] False) (ep_kind p)) ?ps)"
  have "filter (\<lambda>p. keep_post (kinds \<noteq> []) (resolve_kinds e kinds [] False) (ep_kind p)) ?ps =
      filter (\<lambda>p. admits e kinds (ep_kind p)) ?ps"
    using po(1) keep_post_admits [OF ko] by (auto simp: posts_ok_def intro: filter_cong)
  then have out: "edge_index_sources mem (Some e) to_id kinds = Some (map ?mk (filter (\<lambda>p. admits e kinds (ep_kind p)) ?ps))"
    using Some mem po(2) by (simp add: edge_index_sources_def Let_def)
  have "sorted (map ep_from ?ps)"
    using po(1) sorted_fst_key [of ep_from ep_kind ?ps] by (simp add: posts_ok_def)
  then have "sorted (map es_from (map ?mk (filter (\<lambda>p. admits e kinds (ep_kind p)) ?ps)))"
    using sorted_filter [of ep_from ?ps] by (simp add: comp_def)
  moreover have "(f, to_id, k) \<in> edge_set e \<longleftrightarrow> (f, k) \<in> post_key ` set ?ps" for f k
    using t by (simp add: edge_set_def map_edges_at)
  ultimately show ?thesis using out by (auto simp: image_iff)
qed

lemma edges_card:
  assumes inv: "edge_inv e"
  shows "ei_edges e = card (edge_set e)"
proof -
  have "edge_set e = (\<lambda>(d, f, k). (f, d, k)) `
      (SIGMA d : dom (live_map e). post_key ` set (et_posts (the (live_map e d))))"
    by (auto simp: edge_set_def map_edges_def image_iff Sigma_def domIff) force+
  then have "card (edge_set e) = card (SIGMA d : dom (live_map e). post_key ` set (et_posts (the (live_map e d))))"
    by (simp add: card_image inj_on_def split_beta)
  also have "\<dots> = (\<Sum>d \<in> dom (live_map e). card (post_key ` set (et_posts (the (live_map e d)))))"
    by (simp add: card_SigmaI)
  also have "\<dots> = (\<Sum>d \<in> dom (live_map e). length (et_posts (the (live_map e d))))"
  proof (rule sum.cong)
    fix d assume "d \<in> dom (live_map e)"
    then obtain t where "live_map e d = Some t" by auto
    with inv have "distinct (map post_key (et_posts t))" by (auto simp: edge_inv_def ran_def posts_ok_def)
    from distinct_card [OF this] \<open>live_map e d = Some t\<close>
    show "card (post_key ` set (et_posts (the (live_map e d)))) = length (et_posts (the (live_map e d)))" by simp
  qed simp
  finally show ?thesis using inv by (simp add: edge_inv_def counts_ok_def map_total_def)
qed

lemma kind_posts_pos: "kind_posts k ps \<noteq> 0 \<longleftrightarrow> (\<exists>f. (f, k) \<in> post_key ` set ps)"
  by (auto simp: kind_posts_def filter_empty_conv)

lemma map_total_pos: "finite (dom m) \<Longrightarrow> map_total w m \<noteq> 0 \<longleftrightarrow> (\<exists>d t. m d = Some t \<and> w t \<noteq> 0)"
proof -
  assume "finite (dom m)"
  then have "map_total w m \<noteq> 0 \<longleftrightarrow> (\<exists>d \<in> dom m. w (the (m d)) \<noteq> 0)" by (simp add: map_total_def)
  then show ?thesis by (force simp: dom_def)
qed

lemma kinds_card:
  assumes inv: "edge_inv e"
  shows "ei_kinds_live e = card {k. kind_name e k \<noteq> None \<and> (\<exists>f d. (f, d, k) \<in> edge_set e)}"
proof -
  let ?n = "length (ei_kind_by_id e)" and ?k = "\<lambda>j. of_nat (j + 1) :: u16"
  have ko: "kinds_ok e" and len: "length (ei_uses e) = ?n" and le: "?n \<le> EDGE_MAX_KINDS"
    using inv by (simp_all add: edge_inv_def kinds_ok_def)
  have used: "ei_uses e ! j \<noteq> 0 \<longleftrightarrow> (\<exists>f d. (f, d, ?k j) \<in> edge_set e)" if "j < ?n" for j
  proof -
    have "ei_uses e ! j = map_total (\<lambda>t. kind_posts (?k j) (et_posts t)) (live_map e)"
      using inv that len by (simp add: edge_inv_def counts_ok_def)
    then have "ei_uses e ! j \<noteq> 0 \<longleftrightarrow> (\<exists>d t. live_map e d = Some t \<and> kind_posts (?k j) (et_posts t) \<noteq> 0)"
      using map_total_pos [of "live_map e"] by simp
    then show ?thesis unfolding kind_posts_pos by (auto simp: edge_set_def map_edges_def)
  qed
  have set: "{k. kind_name e k \<noteq> None \<and> (\<exists>f d. (f, d, k) \<in> edge_set e)} = ?k ` {j. j < ?n \<and> ei_uses e ! j \<noteq> 0}"
    using kind_node_iff [OF ko] used by (force simp: kind_name_def)
  have inj: "inj_on ?k {j. j < ?n \<and> ei_uses e ! j \<noteq> 0}"
    by (rule inj_onI) (metis (mono_tags, lifting) add_right_cancel le mem_Collect_eq sentinels(1))
  have "ei_kinds_live e = card {j. j < length (ei_uses e) \<and> uses_state (ei_uses e ! j) = SLOT_LIVE}"
    using ko by (simp add: kinds_ok_def count_state_def length_filter_conv_card)
  also have "{j. j < length (ei_uses e) \<and> uses_state (ei_uses e ! j) = SLOT_LIVE} = {j. j < ?n \<and> ei_uses e ! j \<noteq> 0}"
    by (auto simp: len uses_state_def)
  finally show ?thesis unfolding set card_image [OF inj] .
qed

section \<open>Properties\<close>

definition empty_edges :: EdgeIndex where
  "empty_edges = \<lparr>ei_targets = [], ei_tgt_live = 0, ei_tgt_used = 0, ei_edges = 0,
     ei_kind_buckets = (\<lambda>_. []), ei_kind_by_id = [], ei_uses = [], ei_kinds_live = 0, ei_kind_by_id_cap = 0\<rparr>"

lemma empty_edges_kinds: "ei_kind_by_id empty_edges = []"
  by (simp add: empty_edges_def)

lemma empty_edges_inv: "edge_inv empty_edges" and empty_edges_set: "edge_set empty_edges = {}"
  by (simp_all add: empty_edges_def edge_inv_def kinds_ok_def tgt_ok_def counts_ok_def live_map_def slot_map_def
      kind_find_def count_state_def map_total_def edge_set_def map_edges_def)

text \<open>
  C23. On a well-formed reverse index, an add returns, whatever probe chain and growth it meets; it
  returns 0 and the set of edges gains exactly the edge with its interned kind, or it fails for
  want of memory and the set is unchanged. With memory, an id left and a kind of legal length, the
  kind is interned under its own name. The invariant is kept.
\<close>

theorem edge_index_add_exact:
  assumes "edge_inv e" and "kind_intern mem e kind = (k, e1)"
  shows "\<exists>rv e'. edge_index_add mem (Some e) from_id to_id kind = Some (rv, Some e') \<and> edge_inv e' \<and>
    edge_set e' = (if rv = 0 then insert (from_id, to_id, k) (edge_set e) else edge_set e) \<and>
    (rv = 0 \<or> rv = -1 \<and> (\<not> mem 3 \<or> \<not> mem 4)) \<and>
    ((\<forall>n. mem n) \<and> length (ei_kind_by_id e) < EDGE_MAX_KINDS \<and>
     (case kind of None \<Rightarrow> True | Some s \<Rightarrow> length s \<le> EDGE_MAX_KIND_LEN) \<longrightarrow>
       k \<noteq> EDGE_KIND_UNKNOWN \<and> k = kind_lookup e1 kind)"
proof -
  obtain rv e' where "edge_index_add mem (Some e) from_id to_id kind = Some (rv, Some e')" "edge_inv e'"
    "edge_set e' = (if rv = 0 then insert (from_id, to_id, k) (edge_set e) else edge_set e)"
    "rv = 0 \<or> rv = -1 \<and> (\<not> mem 3 \<or> \<not> mem 4)"
    using edge_add_ok [OF assms(1), of mem from_id to_id kind] unfolding assms(2) fst_conv by blast
  then show ?thesis
    using kind_intern_ok [OF assms] by (intro exI [of _ rv] exI [of _ e'] conjI impI) simp_all
qed

theorem edge_index_add_exact_witness:
  "edge_inv empty_edges \<and>
   (\<exists>k rv e'. edge_index_add mem_ok (Some empty_edges) 1 2 (Some (lit ''supersedes'')) = Some (rv, Some e') \<and>
      rv = 0 \<and> edge_set e' = {(1, 2, k)} \<and> k \<noteq> EDGE_KIND_UNKNOWN)"
proof -
  obtain k e1 where k: "kind_intern mem_ok empty_edges (Some (lit ''supersedes'')) = (k, e1)" by fastforce
  from edge_index_add_exact [OF empty_edges_inv k, of 1 2] show ?thesis
    by (auto simp: empty_edges_inv empty_edges_set EDGE_MAX_KINDS_def EDGE_MAX_KIND_LEN_def lit_def empty_edges_kinds)
qed

text \<open>
  C25. Removing an edge deletes from the set exactly the edge with the id that its kind resolves to;
  removing a target deletes exactly the edges that point at it. Both keep the invariant.
\<close>

theorem edge_index_remove_exact:
  assumes "edge_inv e"
  shows "(\<exists>e'. edge_index_remove (Some e) from_id to_id kind = Some e' \<and> edge_inv e' \<and>
      edge_set e' = edge_set e - {(from_id, to_id, kind_lookup e kind)}) \<and>
    (\<exists>e'. edge_index_remove_target (Some e) to_id = Some e' \<and> edge_inv e' \<and>
      edge_set e' = {(f, d, k) \<in> edge_set e. d \<noteq> to_id})"
  using edge_remove_ok [OF assms] edge_remove_target_ok [OF assms] by blast

theorem edge_index_remove_exact_witness:
  "\<exists>e'. edge_index_remove (Some empty_edges) 1 2 None = Some e' \<and> edge_set e' = {}"
  using edge_index_remove_exact [OF empty_edges_inv, of 1 2 None] by (auto simp: empty_edges_set)

text \<open>
  C24. A query returns the edges of its target that the filter admits, and only those, in ascending
  order of the source. A named filter never returns an edge without a kind, returns a kinded edge
  only under its own name, and returns an edge whose kind could not be interned only when the
  filter names a kind that is not interned either.
\<close>

theorem edge_index_sources_exact:
  assumes "edge_inv e" and "mem 0" and "mem 1"
  shows "\<exists>out. edge_index_sources mem (Some e) to_id kinds = Some out \<and> sorted (map es_from out) \<and>
    set out = {\<lparr>es_from = f, es_kind = kind_name e k, es_kind_unknown = (k = EDGE_KIND_UNKNOWN)\<rparr> | f k.
       (f, to_id, k) \<in> edge_set e \<and>
       (kinds = [] \<or> (\<exists>s. Some s \<in> set kinds \<and> s \<noteq> [] \<and>
          (kind_name e k = Some s \<or> k = EDGE_KIND_UNKNOWN \<and> kind_lookup e (Some s) = EDGE_KIND_UNKNOWN)))}"
  using sources_ok [OF assms, of to_id kinds] unfolding admits_def .

theorem edge_index_sources_exact_witness:
  "edge_index_sources mem_ok (Some empty_edges) 2 [Some (lit ''a'')] = Some []"
  using edge_index_sources_exact [OF empty_edges_inv, of mem_ok 2 "[Some (lit ''a'')]"]
  by (auto simp: empty_edges_set)

text \<open>
  The reported counters are exact on every well-formed index: the number of edges is the size of
  the set of edges, the number of kinds is the number of interned kinds that some edge carries.
\<close>

lemma edge_index_counters_exact:
  assumes "edge_inv e"
  shows "edge_index_edges (Some e) = card (edge_set e) \<and>
    edge_index_kinds (Some e) = card {k. kind_name e k \<noteq> None \<and> (\<exists>f d. (f, d, k) \<in> edge_set e)}"
  using edges_card [OF assms] kinds_card [OF assms] by (simp add: edge_index_edges_def edge_index_kinds_def)

end
