(* ===== verification/Memory_Record.thy ===== *)
theory Memory_Record
  imports Status "HOL-Library.List_Lexorder" "HOL-Library.Multiset"
begin

text \<open>
  The memory record and its life cycle: \<^verbatim>\<open>src/include/aegisdb/record.h\<close> and the first half of
  \<^verbatim>\<open>src/src/memory/record.c\<close>. An owned array with its count is a list. A float is kept as the
  32 bits of its IEEE-754 representation, which is all the code here looks at. The eight premise
  slots of a route with their count are the list of the premises that count.

  Shown: the routes of a derivation are kept sorted, without duplicates and at most four; which
  ones are kept does not depend on the order in which they are added; a clone equals its source.
\<close>

section \<open>Data\<close>

record Relationship =
  rl_from_id :: u64
  rl_to_id :: u64
  rl_kind :: "cstr option"

datatype FactKind = FACT_NONE | FACT_OBJ_ID | FACT_OBJ_STRING

fun fact_kind_code :: "FactKind \<Rightarrow> u8" where
  "fact_kind_code FACT_NONE = 0"
| "fact_kind_code FACT_OBJ_ID = 1"
| "fact_kind_code FACT_OBJ_STRING = 2"

record Fact =
  fc_kind :: FactKind
  fc_subject :: u64
  fc_predicate :: "cstr option"
  fc_object_id :: u64
  fc_object_str :: "cstr option"

definition no_fact :: Fact where
  "no_fact = \<lparr>fc_kind = FACT_NONE, fc_subject = 0, fc_predicate = None, fc_object_id = 0, fc_object_str = None\<rparr>"

datatype DerivRule = DERIV_NONE | DERIV_TRANSITIVE | DERIV_SYMMETRIC | DERIV_INVERSE | DERIV_RULE_COUNT

fun deriv_rule_code :: "DerivRule \<Rightarrow> nat" where
  "deriv_rule_code DERIV_NONE = 0"
| "deriv_rule_code DERIV_TRANSITIVE = 1"
| "deriv_rule_code DERIV_SYMMETRIC = 2"
| "deriv_rule_code DERIV_INVERSE = 3"
| "deriv_rule_code DERIV_RULE_COUNT = 4"

definition DERIV_MAX_PREMISES :: nat where
  "DERIV_MAX_PREMISES = 8"

definition DERIV_MAX_ROUTES :: nat where
  "DERIV_MAX_ROUTES = 4"

record DerivRoute =
  dr_rule :: DerivRule
  dr_depth :: u16
  dr_premises :: "u64 list"

record MemoryRecord =
  mr_id :: u64
  mr_type :: MemoryType
  mr_created :: u64
  mr_updated :: u64
  mr_importance :: u32
  mr_confidence :: u32
  mr_agent_id :: "cstr option"
  mr_tags :: "cstr list"
  mr_embedding :: "u32 list"
  mr_embedding_dim :: nat
  mr_vec_count :: nat
  mr_relationships :: "Relationship list"
  mr_fact :: Fact
  mr_routes :: "DerivRoute list"
  mr_data :: bytes
  mr_expires_at :: u64
  mr_deleted :: int

text \<open>The bits of 0.0F and 1.0F.\<close>

definition f32_zero :: u32 where
  "f32_zero = 0"

definition f32_one :: u32 where
  "f32_one = 0x3F800000"

section \<open>Life cycle\<close>

definition record_init :: MemoryRecord where
  "record_init =
     \<lparr>mr_id = 0, mr_type = MEM_WORKING, mr_created = 0, mr_updated = 0, mr_importance = f32_zero,
      mr_confidence = f32_one, mr_agent_id = None, mr_tags = [], mr_embedding = [], mr_embedding_dim = 0,
      mr_vec_count = 0, mr_relationships = [], mr_fact = no_fact, mr_routes = [], mr_data = [],
      mr_expires_at = 0, mr_deleted = 0\<rparr>"

definition record_set_tags :: "alloc \<Rightarrow> MemoryRecord \<Rightarrow> cstr list \<Rightarrow> int \<times> MemoryRecord" where
  "record_set_tags mem r tags =
     (let r0 = r\<lparr>mr_tags := []\<rparr>
      in if tags = [] then (0, r0)
         else if \<not> mem 0 then (-1, r0)
         else if \<not> list_all (\<lambda>i. mem (1 + i)) [0..<length tags] then (-1, r0)
         else (0, r\<lparr>mr_tags := tags\<rparr>))"

definition record_add_relationship ::
  "alloc \<Rightarrow> MemoryRecord \<Rightarrow> u64 \<Rightarrow> u64 \<Rightarrow> cstr option \<Rightarrow> int \<times> MemoryRecord" where
  "record_add_relationship mem r from_id to_id kind =
     (if \<not> mem 0 then (-1, r)
      else if kind \<noteq> None \<and> \<not> mem 1 then (-1, r)
      else (0, r\<lparr>mr_relationships :=
                mr_relationships r @ [\<lparr>rl_from_id = from_id, rl_to_id = to_id, rl_kind = kind\<rparr>]\<rparr>))"

definition record_set_fact ::
  "alloc \<Rightarrow> MemoryRecord \<Rightarrow> FactKind \<Rightarrow> u64 \<Rightarrow> cstr option \<Rightarrow> u64 \<Rightarrow> cstr option \<Rightarrow> int \<times> MemoryRecord" where
  "record_set_fact mem r kind subject predicate object_id object_str =
     (if kind = FACT_NONE then (0, r\<lparr>mr_fact := no_fact\<rparr>)
      else if predicate = None \<or> predicate = Some [] then (-1, r)
      else if kind = FACT_OBJ_STRING \<and> object_str = None then (-1, r)
      else if \<not> mem 0 \<or> (kind = FACT_OBJ_STRING \<and> \<not> mem 1) then (-1, r)
      else (0, r\<lparr>mr_fact := \<lparr>fc_kind = kind, fc_subject = subject, fc_predicate = predicate,
                  fc_object_id = (if kind = FACT_OBJ_ID then object_id else 0),
                  fc_object_str = (if kind = FACT_OBJ_STRING then object_str else None)\<rparr>\<rparr>))"

text \<open>The running minimum over the routes, 0 without one.\<close>

definition derivation_depth :: "DerivRoute list \<Rightarrow> u16" where
  "derivation_depth routes =
     (case routes of [] \<Rightarrow> 0
      | r # rs \<Rightarrow> fold (\<lambda>rt best. if dr_depth rt < best then dr_depth rt else best) rs (dr_depth r))"

definition record_clear_derivation :: "MemoryRecord \<Rightarrow> MemoryRecord" where
  "record_clear_derivation r = r\<lparr>mr_routes := []\<rparr>"

section \<open>Routes\<close>

text \<open>The loop over the common prefix of the premises.\<close>

fun premises_cmp :: "u64 list \<Rightarrow> u64 list \<Rightarrow> int" where
  "premises_cmp (a # as) (b # bs) = (if a \<noteq> b then if a < b then -1 else 1 else premises_cmp as bs)"
| "premises_cmp _ _ = 0"

definition route_cmp :: "DerivRoute \<Rightarrow> DerivRoute \<Rightarrow> int" where
  "route_cmp a b =
     (let c = premises_cmp (dr_premises a) (dr_premises b)
      in if c \<noteq> 0 then c
         else if length (dr_premises a) \<noteq> length (dr_premises b)
         then if length (dr_premises a) < length (dr_premises b) then -1 else 1
         else if dr_rule a \<noteq> dr_rule b
         then if deriv_rule_code (dr_rule a) < deriv_rule_code (dr_rule b) then -1 else 1
         else 0)"

text \<open>The search for the position; \<open>None\<close> is the early return on a route that is already there.\<close>

fun route_pos :: "DerivRoute \<Rightarrow> DerivRoute list \<Rightarrow> nat \<Rightarrow> nat option" where
  "route_pos rt [] i = Some i"
| "route_pos rt (x # xs) i =
     (let c = route_cmp rt x
      in if c = 0 then None else if c < 0 then Some i else route_pos rt xs (i + 1))"

definition valid_rule :: "DerivRule \<Rightarrow> bool" where
  "valid_rule rule \<longleftrightarrow> rule = DERIV_TRANSITIVE \<or> rule = DERIV_SYMMETRIC \<or> rule = DERIV_INVERSE"

definition record_add_route ::
  "alloc \<Rightarrow> MemoryRecord \<Rightarrow> DerivRule \<Rightarrow> u16 \<Rightarrow> u64 list option \<Rightarrow> int \<times> MemoryRecord" where
  "record_add_route mem r rule depth premises =
     (if \<not> valid_rule rule then (-1, r)
      else case premises of
        None \<Rightarrow> (-1, r)
      | Some ps \<Rightarrow>
          if length ps = 0 \<or> DERIV_MAX_PREMISES < length ps then (-1, r)
          else let rt = \<lparr>dr_rule = rule, dr_depth = depth, dr_premises = ps\<rparr>;
                   routes = mr_routes r
               in case route_pos rt routes 0 of
                    None \<Rightarrow> (1, r)
                  | Some at \<Rightarrow>
                      if DERIV_MAX_ROUTES \<le> length routes
                      then if DERIV_MAX_ROUTES \<le> at then (1, r)
                           else (0, r\<lparr>mr_routes := take DERIV_MAX_ROUTES (insert_at at rt routes)\<rparr>)
                      else if routes = [] \<and> \<not> mem 0 then (-1, r)
                      else (0, r\<lparr>mr_routes := insert_at at rt routes\<rparr>))"

section \<open>Cloning\<close>

text \<open>\<open>None\<close> is the failure path; \<open>mem\<close> gives the outcomes of the allocations of each call made.\<close>

fun clone_routes :: "(nat \<Rightarrow> alloc) \<Rightarrow> DerivRoute list \<Rightarrow> nat \<Rightarrow> MemoryRecord \<Rightarrow> MemoryRecord option" where
  "clone_routes mem [] i r = Some r"
| "clone_routes mem (rt # rts) i r =
     (let (rv, r') = record_add_route (mem i) r (dr_rule rt) (dr_depth rt) (Some (dr_premises rt))
      in if rv < 0 then None else clone_routes mem rts (i + 1) r')"

fun clone_rels :: "(nat \<Rightarrow> alloc) \<Rightarrow> Relationship list \<Rightarrow> nat \<Rightarrow> MemoryRecord \<Rightarrow> MemoryRecord option" where
  "clone_rels mem [] i r = Some r"
| "clone_rels mem (e # es) i r =
     (let (rv, r') = record_add_relationship (mem i) r (rl_from_id e) (rl_to_id e) (rl_kind e)
      in if rv \<noteq> 0 then None else clone_rels mem es (i + 1) r')"

definition clone_scalars :: "MemoryRecord \<Rightarrow> MemoryRecord" where
  "clone_scalars src =
     record_init\<lparr>mr_id := mr_id src, mr_type := mr_type src, mr_created := mr_created src,
       mr_updated := mr_updated src, mr_importance := mr_importance src, mr_confidence := mr_confidence src,
       mr_expires_at := mr_expires_at src, mr_deleted := mr_deleted src, mr_agent_id := mr_agent_id src\<rparr>"

definition clone_embedding :: "alloc \<Rightarrow> MemoryRecord \<Rightarrow> MemoryRecord \<Rightarrow> MemoryRecord option" where
  "clone_embedding mem src r =
     (if mr_embedding_dim src \<noteq> 0 \<and> mr_vec_count src \<noteq> 0
      then if ((2 ^ 64 - 1) div 4) div mr_embedding_dim src < mr_vec_count src then None
           else if \<not> mem 2 then None
           else Some (r\<lparr>mr_embedding := take (mr_vec_count src * mr_embedding_dim src) (mr_embedding src),
                        mr_embedding_dim := mr_embedding_dim src, mr_vec_count := mr_vec_count src\<rparr>)
      else Some r)"

definition record_clone :: "alloc \<Rightarrow> (nat \<Rightarrow> alloc) \<Rightarrow> MemoryRecord \<Rightarrow> MemoryRecord option" where
  "record_clone mem mems src =
     (if \<not> mem 0 then None
      else if mr_agent_id src \<noteq> None \<and> \<not> mem 1 then None
      else let f = mr_fact src;
               (rv1, r1) = (if mr_tags src \<noteq> [] then record_set_tags (mems 0) (clone_scalars src) (mr_tags src)
                            else (0, clone_scalars src))
           in if rv1 \<noteq> 0 then None
              else let (rv2, r2) = (if fc_kind f \<noteq> FACT_NONE
                         then record_set_fact (mems 1) r1 (fc_kind f) (fc_subject f) (fc_predicate f)
                                (fc_object_id f) (fc_object_str f)
                         else (0, r1))
                   in if rv2 \<noteq> 0 then None
                      else Option.bind (clone_routes mems (mr_routes src) 2 r2) (\<lambda>r3.
                           Option.bind (clone_embedding mem src r3) (\<lambda>r4.
                           Option.bind (clone_rels mems (mr_relationships src) (2 + length (mr_routes src)) r4) (\<lambda>r5.
                             if mr_data src \<noteq> [] \<and> \<not> mem 3 then None
                             else Some (r5\<lparr>mr_data := mr_data src\<rparr>)))))"

section \<open>The order of routes\<close>

definition route_key :: "DerivRoute \<Rightarrow> u64 list \<times> nat" where
  "route_key rt = (dr_premises rt, deriv_rule_code (dr_rule rt))"

definition route_ok :: "DerivRoute \<Rightarrow> bool" where
  "route_ok rt \<longleftrightarrow> valid_rule (dr_rule rt) \<and> dr_premises rt \<noteq> [] \<and> length (dr_premises rt) \<le> DERIV_MAX_PREMISES"

definition routes_ok :: "DerivRoute list \<Rightarrow> bool" where
  "routes_ok rs \<longleftrightarrow> sorted (map route_key rs) \<and> distinct (map route_key rs) \<and>
     length rs \<le> DERIV_MAX_ROUTES \<and> list_all route_ok rs"

lemma deriv_rule_code_inj: "deriv_rule_code a = deriv_rule_code b \<longleftrightarrow> a = b"
  by (cases a; cases b) simp_all

lemma Nil_less_iff: "[] < (xs :: u64 list) \<longleftrightarrow> xs \<noteq> []"
  by (cases xs) simp_all

lemma premises_cmp_less:
  "as < bs \<longleftrightarrow> premises_cmp as bs < 0 \<or> premises_cmp as bs = 0 \<and> length as < length bs"
  "premises_cmp as bs = 0 \<and> length as = length bs \<longleftrightarrow> as = bs"
  by (induction as bs rule: premises_cmp.induct) (auto simp: Nil_less_iff)

lemma route_cmp_iff:
  "route_cmp a b < 0 \<longleftrightarrow> route_key a < route_key b"
  "route_cmp a b = 0 \<longleftrightarrow> route_key a = route_key b"
  using premises_cmp_less [of "dr_premises a" "dr_premises b"]
  by (auto simp: route_cmp_def route_key_def Let_def less_prod_simp deriv_rule_code_inj)

lemma route_pos_sorted:
  assumes "sorted (map route_key rs)"
  shows "route_pos rt rs i =
    (if route_key rt \<in> route_key ` set rs then None else Some (i + length (takeWhile (\<lambda>x. route_key x < route_key rt) rs)))"
  using assms
proof (induction rs arbitrary: i)
  case (Cons x xs)
  consider "route_key rt = route_key x" | "route_key rt < route_key x" | "route_key x < route_key rt"
    by (rule linorder_cases)
  then show ?case
  proof cases
    case 2
    then have "route_key rt \<notin> route_key ` set (x # xs)" using Cons.prems by (auto simp: image_iff)
    with 2 show ?thesis by (auto simp: Let_def route_cmp_iff)
  next
    case 3
    then have "\<not> route_cmp rt x < 0" "route_cmp rt x \<noteq> 0" by (auto simp: route_cmp_iff)
    with 3 Cons show ?thesis by (auto simp: Let_def)
  qed (simp add: Let_def route_cmp_iff)
qed simp

lemma insort_split:
  assumes "sorted (map f xs)" and "f x \<notin> f ` set xs"
  shows "insert_at (length (takeWhile (\<lambda>y. f y < f x) xs)) x xs = insort_key f x xs"
  using assms by (induction xs) (auto simp: insert_at_def not_less)

lemma take_insort: "take n (insort_key f x (take n xs)) = take n (insort_key f x xs)"
proof (induction xs arbitrary: n)
  case (Cons y ys)
  then show ?case by (cases n) (auto simp: take_Cons')
qed simp

text \<open>One addition, on the routes alone.\<close>

lemma add_route_routes:
  assumes ok: "routes_ok (mr_routes r)" and rt: "route_ok rt" and mem: "mem 0"
    and add: "record_add_route mem r (dr_rule rt) (dr_depth rt) (Some (dr_premises rt)) = (rv, r')"
  shows "r' = r\<lparr>mr_routes := (if route_key rt \<in> route_key ` set (mr_routes r) then mr_routes r
      else take DERIV_MAX_ROUTES (insort_key route_key rt (mr_routes r)))\<rparr>"
    and "rv = 0 \<or> rv = 1"
proof -
  let ?rs = "mr_routes r" and ?at = "length (takeWhile (\<lambda>x. route_key x < route_key rt) (mr_routes r))"
  have s: "sorted (map route_key ?rs)" and len: "length ?rs \<le> DERIV_MAX_ROUTES" using ok by (simp_all add: routes_ok_def)
  have eta: "\<lparr>dr_rule = dr_rule rt, dr_depth = dr_depth rt, dr_premises = dr_premises rt\<rparr> = rt" by simp
  have g: "valid_rule (dr_rule rt)" "\<not> (length (dr_premises rt) = 0 \<or> DERIV_MAX_PREMISES < length (dr_premises rt))"
    using rt by (auto simp: route_ok_def)
  have pos: "route_pos rt ?rs 0 = (if route_key rt \<in> route_key ` set ?rs then None else Some ?at)"
    using route_pos_sorted [OF s, of rt 0] by simp
  have "(r' = r\<lparr>mr_routes := (if route_key rt \<in> route_key ` set ?rs then ?rs
      else take DERIV_MAX_ROUTES (insort_key route_key rt ?rs))\<rparr>) \<and> (rv = 0 \<or> rv = 1)"
  proof (cases "route_key rt \<in> route_key ` set ?rs")
    case True
    then show ?thesis using add g pos by (simp add: record_add_route_def Let_def eta)
  next
    case False
    note ins = insort_split [OF s False]
    have at: "?at \<le> length ?rs" by (rule length_takeWhile_le)
    show ?thesis
    proof (cases "DERIV_MAX_ROUTES \<le> length ?rs \<and> DERIV_MAX_ROUTES \<le> ?at")
      case True
      then have "insert_at ?at rt ?rs = ?rs @ [rt]" "length ?rs = DERIV_MAX_ROUTES"
        using len at by (simp_all add: insert_at_def)
      then have "take DERIV_MAX_ROUTES (insort_key route_key rt ?rs) = ?rs"
        unfolding ins [symmetric] by simp
      with True False show ?thesis using add g pos by (simp add: record_add_route_def Let_def eta)
    next
      case room: False
      have "length ?rs < DERIV_MAX_ROUTES \<Longrightarrow> take DERIV_MAX_ROUTES (insort_key route_key rt ?rs) = insort_key route_key rt ?rs"
        by simp
      with room False show ?thesis
        using add g pos mem ins by (auto simp: record_add_route_def Let_def eta split: if_splits)
    qed
  qed
  then show "r' = r\<lparr>mr_routes := (if route_key rt \<in> route_key ` set ?rs then ?rs
      else take DERIV_MAX_ROUTES (insort_key route_key rt ?rs))\<rparr>" and "rv = 0 \<or> rv = 1" by blast+
qed

text \<open>An element beyond the cut does not disturb what is before it.\<close>

lemma insort_beyond:
  assumes "sorted (map f L)" and "f x \<in> f ` set L" and "f x \<notin> f ` set (take n L)"
  shows "take n (insort_key f x L) = take n L"
  using assms
proof (induction L arbitrary: n)
  case (Cons y ys)
  show ?case
  proof (cases n)
    case (Suc m)
    have "f x \<noteq> f y" using Cons.prems(3) Suc by simp
    then have m: "f x \<in> f ` set ys" using Cons.prems(2) by auto
    then have "f y < f x" using Cons.prems(1) \<open>f x \<noteq> f y\<close> by (auto simp: order_less_le)
    with Cons m Suc show ?thesis by simp
  qed simp
qed simp

text \<open>A sequence of additions to a record, in the order given.\<close>

definition add_routes :: "MemoryRecord \<Rightarrow> DerivRoute list \<Rightarrow> MemoryRecord" where
  "add_routes r rts =
     fold (\<lambda>rt r. snd (record_add_route mem_ok r (dr_rule rt) (dr_depth rt) (Some (dr_premises rt)))) rts r"

lemma routes_ok_take:
  assumes "sorted (map route_key L)" and "distinct (map route_key L)" and "list_all route_ok L"
  shows "routes_ok (take DERIV_MAX_ROUTES L)"
  using assms by (simp add: routes_ok_def take_map [symmetric] sorted_wrt_take list_all_iff)
    (meson in_set_takeD)

lemma insort_strict:
  assumes "sorted (map route_key L)" and "distinct (map route_key L)" and "route_key x \<notin> route_key ` set L"
  shows "sorted (map route_key (insort_key route_key x L))" and "distinct (map route_key (insort_key route_key x L))"
proof -
  show "sorted (map route_key (insort_key route_key x L))" using assms(1) by (simp add: sorted_insort_key)
  have "mset (map route_key (insort_key route_key x L)) = mset (map route_key (x # L))" by simp
  from mset_eq_imp_distinct_iff [OF this]
  show "distinct (map route_key (insort_key route_key x L))" using assms(2,3) by simp
qed

text \<open>The first route of a list with a given key.\<close>

definition first_route :: "DerivRoute list \<Rightarrow> u64 list \<times> nat \<Rightarrow> DerivRoute" where
  "first_route rts k = the (find (\<lambda>x. route_key x = k) rts)"

lemma first_route_Cons: "first_route (x # xs) k = (if route_key x = k then x else first_route xs k)"
  by (simp add: first_route_def)

lemma first_route_in: "k \<in> route_key ` set xs \<Longrightarrow> first_route xs k \<in> set xs \<and> route_key (first_route xs k) = k"
  by (induction xs) (auto simp: first_route_Cons)

lemma first_route_append: "k \<in> route_key ` set xs \<Longrightarrow> first_route (xs @ ys) k = first_route xs k"
  by (induction xs) (auto simp: first_route_Cons)

lemma first_route_new: "k \<notin> route_key ` set xs \<Longrightarrow> first_route (xs @ ys) k = first_route ys k"
  by (induction xs) (auto simp: first_route_Cons)

lemma first_route_distinct: "distinct (map route_key xs) \<Longrightarrow> x \<in> set xs \<Longrightarrow> first_route xs (route_key x) = x"
  by (induction xs) (auto simp: first_route_Cons)

text \<open>The routes before the cut: one for every key, the first that came with it, in ascending order.\<close>

definition first_routes :: "DerivRoute list \<Rightarrow> DerivRoute list" where
  "first_routes rts = map (first_route rts) (sorted_list_of_set (route_key ` set rts))"

lemma first_routes_keys [simp]: "map route_key (first_routes rts) = sorted_list_of_set (route_key ` set rts)"
  unfolding first_routes_def map_map by (rule map_idI) (simp add: first_route_in)

lemma first_routes_eqI:
  assumes "sorted (map route_key L)" and "distinct (map route_key L)" and "route_key ` set L = route_key ` set rts"
    and "\<And>x. x \<in> set L \<Longrightarrow> first_route rts (route_key x) = x"
  shows "first_routes rts = L"
proof -
  have "sorted_list_of_set (route_key ` set rts) = map route_key L"
    using sorted_list_of_set_unique assms(1-3) by (metis finite_imageI finite_set list.set_map sorted_distinct_set_unique
        sorted_list_of_set.distinct_sorted_key_list_of_set sorted_list_of_set.set_sorted_key_list_of_set sorted_sorted_list_of_set)
  then show ?thesis using assms(4) by (simp add: first_routes_def map_idI)
qed

lemma first_routes_snoc:
  "first_routes (rts @ [rt]) = (if route_key rt \<in> route_key ` set rts then first_routes rts else insort_key route_key rt (first_routes rts))"
proof (cases "route_key rt \<in> route_key ` set rts")
  case True
  then have "route_key ` set (rts @ [rt]) = route_key ` set rts" by auto
  then show ?thesis using True by (simp add: first_routes_def first_route_append)
next
  case False
  have f: "sorted (map route_key (first_routes rts))" "distinct (map route_key (first_routes rts))" by simp_all
  have k: "route_key ` set (first_routes rts) = route_key ` set rts" by (metis first_routes_keys finite_imageI finite_set list.set_map set_sorted_list_of_set)
  then have new: "route_key rt \<notin> route_key ` set (first_routes rts)" using False by simp
  have "first_routes (rts @ [rt]) = insort_key route_key rt (first_routes rts)"
  proof (rule first_routes_eqI)
    show "route_key ` set (insort_key route_key rt (first_routes rts)) = route_key ` set (rts @ [rt])"
      using k by (simp add: set_insort_key)
    fix x
    assume "x \<in> set (insort_key route_key rt (first_routes rts))"
    then consider "x = rt" | "x \<in> set (first_routes rts)" by (auto simp: set_insort_key)
    then show "first_route (rts @ [rt]) (route_key x) = x"
    proof cases
      case 1
      then show ?thesis using False by (simp add: first_route_new first_route_Cons)
    next
      case 2
      then obtain j where j: "j \<in> route_key ` set rts" "x = first_route rts j" by (auto simp: first_routes_def)
      then have "route_key x = j" using first_route_in by blast
      then show ?thesis using j by (simp add: first_route_append)
    qed
  qed (rule insort_strict [OF f new])+
  then show ?thesis using False by simp
qed

lemma first_routes_strict: "distinct (map route_key xs) \<Longrightarrow> sorted (map route_key xs) \<Longrightarrow> first_routes xs = xs"
  by (rule first_routes_eqI) (simp_all add: first_route_distinct)

lemma first_routes_route_ok: "list_all route_ok rts \<Longrightarrow> list_all route_ok (first_routes rts)"
  by (auto simp: list_all_iff first_routes_def dest: first_route_in [OF imageI])

lemma add_routes_first_routes:
  assumes "routes_ok (mr_routes r)" and "list_all route_ok rts"
  shows "add_routes r rts = r\<lparr>mr_routes := take DERIV_MAX_ROUTES (first_routes (mr_routes r @ rts))\<rparr>"
  using assms(2)
proof (induction rts rule: rev_induct)
  case Nil
  then show ?case using assms(1) by (simp add: add_routes_def first_routes_strict routes_ok_def)
next
  case (snoc rt rts)
  let ?L = "first_routes (mr_routes r @ rts)"
  define r0 where "r0 = r\<lparr>mr_routes := take DERIV_MAX_ROUTES ?L\<rparr>"
  have r: "add_routes r rts = r0" using snoc by (simp add: r0_def)
  have L: "sorted (map route_key ?L)" "distinct (map route_key ?L)" by simp_all
  have k: "route_key ` set ?L = route_key ` set (mr_routes r @ rts)"
    by (metis first_routes_keys finite_imageI finite_set list.set_map set_sorted_list_of_set)
  have "list_all route_ok ?L" using first_routes_route_ok assms(1) snoc.prems by (simp add: routes_ok_def)
  note ok = routes_ok_take [OF L this]
  obtain rv r' where add: "record_add_route mem_ok r0 (dr_rule rt) (dr_depth rt) (Some (dr_premises rt)) = (rv, r')" by fastforce
  have r': "r' = r\<lparr>mr_routes := (if route_key rt \<in> route_key ` set (take DERIV_MAX_ROUTES ?L) then take DERIV_MAX_ROUTES ?L
      else take DERIV_MAX_ROUTES (insort_key route_key rt ?L))\<rparr>"
    using add_route_routes(1) [OF _ _ _ add] ok snoc.prems by (simp add: r0_def take_insort)
  have step: "add_routes r (rts @ [rt]) = r'" using r add by (simp add: add_routes_def)
  have snc: "first_routes (mr_routes r @ rts @ [rt]) = (if route_key rt \<in> route_key ` set ?L then ?L else insort_key route_key rt ?L)"
    using first_routes_snoc [of "mr_routes r @ rts" rt] k by simp
  have sub: "route_key ` set (take DERIV_MAX_ROUTES ?L) \<subseteq> route_key ` set ?L" using set_take_subset by fast
  show ?case
    using insort_beyond [OF L(1), of rt DERIV_MAX_ROUTES] sub unfolding step r' snc by auto
qed

lemma routes_ok_prefix: "routes_ok (as @ bs) \<Longrightarrow> routes_ok as"
  by (auto simp: routes_ok_def sorted_append)

lemma add_route_last:
  assumes ok: "routes_ok (mr_routes r @ [rt])" and mem: "mem 0"
  shows "record_add_route mem r (dr_rule rt) (dr_depth rt) (Some (dr_premises rt)) =
    (0, r\<lparr>mr_routes := mr_routes r @ [rt]\<rparr>)"
proof -
  let ?rs = "mr_routes r"
  have lt: "route_key x < route_key rt" if "x \<in> set ?rs" for x
    using ok that by (auto simp: routes_ok_def sorted_append order_less_le image_iff)
  have tw: "takeWhile (\<lambda>x. route_key x < route_key rt) ?rs = ?rs" using lt by (simp add: takeWhile_eq_all_conv)
  have "route_key rt \<notin> route_key ` set ?rs" using lt by fastforce
  moreover have "sorted (map route_key ?rs)" using ok by (simp add: routes_ok_def sorted_append)
  ultimately have pos: "route_pos rt ?rs 0 = Some (length ?rs)"
    using route_pos_sorted [of ?rs rt 0] tw by simp
  have eta: "\<lparr>dr_rule = dr_rule rt, dr_depth = dr_depth rt, dr_premises = dr_premises rt\<rparr> = rt" by simp
  have g: "valid_rule (dr_rule rt)" "\<not> (length (dr_premises rt) = 0 \<or> DERIV_MAX_PREMISES < length (dr_premises rt))"
    "\<not> DERIV_MAX_ROUTES \<le> length ?rs"
    using ok by (auto simp: routes_ok_def route_ok_def)
  show ?thesis
    unfolding record_add_route_def Let_def eta option.case using g mem pos by (simp add: insert_at_def)
qed

lemma clone_routes_ok:
  "routes_ok (mr_routes r @ rts) \<Longrightarrow>
   clone_routes (\<lambda>_. mem_ok) rts i r = Some (r\<lparr>mr_routes := mr_routes r @ rts\<rparr>)"
proof (induction rts arbitrary: i r)
  case (Cons rt rts)
  have "routes_ok (mr_routes r @ [rt])" using routes_ok_prefix [of "mr_routes r @ [rt]" rts] Cons.prems by simp
  from add_route_last [OF this, of mem_ok] Cons show ?case by simp
qed simp

lemma clone_rels_ok:
  "clone_rels (\<lambda>_. mem_ok) es i r = Some (r\<lparr>mr_relationships := mr_relationships r @ es\<rparr>)"
proof (induction es arbitrary: i r)
  case (Cons e es)
  then show ?case by (simp add: record_add_relationship_def)
qed simp

definition fact_ok :: "Fact \<Rightarrow> bool" where
  "fact_ok f \<longleftrightarrow>
     (case fc_kind f of
        FACT_NONE \<Rightarrow> f = no_fact
      | FACT_OBJ_ID \<Rightarrow> fc_predicate f \<noteq> None \<and> fc_predicate f \<noteq> Some [] \<and> fc_object_str f = None
      | FACT_OBJ_STRING \<Rightarrow> fc_predicate f \<noteq> None \<and> fc_predicate f \<noteq> Some [] \<and> fc_object_id f = 0 \<and> fc_object_str f \<noteq> None)"

definition record_ok :: "MemoryRecord \<Rightarrow> bool" where
  "record_ok r \<longleftrightarrow>
     routes_ok (mr_routes r) \<and> fact_ok (mr_fact r) \<and>
     length (mr_embedding r) = mr_vec_count r * mr_embedding_dim r \<and>
     (mr_vec_count r = 0 \<longleftrightarrow> mr_embedding_dim r = 0)"

lemma set_fact_ok:
  assumes "fact_ok f" and "fc_kind f \<noteq> FACT_NONE" and "mem 0" and "mem 1"
  shows "record_set_fact mem r (fc_kind f) (fc_subject f) (fc_predicate f) (fc_object_id f) (fc_object_str f) =
    (0, r\<lparr>mr_fact := f\<rparr>)"
proof -
  have "\<lparr>fc_kind = fc_kind f, fc_subject = fc_subject f, fc_predicate = fc_predicate f,
      fc_object_id = (if fc_kind f = FACT_OBJ_ID then fc_object_id f else 0),
      fc_object_str = (if fc_kind f = FACT_OBJ_STRING then fc_object_str f else None)\<rparr> = f"
    using assms(1,2) by (intro Fact.equality) (auto simp: fact_ok_def split: FactKind.splits)
  moreover have "\<not> (fc_predicate f = None \<or> fc_predicate f = Some [])"
    "\<not> (fc_kind f = FACT_OBJ_STRING \<and> fc_object_str f = None)"
    using assms(1,2) by (auto simp: fact_ok_def split: FactKind.splits)
  ultimately show ?thesis using assms(2-4) unfolding record_set_fact_def by simp
qed

text \<open>
  The comparison ignores the depth, so of two routes with equal premises and rule the first one
  added is kept, with its depth.
\<close>

lemma route_depth_depends_on_order:
  "mr_routes (add_routes record_init [\<lparr>dr_rule = DERIV_TRANSITIVE, dr_depth = 0, dr_premises = [1, 2]\<rparr>,
      \<lparr>dr_rule = DERIV_TRANSITIVE, dr_depth = 3, dr_premises = [1, 2]\<rparr>]) \<noteq>
   mr_routes (add_routes record_init [\<lparr>dr_rule = DERIV_TRANSITIVE, dr_depth = 3, dr_premises = [1, 2]\<rparr>,
      \<lparr>dr_rule = DERIV_TRANSITIVE, dr_depth = 0, dr_premises = [1, 2]\<rparr>])"
  by (simp add: add_routes_def record_add_route_def record_init_def valid_rule_def DERIV_MAX_PREMISES_def
      DERIV_MAX_ROUTES_def route_cmp_def insert_at_def)

section \<open>Properties\<close>

text \<open>
  C30. The provenance of a record after any sequence of additions, whatever it held before. There is one route for every pair of
  premises and rule among the old and the new routes, the first one that came with it, with its depth; they are in ascending order
  and cut to the four least. So the premises and rules kept do not depend on the order of the additions, whatever their depths, and
  where no two routes agree in premises and rule but differ in depth the whole record does not.
\<close>

theorem add_routes_order_independent:
  assumes "routes_ok (mr_routes r)" and "list_all route_ok rts"
  shows "add_routes r rts =
      r\<lparr>mr_routes := map (first_route (mr_routes r @ rts))
          (take DERIV_MAX_ROUTES (sorted_list_of_set (route_key ` set (mr_routes r @ rts))))\<rparr> \<and>
    routes_ok (mr_routes (add_routes r rts)) \<and>
    (\<forall>rts'. list_all route_ok rts' \<and> route_key ` set rts' = route_key ` set rts \<longrightarrow>
       map route_key (mr_routes (add_routes r rts')) = map route_key (mr_routes (add_routes r rts))) \<and>
    (\<forall>rts'. set rts' = set rts \<and> inj_on route_key (set (mr_routes r @ rts)) \<longrightarrow> add_routes r rts' = add_routes r rts)"
proof (intro conjI allI impI)
  note f = add_routes_first_routes [OF assms(1)]
  show "add_routes r rts = r\<lparr>mr_routes := map (first_route (mr_routes r @ rts))
      (take DERIV_MAX_ROUTES (sorted_list_of_set (route_key ` set (mr_routes r @ rts))))\<rparr>"
    using f [OF assms(2)] by (simp add: first_routes_def take_map)
  have "list_all route_ok (first_routes (mr_routes r @ rts))" using first_routes_route_ok assms by (simp add: routes_ok_def)
  then show "routes_ok (mr_routes (add_routes r rts))" unfolding f [OF assms(2)] by (simp add: routes_ok_take)
  show "map route_key (mr_routes (add_routes r rts')) = map route_key (mr_routes (add_routes r rts))"
    if "list_all route_ok rts' \<and> route_key ` set rts' = route_key ` set rts" for rts'
    using that f [of rts'] f [OF assms(2)] by (simp add: take_map [symmetric] image_Un)
  fix rts'
  assume "set rts' = set rts \<and> inj_on route_key (set (mr_routes r @ rts))"
  then have s: "set (mr_routes r @ rts') = set (mr_routes r @ rts)" and inj: "inj_on route_key (set (mr_routes r @ rts))" by auto
  have "first_route (mr_routes r @ rts') k = first_route (mr_routes r @ rts) k" if "k \<in> route_key ` set (mr_routes r @ rts)" for k
    using first_route_in [of k "mr_routes r @ rts"] first_route_in [of k "mr_routes r @ rts'"] that s inj by (metis inj_onD)
  then have "first_routes (mr_routes r @ rts') = first_routes (mr_routes r @ rts)" unfolding first_routes_def s by simp
  moreover have "list_all route_ok rts'" using assms(2) s assms(1) by (auto simp: list_all_iff routes_ok_def)
  ultimately show "add_routes r rts' = add_routes r rts" using f assms(2) by simp
qed

theorem add_routes_order_independent_witness:
  "map route_key (mr_routes (add_routes record_init [\<lparr>dr_rule = DERIV_SYMMETRIC, dr_depth = 0, dr_premises = [5]\<rparr>,
      \<lparr>dr_rule = DERIV_TRANSITIVE, dr_depth = 1, dr_premises = [2, 9]\<rparr>])) =
   map route_key (mr_routes (add_routes record_init [\<lparr>dr_rule = DERIV_TRANSITIVE, dr_depth = 4, dr_premises = [2, 9]\<rparr>,
      \<lparr>dr_rule = DERIV_SYMMETRIC, dr_depth = 0, dr_premises = [5]\<rparr>, \<lparr>dr_rule = DERIV_TRANSITIVE, dr_depth = 1, dr_premises = [2, 9]\<rparr>]))"
  using add_routes_order_independent [of record_init
      "[\<lparr>dr_rule = DERIV_TRANSITIVE, dr_depth = 4, dr_premises = [2, 9]\<rparr>,
        \<lparr>dr_rule = DERIV_SYMMETRIC, dr_depth = 0, dr_premises = [5]\<rparr>, \<lparr>dr_rule = DERIV_TRANSITIVE, dr_depth = 1, dr_premises = [2, 9]\<rparr>]",
      THEN conjunct2, THEN conjunct2, THEN conjunct1, rule_format,
      of "[\<lparr>dr_rule = DERIV_SYMMETRIC, dr_depth = 0, dr_premises = [5]\<rparr>,
        \<lparr>dr_rule = DERIV_TRANSITIVE, dr_depth = 1, dr_premises = [2, 9]\<rparr>]"]
  by (simp add: record_init_def routes_ok_def route_ok_def valid_rule_def DERIV_MAX_PREMISES_def route_key_def insert_commute)

text \<open>
  With memory, cloning a well-formed record whose embedding fits the address space succeeds
  and gives an equal record.
\<close>

lemma record_clone_equal:
  assumes "record_ok src" and "4 * length (mr_embedding src) < 2 ^ 64"
  shows "record_clone mem_ok (\<lambda>_. mem_ok) src = Some src"
proof -
  let ?f = "mr_fact src"
  have ok: "routes_ok (mr_routes src)" "fact_ok ?f" "length (mr_embedding src) = mr_vec_count src * mr_embedding_dim src"
    "mr_vec_count src = 0 \<longleftrightarrow> mr_embedding_dim src = 0"
    using assms(1) by (simp_all add: record_ok_def)
  define r1 where "r1 = (clone_scalars src)\<lparr>mr_tags := mr_tags src\<rparr>"
  have tags: "(if mr_tags src \<noteq> [] then record_set_tags mem_ok (clone_scalars src) (mr_tags src) else (0, clone_scalars src)) = (0, r1)"
    by (auto simp: record_set_tags_def r1_def clone_scalars_def record_init_def Let_def list_all_iff)
  have fact: "(if fc_kind ?f \<noteq> FACT_NONE then record_set_fact mem_ok r1 (fc_kind ?f) (fc_subject ?f) (fc_predicate ?f)
      (fc_object_id ?f) (fc_object_str ?f) else (0, r1)) = (0, r1\<lparr>mr_fact := ?f\<rparr>)"
    using set_fact_ok [OF ok(2), of mem_ok r1] ok(2)
    by (auto simp: fact_ok_def r1_def clone_scalars_def record_init_def split: FactKind.splits)
  have routes: "clone_routes (\<lambda>_. mem_ok) (mr_routes src) 2 (r1\<lparr>mr_fact := ?f\<rparr>) =
      Some (r1\<lparr>mr_fact := ?f, mr_routes := mr_routes src\<rparr>)"
    using clone_routes_ok [of "r1\<lparr>mr_fact := ?f\<rparr>" "mr_routes src" 2] ok(1)
    by (simp add: r1_def clone_scalars_def record_init_def)
  have fits: "\<not> ((2 ^ 64 - 1) div 4) div mr_embedding_dim src < mr_vec_count src" if "mr_embedding_dim src \<noteq> 0"
  proof -
    have "mr_vec_count src * mr_embedding_dim src \<le> (2 ^ 64 - 1) div 4" using assms(2) ok(3) by (simp add: mult.commute)
    then show ?thesis using that by (simp add: less_eq_div_iff_mult_less_eq not_less)
  qed
  have emb: "clone_embedding mem_ok src r = Some (r\<lparr>mr_embedding := mr_embedding src,
      mr_embedding_dim := mr_embedding_dim src, mr_vec_count := mr_vec_count src\<rparr>)"
    if "mr_embedding r = []" "mr_embedding_dim r = 0" "mr_vec_count r = 0" for r
  proof (cases "mr_embedding_dim src = 0")
    case True
    then show ?thesis using ok(3,4) that by (simp add: clone_embedding_def)
  next
    case False
    then show ?thesis using fits ok(3,4) by (simp add: clone_embedding_def)
  qed
  define r3 where "r3 = r1\<lparr>mr_fact := ?f, mr_routes := mr_routes src\<rparr>"
  define r4 where "r4 = r3\<lparr>mr_embedding := mr_embedding src, mr_embedding_dim := mr_embedding_dim src,
      mr_vec_count := mr_vec_count src\<rparr>"
  have e: "clone_embedding mem_ok src r3 = Some r4"
    unfolding r4_def by (rule emb) (simp_all add: r3_def r1_def clone_scalars_def record_init_def)
  have rel: "clone_rels (\<lambda>_. mem_ok) (mr_relationships src) i r4 = Some (r4\<lparr>mr_relationships := mr_relationships src\<rparr>)" for i
    by (simp add: clone_rels_ok r4_def r3_def r1_def clone_scalars_def record_init_def)
  have "record_clone mem_ok (\<lambda>_. mem_ok) src = Some (r4\<lparr>mr_relationships := mr_relationships src, mr_data := mr_data src\<rparr>)"
    unfolding record_clone_def Let_def tags prod.case fact routes r3_def [symmetric] by (simp add: e rel)
  also have "r4\<lparr>mr_relationships := mr_relationships src, mr_data := mr_data src\<rparr> = src"
    by (rule MemoryRecord.equality) (simp_all add: r4_def r3_def r1_def clone_scalars_def)
  finally show ?thesis .
qed

end
