(* ===== verification/Record_Codec.thy ===== *)
theory Record_Codec
  imports Memory_Record Endian
begin

text \<open>
  The binary encoding of a record, second half of \<^verbatim>\<open>src/src/memory/record.c\<close>: the growing output
  buffer with its sticky error flag, \<^verbatim>\<open>record_encode\<close>, the bounded cursor with its sticky error
  flag, and \<^verbatim>\<open>record_decode\<close>.

  Shown: decoding the encoding of a well-formed record gives the record back, in the lowest codec
  version that can hold it; whatever the bytes, a decoded record is well-formed and its weights
  are in the unit interval.
\<close>

section \<open>The output buffer\<close>

record Buf =
  b_p :: bytes
  b_cap :: nat
  b_err :: bool

definition buf_empty :: Buf where
  "buf_empty = \<lparr>b_p = [], b_cap = 0, b_err = False\<rparr>"

text \<open>
  The doubling loop. A capacity starts at 128, so that 57 doublings overflow 64 bits: for every
  buffer of less than 2 ^ 63 bytes the overflow test ends the loop before the fuel of 64 steps.
\<close>

fun grow_cap :: "nat \<Rightarrow> nat \<Rightarrow> nat \<Rightarrow> nat option" where
  "grow_cap 0 cap need = None"
| "grow_cap (Suc fuel) cap need =
     (if need \<le> cap then Some cap
      else let next = (cap * 2) mod 2 ^ 64
           in if next < cap then None else grow_cap fuel next need)"

text \<open>\<open>mem (length (b_p b))\<close> is the outcome of a \<^verbatim>\<open>realloc\<close> of a buffer of that length.\<close>

definition buf_reserve :: "alloc \<Rightarrow> Buf \<Rightarrow> nat \<Rightarrow> Buf" where
  "buf_reserve mem b extra =
     (if b_err b then b
      else if (length (b_p b) + extra) mod 2 ^ 64 < length (b_p b) then b\<lparr>b_err := True\<rparr>
      else if length (b_p b) + extra \<le> b_cap b then b
      else case grow_cap 64 (if b_cap b \<noteq> 0 then (b_cap b * 2) mod 2 ^ 64 else 128) (length (b_p b) + extra) of
             None \<Rightarrow> b\<lparr>b_err := True\<rparr>
           | Some cap \<Rightarrow> if \<not> mem (length (b_p b)) then b\<lparr>b_err := True\<rparr> else b\<lparr>b_cap := cap\<rparr>)"

definition put_bytes :: "alloc \<Rightarrow> bytes \<Rightarrow> Buf \<Rightarrow> Buf" where
  "put_bytes mem s b =
     (let b1 = buf_reserve mem b (length s)
      in if b_err b1 then b1 else b1\<lparr>b_p := b_p b1 @ s\<rparr>)"

definition put_u8 :: "alloc \<Rightarrow> u8 \<Rightarrow> Buf \<Rightarrow> Buf" where
  "put_u8 mem v = put_bytes mem [v]"

definition put_u16 :: "alloc \<Rightarrow> u16 \<Rightarrow> Buf \<Rightarrow> Buf" where
  "put_u16 mem v = put_bytes mem (aegis_put_u16le v)"

definition put_u32 :: "alloc \<Rightarrow> u32 \<Rightarrow> Buf \<Rightarrow> Buf" where
  "put_u32 mem v = put_bytes mem (aegis_put_u32le v)"

definition put_u64 :: "alloc \<Rightarrow> u64 \<Rightarrow> Buf \<Rightarrow> Buf" where
  "put_u64 mem v = put_bytes mem (aegis_put_u64le v)"

definition put_f32 :: "alloc \<Rightarrow> u32 \<Rightarrow> Buf \<Rightarrow> Buf" where
  "put_f32 mem f = put_u32 mem f"

definition NULL_LEN :: u32 where
  "NULL_LEN = 0xFFFFFFFF"

definition put_lenstr :: "alloc \<Rightarrow> cstr option \<Rightarrow> Buf \<Rightarrow> Buf" where
  "put_lenstr mem s b =
     (case s of
        None \<Rightarrow> put_u32 mem NULL_LEN b
      | Some s \<Rightarrow> put_bytes mem s (put_u32 mem (of_nat (length s)) b))"

section \<open>Encoding\<close>

definition RECORD_CODEC_V2 :: u8 where
  "RECORD_CODEC_V2 = 2"

definition RECORD_CODEC_V3 :: u8 where
  "RECORD_CODEC_V3 = 3"

definition RECORD_CODEC_V5 :: u8 where
  "RECORD_CODEC_V5 = 5"

definition put_rel :: "alloc \<Rightarrow> Relationship \<Rightarrow> Buf \<Rightarrow> Buf" where
  "put_rel mem e b =
     put_lenstr mem (rl_kind e) (put_u64 mem (rl_to_id e) (put_u64 mem (rl_from_id e) b))"

definition put_fact :: "alloc \<Rightarrow> Fact \<Rightarrow> Buf \<Rightarrow> Buf" where
  "put_fact mem f b =
     (let b1 = put_lenstr mem (fc_predicate f) (put_u64 mem (fc_subject f) (put_u8 mem (fact_kind_code (fc_kind f)) b))
      in if fc_kind f = FACT_OBJ_ID then put_u64 mem (fc_object_id f) b1
         else put_lenstr mem (fc_object_str f) b1)"

definition put_route :: "alloc \<Rightarrow> DerivRoute \<Rightarrow> Buf \<Rightarrow> Buf" where
  "put_route mem rt b =
     fold (put_u64 mem) (dr_premises rt)
       (put_u8 mem (of_nat (length (dr_premises rt)))
          (put_u16 mem (dr_depth rt) (put_u8 mem (of_nat (deriv_rule_code (dr_rule rt))) b)))"

text \<open>The fields up to the agent id, which no check interrupts.\<close>

definition put_header :: "alloc \<Rightarrow> MemoryRecord \<Rightarrow> Buf \<Rightarrow> Buf" where
  "put_header mem r b =
     (let ver = (if mr_routes r \<noteq> [] then RECORD_CODEC_V5
                 else if fc_kind (mr_fact r) \<noteq> FACT_NONE then RECORD_CODEC_V3 else RECORD_CODEC_V2)
      in put_lenstr mem (mr_agent_id r) (put_u64 mem (mr_expires_at r)
           (put_u8 mem (if mr_deleted r \<noteq> 0 then 1 else 0) (put_f32 mem (mr_confidence r)
             (put_f32 mem (mr_importance r) (put_u64 mem (mr_updated r) (put_u64 mem (mr_created r)
               (put_u8 mem (memory_type_code (mr_type r)) (put_u64 mem (mr_id r) (put_u8 mem ver b))))))))))"

text \<open>
  \<open>None\<close> is the return value -1: a field that the layout cannot hold, or a buffer error at the
  end. The check on a fact kind that no enumerator names has no counterpart: the type has no such
  value.
\<close>

definition record_encode :: "alloc \<Rightarrow> MemoryRecord \<Rightarrow> bytes option" where
  "record_encode mem r =
     (let has_fact = (fc_kind (mr_fact r) \<noteq> FACT_NONE);
          has_deriv = (0 < length (mr_routes r))
      in if \<not> list_all (\<lambda>rt. valid_rule (dr_rule rt)) (mr_routes r) then None
         else if has_deriv \<and> \<not> has_fact then None
         else let b0 = put_header mem r buf_empty
              in if 65535 < length (mr_tags r) then None
                 else let b1 = fold (\<lambda>t. put_lenstr mem (Some t)) (mr_tags r) (put_u16 mem (of_nat (length (mr_tags r))) b0)
                      in if 2 ^ 32 - 1 < mr_vec_count r \<or> 2 ^ 32 - 1 < mr_embedding_dim r then None
                         else let b2 = fold (put_f32 mem) (take (mr_vec_count r * mr_embedding_dim r) (mr_embedding r))
                                    (put_u32 mem (of_nat (mr_embedding_dim r)) (put_u32 mem (of_nat (mr_vec_count r)) b1))
                              in if 65535 < length (mr_relationships r) then None
                                 else let b3 = fold (put_rel mem) (mr_relationships r)
                                            (put_u16 mem (of_nat (length (mr_relationships r))) b2);
                                          b4 = (if has_fact then put_fact mem (mr_fact r) b3 else b3)
                                      in if has_deriv \<and> DERIV_MAX_ROUTES < length (mr_routes r) then None
                                         else if has_deriv \<and> list_ex (\<lambda>rt. length (dr_premises rt) = 0 \<or>
                                                DERIV_MAX_PREMISES < length (dr_premises rt)) (mr_routes r) then None
                                         else let b5 = (if has_deriv
                                                    then fold (put_route mem) (mr_routes r) (put_u16 mem (of_nat (length (mr_routes r))) b4)
                                                    else b4);
                                                  b6 = put_bytes mem (mr_data r) (put_u32 mem (of_nat (length (mr_data r))) b5)
                                              in if b_err b6 then None else Some (b_p b6))"

section \<open>The input cursor\<close>

record Cur =
  c_p :: bytes
  c_off :: nat
  c_err :: bool

text \<open>A read that fails leaves its zero-initialised destination as it is.\<close>

definition cur_take :: "nat \<Rightarrow> Cur \<Rightarrow> bytes \<times> Cur" where
  "cur_take n c =
     (if c_err c \<or> length (c_p c) < c_off c + n then (replicate n 0, c\<lparr>c_err := True\<rparr>)
      else (take n (drop (c_off c) (c_p c)), c\<lparr>c_off := c_off c + n\<rparr>))"

definition get_u8 :: "Cur \<Rightarrow> u8 \<times> Cur" where
  "get_u8 c = (let (t, c') = cur_take 1 c in (t ! 0, c'))"

definition get_u16 :: "Cur \<Rightarrow> u16 \<times> Cur" where
  "get_u16 c = (let (t, c') = cur_take 2 c in (aegis_get_u16le t, c'))"

definition get_u32 :: "Cur \<Rightarrow> u32 \<times> Cur" where
  "get_u32 c = (let (t, c') = cur_take 4 c in (aegis_get_u32le t, c'))"

definition get_u64 :: "Cur \<Rightarrow> u64 \<times> Cur" where
  "get_u64 c = (let (t, c') = cur_take 8 c in (aegis_get_u64le t, c'))"

definition get_f32 :: "Cur \<Rightarrow> u32 \<times> Cur" where
  "get_f32 c = get_u32 c"

text \<open>
  \<open>mem off k\<close> is the outcome of the \<open>k\<close>-th allocation of a call made with the cursor at \<open>off\<close>. A
  string ends at its first zero byte, whatever its encoded length.
\<close>

definition get_lenstr :: "(nat \<Rightarrow> alloc) \<Rightarrow> Cur \<Rightarrow> cstr option \<times> Cur" where
  "get_lenstr mem c =
     (let (n, c1) = get_u32 c
      in if n = NULL_LEN then (None, c1)
         else if c_err c1 \<or> length (c_p c1) - c_off c1 < unat n then (None, c1\<lparr>c_err := True\<rparr>)
         else if \<not> mem (c_off c1) 0 then (None, c1\<lparr>c_err := True\<rparr>)
         else (Some (cstr_of (take (unat n) (drop (c_off c1) (c_p c1)))), c1\<lparr>c_off := c_off c1 + unat n\<rparr>))"

section \<open>Decoding\<close>

text \<open>The float tests of the weights, on the bits: \<^verbatim>\<open>isfinite\<close>, \<^verbatim>\<open>< 0.0F\<close> and \<^verbatim>\<open>> 1.0F\<close> of a finite value.\<close>

definition f32_isfinite :: "u32 \<Rightarrow> bool" where
  "f32_isfinite u \<longleftrightarrow> (drop_bit 23 u AND 0xFF) \<noteq> 0xFF"

definition f32_negative :: "u32 \<Rightarrow> bool" where
  "f32_negative u \<longleftrightarrow> bit u 31 \<and> u \<noteq> 0x80000000"

definition f32_above_one :: "u32 \<Rightarrow> bool" where
  "f32_above_one u \<longleftrightarrow> \<not> bit u 31 \<and> f32_one < u"

definition unit_or :: "u32 \<Rightarrow> u32 \<Rightarrow> u32" where
  "unit_or dflt u = (if \<not> f32_isfinite u \<or> f32_negative u \<or> f32_above_one u then dflt else u)"

text \<open>Each stage is the stretch of \<^verbatim>\<open>record_decode\<close> for one group of fields; \<open>None\<close> is \<^verbatim>\<open>goto fail\<close>.\<close>

definition dec_header :: "(nat \<Rightarrow> alloc) \<Rightarrow> Cur \<Rightarrow> (u8 \<times> MemoryRecord \<times> Cur) option" where
  "dec_header mem c =
     (let (ver, c1) = get_u8 c
      in if ver \<noteq> 1 \<and> ver \<noteq> RECORD_CODEC_V2 \<and> ver \<noteq> RECORD_CODEC_V3 \<and> ver \<noteq> RECORD_CODEC_V5 then None
         else let (i, c2) = get_u64 c1; (ty, c3) = get_u8 c2
              in case memory_type_of_code ty of
                   None \<Rightarrow> None
                 | Some ty \<Rightarrow>
                     let (created, c4) = get_u64 c3; (updated, c5) = get_u64 c4;
                         (imp, c6) = get_f32 c5; (conf, c7) = get_f32 c6;
                         (del, c8) = get_u8 c7; (expires, c9) = get_u64 c8;
                         (agent, c10) = get_lenstr mem c9
                     in if c_err c10 then None
                        else Some (ver, record_init\<lparr>mr_id := i, mr_type := ty, mr_created := created,
                               mr_updated := updated, mr_importance := unit_or f32_zero imp,
                               mr_confidence := unit_or f32_one conf, mr_deleted := int (unat del),
                               mr_expires_at := expires, mr_agent_id := agent\<rparr>, c10))"

fun dec_tag_loop :: "(nat \<Rightarrow> alloc) \<Rightarrow> nat \<Rightarrow> Cur \<Rightarrow> cstr list \<Rightarrow> (cstr list \<times> Cur) option" where
  "dec_tag_loop mem 0 c acc = Some (acc, c)"
| "dec_tag_loop mem (Suc n) c acc =
     (let (s, c1) = get_lenstr mem c
      in if c_err c1 then None
         else case s of None \<Rightarrow> None | Some t \<Rightarrow> dec_tag_loop mem n c1 (acc @ [t]))"

definition dec_tags :: "(nat \<Rightarrow> alloc) \<Rightarrow> MemoryRecord \<Rightarrow> Cur \<Rightarrow> (MemoryRecord \<times> Cur) option" where
  "dec_tags mem r c =
     (let (tc, c1) = get_u16 c
      in if c_err c1 then None
         else if tc = 0 then Some (r, c1)
         else if \<not> mem (c_off c1) 1 then None
         else map_option (\<lambda>(tags, c2). (r\<lparr>mr_tags := tags\<rparr>, c2)) (dec_tag_loop mem (unat tc) c1 []))"

fun dec_float_loop :: "nat \<Rightarrow> Cur \<Rightarrow> u32 list \<Rightarrow> (u32 list \<times> Cur) option" where
  "dec_float_loop 0 c acc = Some (acc, c)"
| "dec_float_loop (Suc n) c acc =
     (let (f, c1) = get_f32 c in if c_err c1 then None else dec_float_loop n c1 (acc @ [f]))"

definition dec_vectors :: "(nat \<Rightarrow> alloc) \<Rightarrow> u8 \<Rightarrow> MemoryRecord \<Rightarrow> Cur \<Rightarrow> (MemoryRecord \<times> Cur) option" where
  "dec_vectors mem ver r c =
     (let (vc, c1) = (if 2 \<le> ver then get_u32 c else (1, c));
          (dim, c2) = get_u32 c1
      in if c_err c2 then None
         else let vec_count = (if ver = 1 \<and> dim = 0 then 0 else vc)
              in if dim \<noteq> 0 \<and> vec_count \<noteq> 0
                 then let avail_floats = (length (c_p c2) - c_off c2) div 4
                      in if avail_floats div unat dim < unat vec_count then None
                         else if \<not> mem (c_off c2) 0 then None
                         else map_option (\<lambda>(fs, c3). (r\<lparr>mr_embedding := fs, mr_embedding_dim := unat dim,
                                                       mr_vec_count := unat vec_count\<rparr>, c3))
                                (dec_float_loop (unat vec_count * unat dim) c2 [])
                 else Some (r, c2))"

fun dec_rel_loop :: "(nat \<Rightarrow> alloc) \<Rightarrow> nat \<Rightarrow> MemoryRecord \<Rightarrow> Cur \<Rightarrow> (MemoryRecord \<times> Cur) option" where
  "dec_rel_loop mem 0 r c = Some (r, c)"
| "dec_rel_loop mem (Suc n) r c =
     (let (from_id, c1) = get_u64 c; (to_id, c2) = get_u64 c1; (kind, c3) = get_lenstr mem c2
      in if c_err c3 then None
         else let (rv, r') = record_add_relationship (mem (c_off c3)) r from_id to_id kind
              in if rv \<noteq> 0 then None else dec_rel_loop mem n r' c3)"

definition dec_rels :: "(nat \<Rightarrow> alloc) \<Rightarrow> MemoryRecord \<Rightarrow> Cur \<Rightarrow> (MemoryRecord \<times> Cur) option" where
  "dec_rels mem r c =
     (let (rc, c1) = get_u16 c in if c_err c1 then None else dec_rel_loop mem (unat rc) r c1)"

definition dec_fact :: "(nat \<Rightarrow> alloc) \<Rightarrow> MemoryRecord \<Rightarrow> Cur \<Rightarrow> (MemoryRecord \<times> Cur) option" where
  "dec_fact mem r c =
     (let (fk, c1) = get_u8 c
      in if c_err c1 then None
         else if fk \<noteq> fact_kind_code FACT_OBJ_ID \<and> fk \<noteq> fact_kind_code FACT_OBJ_STRING then None
         else let (subject, c2) = get_u64 c1; (pred, c3) = get_lenstr mem c2
              in if c_err c3 \<or> pred = None then None
                 else if fk = fact_kind_code FACT_OBJ_ID
                 then let (oid, c4) = get_u64 c3
                      in if c_err c4 then None
                         else let (rv, r') = record_set_fact (mem (c_off c4)) r FACT_OBJ_ID subject pred oid None
                              in if rv \<noteq> 0 then None else Some (r', c4)
                 else let (obj, c4) = get_lenstr mem c3
                      in if c_err c4 \<or> obj = None then None
                         else let (rv, r') = record_set_fact (mem (c_off c4)) r FACT_OBJ_STRING subject pred 0 obj
                              in if rv \<noteq> 0 then None else Some (r', c4))"

fun get_premises :: "nat \<Rightarrow> Cur \<Rightarrow> u64 list \<Rightarrow> u64 list \<times> Cur" where
  "get_premises 0 c acc = (acc, c)"
| "get_premises (Suc n) c acc = (let (p, c1) = get_u64 c in get_premises n c1 (acc @ [p]))"

definition deriv_rule_of :: "u8 \<Rightarrow> DerivRule option" where
  "deriv_rule_of v =
     (if v = 1 then Some DERIV_TRANSITIVE else if v = 2 then Some DERIV_SYMMETRIC
      else if v = 3 then Some DERIV_INVERSE else None)"

fun dec_route_loop :: "(nat \<Rightarrow> alloc) \<Rightarrow> nat \<Rightarrow> MemoryRecord \<Rightarrow> Cur \<Rightarrow> (MemoryRecord \<times> Cur) option" where
  "dec_route_loop mem 0 r c = Some (r, c)"
| "dec_route_loop mem (Suc n) r c =
     (let (rule, c1) = get_u8 c; (depth, c2) = get_u16 c1; (pc, c3) = get_u8 c2
      in if c_err c3 then None
         else case deriv_rule_of rule of
                None \<Rightarrow> None
              | Some rule \<Rightarrow>
                  if pc = 0 \<or> DERIV_MAX_PREMISES < unat pc then None
                  else let (prem, c4) = get_premises (unat pc) c3 []
                       in if c_err c4 then None
                          else let (rv, r') = record_add_route (mem (c_off c4)) r rule depth (Some prem)
                               in if rv \<noteq> 0 then None else dec_route_loop mem n r' c4)"

definition dec_routes :: "(nat \<Rightarrow> alloc) \<Rightarrow> MemoryRecord \<Rightarrow> Cur \<Rightarrow> (MemoryRecord \<times> Cur) option" where
  "dec_routes mem r c =
     (let (rc, c1) = get_u16 c
      in if c_err c1 \<or> rc = 0 \<or> DERIV_MAX_ROUTES < unat rc then None
         else dec_route_loop mem (unat rc) r c1)"

definition dec_data :: "(nat \<Rightarrow> alloc) \<Rightarrow> MemoryRecord \<Rightarrow> Cur \<Rightarrow> MemoryRecord option" where
  "dec_data mem r c =
     (let (dl, c1) = get_u32 c
      in if c_err c1 \<or> length (c_p c1) - c_off c1 < unat dl then None
         else if dl \<noteq> 0 \<and> \<not> mem (c_off c1) 0 then None
         else Some (r\<lparr>mr_data := take (unat dl) (drop (c_off c1) (c_p c1))\<rparr>))"

definition record_decode :: "(nat \<Rightarrow> alloc) \<Rightarrow> bytes \<Rightarrow> MemoryRecord option" where
  "record_decode mem buf =
     Option.bind (dec_header mem \<lparr>c_p = buf, c_off = 0, c_err = False\<rparr>) (\<lambda>(ver, r1, c1).
     Option.bind (dec_tags mem r1 c1) (\<lambda>(r2, c2).
     Option.bind (dec_vectors mem ver r2 c2) (\<lambda>(r3, c3).
     Option.bind (dec_rels mem r3 c3) (\<lambda>(r4, c4).
     Option.bind (if RECORD_CODEC_V3 \<le> ver then dec_fact mem r4 c4 else Some (r4, c4)) (\<lambda>(r5, c5).
     Option.bind (if RECORD_CODEC_V5 \<le> ver then dec_routes mem r5 c5 else Some (r5, c5)) (\<lambda>(r6, c6).
       dec_data mem r6 c6))))))"

section \<open>What the buffer holds\<close>

definition buf_ok :: "Buf \<Rightarrow> bool" where
  "buf_ok b \<longleftrightarrow> \<not> b_err b \<and> length (b_p b) \<le> b_cap b \<and> (b_cap b = 0 \<or> (\<exists>k. 7 \<le> k \<and> k \<le> 63 \<and> b_cap b = 2 ^ k))"

text \<open>The buffer holds the given bytes, as long as they are addressable.\<close>

definition buf_run :: "Buf \<Rightarrow> bytes \<Rightarrow> bool" where
  "buf_run b bs \<longleftrightarrow> (length bs \<le> 2 ^ 63 \<longrightarrow> buf_ok b \<and> b_p b = bs)"

lemma grow_cap_ok:
  "7 \<le> k \<Longrightarrow> k \<le> 63 \<Longrightarrow> need \<le> 2 ^ 63 \<Longrightarrow> 64 - k \<le> fuel \<Longrightarrow>
   \<exists>j. 7 \<le> j \<and> j \<le> 63 \<and> grow_cap fuel (2 ^ k) need = Some (2 ^ j) \<and> need \<le> 2 ^ j"
proof (induction fuel arbitrary: k)
  case (Suc fuel)
  show ?case
  proof (cases "need \<le> 2 ^ k")
    case False
    then have "k < 63" using Suc.prems(2,3) by (metis le_neq_implies_less)
    then have "(2 :: nat) ^ Suc k \<le> 2 ^ 63" by (intro power_increasing) simp_all
    then have "(2 ^ k * 2) mod 2 ^ 64 = (2 :: nat) ^ Suc k" by simp
    moreover have "\<not> (2 :: nat) ^ Suc k < 2 ^ k" by simp
    ultimately show ?thesis
      using False Suc.IH [of "Suc k"] Suc.prems \<open>k < 63\<close> by (simp only: grow_cap.simps Let_def if_False)
  qed (use Suc.prems in auto)
qed simp

lemma buf_reserve_ok:
  assumes "buf_ok b" and "length (b_p b) + extra \<le> 2 ^ 63"
  shows "buf_ok (buf_reserve mem_ok b extra) \<and> b_p (buf_reserve mem_ok b extra) = b_p b \<and>
    length (b_p b) + extra \<le> b_cap (buf_reserve mem_ok b extra)"
proof (cases "length (b_p b) + extra \<le> b_cap b")
  case True
  then show ?thesis using assms by (auto simp: buf_reserve_def buf_ok_def)
next
  case False
  define need where "need = length (b_p b) + extra"
  have need: "need \<le> 2 ^ 63" using assms(2) by (simp add: need_def)
  then have "need < 2 ^ 64" by (rule le_less_trans) simp
  then have noov: "\<not> need mod 2 ^ 64 < length (b_p b)" by (simp add: need_def)
  have "\<exists>k. 7 \<le> k \<and> k \<le> 63 \<and> (if b_cap b \<noteq> 0 then (b_cap b * 2) mod 2 ^ 64 else 128) = (2 :: nat) ^ k"
  proof (cases "b_cap b = 0")
    case True
    then show ?thesis by (intro exI [of _ 7]) simp
  next
    case nz: False
    then obtain k where k: "7 \<le> k" "k \<le> 63" "b_cap b = 2 ^ k" using assms(1) by (auto simp: buf_ok_def)
    then have "k < 63" using False need by (metis le_neq_implies_less need_def)
    then have "(2 :: nat) ^ Suc k \<le> 2 ^ 63" by (intro power_increasing) simp_all
    then show ?thesis using nz k \<open>k < 63\<close> by (intro exI [of _ "Suc k"]) simp
  qed
  then obtain k where k: "7 \<le> k" "k \<le> 63" "(if b_cap b \<noteq> 0 then (b_cap b * 2) mod 2 ^ 64 else 128) = (2 :: nat) ^ k"
    by blast
  obtain j where j: "7 \<le> j" "j \<le> 63" "grow_cap 64 (2 ^ k) need = Some (2 ^ j)" "need \<le> 2 ^ j"
    using grow_cap_ok [OF k(1,2) need, of 64] by auto
  have "buf_reserve mem_ok b extra = b\<lparr>b_cap := 2 ^ j\<rparr>"
    using assms(1) False noov j(3) k(3) unfolding buf_reserve_def need_def by (simp add: buf_ok_def)
  then show ?thesis using assms(1) j by (auto simp: buf_ok_def need_def)
qed

lemma run_bytes: "buf_run b bs \<Longrightarrow> buf_run (put_bytes mem_ok s b) (bs @ s)"
  using buf_reserve_ok [of b "length s"] by (auto simp: buf_run_def put_bytes_def Let_def buf_ok_def)

lemma run_empty: "buf_run buf_empty []"
  by (simp add: buf_run_def buf_empty_def buf_ok_def)

definition lenstr :: "cstr option \<Rightarrow> bytes" where
  "lenstr s = (case s of None \<Rightarrow> aegis_put_u32le NULL_LEN | Some s \<Rightarrow> aegis_put_u32le (of_nat (length s)) @ s)"

lemma run_puts:
  assumes "buf_run b bs"
  shows "buf_run (put_u8 mem_ok v8 b) (bs @ [v8])" and "buf_run (put_u16 mem_ok v16 b) (bs @ aegis_put_u16le v16)"
    and "buf_run (put_u32 mem_ok v32 b) (bs @ aegis_put_u32le v32)" and "buf_run (put_u64 mem_ok v64 b) (bs @ aegis_put_u64le v64)"
    and "buf_run (put_f32 mem_ok v32 b) (bs @ aegis_put_u32le v32)" and "buf_run (put_lenstr mem_ok s b) (bs @ lenstr s)"
proof -
  show "buf_run (put_lenstr mem_ok s b) (bs @ lenstr s)"
    using run_bytes [OF assms] run_bytes [OF run_bytes [OF assms]]
    by (cases s) (auto simp: put_lenstr_def lenstr_def put_u32_def simp flip: append_assoc)
qed (simp_all add: put_u8_def put_u16_def put_u32_def put_u64_def put_f32_def run_bytes assms)

lemma run_fold:
  assumes "\<And>x b bs. buf_run b bs \<Longrightarrow> buf_run (f x b) (bs @ g x)" and "buf_run b bs"
  shows "buf_run (fold f xs b) (bs @ concat (map g xs))"
  using assms(2)
proof (induction xs arbitrary: b bs)
  case (Cons x xs)
  from Cons.IH [OF assms(1) [OF Cons.prems]] show ?case by simp
qed simp

section \<open>The bytes of a record\<close>

definition rel_bytes :: "Relationship \<Rightarrow> bytes" where
  "rel_bytes e = aegis_put_u64le (rl_from_id e) @ aegis_put_u64le (rl_to_id e) @ lenstr (rl_kind e)"

definition fact_bytes :: "Fact \<Rightarrow> bytes" where
  "fact_bytes f = fact_kind_code (fc_kind f) # aegis_put_u64le (fc_subject f) @ lenstr (fc_predicate f) @
     (if fc_kind f = FACT_OBJ_ID then aegis_put_u64le (fc_object_id f) else lenstr (fc_object_str f))"

definition route_bytes :: "DerivRoute \<Rightarrow> bytes" where
  "route_bytes rt = of_nat (deriv_rule_code (dr_rule rt)) # aegis_put_u16le (dr_depth rt) @
     of_nat (length (dr_premises rt)) # concat (map aegis_put_u64le (dr_premises rt))"

definition record_version :: "MemoryRecord \<Rightarrow> u8" where
  "record_version r = (if mr_routes r \<noteq> [] then RECORD_CODEC_V5
     else if fc_kind (mr_fact r) \<noteq> FACT_NONE then RECORD_CODEC_V3 else RECORD_CODEC_V2)"

definition header_bytes :: "MemoryRecord \<Rightarrow> bytes" where
  "header_bytes r = record_version r # aegis_put_u64le (mr_id r) @ memory_type_code (mr_type r) #
     aegis_put_u64le (mr_created r) @ aegis_put_u64le (mr_updated r) @ aegis_put_u32le (mr_importance r) @
     aegis_put_u32le (mr_confidence r) @ (if mr_deleted r \<noteq> 0 then 1 else 0) # aegis_put_u64le (mr_expires_at r) @
     lenstr (mr_agent_id r)"

definition record_bytes :: "MemoryRecord \<Rightarrow> bytes" where
  "record_bytes r =
     header_bytes r @
     aegis_put_u16le (of_nat (length (mr_tags r))) @ concat (map (\<lambda>t. lenstr (Some t)) (mr_tags r)) @
     aegis_put_u32le (of_nat (mr_vec_count r)) @ aegis_put_u32le (of_nat (mr_embedding_dim r)) @
     concat (map aegis_put_u32le (mr_embedding r)) @
     aegis_put_u16le (of_nat (length (mr_relationships r))) @ concat (map rel_bytes (mr_relationships r)) @
     (if fc_kind (mr_fact r) \<noteq> FACT_NONE then fact_bytes (mr_fact r) else []) @
     (if mr_routes r \<noteq> [] then aegis_put_u16le (of_nat (length (mr_routes r))) @ concat (map route_bytes (mr_routes r)) else []) @
     aegis_put_u32le (of_nat (length (mr_data r))) @ mr_data r"

lemma run_rel: "buf_run b bs \<Longrightarrow> buf_run (put_rel mem_ok e b) (bs @ rel_bytes e)"
  using run_puts(6) [OF run_puts(4) [OF run_puts(4)]] by (fastforce simp: put_rel_def rel_bytes_def)

lemma run_fact: "buf_run b bs \<Longrightarrow> buf_run (put_fact mem_ok f b) (bs @ fact_bytes f)"
proof -
  assume "buf_run b bs"
  then have "buf_run (put_lenstr mem_ok (fc_predicate f) (put_u64 mem_ok (fc_subject f) (put_u8 mem_ok (fact_kind_code (fc_kind f)) b)))
      (((bs @ [fact_kind_code (fc_kind f)]) @ aegis_put_u64le (fc_subject f)) @ lenstr (fc_predicate f))"
    by (intro run_puts)
  from run_puts(4) [OF this, of "fc_object_id f"] run_puts(6) [OF this, of "fc_object_str f"] show ?thesis
    by (cases "fc_kind f") (simp_all add: put_fact_def fact_bytes_def Let_def)
qed

lemma run_route: "buf_run b bs \<Longrightarrow> buf_run (put_route mem_ok rt b) (bs @ route_bytes rt)"
proof -
  assume "buf_run b bs"
  then have "buf_run (put_route mem_ok rt b) ((((bs @ [of_nat (deriv_rule_code (dr_rule rt))]) @ aegis_put_u16le (dr_depth rt)) @
      [of_nat (length (dr_premises rt))]) @ concat (map aegis_put_u64le (dr_premises rt)))"
    unfolding put_route_def by (intro run_fold run_puts)
  then show ?thesis by (simp add: route_bytes_def)
qed

lemma run_header: "buf_run b bs \<Longrightarrow> buf_run (put_header mem_ok r b) (bs @ header_bytes r)"
proof -
  assume "buf_run b bs"
  then have "buf_run (put_header mem_ok r b) ((((((((((bs @ [record_version r]) @ aegis_put_u64le (mr_id r)) @
      [memory_type_code (mr_type r)]) @ aegis_put_u64le (mr_created r)) @ aegis_put_u64le (mr_updated r)) @
      aegis_put_u32le (mr_importance r)) @ aegis_put_u32le (mr_confidence r)) @ [if mr_deleted r \<noteq> 0 then 1 else 0]) @
      aegis_put_u64le (mr_expires_at r)) @ lenstr (mr_agent_id r))"
    unfolding put_header_def Let_def record_version_def by (intro run_puts)
  then show ?thesis by (simp add: header_bytes_def)
qed

section \<open>Well-formed records encode to their bytes\<close>

definition str_ok :: "cstr option \<Rightarrow> bool" where
  "str_ok s \<longleftrightarrow> (case s of None \<Rightarrow> True | Some s \<Rightarrow> 0 \<notin> set s \<and> length s < 2 ^ 32 - 1)"

definition weight_ok :: "u32 \<Rightarrow> bool" where
  "weight_ok u \<longleftrightarrow> f32_isfinite u \<and> \<not> f32_negative u \<and> \<not> f32_above_one u"

text \<open>What the layout can hold; the rest of a record's form is \<open>record_ok\<close>.\<close>

definition layout_ok :: "MemoryRecord \<Rightarrow> bool" where
  "layout_ok r \<longleftrightarrow>
     record_ok r \<and> weight_ok (mr_importance r) \<and> weight_ok (mr_confidence r) \<and> str_ok (mr_agent_id r) \<and>
     length (mr_tags r) < 2 ^ 16 \<and> (\<forall>t \<in> set (mr_tags r). str_ok (Some t)) \<and>
     mr_vec_count r < 2 ^ 32 \<and> mr_embedding_dim r < 2 ^ 32 \<and>
     length (mr_relationships r) < 2 ^ 16 \<and> (\<forall>e \<in> set (mr_relationships r). str_ok (rl_kind e)) \<and>
     str_ok (fc_predicate (mr_fact r)) \<and> str_ok (fc_object_str (mr_fact r)) \<and>
     (mr_routes r \<noteq> [] \<longrightarrow> fc_kind (mr_fact r) \<noteq> FACT_NONE) \<and>
     length (mr_data r) < 2 ^ 32"

text \<open>The flag is written as 0 or 1, and the encoding has to be addressable.\<close>

definition encodable :: "MemoryRecord \<Rightarrow> bool" where
  "encodable r \<longleftrightarrow>
     layout_ok r \<and> (mr_deleted r = 0 \<or> mr_deleted r = 1) \<and> length (record_bytes r) \<le> 2 ^ 63"

lemma record_encode_bytes:
  assumes "encodable r"
  shows "record_encode mem_ok r = Some (record_bytes r)"
proof -
  let ?emb = "mr_embedding r"
  have ok: "routes_ok (mr_routes r)" "length ?emb = mr_vec_count r * mr_embedding_dim r"
    and len: "length (record_bytes r) \<le> 2 ^ 63"
    and g: "\<not> 65535 < length (mr_tags r)" "\<not> (2 ^ 32 - 1 < mr_vec_count r \<or> 2 ^ 32 - 1 < mr_embedding_dim r)"
      "\<not> 65535 < length (mr_relationships r)"
    and hf: "\<not> (0 < length (mr_routes r) \<and> \<not> fc_kind (mr_fact r) \<noteq> FACT_NONE)"
    using assms by (auto simp: encodable_def layout_ok_def record_ok_def)
  have rt: "list_all (\<lambda>rt. valid_rule (dr_rule rt)) (mr_routes r)" "\<not> DERIV_MAX_ROUTES < length (mr_routes r)"
    "\<not> list_ex (\<lambda>rt. length (dr_premises rt) = 0 \<or> DERIV_MAX_PREMISES < length (dr_premises rt)) (mr_routes r)"
    using ok(1) by (auto simp: routes_ok_def route_ok_def list_all_iff list_ex_iff)
  define b1 where "b1 = fold (\<lambda>t. put_lenstr mem_ok (Some t)) (mr_tags r)
      (put_u16 mem_ok (of_nat (length (mr_tags r))) (put_header mem_ok r buf_empty))"
  define b2 where "b2 = fold (put_f32 mem_ok) ?emb
      (put_u32 mem_ok (of_nat (mr_embedding_dim r)) (put_u32 mem_ok (of_nat (mr_vec_count r)) b1))"
  define b3 where "b3 = fold (put_rel mem_ok) (mr_relationships r) (put_u16 mem_ok (of_nat (length (mr_relationships r))) b2)"
  define b4 where "b4 = (if fc_kind (mr_fact r) \<noteq> FACT_NONE then put_fact mem_ok (mr_fact r) b3 else b3)"
  define b5 where "b5 = (if 0 < length (mr_routes r)
      then fold (put_route mem_ok) (mr_routes r) (put_u16 mem_ok (of_nat (length (mr_routes r))) b4) else b4)"
  define b6 where "b6 = put_bytes mem_ok (mr_data r) (put_u32 mem_ok (of_nat (length (mr_data r))) b5)"
  have enc: "record_encode mem_ok r = (if b_err b6 then None else Some (b_p b6))"
    using rt hf g ok(2)
    unfolding record_encode_def Let_def b1_def [symmetric] take_all [OF eq_imp_le [OF ok(2)]] b2_def [symmetric]
      b3_def [symmetric] b4_def [symmetric] b5_def [symmetric] b6_def [symmetric] by auto
  have r1: "buf_run b1 ((([] @ header_bytes r) @ aegis_put_u16le (of_nat (length (mr_tags r)))) @ concat (map (\<lambda>t. lenstr (Some t)) (mr_tags r)))"
    (is "buf_run b1 ?s1")
    unfolding b1_def by (intro run_fold run_puts run_header run_empty)
  have r2: "buf_run b2 (((?s1 @ aegis_put_u32le (of_nat (mr_vec_count r))) @ aegis_put_u32le (of_nat (mr_embedding_dim r))) @
      concat (map aegis_put_u32le ?emb))" (is "buf_run b2 ?s2")
    unfolding b2_def by (intro run_fold run_puts r1)
  have r3: "buf_run b3 ((?s2 @ aegis_put_u16le (of_nat (length (mr_relationships r)))) @ concat (map rel_bytes (mr_relationships r)))"
    (is "buf_run b3 ?s3")
    unfolding b3_def by (intro run_fold run_rel run_puts r2)
  have r4: "buf_run b4 (?s3 @ (if fc_kind (mr_fact r) \<noteq> FACT_NONE then fact_bytes (mr_fact r) else []))" (is "buf_run b4 ?s4")
    using run_fact [OF r3] r3 by (simp add: b4_def)
  have "buf_run (fold (put_route mem_ok) (mr_routes r) (put_u16 mem_ok (of_nat (length (mr_routes r))) b4))
      ((?s4 @ aegis_put_u16le (of_nat (length (mr_routes r)))) @ concat (map route_bytes (mr_routes r)))"
    by (intro run_fold run_route run_puts r4)
  then have r5: "buf_run b5 (?s4 @ (if mr_routes r \<noteq> []
      then aegis_put_u16le (of_nat (length (mr_routes r))) @ concat (map route_bytes (mr_routes r)) else []))" (is "buf_run b5 ?s5")
    using r4 by (simp add: b5_def)
  have "buf_run b6 ((?s5 @ aegis_put_u32le (of_nat (length (mr_data r)))) @ mr_data r)"
    unfolding b6_def by (intro run_bytes run_puts r5)
  then have "buf_run b6 (record_bytes r)" by (simp add: record_bytes_def)
  with len enc show ?thesis by (simp add: buf_run_def buf_ok_def)
qed

section \<open>The cursor reads the fields back\<close>

definition cu :: "bytes \<Rightarrow> bytes \<Rightarrow> Cur" where
  "cu pre rest = \<lparr>c_p = pre @ rest, c_off = length pre, c_err = False\<rparr>"

lemma cur_take_cu: "length s = n \<Longrightarrow> cur_take n (cu pre (s @ rest)) = (s, cu (pre @ s) rest)"
  by (auto simp: cur_take_def cu_def)

lemma get_cu [cursor_simps]:
  "get_u8 (cu pre (v8 # rest)) = (v8, cu (pre @ [v8]) rest)"
  "get_u16 (cu pre (aegis_put_u16le v16 @ rest)) = (v16, cu (pre @ aegis_put_u16le v16) rest)"
  "get_u32 (cu pre (aegis_put_u32le v32 @ rest)) = (v32, cu (pre @ aegis_put_u32le v32) rest)"
  "get_u64 (cu pre (aegis_put_u64le v64 @ rest)) = (v64, cu (pre @ aegis_put_u64le v64) rest)"
  "get_f32 (cu pre (aegis_put_u32le v32 @ rest)) = (v32, cu (pre @ aegis_put_u32le v32) rest)"
  using cur_take_cu [of "[v8]" 1 pre rest]
  by (simp_all add: get_u8_def get_u16_def get_u32_def get_u64_def get_f32_def cur_take_cu)

lemma cu_fields [simp]: "c_err (cu pre rest) = False" "c_off (cu pre rest) = length pre" "c_p (cu pre rest) = pre @ rest"
  by (simp_all add: cu_def)

lemma cu_ex [simp]: "\<exists>pre'. cu pre rest = cu pre' rest"
  by blast

lemma get_lenstr_cu [cursor_simps]:
  assumes "str_ok s"
  shows "get_lenstr (\<lambda>_. mem_ok) (cu pre (lenstr s @ rest)) = (s, cu (pre @ lenstr s) rest)"
proof (cases s)
  case None
  then show ?thesis by (simp add: get_lenstr_def lenstr_def get_cu)
next
  case (Some t)
  then have t: "0 \<notin> set t" "length t < 2 ^ 32 - 1" using assms by (simp_all add: str_ok_def)
  then have u: "unat (of_nat (length t) :: u32) = length t" by (simp add: unat_of_nat)
  then have "(of_nat (length t) :: u32) \<noteq> NULL_LEN" using t(2) by (auto simp: NULL_LEN_def)
  with u t(1) Some show ?thesis
    by (simp add: get_lenstr_def lenstr_def get_cu cstr_of_id)
qed

lemma weight_keeps: "weight_ok u \<Longrightarrow> unit_or d u = u"
  by (simp add: weight_ok_def unit_or_def)

lemma version_known:
  "\<not> (record_version r \<noteq> 1 \<and> record_version r \<noteq> RECORD_CODEC_V2 \<and> record_version r \<noteq> RECORD_CODEC_V3 \<and>
     record_version r \<noteq> RECORD_CODEC_V5)"
  by (simp add: record_version_def)

lemma dec_header_bytes:
  assumes "encodable r"
  shows "\<exists>pre'. dec_header (\<lambda>_. mem_ok) (cu pre (header_bytes r @ rest)) =
    Some (record_version r, record_init\<lparr>mr_id := mr_id r, mr_type := mr_type r, mr_created := mr_created r,
      mr_updated := mr_updated r, mr_importance := mr_importance r, mr_confidence := mr_confidence r,
      mr_deleted := mr_deleted r, mr_expires_at := mr_expires_at r, mr_agent_id := mr_agent_id r\<rparr>, cu pre' rest)"
proof -
  have ok: "weight_ok (mr_importance r)" "weight_ok (mr_confidence r)" "str_ok (mr_agent_id r)"
    and del: "int (unat (if mr_deleted r \<noteq> 0 then 1 else 0 :: u8)) = mr_deleted r"
    using assms by (auto simp: encodable_def layout_ok_def)
  show ?thesis
    unfolding dec_header_def header_bytes_def append_Cons append_assoc
    using version_known [of r] del by (simp add: cursor_simps ok weight_keeps)
qed

lemma dec_tag_loop_bytes:
  "\<forall>t \<in> set ts. str_ok (Some t) \<Longrightarrow>
   dec_tag_loop (\<lambda>_. mem_ok) (length ts) (cu pre (concat (map (\<lambda>t. lenstr (Some t)) ts) @ rest)) acc =
   Some (acc @ ts, cu (pre @ concat (map (\<lambda>t. lenstr (Some t)) ts)) rest)"
  by (induction ts arbitrary: pre acc) (simp_all add: cursor_simps)

lemma dec_tags_bytes:
  assumes "length ts < 2 ^ 16" and "\<forall>t \<in> set ts. str_ok (Some t)" and "mr_tags r = []"
  shows "\<exists>pre'. dec_tags (\<lambda>_. mem_ok) r (cu pre (aegis_put_u16le (of_nat (length ts)) @
      concat (map (\<lambda>t. lenstr (Some t)) ts) @ rest)) = Some (r\<lparr>mr_tags := ts\<rparr>, cu pre' rest)"
proof -
  have u: "unat (of_nat (length ts) :: u16) = length ts" using assms(1) by (simp add: unat_of_nat)
  show ?thesis
  proof (cases "ts = []")
    case True
    then show ?thesis using assms(3) by (auto simp: dec_tags_def cursor_simps)
  next
    case False
    then have "(of_nat (length ts) :: u16) \<noteq> 0" using u by auto
    with u show ?thesis
      by (simp add: dec_tags_def cursor_simps dec_tag_loop_bytes [OF assms(2)])
  qed
qed

lemma dec_float_loop_bytes:
  "dec_float_loop (length fs) (cu pre (concat (map aegis_put_u32le fs) @ rest)) acc =
   Some (acc @ fs, cu (pre @ concat (map aegis_put_u32le fs)) rest)"
  by (induction fs arbitrary: pre acc) (simp_all add: cursor_simps)

lemma length_floats [simp]: "length (concat (map aegis_put_u32le fs)) = 4 * length fs"
  by (induction fs) simp_all

lemma dec_vectors_bytes:
  assumes "vc < 2 ^ 32" and "dim < 2 ^ 32" and "length fs = vc * dim" and "vc = 0 \<longleftrightarrow> dim = 0" and "2 \<le> ver"
    and "mr_embedding r = []" "mr_embedding_dim r = 0" "mr_vec_count r = 0"
  shows "\<exists>pre'. dec_vectors (\<lambda>_. mem_ok) ver r (cu pre (aegis_put_u32le (of_nat vc) @ aegis_put_u32le (of_nat dim) @
      concat (map aegis_put_u32le fs) @ rest)) =
    Some (r\<lparr>mr_embedding := fs, mr_embedding_dim := dim, mr_vec_count := vc\<rparr>, cu pre' rest)"
proof -
  have u: "unat (of_nat vc :: u32) = vc" "unat (of_nat dim :: u32) = dim" using assms(1,2) by (simp_all add: unat_of_nat)
  have v: "ver \<noteq> 1" using assms(5) by (auto simp: word_le_nat_alt)
  show ?thesis
  proof (cases "dim = 0")
    case True
    then show ?thesis using assms by (simp add: dec_vectors_def cursor_simps v)
  next
    case False
    then have nz: "(of_nat vc :: u32) \<noteq> 0" "(of_nat dim :: u32) \<noteq> 0" using u assms(4) by auto
    have "vc \<le> (4 * length fs + length rest) div 4 div dim"
      using False assms(3) by (simp add: less_eq_div_iff_mult_less_eq)
    with nz u assms(3,5) v show ?thesis
      using dec_float_loop_bytes [of fs "(pre @ aegis_put_u32le (of_nat vc)) @ aegis_put_u32le (of_nat dim)" rest "[]"]
      by (simp add: dec_vectors_def cursor_simps not_less Let_def)
  qed
qed

lemma rel_self [simp]: "\<lparr>rl_from_id = rl_from_id e, rl_to_id = rl_to_id e, rl_kind = rl_kind e\<rparr> = e"
  by (cases e) simp

lemma dec_rel_loop_bytes:
  "\<forall>e \<in> set es. str_ok (rl_kind e) \<Longrightarrow>
   \<exists>pre'. dec_rel_loop (\<lambda>_. mem_ok) (length es) r (cu pre (concat (map rel_bytes es) @ rest)) =
   Some (r\<lparr>mr_relationships := mr_relationships r @ es\<rparr>, cu pre' rest)"
proof (induction es arbitrary: pre r)
  case (Cons e es)
  have "\<exists>pre'. dec_rel_loop (\<lambda>_. mem_ok) (length es) (r\<lparr>mr_relationships := mr_relationships r @ [e]\<rparr>)
      (cu (pre @ rel_bytes e) (concat (map rel_bytes es) @ rest)) =
      Some (r\<lparr>mr_relationships := mr_relationships r @ e # es\<rparr>, cu pre' rest)"
    using Cons.IH [of "r\<lparr>mr_relationships := mr_relationships r @ [e]\<rparr>" "pre @ rel_bytes e"] Cons.prems by simp
  then show ?case using Cons.prems
    by (simp add: rel_bytes_def [of e] cursor_simps record_add_relationship_def)
qed auto

lemma dec_rels_bytes:
  assumes "length es < 2 ^ 16" and "\<forall>e \<in> set es. str_ok (rl_kind e)" and "mr_relationships r = []"
  shows "\<exists>pre'. dec_rels (\<lambda>_. mem_ok) r (cu pre (aegis_put_u16le (of_nat (length es)) @ concat (map rel_bytes es) @ rest)) =
    Some (r\<lparr>mr_relationships := es\<rparr>, cu pre' rest)"
proof -
  have u: "unat (of_nat (length es) :: u16) = length es" using assms(1) by (simp add: unat_of_nat)
  then show ?thesis using dec_rel_loop_bytes [OF assms(2), of r] assms(3) by (simp add: dec_rels_def cursor_simps)
qed

lemma dec_fact_bytes:
  assumes "fact_ok f" and "fc_kind f \<noteq> FACT_NONE" and "str_ok (fc_predicate f)" and "str_ok (fc_object_str f)"
  shows "\<exists>pre'. dec_fact (\<lambda>_. mem_ok) r (cu pre (fact_bytes f @ rest)) = Some (r\<lparr>mr_fact := f\<rparr>, cu pre' rest)"
proof -
  note sf = set_fact_ok [OF assms(1,2), of mem_ok r]
  show ?thesis
  proof (cases "fc_kind f")
    case FACT_OBJ_ID
    then have "fc_predicate f \<noteq> None" "fc_object_str f = None" using assms(1) by (simp_all add: fact_ok_def)
    with FACT_OBJ_ID sf show ?thesis
      by (simp add: dec_fact_def fact_bytes_def cursor_simps assms(3))
  next
    case FACT_OBJ_STRING
    then have "fc_predicate f \<noteq> None" "fc_object_str f \<noteq> None" "fc_object_id f = 0"
      using assms(1) by (simp_all add: fact_ok_def)
    with FACT_OBJ_STRING sf show ?thesis
      by (simp add: dec_fact_def fact_bytes_def cursor_simps assms(3,4))
  qed (use assms(2) in simp)
qed

lemma get_premises_bytes:
  "get_premises (length ps) (cu pre (concat (map aegis_put_u64le ps) @ rest)) acc =
   (acc @ ps, cu (pre @ concat (map aegis_put_u64le ps)) rest)"
  by (induction ps arbitrary: pre acc) (simp_all add: cursor_simps)

lemma deriv_rule_of_code: "valid_rule rule \<Longrightarrow> deriv_rule_of (of_nat (deriv_rule_code rule)) = Some rule"
  by (cases rule) (simp_all add: valid_rule_def deriv_rule_of_def)

lemma dec_route_loop_bytes:
  "routes_ok (mr_routes r @ rts) \<Longrightarrow>
   \<exists>pre'. dec_route_loop (\<lambda>_. mem_ok) (length rts) r (cu pre (concat (map route_bytes rts) @ rest)) =
   Some (r\<lparr>mr_routes := mr_routes r @ rts\<rparr>, cu pre' rest)"
proof (induction rts arbitrary: pre r)
  case (Cons rt rts)
  have ok1: "routes_ok (mr_routes r @ [rt])" using routes_ok_prefix [of "mr_routes r @ [rt]" rts] Cons.prems by simp
  have ro: "route_ok rt" using Cons.prems by (simp add: routes_ok_def)
  then have u: "unat (of_nat (length (dr_premises rt)) :: u8) = length (dr_premises rt)"
    by (simp add: unat_of_nat route_ok_def DERIV_MAX_PREMISES_def)
  moreover from this have "(of_nat (length (dr_premises rt)) :: u8) \<noteq> 0" using ro by (auto simp: route_ok_def)
  moreover have "\<exists>pre'. dec_route_loop (\<lambda>_. mem_ok) (length rts) (r\<lparr>mr_routes := mr_routes r @ [rt]\<rparr>)
      (cu (pre @ route_bytes rt) (concat (map route_bytes rts) @ rest)) =
      Some (r\<lparr>mr_routes := mr_routes r @ rt # rts\<rparr>, cu pre' rest)"
    using Cons.IH [of "r\<lparr>mr_routes := mr_routes r @ [rt]\<rparr>" "pre @ route_bytes rt"] Cons.prems by simp
  ultimately show ?case
    using ro add_route_last [OF ok1, of mem_ok] deriv_rule_of_code
    by (simp add: route_bytes_def [of rt] cursor_simps get_premises_bytes route_ok_def not_less)
qed auto

lemma dec_routes_bytes:
  assumes "routes_ok rts" and "rts \<noteq> []" and "mr_routes r = []"
  shows "\<exists>pre'. dec_routes (\<lambda>_. mem_ok) r (cu pre (aegis_put_u16le (of_nat (length rts)) @ concat (map route_bytes rts) @ rest)) =
    Some (r\<lparr>mr_routes := rts\<rparr>, cu pre' rest)"
proof -
  have u: "unat (of_nat (length rts) :: u16) = length rts" "length rts \<le> DERIV_MAX_ROUTES"
    using assms(1) by (simp_all add: unat_of_nat routes_ok_def DERIV_MAX_ROUTES_def)
  moreover from this have "(of_nat (length rts) :: u16) \<noteq> 0" using assms(2) by auto
  ultimately show ?thesis
    using dec_route_loop_bytes [of r rts] assms by (simp add: dec_routes_def cursor_simps not_less)
qed

lemma dec_data_bytes:
  assumes "length d < 2 ^ 32"
  shows "dec_data (\<lambda>_. mem_ok) r (cu pre (aegis_put_u32le (of_nat (length d)) @ d)) = Some (r\<lparr>mr_data := d\<rparr>)"
proof -
  have "unat (of_nat (length d) :: u32) = length d" using assms by (simp add: unat_of_nat)
  then show ?thesis by (simp add: dec_data_def cursor_simps)
qed

lemma record_decode_bytes:
  assumes enc: "encodable r"
  shows "record_decode (\<lambda>_. mem_ok) (record_bytes r) = Some r"
proof -
  have ok: "record_ok r" "length (mr_tags r) < 2 ^ 16" "\<forall>t \<in> set (mr_tags r). str_ok (Some t)"
    "mr_vec_count r < 2 ^ 32" "mr_embedding_dim r < 2 ^ 32" "length (mr_relationships r) < 2 ^ 16"
    "\<forall>e \<in> set (mr_relationships r). str_ok (rl_kind e)" "str_ok (fc_predicate (mr_fact r))"
    "str_ok (fc_object_str (mr_fact r))" "length (mr_data r) < 2 ^ 32"
    using enc by (simp_all add: encodable_def layout_ok_def)
  have emb: "length (mr_embedding r) = mr_vec_count r * mr_embedding_dim r" "mr_vec_count r = 0 \<longleftrightarrow> mr_embedding_dim r = 0"
    and fo: "fact_ok (mr_fact r)" and ro: "routes_ok (mr_routes r)"
    using ok(1) by (simp_all add: record_ok_def)
  define r1 where "r1 = record_init\<lparr>mr_id := mr_id r, mr_type := mr_type r, mr_created := mr_created r,
      mr_updated := mr_updated r, mr_importance := mr_importance r, mr_confidence := mr_confidence r,
      mr_deleted := mr_deleted r, mr_expires_at := mr_expires_at r, mr_agent_id := mr_agent_id r\<rparr>"
  define r2 where "r2 = r1\<lparr>mr_tags := mr_tags r\<rparr>"
  define r3 where "r3 = r2\<lparr>mr_embedding := mr_embedding r, mr_embedding_dim := mr_embedding_dim r, mr_vec_count := mr_vec_count r\<rparr>"
  define r4 where "r4 = r3\<lparr>mr_relationships := mr_relationships r\<rparr>"
  have init: "mr_tags r1 = []" "mr_embedding r2 = []" "mr_embedding_dim r2 = 0" "mr_vec_count r2 = 0"
    "mr_relationships r3 = []" "mr_fact r4 = no_fact" "mr_routes (r4\<lparr>mr_fact := mr_fact r\<rparr>) = []" "mr_routes r4 = []"
    by (simp_all add: r4_def r3_def r2_def r1_def record_init_def)
  have ver: "2 \<le> record_version r" "RECORD_CODEC_V3 \<le> record_version r \<longleftrightarrow> fc_kind (mr_fact r) \<noteq> FACT_NONE"
    "RECORD_CODEC_V5 \<le> record_version r \<longleftrightarrow> mr_routes r \<noteq> []"
    using enc by (auto simp: record_version_def RECORD_CODEC_V2_def RECORD_CODEC_V3_def RECORD_CODEC_V5_def encodable_def layout_ok_def
        word_le_nat_alt)
  define s6 where "s6 = aegis_put_u32le (of_nat (length (mr_data r))) @ mr_data r"
  define s5 where "s5 = (if mr_routes r \<noteq> []
      then aegis_put_u16le (of_nat (length (mr_routes r))) @ concat (map route_bytes (mr_routes r)) else []) @ s6"
  define s4 where "s4 = (if fc_kind (mr_fact r) \<noteq> FACT_NONE then fact_bytes (mr_fact r) else []) @ s5"
  define s3 where "s3 = aegis_put_u16le (of_nat (length (mr_relationships r))) @ concat (map rel_bytes (mr_relationships r)) @ s4"
  define s2 where "s2 = aegis_put_u32le (of_nat (mr_vec_count r)) @ aegis_put_u32le (of_nat (mr_embedding_dim r)) @
      concat (map aegis_put_u32le (mr_embedding r)) @ s3"
  define s1 where "s1 = aegis_put_u16le (of_nat (length (mr_tags r))) @ concat (map (\<lambda>t. lenstr (Some t)) (mr_tags r)) @ s2"
  have bytes: "record_bytes r = header_bytes r @ s1"
    by (simp add: record_bytes_def s1_def s2_def s3_def s4_def s5_def s6_def)
  obtain p1 where p1: "dec_header (\<lambda>_. mem_ok) (cu [] (header_bytes r @ s1)) = Some (record_version r, r1, cu p1 s1)"
    using dec_header_bytes [OF enc, of "[]" s1] unfolding r1_def by blast
  obtain p2 where p2: "dec_tags (\<lambda>_. mem_ok) r1 (cu p1 s1) = Some (r2, cu p2 s2)"
    using dec_tags_bytes [OF ok(2,3) init(1)] unfolding s1_def r2_def by blast
  obtain p3 where p3: "dec_vectors (\<lambda>_. mem_ok) (record_version r) r2 (cu p2 s2) = Some (r3, cu p3 s3)"
    using dec_vectors_bytes [OF ok(4,5) emb ver(1) init(2-4)] unfolding s2_def r3_def by blast
  obtain p4 where p4: "dec_rels (\<lambda>_. mem_ok) r3 (cu p3 s3) = Some (r4, cu p4 s4)"
    using dec_rels_bytes [OF ok(6,7) init(5)] unfolding s3_def r4_def by blast
  have "\<exists>p5. (if RECORD_CODEC_V3 \<le> record_version r then dec_fact (\<lambda>_. mem_ok) r4 (cu p4 s4) else Some (r4, cu p4 s4)) =
      Some (r4\<lparr>mr_fact := mr_fact r\<rparr>, cu p5 s5)"
  proof (cases "fc_kind (mr_fact r) = FACT_NONE")
    case True
    then have "mr_fact r = no_fact" using fo by (simp add: fact_ok_def)
    then show ?thesis using True ver(2) init(6) by (simp add: s4_def)
  next
    case False
    then show ?thesis using ver(2) dec_fact_bytes [OF fo False ok(8,9), of r4 p4 s5] by (simp add: s4_def)
  qed
  then obtain p5 where p5: "(if RECORD_CODEC_V3 \<le> record_version r then dec_fact (\<lambda>_. mem_ok) r4 (cu p4 s4) else Some (r4, cu p4 s4)) =
      Some (r4\<lparr>mr_fact := mr_fact r\<rparr>, cu p5 s5)" by blast
  have "\<exists>p6. (if RECORD_CODEC_V5 \<le> record_version r then dec_routes (\<lambda>_. mem_ok) (r4\<lparr>mr_fact := mr_fact r\<rparr>) (cu p5 s5)
      else Some (r4\<lparr>mr_fact := mr_fact r\<rparr>, cu p5 s5)) = Some (r4\<lparr>mr_fact := mr_fact r, mr_routes := mr_routes r\<rparr>, cu p6 s6)"
    using ver(3) init(7,8) dec_routes_bytes [OF ro _ init(7), of p5 s6] by (cases "mr_routes r = []") (auto simp: s5_def)
  then obtain p6 where p6: "(if RECORD_CODEC_V5 \<le> record_version r then dec_routes (\<lambda>_. mem_ok) (r4\<lparr>mr_fact := mr_fact r\<rparr>) (cu p5 s5)
      else Some (r4\<lparr>mr_fact := mr_fact r\<rparr>, cu p5 s5)) = Some (r4\<lparr>mr_fact := mr_fact r, mr_routes := mr_routes r\<rparr>, cu p6 s6)" by blast
  have p7: "dec_data (\<lambda>_. mem_ok) (r4\<lparr>mr_fact := mr_fact r, mr_routes := mr_routes r\<rparr>) (cu p6 s6) =
      Some (r4\<lparr>mr_fact := mr_fact r, mr_routes := mr_routes r, mr_data := mr_data r\<rparr>)"
    using dec_data_bytes [OF ok(10)] unfolding s6_def by simp
  have start: "\<lparr>c_p = record_bytes r, c_off = 0, c_err = False\<rparr> = cu [] (header_bytes r @ s1)"
    by (simp add: cu_def bytes)
  have "record_decode (\<lambda>_. mem_ok) (record_bytes r) = Some (r4\<lparr>mr_fact := mr_fact r, mr_routes := mr_routes r, mr_data := mr_data r\<rparr>)"
    unfolding record_decode_def start p1 Option.bind.bind_lunit prod.case p2 p3 p4 p5 p6 p7 ..
  also have "r4\<lparr>mr_fact := mr_fact r, mr_routes := mr_routes r, mr_data := mr_data r\<rparr> = r"
    by (rule MemoryRecord.equality) (simp_all add: r4_def r3_def r2_def r1_def)
  finally show ?thesis .
qed

section \<open>Whatever is decoded is well-formed\<close>

lemma length_take_le: "length (take n xs) \<le> n"
  by simp

lemma add_route_keeps:
  assumes "routes_ok (mr_routes r)" and "record_add_route mem r rule depth (Some ps) = (rv, r')"
  shows "\<exists>rts. routes_ok rts \<and> r' = r\<lparr>mr_routes := rts\<rparr>"
proof -
  let ?rt = "\<lparr>dr_rule = rule, dr_depth = depth, dr_premises = ps\<rparr> :: DerivRoute"
  consider "r' = r" | "route_ok ?rt" "record_add_route mem_ok r rule depth (Some ps) = (rv, r')"
  proof (cases "route_ok ?rt \<and> (mr_routes r \<noteq> [] \<or> mem 0)")
    case True
    then have "record_add_route mem r rule depth (Some ps) = record_add_route mem_ok r rule depth (Some ps)"
      by (cases "mr_routes r = []") (simp_all add: record_add_route_def Let_def split: option.split)
    then show ?thesis using True assms(2) that(2) by simp
  next
    case False
    then have "r' = r" using assms(2) unfolding record_add_route_def route_ok_def Let_def
      by (cases "mr_routes r = []") (auto simp: DERIV_MAX_ROUTES_def split: if_splits)
    then show ?thesis by (rule that(1))
  qed
  then show ?thesis
  proof cases
    case 1
    then show ?thesis using assms(1) by (intro exI [of _ "mr_routes r"]) simp
  next
    case 2
    let ?L = "insort_key route_key ?rt (mr_routes r)"
    have r': "r' = r\<lparr>mr_routes := (if route_key ?rt \<in> route_key ` set (mr_routes r) then mr_routes r else take DERIV_MAX_ROUTES ?L)\<rparr>"
      by (rule add_route_routes(1) [OF assms(1) 2(1), of mem_ok rv r']) (simp_all only: 2(2) DerivRoute.select_convs)
    have "routes_ok (take DERIV_MAX_ROUTES ?L)" if new: "route_key ?rt \<notin> route_key ` set (mr_routes r)"
      using assms(1) 2(1) insort_strict [OF _ _ new] by (intro routes_ok_take) (auto simp: routes_ok_def list_all_iff set_insort_key)
    then have "routes_ok (if route_key ?rt \<in> route_key ` set (mr_routes r) then mr_routes r else take DERIV_MAX_ROUTES ?L)"
      using assms(1) by (simp only: if_split) blast
    with r' show ?thesis by blast
  qed
qed

lemma weight_consts: "weight_ok f32_zero" "weight_ok f32_one"
  by (simp_all add: weight_ok_def f32_isfinite_def f32_negative_def f32_above_one_def f32_zero_def f32_one_def)

lemma weight_unit_or: "weight_ok (unit_or f32_zero u)" "weight_ok (unit_or f32_one u)"
  using weight_consts by (simp_all add: unit_or_def weight_ok_def)

lemma cstr_of_length: "length (cstr_of b) \<le> length b"
  by (simp add: cstr_of_def length_takeWhile_le)

lemma get_lenstr_str_ok: "get_lenstr mem c = (s, c') \<Longrightarrow> str_ok s"
proof -
  assume a: "get_lenstr mem c = (s, c')"
  have "length (cstr_of (take (unat n) b)) < 2 ^ 32 - 1" if "n \<noteq> NULL_LEN" for n :: u32 and b
  proof -
    have "unat n < 2 ^ 32" using unat_lt [of n] by simp
    moreover have "unat n \<noteq> 2 ^ 32 - 1"
    proof
      assume "unat n = 2 ^ 32 - 1"
      then have "unat n = unat NULL_LEN" by (simp add: NULL_LEN_def)
      with that show False by (simp add: word_unat_eq_iff)
    qed
    ultimately have "unat n < 2 ^ 32 - 1" by simp
    then show ?thesis using cstr_of_length [of "take (unat n) b"] by (simp add: min_def split: if_splits)
  qed
  with a show ?thesis by (auto simp: get_lenstr_def str_ok_def split: prod.splits if_splits)
qed

lemma dec_header_wf:
  assumes "dec_header mem c = Some (ver, r, c')"
  shows "\<exists>i ty cr up im co de ex ag. r = record_init\<lparr>mr_id := i, mr_type := ty, mr_created := cr, mr_updated := up,
      mr_importance := im, mr_confidence := co, mr_deleted := de, mr_expires_at := ex, mr_agent_id := ag\<rparr> \<and>
    weight_ok im \<and> weight_ok co \<and> str_ok ag \<and> (ver = 1 \<or> ver = 2 \<or> ver = 3 \<or> ver = 5)"
  using assms unfolding dec_header_def Let_def
  by (auto simp: RECORD_CODEC_V2_def RECORD_CODEC_V3_def RECORD_CODEC_V5_def weight_unit_or
      split: prod.splits if_splits option.splits dest: get_lenstr_str_ok intro!: exI)

lemma dec_tag_loop_wf:
  "dec_tag_loop mem n c acc = Some (ts, c') \<Longrightarrow> length ts = length acc + n \<and> set ts \<subseteq> set acc \<union> {t. str_ok (Some t)}"
proof (induction n arbitrary: c acc)
  case (Suc n)
  obtain s c1 where g: "get_lenstr mem c = (s, c1)" by fastforce
  with Suc.prems obtain t where t: "s = Some t" "dec_tag_loop mem n c1 (acc @ [t]) = Some (ts, c')"
    by (auto split: if_splits option.splits)
  from Suc.IH [OF t(2)] get_lenstr_str_ok [OF g] t(1) show ?case by auto
qed simp

lemma dec_tags_wf:
  assumes "dec_tags mem r c = Some (r', c')" and "mr_tags r = []"
  shows "\<exists>ts. r' = r\<lparr>mr_tags := ts\<rparr> \<and> length ts < 2 ^ 16 \<and> (\<forall>t \<in> set ts. str_ok (Some t))"
proof -
  obtain tc c1 where g: "get_u16 c = (tc, c1)" by fastforce
  show ?thesis
  proof (cases "tc = 0")
    case True
    then show ?thesis using assms g by (auto simp: dec_tags_def split: if_splits intro!: exI [of _ "[]"])
  next
    case False
    then obtain ts where ts: "dec_tag_loop mem (unat tc) c1 [] = Some (ts, c')" "r' = r\<lparr>mr_tags := ts\<rparr>"
      using assms(1) g by (auto simp: dec_tags_def split: if_splits)
    have "unat tc < 2 ^ 16" using unat_lt [of tc] by simp
    with ts dec_tag_loop_wf [OF ts(1)] show ?thesis by auto
  qed
qed

lemma dec_float_loop_wf: "dec_float_loop n c acc = Some (fs, c') \<Longrightarrow> length fs = length acc + n"
  by (induction n arbitrary: c acc) (auto split: prod.splits if_splits)

lemma dec_vectors_wf:
  assumes "dec_vectors mem ver r c = Some (r', c')" and "mr_embedding r = []" "mr_embedding_dim r = 0" "mr_vec_count r = 0"
  shows "\<exists>fs d v. r' = r\<lparr>mr_embedding := fs, mr_embedding_dim := d, mr_vec_count := v\<rparr> \<and> length fs = v * d \<and>
    (v = 0 \<longleftrightarrow> d = 0) \<and> v < 2 ^ 32 \<and> d < 2 ^ 32"
proof -
  obtain vc c1 where vc: "(if 2 \<le> ver then get_u32 c else (1, c)) = (vc, c1)" by fastforce
  obtain dim c2 where dim: "get_u32 c1 = (dim, c2)" by fastforce
  define vec where "vec = (if ver = 1 \<and> dim = 0 then 0 else vc)"
  show ?thesis
  proof (cases "dim \<noteq> 0 \<and> vec \<noteq> 0")
    case True
    then obtain fs where "dec_float_loop (unat vec * unat dim) c2 [] = Some (fs, c')"
      "r' = r\<lparr>mr_embedding := fs, mr_embedding_dim := unat dim, mr_vec_count := unat vec\<rparr>"
      using assms(1) unfolding dec_vectors_def vc Let_def prod.case dim vec_def [symmetric] by (auto split: if_splits)
    moreover have "unat vec < 2 ^ 32" "unat dim < 2 ^ 32" "unat vec \<noteq> 0" "unat dim \<noteq> 0"
      using unat_lt [of vec] unat_lt [of dim] True by (simp_all add: unat_eq_zero)
    ultimately show ?thesis using dec_float_loop_wf by fastforce
  next
    case False
    then have "r' = r"
      using assms(1) unfolding dec_vectors_def vc Let_def prod.case dim vec_def [symmetric] by (auto split: if_splits)
    then show ?thesis using assms(2-4) by (intro exI [of _ "[]"] exI [of _ 0]) simp
  qed
qed

lemma dec_rel_loop_wf:
  "dec_rel_loop mem n r c = Some (r', c') \<Longrightarrow>
   \<exists>es. r' = r\<lparr>mr_relationships := mr_relationships r @ es\<rparr> \<and> length es = n \<and> (\<forall>e \<in> set es. str_ok (rl_kind e))"
proof (induction n arbitrary: r c)
  case (Suc n)
  obtain a c1 b c2 k c3 where g: "get_u64 c = (a, c1)" "get_u64 c1 = (b, c2)" "get_lenstr mem c2 = (k, c3)" by fastforce
  let ?e = "\<lparr>rl_from_id = a, rl_to_id = b, rl_kind = k\<rparr>"
  have step: "dec_rel_loop mem n (r\<lparr>mr_relationships := mr_relationships r @ [?e]\<rparr>) c3 = Some (r', c')"
    using Suc.prems g by (auto simp: record_add_relationship_def split: if_splits)
  obtain es where "r' = r\<lparr>mr_relationships := mr_relationships r @ [?e] @ es\<rparr>" "length es = n" "\<forall>e \<in> set es. str_ok (rl_kind e)"
    using Suc.IH [OF step] by auto
  with get_lenstr_str_ok [OF g(3)] show ?case by (intro exI [of _ "?e # es"]) auto
qed (auto intro!: exI [of _ "[]"])

lemma dec_rels_wf:
  assumes "dec_rels mem r c = Some (r', c')" and "mr_relationships r = []"
  shows "\<exists>es. r' = r\<lparr>mr_relationships := es\<rparr> \<and> length es < 2 ^ 16 \<and> (\<forall>e \<in> set es. str_ok (rl_kind e))"
proof -
  obtain rc c1 where g: "get_u16 c = (rc, c1)" by fastforce
  with assms(1) have "dec_rel_loop mem (unat rc) r c1 = Some (r', c')" by (auto simp: dec_rels_def split: if_splits)
  from dec_rel_loop_wf [OF this] assms(2) unat_lt [of rc] show ?thesis by auto
qed

lemma dec_fact_wf:
  assumes "dec_fact mem r c = Some (r', c')"
  shows "\<exists>f. r' = r\<lparr>mr_fact := f\<rparr> \<and> fact_ok f \<and> fc_kind f \<noteq> FACT_NONE \<and>
    str_ok (fc_predicate f) \<and> str_ok (fc_object_str f)"
proof -
  obtain fk c1 subject c2 pred c3 where g: "get_u8 c = (fk, c1)" "get_u64 c1 = (subject, c2)" "get_lenstr mem c2 = (pred, c3)"
    by fastforce
  note p = get_lenstr_str_ok [OF g(3)]
  have none: "str_ok None" by (simp add: str_ok_def)
  show ?thesis
  proof (cases "fk = fact_kind_code FACT_OBJ_ID")
    case True
    obtain oid c4 where "get_u64 c3 = (oid, c4)" by fastforce
    with True assms g p none show ?thesis
      by (auto simp: dec_fact_def record_set_fact_def fact_ok_def split: if_splits)
  next
    case False
    obtain obj c4 where o: "get_lenstr mem c3 = (obj, c4)" by fastforce
    with get_lenstr_str_ok [OF o] False assms g p show ?thesis
      by (auto simp: dec_fact_def record_set_fact_def fact_ok_def split: if_splits)
  qed
qed

lemma dec_route_loop_wf:
  "dec_route_loop mem n r c = Some (r', c') \<Longrightarrow> routes_ok (mr_routes r) \<Longrightarrow>
   \<exists>rts. r' = r\<lparr>mr_routes := rts\<rparr> \<and> routes_ok rts"
proof (induction n arbitrary: r c)
  case 0
  then show ?case by (intro exI [of _ "mr_routes r"]) simp
next
  case (Suc n)
  obtain v c1 depth c2 pc c3 where g: "get_u8 c = (v, c1)" "get_u16 c1 = (depth, c2)" "get_u8 c2 = (pc, c3)" by fastforce
  obtain prem c4 where pr: "get_premises (unat pc) c3 [] = (prem, c4)" by fastforce
  from Suc.prems(1) g pr obtain rule r1 where
    add: "record_add_route (mem (c_off c4)) r rule depth (Some prem) = (0, r1)" and
    rest: "dec_route_loop mem n r1 c4 = Some (r', c')"
    by (auto split: if_splits option.splits prod.splits)
  from add_route_keeps [OF Suc.prems(2) add] obtain rts where r1: "routes_ok rts" "r1 = r\<lparr>mr_routes := rts\<rparr>" by blast
  then show ?case using Suc.IH [OF rest] by auto
qed

lemma dec_routes_wf:
  assumes "dec_routes mem r c = Some (r', c')" and "mr_routes r = []"
  shows "\<exists>rts. r' = r\<lparr>mr_routes := rts\<rparr> \<and> routes_ok rts"
proof -
  obtain rc c1 where g: "get_u16 c = (rc, c1)" by fastforce
  with assms(1) have "dec_route_loop mem (unat rc) r c1 = Some (r', c')" by (auto simp: dec_routes_def split: if_splits)
  from dec_route_loop_wf [OF this] assms(2) show ?thesis by (simp add: routes_ok_def)
qed

lemma dec_data_wf:
  assumes "dec_data mem r c = Some r'"
  shows "\<exists>d. r' = r\<lparr>mr_data := d\<rparr> \<and> length d < 2 ^ 32"
proof -
  obtain dl c1 where g: "get_u32 c = (dl, c1)" by fastforce
  have "r' = r\<lparr>mr_data := take (unat dl) (drop (c_off c1) (c_p c1))\<rparr>"
    using assms unfolding dec_data_def g by (simp split: if_splits)
  moreover have "length (take (unat dl) (drop (c_off c1) (c_p c1))) < 2 ^ 32"
    using unat_lt [of dl] by (intro le_less_trans [OF length_take_le]) simp_all
  ultimately show ?thesis by blast
qed

section \<open>Properties\<close>

text \<open>
  C9. For every record the layout can hold, \<open>record_encode\<close> succeeds, the first byte of what it
  writes is the lowest version that can carry the record's fields (5 with routes, 3 with a fact, 2
  otherwise), and \<open>record_decode\<close> gives back the same record in every field: tags, vectors,
  relationships, fact, derivation routes and payload.
\<close>

theorem record_codec_roundtrip:
  assumes "encodable r"
  shows "\<exists>buf. record_encode mem_ok r = Some buf \<and> hd buf = record_version r \<and>
    record_decode (\<lambda>_. mem_ok) buf = Some r"
  using record_encode_bytes [OF assms] record_decode_bytes [OF assms]
  by (intro exI [of _ "record_bytes r"]) (simp add: record_bytes_def header_bytes_def)

definition sample_record :: MemoryRecord where
  "sample_record = record_init\<lparr>mr_id := 7, mr_tags := [lit ''a''], mr_data := lit ''hi'', mr_confidence := f32_one,
     mr_fact := \<lparr>fc_kind = FACT_OBJ_ID, fc_subject = 3, fc_predicate = Some (lit ''p''), fc_object_id = 4, fc_object_str = None\<rparr>,
     mr_routes := [\<lparr>dr_rule = DERIV_SYMMETRIC, dr_depth = 1, dr_premises = [9]\<rparr>]\<rparr>"

lemma sample_layout: "layout_ok sample_record"
  unfolding layout_ok_def record_ok_def routes_ok_def fact_ok_def
  by (simp add: sample_record_def record_init_def str_ok_def lit_def weight_consts route_ok_def valid_rule_def
      DERIV_MAX_ROUTES_def DERIV_MAX_PREMISES_def)

lemma sample_bytes_length: "length (record_bytes sample_record) = 106"
  by (simp add: sample_record_def record_init_def record_bytes_def header_bytes_def lenstr_def
      fact_bytes_def route_bytes_def lit_def)

lemma sample_encodable: "encodable sample_record"
  using sample_layout sample_bytes_length unfolding encodable_def by (simp add: sample_record_def record_init_def)

theorem record_codec_roundtrip_witness:
  "\<exists>buf. record_encode mem_ok sample_record = Some buf \<and> hd buf = 5 \<and>
    record_decode (\<lambda>_. mem_ok) buf = Some sample_record"
proof -
  have "record_version sample_record = 5" by code_simp
  with record_codec_roundtrip [OF sample_encodable] show ?thesis by simp
qed

text \<open>
  C26. Whatever bytes \<open>record_decode\<close> is given and whichever allocations fail on the way, a record it
  returns is well-formed: routes sorted, distinct, bounded and each with 1 to 8 premises, a fact with a
  non-empty predicate and the object its kind asks for, weights finite and in the unit range, as many
  floats as the vector count times the dimension, strings without a NUL, and no routes without a fact.
\<close>

theorem record_decode_layout:
  assumes "record_decode mem buf = Some r"
  shows "layout_ok r"
proof -
  from assms obtain ver r1 c1 r2 c2 r3 c3 r4 c4 r5 c5 r6 c6 where
    s: "dec_header mem \<lparr>c_p = buf, c_off = 0, c_err = False\<rparr> = Some (ver, r1, c1)"
      "dec_tags mem r1 c1 = Some (r2, c2)" "dec_vectors mem ver r2 c2 = Some (r3, c3)" "dec_rels mem r3 c3 = Some (r4, c4)"
      "(if RECORD_CODEC_V3 \<le> ver then dec_fact mem r4 c4 else Some (r4, c4)) = Some (r5, c5)"
      "(if RECORD_CODEC_V5 \<le> ver then dec_routes mem r5 c5 else Some (r5, c5)) = Some (r6, c6)"
      "dec_data mem r6 c6 = Some r"
    unfolding record_decode_def by (auto simp: bind_eq_Some_conv)
  from dec_header_wf [OF s(1)] obtain i ty cr up im co de ex ag where
    r1: "r1 = record_init\<lparr>mr_id := i, mr_type := ty, mr_created := cr, mr_updated := up, mr_importance := im,
        mr_confidence := co, mr_deleted := de, mr_expires_at := ex, mr_agent_id := ag\<rparr>"
      "weight_ok im" "weight_ok co" "str_ok ag" by blast
  from dec_tags_wf [OF s(2)] r1(1) obtain ts where
    r2: "r2 = r1\<lparr>mr_tags := ts\<rparr>" "length ts < 2 ^ 16" "\<forall>t \<in> set ts. str_ok (Some t)" by (auto simp: record_init_def)
  from dec_vectors_wf [OF s(3)] r1(1) r2(1) obtain fs d v where
    r3: "r3 = r2\<lparr>mr_embedding := fs, mr_embedding_dim := d, mr_vec_count := v\<rparr>" "length fs = v * d"
      "v = 0 \<longleftrightarrow> d = 0" "v < 2 ^ 32" "d < 2 ^ 32" by (auto simp: record_init_def)
  from dec_rels_wf [OF s(4)] r1(1) r2(1) r3(1) obtain es where
    r4: "r4 = r3\<lparr>mr_relationships := es\<rparr>" "length es < 2 ^ 16" "\<forall>e \<in> set es. str_ok (rl_kind e)"
    by (auto simp: record_init_def)
  have f4: "mr_fact r4 = no_fact" using r1(1) r2(1) r3(1) r4(1) by (simp add: record_init_def)
  have "\<exists>f. r5 = r4\<lparr>mr_fact := f\<rparr> \<and> fact_ok f \<and> (RECORD_CODEC_V3 \<le> ver \<longrightarrow> fc_kind f \<noteq> FACT_NONE) \<and>
      str_ok (fc_predicate f) \<and> str_ok (fc_object_str f)"
    using s(5) dec_fact_wf [of mem r4 c4 r5 c5] f4
    by (cases "RECORD_CODEC_V3 \<le> ver") (auto simp: fact_ok_def no_fact_def str_ok_def intro!: exI [of _ no_fact] MemoryRecord.equality)
  then obtain f where r5: "r5 = r4\<lparr>mr_fact := f\<rparr>" "fact_ok f" "RECORD_CODEC_V3 \<le> ver \<longrightarrow> fc_kind f \<noteq> FACT_NONE"
      "str_ok (fc_predicate f)" "str_ok (fc_object_str f)" by blast
  have e5: "mr_routes r5 = []" using r1(1) r2(1) r3(1) r4(1) r5(1) by (simp add: record_init_def)
  have "\<exists>rts. r6 = r5\<lparr>mr_routes := rts\<rparr> \<and> routes_ok rts \<and> (rts \<noteq> [] \<longrightarrow> RECORD_CODEC_V5 \<le> ver)"
    using s(6) dec_routes_wf [of mem r5 c5 r6 c6] e5
    by (cases "RECORD_CODEC_V5 \<le> ver") (auto simp: routes_ok_def intro!: exI [of _ "[]"] MemoryRecord.equality)
  then obtain rts where r6: "r6 = r5\<lparr>mr_routes := rts\<rparr>" "routes_ok rts" "rts \<noteq> [] \<longrightarrow> RECORD_CODEC_V5 \<le> ver" by blast
  have v35: "RECORD_CODEC_V5 \<le> ver \<longrightarrow> RECORD_CODEC_V3 \<le> ver"
    unfolding RECORD_CODEC_V3_def RECORD_CODEC_V5_def by (simp add: word_le_nat_alt)
  from dec_data_wf [OF s(7)] obtain dd where r: "r = r6\<lparr>mr_data := dd\<rparr>" "length dd < 2 ^ 32" by blast
  show ?thesis
    using r1(2-4) r2(2,3) r3(2-5) r4(2,3) r5(2-5) r6(2,3) r(2) v35
    unfolding layout_ok_def record_ok_def r(1) r6(1) r5(1) r4(1) r3(1) r2(1) r1(1) by simp
qed

theorem record_decode_layout_witness:
  "record_decode (\<lambda>_. mem_ok) (record_bytes sample_record) = Some sample_record \<and> layout_ok sample_record"
  using record_decode_bytes [OF sample_encodable] record_decode_layout [OF record_decode_bytes [OF sample_encodable]]
  by simp

end
