(* ===== verification/Sha256.thy ===== *)
theory Sha256
  imports Endian
begin

text \<open>
  SHA-256, \<^verbatim>\<open>src/src/util/sha256.c\<close>: the message schedule and rounds of one block, the loop over whole
  blocks, and the one or two padded blocks at the end. The theorem is that this is the iteration of
  the compression function over the padded message of FIPS 180-4, for every message.
\<close>

section \<open>One block\<close>

definition rotr :: "u32 \<Rightarrow> nat \<Rightarrow> u32" where
  "rotr x n = drop_bit n x OR push_bit (32 - n) x"

definition K256 :: "u32 list" where
  "K256 = concat [
    [0x428a2f98, 0x71374491, 0xb5c0fbcf, 0xe9b5dba5, 0x3956c25b, 0x59f111f1],
    [0x923f82a4, 0xab1c5ed5, 0xd807aa98, 0x12835b01, 0x243185be, 0x550c7dc3],
    [0x72be5d74, 0x80deb1fe, 0x9bdc06a7, 0xc19bf174, 0xe49b69c1, 0xefbe4786],
    [0x0fc19dc6, 0x240ca1cc, 0x2de92c6f, 0x4a7484aa, 0x5cb0a9dc, 0x76f988da],
    [0x983e5152, 0xa831c66d, 0xb00327c8, 0xbf597fc7, 0xc6e00bf3, 0xd5a79147],
    [0x06ca6351, 0x14292967, 0x27b70a85, 0x2e1b2138, 0x4d2c6dfc, 0x53380d13],
    [0x650a7354, 0x766a0abb, 0x81c2c92e, 0x92722c85, 0xa2bfe8a1, 0xa81a664b],
    [0xc24b8b70, 0xc76c51a3, 0xd192e819, 0xd6990624, 0xf40e3585, 0x106aa070],
    [0x19a4c116, 0x1e376c08, 0x2748774c, 0x34b0bcb5, 0x391c0cb3, 0x4ed8aa4a],
    [0x5b9cca4f, 0x682e6ff3, 0x748f82ee, 0x78a5636f, 0x84c87814, 0x8cc70208],
    [0x90befffa, 0xa4506ceb, 0xbef9a3f7, 0xc67178f2]]"

text \<open>The first sixteen words of the schedule, big-endian, and the 48 that follow from them.\<close>

definition load_be :: "bytes \<Rightarrow> nat \<Rightarrow> u32" where
  "load_be p i = push_bit 24 (ucast (p ! (i * 4))) OR push_bit 16 (ucast (p ! (i * 4 + 1))) OR
     push_bit 8 (ucast (p ! (i * 4 + 2))) OR ucast (p ! (i * 4 + 3))"

definition schedule_word :: "u32 list \<Rightarrow> nat \<Rightarrow> u32" where
  "schedule_word w i =
     (let s0 = rotr (w ! (i - 15)) 7 XOR rotr (w ! (i - 15)) 18 XOR drop_bit 3 (w ! (i - 15));
          s1 = rotr (w ! (i - 2)) 17 XOR rotr (w ! (i - 2)) 19 XOR drop_bit 10 (w ! (i - 2))
      in w ! (i - 16) + s0 + w ! (i - 7) + s1)"

definition schedule :: "bytes \<Rightarrow> u32 list" where
  "schedule p = fold (\<lambda>i w. w @ [schedule_word w i]) [16..<64] (map (load_be p) [0..<16])"

type_synonym hash_state = "u32 \<times> u32 \<times> u32 \<times> u32 \<times> u32 \<times> u32 \<times> u32 \<times> u32"

definition sha_round :: "u32 list \<Rightarrow> nat \<Rightarrow> hash_state \<Rightarrow> hash_state" where
  "sha_round w i = (\<lambda>(a, b, c, d, e, f, g, h).
     let S1 = rotr e 6 XOR rotr e 11 XOR rotr e 25;
         ch = (e AND f) XOR (NOT e AND g);
         t1 = h + S1 + ch + K256 ! i + w ! i;
         S0 = rotr a 2 XOR rotr a 13 XOR rotr a 22;
         maj = (a AND b) XOR (a AND c) XOR (b AND c);
         t2 = S0 + maj
     in (t1 + t2, a, b, c, d + t1, e, f, g))"

definition sha_transform :: "hash_state \<Rightarrow> bytes \<Rightarrow> hash_state" where
  "sha_transform s p =
     (let w = schedule p;
          (s0, s1, s2, s3, s4, s5, s6, s7) = s;
          (a, b, c, d, e, f, g, h) = fold (sha_round w) [0..<64] s
      in (s0 + a, s1 + b, s2 + c, s3 + d, s4 + e, s5 + f, s6 + g, s7 + h))"

section \<open>The message\<close>

definition sha_init :: hash_state where
  "sha_init = (0x6a09e667, 0xbb67ae85, 0x3c6ef372, 0xa54ff53a, 0x510e527f, 0x9b05688c, 0x1f83d9ab, 0x5be0cd19)"

text \<open>The loop over whole blocks gives the state and the bytes left over.\<close>

function sha_blocks :: "hash_state \<Rightarrow> bytes \<Rightarrow> hash_state \<times> bytes" where
  "sha_blocks s p = (if 64 \<le> length p then sha_blocks (sha_transform s p) (drop 64 p) else (s, p))"
  by pat_completeness auto
termination
  by (relation "measure (\<lambda>(s, p). length p)") auto

declare sha_blocks.simps [simp del]

definition be_bytes :: "u32 \<Rightarrow> bytes" where
  "be_bytes v = [ucast (drop_bit 24 v), ucast (drop_bit 16 v), ucast (drop_bit 8 v), ucast v]"

definition sha_output :: "hash_state \<Rightarrow> bytes" where
  "sha_output = (\<lambda>(a, b, c, d, e, f, g, h). concat (map be_bytes [a, b, c, d, e, f, g, h]))"

text \<open>\<^verbatim>\<open>buf[padlen - 1 - i] = (uint8_t)(bits >> (8 * i))\<close> for \<open>i\<close> from 0 to 7.\<close>

definition put_bits :: "u64 \<Rightarrow> nat \<Rightarrow> bytes \<Rightarrow> bytes" where
  "put_bits bits padlen buf = fold (\<lambda>i b. b[padlen - 1 - i := ucast (drop_bit (8 * i) bits)]) [0..<8] buf"

definition sha256 :: "bytes \<Rightarrow> bytes" where
  "sha256 data =
     (let (s, p) = sha_blocks sha_init data;
          len = length p;
          buf = replicate 128 0;
          buf = p @ drop len buf;
          buf = buf[len := 0x80];
          padlen = (if len < 56 then 64 else 128);
          bits = of_nat (length data) * 8;
          buf = put_bits bits padlen buf;
          s = sha_transform s buf;
          s = (if padlen = 128 then sha_transform s (drop 64 buf) else s)
      in sha_output s)"

section \<open>FIPS 180-4\<close>

text \<open>A one bit, zeros, and the bit length as a 64-bit big-endian number, up to a multiple of 64 bytes.\<close>

definition be64 :: "u64 \<Rightarrow> bytes" where
  "be64 v = map (\<lambda>i. ucast (drop_bit (8 * (7 - i)) v)) [0..<8]"

definition sha_pad :: "bytes \<Rightarrow> bytes" where
  "sha_pad m = m @ [0x80] @ replicate ((119 - length m mod 64) mod 64) 0 @ be64 (of_nat (length m) * 8)"

primrec sha_iter :: "nat \<Rightarrow> hash_state \<Rightarrow> bytes \<Rightarrow> hash_state" where
  "sha_iter 0 s m = s"
| "sha_iter (Suc n) s m = sha_iter n (sha_transform s (take 64 m)) (drop 64 m)"

lemma pad_mod: "r < 64 \<Longrightarrow> (119 - r) mod 64 = (if r < 56 then 55 - r else 119 - (r :: nat))"
  by (auto simp: mod_if)

lemma transform_take: "64 \<le> length p \<Longrightarrow> sha_transform s (take 64 p) = sha_transform s p"
proof -
  assume l: "64 \<le> length p"
  have "map (load_be (take 64 p)) [0..<16] = map (load_be p) [0..<16]"
    using l by (simp add: load_be_def)
  then show ?thesis by (simp only: sha_transform_def schedule_def)
qed

lemma transform_append: "64 \<le> length p \<Longrightarrow> sha_transform s (p @ q) = sha_transform s p"
  using transform_take [of "p @ q" s] transform_take [of p s] by simp

lemma blocks_iter:
  "\<exists>n s' q. sha_blocks s p = (s', q) \<and> length p = 64 * n + length q \<and> length q < 64 \<and> q = drop (64 * n) p \<and>
    (\<forall>k x. sha_iter (n + k) s (p @ x) = sha_iter k s' (q @ x))"
proof (induction s p rule: sha_blocks.induct)
  case (1 s p)
  show ?case
  proof (cases "64 \<le> length p")
    case True
    from 1 [OF True] obtain n s' q where i: "sha_blocks (sha_transform s p) (drop 64 p) = (s', q)"
      "length (drop 64 p) = 64 * n + length q" "length q < 64" "q = drop (64 * n) (drop 64 p)"
      "\<forall>k x. sha_iter (n + k) (sha_transform s p) (drop 64 p @ x) = sha_iter k s' (q @ x)" by blast
    have l: "length p = 64 * Suc n + length q" using i(2) True by simp
    have "sha_iter (Suc n + k) s (p @ x) = sha_iter k s' (q @ x)" for k x
      using i(5) True by (simp add: transform_take)
    moreover have "sha_blocks s p = (s', q)" using i(1) True by (simp add: sha_blocks.simps [of s p])
    moreover have "q = drop (64 * Suc n) p" using i(4) by (simp add: add.commute)
    ultimately show ?thesis using l i(3) by blast
  next
    case False
    then have "sha_blocks s p = (s, p)" by (subst sha_blocks.simps) simp
    with False show ?thesis by (intro exI [of _ 0] exI [of _ s] exI [of _ p]) simp
  qed
qed

lemma put_bits_at: "length x + 8 = n \<Longrightarrow> put_bits v n (x @ replicate 8 0 @ y) = x @ be64 v @ y"
proof -
  assume n: "length x + 8 = n"
  have u: "[0..<8] = [0, 1, 2, 3, 4, 5, 6, 7]" by (simp add: upt_rec)
  have r: "replicate 8 (0 :: u8) = [0, 0, 0, 0, 0, 0, 0, 0]" by (simp add: numeral_eq_Suc)
  show ?thesis unfolding n [symmetric] put_bits_def be64_def u r
    by (simp add: list_update_append)
qed

lemma sha_tail:
  fixes v :: u64
  assumes "length q < 64"
  defines "r \<equiv> q @ [0x80] @ replicate ((119 - length q) mod 64) 0 @ be64 v"
    and "padlen \<equiv> (if length q < 56 then 64 else 128 :: nat)"
  shows "length r = padlen"
    and "\<exists>rest. put_bits v padlen ((q @ drop (length q) (replicate 128 0))[length q := 0x80]) = r @ rest"
proof -
  show len: "length r = padlen"
    using assms(1) by (simp add: r_def padlen_def be64_def pad_mod)
  let ?z = "replicate ((119 - length q) mod 64) (0 :: u8)"
  have d: "128 - length q = Suc ((119 - length q) mod 64 + 8 + (128 - padlen))"
    using assms(1) by (simp add: pad_mod padlen_def)
  have "(q @ drop (length q) (replicate 128 0))[length q := 0x80] = (q @ [0x80] @ ?z) @ replicate 8 0 @ replicate (128 - padlen) 0"
    by (simp only: drop_replicate d replicate_Suc replicate_add list_update_length append_assoc append_Cons append_Nil)
  moreover have "length (q @ [0x80] @ ?z) + 8 = padlen" using len by (simp add: r_def be64_def)
  ultimately have "put_bits v padlen ((q @ drop (length q) (replicate 128 0))[length q := 0x80]) =
      (q @ [0x80] @ ?z) @ be64 v @ replicate (128 - padlen) 0"
    using put_bits_at by metis
  then show "\<exists>rest. put_bits v padlen ((q @ drop (length q) (replicate 128 0))[length q := 0x80]) = r @ rest"
    by (auto simp: r_def)
qed

section \<open>Properties\<close>

text \<open>
  C34. For every message, \<open>sha256\<close> is the iteration of the compression function over the padded message of
  FIPS 180-4, 64 bytes at a time: the loop over whole blocks and the one or two blocks that the code
  assembles in its 128-byte buffer cover the padded message exactly, at every length of the last block.
\<close>

theorem sha256_spec:
  "64 dvd length (sha_pad m) \<and> sha256 m = sha_output (sha_iter (length (sha_pad m) div 64) sha_init (sha_pad m))"
proof -
  obtain n s' q where b: "sha_blocks sha_init m = (s', q)" "length m = 64 * n + length q" "length q < 64" "q = drop (64 * n) m"
      "\<And>k x. sha_iter (n + k) sha_init (m @ x) = sha_iter k s' (q @ x)"
    using blocks_iter [of sha_init m] by blast
  define v :: u64 where "v = of_nat (length m) * 8"
  define padlen :: nat where "padlen = (if length q < 56 then 64 else 128)"
  define r where "r = q @ [0x80] @ replicate ((119 - length q) mod 64) 0 @ be64 v"
  note t = sha_tail [OF b(3), where v = v, folded r_def padlen_def]
  obtain rest where buf: "put_bits v padlen ((q @ drop (length q) (replicate 128 0))[length q := 0x80]) = r @ rest"
    using t(2) by blast
  have mod: "length m mod 64 = length q" using b(2,3) by simp
  have tail: "sha_pad m = m @ ([0x80] @ replicate ((119 - length q) mod 64) 0 @ be64 v)"
    by (simp add: sha_pad_def mod v_def)
  have len: "length (sha_pad m) = 64 * n + padlen" using t(1) b(2) by (simp add: tail r_def)
  obtain k where k: "padlen = 64 * k" "k = 1 \<or> k = 2" by (cases "length q < 56") (auto simp: padlen_def)
  have dv: "length (sha_pad m) div 64 = n + k" using len k(1) by simp
  have "sha_iter (length (sha_pad m) div 64) sha_init (sha_pad m) = sha_iter k s' r"
    unfolding dv unfolding tail b(5) by (simp add: r_def)
  also have "sha_output (sha_iter k s' r) = sha256 m"
  proof -
    have e: "sha256 m = sha_output (if padlen = 128 then sha_transform (sha_transform s' (r @ rest)) (drop 64 (r @ rest))
        else sha_transform s' (r @ rest))"
      unfolding sha256_def b(1) prod.case Let_def v_def [symmetric] padlen_def [symmetric] buf by (rule refl)
    show ?thesis
    proof (cases "k = 1")
      case True
      then have "length r = 64" using t(1) k by simp
      then show ?thesis unfolding e using True k(1) by (simp add: transform_append)
    next
      case False
      then have k2: "k = Suc (Suc 0)" using k(2) by simp
      then have "length r = 128" using t(1) k by simp
      then show ?thesis unfolding e using k2 k(1) by (simp add: transform_take transform_append)
    qed
  qed
  finally show ?thesis using len k(1) by simp
qed

end
