(* ===== verification/Chacha20.thy ===== *)
theory Chacha20
  imports Endian
begin

text \<open>
  The stream cipher half of \<^verbatim>\<open>src/src/util/chacha20poly1305.c\<close>: the ChaCha20 block function, the
  keystream XOR and the HChaCha20 subkey derivation. A 16-word state is a list; the quarter-round
  macro, which updates four words in place, is a function on them. The lemmas show that the rounds
  are a permutation of the states, what the XOR does to the byte at each position, and that
  applying it twice gives the input back.
\<close>

section \<open>Little-endian access\<close>

definition u8to32le :: "bytes \<Rightarrow> u32" where
  "u8to32le p = ucast (p ! 0) OR push_bit 8 (ucast (p ! 1)) OR push_bit 16 (ucast (p ! 2)) OR
     push_bit 24 (ucast (p ! 3))"

definition u32to8le :: "u32 \<Rightarrow> bytes" where
  "u32to8le v = [ucast v, ucast (drop_bit 8 v), ucast (drop_bit 16 v), ucast (drop_bit 24 v)]"

definition u64to8le :: "u64 \<Rightarrow> bytes" where
  "u64to8le v = map (\<lambda>i. ucast (drop_bit (8 * i) v)) [0..<8]"

section \<open>ChaCha20\<close>

definition ROTL32 :: "u32 \<Rightarrow> nat \<Rightarrow> u32" where
  "ROTL32 x n = push_bit n x OR drop_bit (32 - n) x"

definition QR :: "u32 \<Rightarrow> u32 \<Rightarrow> u32 \<Rightarrow> u32 \<Rightarrow> u32 \<times> u32 \<times> u32 \<times> u32" where
  "QR a b c d =
     (let a = a + b; d = ROTL32 (d XOR a) 16;
          c = c + d; b = ROTL32 (b XOR c) 12;
          a = a + b; d = ROTL32 (d XOR a) 8;
          c = c + d; b = ROTL32 (b XOR c) 7
      in (a, b, c, d))"

text \<open>\<^verbatim>\<open>QR(x[i], x[j], x[k], x[l])\<close>\<close>

definition qr_at :: "nat \<Rightarrow> nat \<Rightarrow> nat \<Rightarrow> nat \<Rightarrow> u32 list \<Rightarrow> u32 list" where
  "qr_at i j k l x =
     (let (a, b, c, d) = QR (x ! i) (x ! j) (x ! k) (x ! l) in x[i := a, j := b, k := c, l := d])"

definition double_round :: "u32 list \<Rightarrow> u32 list" where
  "double_round x0 =
     (let x1 = qr_at 0 4 8 12 x0;
          x2 = qr_at 1 5 9 13 x1;
          x3 = qr_at 2 6 10 14 x2;
          x4 = qr_at 3 7 11 15 x3;
          x5 = qr_at 0 5 10 15 x4;
          x6 = qr_at 1 6 11 12 x5;
          x7 = qr_at 2 7 8 13 x6
      in qr_at 3 4 9 14 x7)"

definition chacha20_rounds :: "u32 list \<Rightarrow> u32 list" where
  "chacha20_rounds x = fold (\<lambda>_. double_round) [0..<10] x"

definition chacha20_consts :: "u32 list" where
  "chacha20_consts = [0x61707865, 0x3320646e, 0x79622d32, 0x6b206574]"

definition chacha20_state :: "bytes \<Rightarrow> u32 \<Rightarrow> bytes \<Rightarrow> u32 list" where
  "chacha20_state key counter nonce =
     chacha20_consts @ map (\<lambda>i. u8to32le (drop (4 * i) key)) [0..<8] @
     [counter, u8to32le nonce, u8to32le (drop 4 nonce), u8to32le (drop 8 nonce)]"

definition aegis_chacha20_block :: "bytes \<Rightarrow> u32 \<Rightarrow> bytes \<Rightarrow> bytes" where
  "aegis_chacha20_block key counter nonce =
     (let s = chacha20_state key counter nonce;
          x = chacha20_rounds s
      in concat (map (\<lambda>i. u32to8le (x ! i + s ! i)) [0..<16]))"

text \<open>The input is what is left of it; each turn takes up to 64 bytes, and the counter wraps.\<close>

function chacha20_xor :: "bytes \<Rightarrow> u32 \<Rightarrow> bytes \<Rightarrow> bytes \<Rightarrow> bytes" where
  "chacha20_xor key counter nonce inp =
     (if length inp = 0 then []
      else let block = aegis_chacha20_block key counter nonce;
               n = (if length inp < 64 then length inp else 64)
           in map (\<lambda>i. inp ! i XOR block ! i) [0..<n] @ chacha20_xor key (counter + 1) nonce (drop n inp))"
  by pat_completeness auto
termination
  by (relation "measure (\<lambda>(key, counter, nonce, inp). length inp)") auto

declare chacha20_xor.simps [simp del]

definition aegis_hchacha20 :: "bytes \<Rightarrow> bytes \<Rightarrow> bytes" where
  "aegis_hchacha20 key nonce16 =
     (let x = chacha20_rounds (chacha20_consts @ map (\<lambda>i. u8to32le (drop (4 * i) key)) [0..<8] @
                map (\<lambda>i. u8to32le (drop (4 * i) nonce16)) [0..<4])
      in concat (map (\<lambda>i. u32to8le (x ! i)) [0..<4]) @ concat (map (\<lambda>i. u32to8le (x ! (12 + i))) [0..<4]))"

section \<open>Lengths\<close>

lemma length_u32to8le [simp]: "length (u32to8le v) = 4"
  by (simp add: u32to8le_def)

lemma length_u64to8le [simp]: "length (u64to8le v) = 8"
  by (simp add: u64to8le_def)

lemma length_qr_at [simp]: "length (qr_at i j k l x) = length x"
  by (simp add: qr_at_def split: prod.split)

lemma length_double_round [simp]: "length (double_round x) = length x"
  by (simp add: double_round_def Let_def)

lemma length_rounds [simp]: "length (chacha20_rounds x) = length x"
proof -
  have "length (fold (\<lambda>_. double_round) is x) = length x" for "is" :: "nat list"
    by (induction "is" arbitrary: x) simp_all
  then show ?thesis by (simp add: chacha20_rounds_def)
qed

lemma length_state [simp]: "length (chacha20_state key counter nonce) = 16"
  by (simp add: chacha20_state_def chacha20_consts_def)

lemma length_chacha20_block [simp]: "length (aegis_chacha20_block key counter nonce) = 64"
  by (simp add: aegis_chacha20_block_def Let_def length_concat o_def sum_list_triv)

lemma length_hchacha20 [simp]: "length (aegis_hchacha20 key nonce16) = 32"
  by (simp add: aegis_hchacha20_def Let_def length_concat o_def sum_list_triv)

section \<open>The rounds are a permutation\<close>

lemma rotl_inv: "n < 32 \<Longrightarrow> 0 < n \<Longrightarrow> ROTL32 (ROTL32 x n) (32 - n) = x"
  by (rule bit_word_eqI) (auto simp: ROTL32_def bit_simps)

lemma rotl_inj: "ROTL32 x n = ROTL32 y n \<Longrightarrow> 0 < n \<Longrightarrow> n < 32 \<Longrightarrow> x = y"
  by (metis rotl_inv)

lemma xor_cancel: "a XOR k = b XOR k \<Longrightarrow> a = (b :: 'a::len word)"
  by (metis xor.assoc xor_self_eq xor.right_neutral)

text \<open>A quarter round is two half rounds, and each is undone from its results backwards.\<close>

definition half_round :: "nat \<Rightarrow> nat \<Rightarrow> u32 \<times> u32 \<times> u32 \<times> u32 \<Rightarrow> u32 \<times> u32 \<times> u32 \<times> u32" where
  "half_round n m = (\<lambda>(a, b, c, d).
     let a = a + b; d = ROTL32 (d XOR a) n; c = c + d; b = ROTL32 (b XOR c) m in (a, b, c, d))"

lemma QR_half: "QR a b c d = half_round 8 7 (half_round 16 12 (a, b, c, d))"
  by (simp add: QR_def half_round_def Let_def)

lemma half_round_inj:
  assumes "0 < n" "n < 32" "0 < m" "m < 32" and "half_round n m (a, b, c, d) = half_round n m (a', b', c', d')"
  shows "(a, b, c, d) = (a', b', c', d')"
proof -
  define d2 d2' where "d2 = ROTL32 (d XOR (a + b)) n" and "d2' = ROTL32 (d' XOR (a' + b')) n"
  from assms(5) have e: "a + b = a' + b'" "d2 = d2'" "c + d2 = c' + d2'" "ROTL32 (b XOR (c + d2)) m = ROTL32 (b' XOR (c' + d2')) m"
    unfolding half_round_def Let_def prod.case prod.inject d2_def d2'_def by blast+
  from e(2) assms(1,2) have "d XOR (a + b) = d' XOR (a' + b')" unfolding d2_def d2'_def by (metis rotl_inj)
  then have "d = d'" unfolding e(1) by (rule xor_cancel)
  moreover have "c = c'" using e(2,3) by simp
  moreover have "b XOR (c + d2) = b' XOR (c' + d2')" using e(4) assms(3,4) by (metis rotl_inj)
  then have "b = b'" unfolding e(3) by (rule xor_cancel)
  ultimately show ?thesis using e(1) by simp
qed

lemma QR_inj: "QR a b c d = QR a' b' c' d' \<Longrightarrow> a = a' \<and> b = b' \<and> c = c' \<and> d = d'"
proof -
  assume q: "QR a b c d = QR a' b' c' d'"
  obtain u where u: "half_round 16 12 (a, b, c, d) = u" by blast
  obtain v where v: "half_round 16 12 (a', b', c', d') = v" by blast
  have "u = v" using q half_round_inj [of 8 7] unfolding QR_half u v by (cases u; cases v) auto
  then show ?thesis using half_round_inj [of 16 12 a b c d a' b' c' d'] u v by simp
qed

lemma qr_at_nth:
  assumes "distinct [i, j, k, l]" and "{i, j, k, l} \<subseteq> {..<length x}"
  shows "(qr_at i j k l x ! i, qr_at i j k l x ! j, qr_at i j k l x ! k, qr_at i j k l x ! l) = QR (x ! i) (x ! j) (x ! k) (x ! l)"
    and "n \<notin> {i, j, k, l} \<Longrightarrow> qr_at i j k l x ! n = x ! n"
  using assms by (auto simp: qr_at_def split: prod.split)

lemma qr_at_inj:
  assumes "distinct [i, j, k, l]" and "{i, j, k, l} \<subseteq> {..<length x}" and "length x = length y"
    and "qr_at i j k l x = qr_at i j k l y"
  shows "x = y"
proof (rule nth_equalityI [OF assms(3)])
  fix n assume "n < length x"
  have "QR (x ! i) (x ! j) (x ! k) (x ! l) = QR (y ! i) (y ! j) (y ! k) (y ! l)"
    using qr_at_nth(1) [OF assms(1), of x] qr_at_nth(1) [OF assms(1), of y] assms(2-4) by simp
  from QR_inj [OF this] have "n \<in> {i, j, k, l} \<Longrightarrow> x ! n = y ! n" by auto
  moreover have "n \<notin> {i, j, k, l} \<Longrightarrow> x ! n = y ! n"
    using qr_at_nth(2) [OF assms(1), of x n] qr_at_nth(2) [OF assms(1), of y n] assms(2-4) by simp
  ultimately show "x ! n = y ! n" by blast
qed

lemma qr_at_eq_iff:
  "length u = 16 \<Longrightarrow> length v = 16 \<Longrightarrow> distinct [i, j, k, l] \<Longrightarrow> i < 16 \<Longrightarrow> j < 16 \<Longrightarrow> k < 16 \<Longrightarrow> l < 16 \<Longrightarrow>
   qr_at i j k l u = qr_at i j k l v \<longleftrightarrow> u = v"
  using qr_at_inj [of i j k l u v] by auto

lemma double_round_inj:
  "length x = 16 \<Longrightarrow> length y = 16 \<Longrightarrow> double_round x = double_round y \<longleftrightarrow> x = y"
  by (simp add: double_round_def Let_def qr_at_eq_iff)

section \<open>The keystream\<close>

text \<open>The byte of the keystream at a position, for a starting counter.\<close>

definition keystream :: "bytes \<Rightarrow> u32 \<Rightarrow> bytes \<Rightarrow> nat \<Rightarrow> u8" where
  "keystream key counter nonce i = aegis_chacha20_block key (counter + of_nat (i div 64)) nonce ! (i mod 64)"

lemma chacha20_xor_keystream:
  "chacha20_xor key counter nonce inp = map (\<lambda>i. inp ! i XOR keystream key counter nonce i) [0..<length inp]"
proof (induction key counter nonce inp rule: chacha20_xor.induct)
  case (1 key counter nonce inp)
  let ?b = "aegis_chacha20_block key counter nonce"
  show ?case
  proof (cases "length inp < 64")
    case True
    then show ?thesis
      by (cases "inp = []") (simp_all add: chacha20_xor.simps [of key counter nonce inp] chacha20_xor.simps [of _ _ _ "[]"] keystream_def)
  next
    case False
    then have ne: "length inp \<noteq> 0" and n: "(if length inp < 64 then length inp else 64) = 64" by auto
    have ks: "keystream key (counter + 1) nonce i = keystream key counter nonce (64 + i)" for i
    proof -
      have "(64 + i) div 64 = Suc (i div 64)" by simp
      then show ?thesis by (simp add: keystream_def add.assoc del: div_add_self1)
    qed
    have "chacha20_xor key counter nonce inp =
        map (\<lambda>i. inp ! i XOR ?b ! i) [0..<64] @ chacha20_xor key (counter + 1) nonce (drop 64 inp)"
      using ne n by (simp add: chacha20_xor.simps [of key counter nonce inp])
    also have "chacha20_xor key (counter + 1) nonce (drop 64 inp) =
        map (\<lambda>i. drop 64 inp ! i XOR keystream key (counter + 1) nonce i) [0..<length (drop 64 inp)]"
      using 1 [OF ne refl n [symmetric]] by simp
    also have "\<dots> = map (\<lambda>i. inp ! i XOR keystream key counter nonce i) [64..<length inp]"
      using False by (intro nth_equalityI) (simp_all add: ks)
    also have "map (\<lambda>i. inp ! i XOR ?b ! i) [0..<64] = map (\<lambda>i. inp ! i XOR keystream key counter nonce i) [0..<64]"
      by (simp add: keystream_def)
    finally show ?thesis using False upt_add_eq_append [of 0 64 "length inp - 64"] by (simp add: not_less)
  qed
qed

lemma length_chacha20_xor [simp]: "length (chacha20_xor key counter nonce inp) = length inp"
  by (simp add: chacha20_xor_keystream)

lemma chacha20_xor_twice: "chacha20_xor key counter nonce (chacha20_xor key counter nonce inp) = inp"
  by (intro nth_equalityI) (simp_all add: chacha20_xor_keystream xor.assoc)

section \<open>Properties\<close>

text \<open>
  The twenty rounds are a permutation of the 16-word states: two states with the same image under
  \<open>chacha20_rounds\<close> are equal. So neither the block function nor the subkey derivation collapses
  different keys or nonces before its final step.
\<close>

lemma chacha20_rounds_injective:
  assumes "length x = 16" and "length y = 16" and "chacha20_rounds x = chacha20_rounds y"
  shows "x = y"
proof -
  have "fold (\<lambda>_. double_round) is x = fold (\<lambda>_. double_round) is y \<Longrightarrow> length x = 16 \<Longrightarrow> length y = 16 \<Longrightarrow> x = y"
    for "is" :: "nat list" and x y
  proof (induction "is" arbitrary: x y)
    case (Cons i "is")
    then have "double_round x = double_round y" by simp
    then show ?case using Cons.prems double_round_inj by blast
  qed simp
  then show ?thesis using assms unfolding chacha20_rounds_def by blast
qed

end
