(* ===== verification/Poly1305.thy ===== *)
theory Poly1305
  imports Chacha20
begin

text \<open>
  The authenticator half of \<^verbatim>\<open>src/src/util/chacha20poly1305.c\<close>: Poly1305 with 26-bit limbs in 32-bit
  words and 64-bit products, fed incrementally through a 16-byte buffer. The theorem is that the limb
  arithmetic computes the polynomial modulo \<open>2 ^ 130 - 5\<close> on whole numbers, for every key and every
  message, and that the way the message is cut into updates does not matter.
\<close>

section \<open>State\<close>

text \<open>The five limbs of a number; the buffer is the list of its first \<^verbatim>\<open>leftover\<close> bytes.\<close>

type_synonym limbs = "u32 \<times> u32 \<times> u32 \<times> u32 \<times> u32"

record poly1305_ctx =
  pc_r :: limbs
  pc_h :: limbs
  pc_pad :: "u32 \<times> u32 \<times> u32 \<times> u32"
  pc_buffer :: bytes
  pc_final :: bool

definition poly1305_init :: "bytes \<Rightarrow> poly1305_ctx" where
  "poly1305_init key =
     \<lparr>pc_r = (u8to32le key AND 0x3ffffff,
             drop_bit 2 (u8to32le (drop 3 key)) AND 0x3ffff03,
             drop_bit 4 (u8to32le (drop 6 key)) AND 0x3ffc0ff,
             drop_bit 6 (u8to32le (drop 9 key)) AND 0x3f03fff,
             drop_bit 8 (u8to32le (drop 12 key)) AND 0x00fffff),
      pc_h = (0, 0, 0, 0, 0),
      pc_pad = (u8to32le (drop 16 key), u8to32le (drop 20 key), u8to32le (drop 24 key), u8to32le (drop 28 key)),
      pc_buffer = [], pc_final = False\<rparr>"

section \<open>One block\<close>

text \<open>\<^verbatim>\<open>h += m\<close>\<close>

definition poly_add :: "u32 \<Rightarrow> bytes \<Rightarrow> limbs \<Rightarrow> limbs" where
  "poly_add hibit m = (\<lambda>(h0, h1, h2, h3, h4).
     (h0 + (u8to32le m AND 0x3ffffff),
      h1 + (drop_bit 2 (u8to32le (drop 3 m)) AND 0x3ffffff),
      h2 + (drop_bit 4 (u8to32le (drop 6 m)) AND 0x3ffffff),
      h3 + (drop_bit 6 (u8to32le (drop 9 m)) AND 0x3ffffff),
      h4 + (drop_bit 8 (u8to32le (drop 12 m)) OR hibit)))"

text \<open>\<^verbatim>\<open>h *= r\<close>, with the products of weight \<open>2 ^ 130\<close> and more folded in times 5\<close>

definition mul64 :: "u32 \<Rightarrow> u32 \<Rightarrow> u64" where
  "mul64 a b = ucast a * ucast b"

definition poly_mul :: "limbs \<Rightarrow> limbs \<Rightarrow> u64 \<times> u64 \<times> u64 \<times> u64 \<times> u64" where
  "poly_mul = (\<lambda>(r0, r1, r2, r3, r4) (h0, h1, h2, h3, h4).
     let s1 = r1 * 5; s2 = r2 * 5; s3 = r3 * 5; s4 = r4 * 5
     in (mul64 h0 r0 + mul64 h1 s4 + mul64 h2 s3 + mul64 h3 s2 + mul64 h4 s1,
         mul64 h0 r1 + mul64 h1 r0 + mul64 h2 s4 + mul64 h3 s3 + mul64 h4 s2,
         mul64 h0 r2 + mul64 h1 r1 + mul64 h2 r0 + mul64 h3 s4 + mul64 h4 s3,
         mul64 h0 r3 + mul64 h1 r2 + mul64 h2 r1 + mul64 h3 r0 + mul64 h4 s4,
         mul64 h0 r4 + mul64 h1 r3 + mul64 h2 r2 + mul64 h3 r1 + mul64 h4 r0))"

text \<open>\<^verbatim>\<open>(partial) h %= p\<close>\<close>

definition poly_carry :: "u64 \<times> u64 \<times> u64 \<times> u64 \<times> u64 \<Rightarrow> limbs" where
  "poly_carry = (\<lambda>(d0, d1, d2, d3, d4).
     let c0 = ucast (drop_bit 26 d0) :: u32; h0 = ucast d0 AND 0x3ffffff; d1 = d1 + ucast c0;
         c1 = ucast (drop_bit 26 d1) :: u32; h1 = ucast d1 AND 0x3ffffff; d2 = d2 + ucast c1;
         c2 = ucast (drop_bit 26 d2) :: u32; h2 = ucast d2 AND 0x3ffffff; d3 = d3 + ucast c2;
         c3 = ucast (drop_bit 26 d3) :: u32; h3 = ucast d3 AND 0x3ffffff; d4 = d4 + ucast c3;
         c4 = ucast (drop_bit 26 d4) :: u32; h4 = ucast d4 AND 0x3ffffff;
         h0 = h0 + c4 * 5; c5 = drop_bit 26 h0; h0 = h0 AND 0x3ffffff; h1 = h1 + c5
     in (h0, h1, h2, h3, h4))"

text \<open>The loop over whole blocks.\<close>

function poly_loop :: "u32 \<Rightarrow> limbs \<Rightarrow> limbs \<Rightarrow> bytes \<Rightarrow> limbs" where
  "poly_loop hibit r h m =
     (if 16 \<le> length m then poly_loop hibit r (poly_carry (poly_mul r (poly_add hibit m h))) (drop 16 m) else h)"
  by pat_completeness auto
termination
  by (relation "measure (\<lambda>(hibit, r, h, m). length m)") auto

declare poly_loop.simps [simp del]

definition hibit24 :: u32 where
  "hibit24 = push_bit 24 1"

definition poly1305_blocks :: "poly1305_ctx \<Rightarrow> bytes \<Rightarrow> poly1305_ctx" where
  "poly1305_blocks st m = st\<lparr>pc_h := poly_loop (if pc_final st then 0 else hibit24) (pc_r st) (pc_h st) m\<rparr>"

section \<open>Updating\<close>

text \<open>What is done once the buffer is empty: whole blocks from the input, the rest into the buffer.\<close>

definition poly1305_update_tail :: "poly1305_ctx \<Rightarrow> bytes \<Rightarrow> poly1305_ctx" where
  "poly1305_update_tail st m =
     (let want = 16 * (length m div 16);
          st' = (if 16 \<le> length m then poly1305_blocks st (take want m) else st);
          m' = (if 16 \<le> length m then drop want m else m)
      in if m' \<noteq> [] then st'\<lparr>pc_buffer := pc_buffer st' @ m'\<rparr> else st')"

definition poly1305_update :: "poly1305_ctx \<Rightarrow> bytes \<Rightarrow> poly1305_ctx" where
  "poly1305_update st m =
     (if pc_buffer st \<noteq> []
      then let want = min (16 - length (pc_buffer st)) (length m);
               buf = pc_buffer st @ take want m;
               m' = drop want m
           in if length buf < 16 then st\<lparr>pc_buffer := buf\<rparr>
              else poly1305_update_tail ((poly1305_blocks (st\<lparr>pc_buffer := buf\<rparr>) buf)\<lparr>pc_buffer := []\<rparr>) m'
      else poly1305_update_tail st m)"

section \<open>Finishing\<close>

definition poly_full_carry :: "limbs \<Rightarrow> limbs" where
  "poly_full_carry = (\<lambda>(h0, h1, h2, h3, h4).
     let c = drop_bit 26 h1; h1 = h1 AND 0x3ffffff; h2 = h2 + c;
         c = drop_bit 26 h2; h2 = h2 AND 0x3ffffff; h3 = h3 + c;
         c = drop_bit 26 h3; h3 = h3 AND 0x3ffffff; h4 = h4 + c;
         c = drop_bit 26 h4; h4 = h4 AND 0x3ffffff; h0 = h0 + c * 5;
         c = drop_bit 26 h0; h0 = h0 AND 0x3ffffff; h1 = h1 + c
     in (h0, h1, h2, h3, h4))"

text \<open>\<open>h\<close> if it is below the modulus, \<open>h - p\<close> otherwise, selected by a mask\<close>

definition poly_select :: "limbs \<Rightarrow> limbs" where
  "poly_select = (\<lambda>(h0, h1, h2, h3, h4).
     let g0 = h0 + 5; c = drop_bit 26 g0; g0 = g0 AND 0x3ffffff;
         g1 = h1 + c; c = drop_bit 26 g1; g1 = g1 AND 0x3ffffff;
         g2 = h2 + c; c = drop_bit 26 g2; g2 = g2 AND 0x3ffffff;
         g3 = h3 + c; c = drop_bit 26 g3; g3 = g3 AND 0x3ffffff;
         g4 = h4 + c - push_bit 26 1;
         mask = drop_bit 31 g4 - 1;
         g0 = g0 AND mask; g1 = g1 AND mask; g2 = g2 AND mask; g3 = g3 AND mask; g4 = g4 AND mask;
         mask = NOT mask
     in ((h0 AND mask) OR g0, (h1 AND mask) OR g1, (h2 AND mask) OR g2, (h3 AND mask) OR g3, (h4 AND mask) OR g4))"

definition poly_pack :: "limbs \<Rightarrow> u32 \<times> u32 \<times> u32 \<times> u32" where
  "poly_pack = (\<lambda>(h0, h1, h2, h3, h4).
     (h0 OR push_bit 26 h1, drop_bit 6 h1 OR push_bit 20 h2, drop_bit 12 h2 OR push_bit 14 h3,
      drop_bit 18 h3 OR push_bit 8 h4))"

definition poly_add_pad :: "u32 \<times> u32 \<times> u32 \<times> u32 \<Rightarrow> u32 \<times> u32 \<times> u32 \<times> u32 \<Rightarrow> bytes" where
  "poly_add_pad = (\<lambda>(p0, p1, p2, p3) (h0, h1, h2, h3).
     let f0 = ucast h0 + ucast p0 :: u64;
         f1 = ucast h1 + ucast p1 + drop_bit 32 f0 :: u64;
         f2 = ucast h2 + ucast p2 + drop_bit 32 f1 :: u64;
         f3 = ucast h3 + ucast p3 + drop_bit 32 f2 :: u64
     in u32to8le (ucast f0) @ u32to8le (ucast f1) @ u32to8le (ucast f2) @ u32to8le (ucast f3))"

definition poly1305_finish :: "poly1305_ctx \<Rightarrow> bytes" where
  "poly1305_finish st =
     (let st = (if pc_buffer st \<noteq> []
                then let buf = pc_buffer st @ [1] @ replicate (15 - length (pc_buffer st)) 0
                     in poly1305_blocks (st\<lparr>pc_buffer := buf, pc_final := True\<rparr>) buf
                else st)
      in poly_add_pad (pc_pad st) (poly_pack (poly_select (poly_full_carry (pc_h st)))))"

definition aegis_poly1305 :: "bytes \<Rightarrow> bytes \<Rightarrow> bytes" where
  "aegis_poly1305 m key = poly1305_finish (poly1305_update (poly1305_init key) m)"

section \<open>Specification\<close>

text \<open>The number a little-endian byte string stands for, and RFC 8439 on whole numbers.\<close>

primrec le_nat :: "bytes \<Rightarrow> nat" where
  "le_nat [] = 0"
| "le_nat (b # bs) = unat b + 256 * le_nat bs"

definition p1305 :: nat where
  "p1305 = 2 ^ 130 - 5"

function poly_spec :: "nat \<Rightarrow> nat \<Rightarrow> bytes \<Rightarrow> nat" where
  "poly_spec r a m =
     (if m = [] then a else poly_spec r (((a + le_nat (take 16 m @ [1])) * r) mod p1305) (drop 16 m))"
  by pat_completeness auto
termination
  by (relation "measure (\<lambda>(r, a, m). length m)") auto

declare poly_spec.simps [simp del]

definition clamp :: "nat \<Rightarrow> nat" where
  "clamp r = r AND 0x0ffffffc0ffffffc0ffffffc0fffffff"

section \<open>Words as numbers\<close>

lemma unat_and_26: "unat (x AND 0x3ffffff) = unat (x :: u32) mod 2 ^ 26"
proof -
  have "(0x3ffffff :: u32) = mask 26" by (simp add: mask_eq_exp_minus_1)
  then have "x AND 0x3ffffff = take_bit 26 x" by (simp only: take_bit_eq_mask)
  then show ?thesis by (simp only: unat_take)
qed

lemma or_shift_nat: "x < 2 ^ n \<Longrightarrow> x OR (2 ^ n * y) = x + 2 ^ n * (y :: nat)"
proof -
  assume "x < 2 ^ n"
  then have x: "take_bit n x = x" by (rule take_bit_nat_eq_self)
  have "take_bit n x + push_bit n y = take_bit n x OR push_bit n y"
    by (rule disjunctive_add) (auto simp: bit_simps)
  then show ?thesis by (simp add: x push_bit_eq_mult mult.commute)
qed

lemma unat_or_push:
  assumes "n \<le> LENGTH('a::len)" and "unat a < 2 ^ n"
  shows "unat (a OR push_bit n b) = unat a + 2 ^ n * (unat (b :: 'a word) mod 2 ^ (LENGTH('a) - n))"
proof -
  have "unat (push_bit n b) = 2 ^ n * (unat b mod 2 ^ (LENGTH('a) - n))"
    using assms(1) by (simp add: unat_push mult.commute [of _ "2 ^ n"] mult_mod_right power_add [symmetric])
  then show ?thesis using or_shift_nat [OF assms(2)] by (simp add: unsigned_or_eq)
qed

lemma unat_byte: "unat (x :: u8) < 256" "unat (ucast (x :: u8) :: u32) = unat x"
  using unat_lt [of x] by (simp_all add: unat_up)

lemma le_nat_append: "le_nat (a @ b) = le_nat a + 256 ^ length a * le_nat b"
  by (induction a) (simp_all add: algebra_simps)

lemma le_nat_lt: "le_nat b < 256 ^ length b"
proof (induction b)
  case (Cons x b)
  have "unat x < 256" by (rule unat_byte)
  with Cons show ?case by simp
qed simp

lemma unat_u8to32le:
  assumes "4 \<le> length p"
  shows "unat (u8to32le p) = le_nat (take 4 p)"
proof -
  obtain a b c d q where p: "p = a # b # c # d # q"
    using assms by (auto simp: numeral_eq_Suc Suc_le_length_iff)
  note y = unat_byte(1) [of a] unat_byte(1) [of b] unat_byte(1) [of c] unat_byte(1) [of d]
  have 1: "unat (ucast a OR push_bit 8 (ucast b) :: u32) = unat a + 256 * unat b"
    using y unat_or_push [of 8 "ucast a :: u32" "ucast b"] by (simp add: unat_byte(2))
  have 2: "unat ((ucast a OR push_bit 8 (ucast b)) OR push_bit 16 (ucast c) :: u32) = unat a + 256 * unat b + 65536 * unat c"
    using y unat_or_push [of 16 "ucast a OR push_bit 8 (ucast b) :: u32" "ucast c"] by (simp add: unat_byte(2) 1)
  have "unat (((ucast a OR push_bit 8 (ucast b)) OR push_bit 16 (ucast c)) OR push_bit 24 (ucast d) :: u32) =
      unat a + 256 * unat b + 65536 * unat c + 16777216 * unat d"
    using y unat_or_push [of 24 "(ucast a OR push_bit 8 (ucast b)) OR push_bit 16 (ucast c) :: u32" "ucast d"]
    by (simp add: unat_byte(2) 2)
  then show ?thesis by (simp add: u8to32le_def p or.assoc)
qed

lemma u8to32le_field:
  assumes "k + 4 \<le> length m"
  shows "unat (u8to32le (drop k m)) = le_nat m div 256 ^ k mod 2 ^ 32"
proof -
  have m: "m = take k m @ take 4 (drop k m) @ drop 4 (drop k m)" by (metis append_take_drop_id)
  define A B C where "A = le_nat (take k m)" and "B = le_nat (take 4 (drop k m))" and "C = le_nat (drop 4 (drop k m))"
  have len: "length (take k m) = k" "length (take 4 (drop k m)) = 4" using assms by auto
  have "le_nat m = A + 256 ^ k * (B + 256 ^ 4 * C)"
    unfolding A_def B_def C_def by (subst m) (simp only: le_nat_append len)
  moreover have "A < 256 ^ k" using le_nat_lt [of "take k m"] len unfolding A_def by simp
  moreover have "B < 2 ^ 32" using le_nat_lt [of "take 4 (drop k m)"] len unfolding B_def by simp
  ultimately have "le_nat m div 256 ^ k mod 2 ^ 32 = B" by (simp add: mod_less)
  then show ?thesis using unat_u8to32le [of "drop k m"] assms B_def by simp
qed

section \<open>Numbers from limbs\<close>

definition limb_nat :: "nat \<Rightarrow> nat \<Rightarrow> nat" where
  "limb_nat N i = N div 2 ^ (26 * i) mod 2 ^ 26"

definition lval :: "limbs \<Rightarrow> nat" where
  "lval = (\<lambda>(h0, h1, h2, h3, h4).
     unat h0 + 2 ^ 26 * unat h1 + 2 ^ 52 * unat h2 + 2 ^ 78 * unat h3 + 2 ^ 104 * unat h4)"

lemma field_mod: "j + 26 \<le> 32 \<Longrightarrow> a mod 2 ^ 32 div 2 ^ j mod 2 ^ 26 = a div 2 ^ j mod (2 ^ 26 :: nat)"
proof -
  assume "j + 26 \<le> 32"
  then have "take_bit 26 (drop_bit j (take_bit 32 a)) = take_bit 26 (drop_bit j a)"
    by (intro bit_eqI) (auto simp: bit_simps)
  then show ?thesis by (simp only: take_bit_eq_mod drop_bit_eq_div)
qed

lemma u8to32le_take: "k + 4 \<le> n \<Longrightarrow> n \<le> length m \<Longrightarrow> u8to32le (drop k (take n m)) = u8to32le (drop k m)"
  by (simp add: u8to32le_def)

lemma split_nat: "(N :: nat) = N mod 2 ^ n + 2 ^ n * (N div 2 ^ n)"
  by simp

lemma limb_sum:
  "N = limb_nat N 0 + 2 ^ 26 * limb_nat N 1 + 2 ^ 52 * limb_nat N 2 + 2 ^ 78 * limb_nat N 3 + 2 ^ 104 * (N div 2 ^ 104)"
proof -
  have s: "N div 2 ^ (26 * i) = limb_nat N i + 2 ^ 26 * (N div 2 ^ (26 * Suc i))" for i
    using split_nat [of "N div 2 ^ (26 * i)" 26] unfolding limb_nat_def
    by (simp add: div_mult2_eq [symmetric] power_add mult.commute)
  show ?thesis using s [of 0] s [of 1] s [of 2] s [of 3] by simp
qed

lemma limb_nat_lt: "limb_nat N i < 2 ^ 26"
  by (simp add: limb_nat_def)

text \<open>The five fields that the code loads from 16 bytes are the limbs of the number.\<close>

lemma load_limbs:
  assumes "16 \<le> length m" and N: "N = le_nat (take 16 m)"
  shows "unat (u8to32le m) mod 2 ^ 26 = limb_nat N 0"
    and "unat (u8to32le (drop 3 m)) div 2 ^ 2 mod 2 ^ 26 = limb_nat N 1"
    and "unat (u8to32le (drop 6 m)) div 2 ^ 4 mod 2 ^ 26 = limb_nat N 2"
    and "unat (u8to32le (drop 9 m)) div 2 ^ 6 mod 2 ^ 26 = limb_nat N 3"
    and "unat (u8to32le (drop 12 m)) div 2 ^ 8 = N div 2 ^ 104"
proof -
  have f: "unat (u8to32le (drop k m)) = N div 2 ^ (8 * k) mod 2 ^ 32" if "k + 4 \<le> 16" for k
  proof -
    have "(256 :: nat) ^ k = 2 ^ (8 * k)" by (simp add: power_mult)
    then show ?thesis
      using u8to32le_field [of k "take 16 m"] u8to32le_take [OF that assms(1)] that assms by simp
  qed
  have g: "unat (u8to32le (drop k m)) div 2 ^ j mod 2 ^ 26 = N div 2 ^ (8 * k + j) mod 2 ^ 26"
    if "k + 4 \<le> 16" "j + 26 \<le> 32" for k j
    using field_mod [OF that(2), of "N div 2 ^ (8 * k)"] f [OF that(1)] by (simp add: div_mult2_eq [symmetric] power_add)
  show "unat (u8to32le m) mod 2 ^ 26 = limb_nat N 0" using g [of 0 0] by (simp add: limb_nat_def)
  show "unat (u8to32le (drop 3 m)) div 2 ^ 2 mod 2 ^ 26 = limb_nat N 1" using g [of 3 2] by (simp add: limb_nat_def)
  show "unat (u8to32le (drop 6 m)) div 2 ^ 4 mod 2 ^ 26 = limb_nat N 2" using g [of 6 4] by (simp add: limb_nat_def)
  show "unat (u8to32le (drop 9 m)) div 2 ^ 6 mod 2 ^ 26 = limb_nat N 3" using g [of 9 6] by (simp add: limb_nat_def)
  have "N < 2 ^ 128" using le_nat_lt [of "take 16 m"] assms by simp
  then have "N div 2 ^ 96 < 2 ^ 32" by (simp add: less_mult_imp_div_less)
  then show "unat (u8to32le (drop 12 m)) div 2 ^ 8 = N div 2 ^ 104"
    using f [of 12] by (simp add: div_mult2_eq [symmetric])
qed

section \<open>Adding a block\<close>

text \<open>The bounds between blocks, and after a block has been added.\<close>

fun limbs_ok :: "limbs \<Rightarrow> bool" where
  "limbs_ok (h0, h1, h2, h3, h4) \<longleftrightarrow>
     unat h0 < 2 ^ 26 \<and> unat h1 < 2 ^ 26 + 64 \<and> unat h2 < 2 ^ 26 \<and> unat h3 < 2 ^ 26 \<and> unat h4 < 2 ^ 26"

fun limbs_sum :: "limbs \<Rightarrow> bool" where
  "limbs_sum (h0, h1, h2, h3, h4) \<longleftrightarrow>
     unat h0 < 2 ^ 27 + 64 \<and> unat h1 < 2 ^ 27 + 64 \<and> unat h2 < 2 ^ 27 + 64 \<and> unat h3 < 2 ^ 27 + 64 \<and> unat h4 < 2 ^ 27 + 64"

lemma unat_hibit:
  assumes "unat x < 2 ^ 24" and "hibit = 0 \<or> hibit = hibit24"
  shows "unat (x OR hibit) = unat x + unat hibit"
  using assms unat_or_push [of 24 x 1] by (auto simp: hibit24_def unat_push)

lemma unat_add_limb: "unat a < 2 ^ 28 \<Longrightarrow> unat b < 2 ^ 28 \<Longrightarrow> unat (a + b :: u32) = unat a + unat b"
  by (intro unat_add_nowrap) simp

lemma poly_add_val:
  assumes ok: "limbs_ok h" and m: "16 \<le> length m" and hb: "hibit = 0 \<or> hibit = hibit24"
  shows "limbs_sum (poly_add hibit m h)"
    and "lval (poly_add hibit m h) = lval h + le_nat (take 16 m) + 2 ^ 104 * unat hibit"
proof -
  obtain h0 h1 h2 h3 h4 where h: "h = (h0, h1, h2, h3, h4)" by (cases h)
  define N where "N = le_nat (take 16 m)"
  note l = load_limbs [OF m N_def]
  have N: "N < 2 ^ 128" using le_nat_lt [of "take 16 m"] m by (simp add: N_def)
  then have top: "N div 2 ^ 104 < 2 ^ 24" by (simp add: less_mult_imp_div_less)
  have hb': "unat hibit \<le> 2 ^ 24" using hb by (auto simp: hibit24_def unat_push)
  have b: "unat h0 < 2 ^ 26" "unat h1 < 2 ^ 26 + 64" "unat h2 < 2 ^ 26" "unat h3 < 2 ^ 26" "unat h4 < 2 ^ 26"
    using ok by (simp_all add: h)
  have l4: "unat (drop_bit 8 (u8to32le (drop 12 m)) OR hibit) = N div 2 ^ 104 + unat hibit"
    using unat_hibit [of "drop_bit 8 (u8to32le (drop 12 m))", OF _ hb] top l(5) by (simp add: unat_drop)
  have x: "unat (u8to32le m AND 0x3ffffff) = limb_nat N 0"
    "unat (drop_bit 2 (u8to32le (drop 3 m)) AND 0x3ffffff) = limb_nat N 1"
    "unat (drop_bit 4 (u8to32le (drop 6 m)) AND 0x3ffffff) = limb_nat N 2"
    "unat (drop_bit 6 (u8to32le (drop 9 m)) AND 0x3ffffff) = limb_nat N 3"
    by (simp_all only: unat_and_26 unat_drop l)
  note lt = limb_nat_lt [of N 0] limb_nat_lt [of N 1] limb_nat_lt [of N 2] limb_nat_lt [of N 3]
  have v: "unat (h0 + (u8to32le m AND 0x3ffffff)) = unat h0 + limb_nat N 0"
    "unat (h1 + (drop_bit 2 (u8to32le (drop 3 m)) AND 0x3ffffff)) = unat h1 + limb_nat N 1"
    "unat (h2 + (drop_bit 4 (u8to32le (drop 6 m)) AND 0x3ffffff)) = unat h2 + limb_nat N 2"
    "unat (h3 + (drop_bit 6 (u8to32le (drop 9 m)) AND 0x3ffffff)) = unat h3 + limb_nat N 3"
    "unat (h4 + (drop_bit 8 (u8to32le (drop 12 m)) OR hibit)) = unat h4 + (N div 2 ^ 104 + unat hibit)"
    unfolding x [symmetric] l4 [symmetric]
    by (rule unat_add_limb; use b lt top hb' in \<open>simp add: x l4\<close>)+
  show "limbs_sum (poly_add hibit m h)"
    unfolding poly_add_def h prod.case limbs_sum.simps v using b lt top hb' by simp
  show "lval (poly_add hibit m h) = lval h + le_nat (take 16 m) + 2 ^ 104 * unat hibit"
    unfolding poly_add_def h prod.case lval_def v N_def [symmetric]
    by (subst (6) limb_sum [of N]) (simp only: algebra_simps)
qed

section \<open>Multiplying\<close>

lemma mul64_val: "unat (mul64 a b) = unat a * unat b"
proof -
  have "unat a * unat b < 2 ^ 32 * 2 ^ 32" by (rule mult_strict_mono) (use unat_lt32 in auto)
  then show ?thesis by (simp add: mul64_def unat_mult_nowrap unat_up)
qed

lemma times5_val: "unat r < 2 ^ 26 \<Longrightarrow> unat (r * 5 :: u32) = 5 * unat r"
  by (simp add: unat_mult_nowrap)

lemma prod_lt: "a < A \<Longrightarrow> b < B \<Longrightarrow> a * b < A * (B :: nat)"
  by (rule mult_strict_mono) auto

lemma sum5_val:
  assumes "unat a < B" "unat b < B" "unat c < B" "unat d < B" "unat e < (B :: nat)" and "B \<le> 2 ^ 61"
  shows "unat (a + b + c + d + e :: u64) = unat a + unat b + unat c + unat d + unat e"
proof -
  have 1: "unat (a + b) = unat a + unat b" using assms by (intro unat_add_nowrap) simp
  have 2: "unat (a + b + c) = unat a + unat b + unat c" using assms 1 by (subst unat_add_nowrap) simp_all
  have 3: "unat (a + b + c + d) = unat a + unat b + unat c + unat d" using assms 2 by (subst unat_add_nowrap) simp_all
  show ?thesis using assms 3 by (subst unat_add_nowrap) simp_all
qed

fun limbs_r :: "limbs \<Rightarrow> bool" where
  "limbs_r (r0, r1, r2, r3, r4) \<longleftrightarrow>
     unat r0 < 2 ^ 26 \<and> unat r1 < 2 ^ 26 \<and> unat r2 < 2 ^ 26 \<and> unat r3 < 2 ^ 26 \<and> unat r4 < 2 ^ 26"

text \<open>The products of weight \<open>2 ^ 130\<close> and more, which the code folds in times 5.\<close>

lemma mul_fold:
  fixes h0 h1 h2 h3 h4 r0 r1 r2 r3 r4 :: int
  shows "(h0 + 2 ^ 26 * h1 + 2 ^ 52 * h2 + 2 ^ 78 * h3 + 2 ^ 104 * h4) * (r0 + 2 ^ 26 * r1 + 2 ^ 52 * r2 + 2 ^ 78 * r3 + 2 ^ 104 * r4) =
    (h0 * r0 + h1 * (5 * r4) + h2 * (5 * r3) + h3 * (5 * r2) + h4 * (5 * r1)) +
    2 ^ 26 * (h0 * r1 + h1 * r0 + h2 * (5 * r4) + h3 * (5 * r3) + h4 * (5 * r2)) +
    2 ^ 52 * (h0 * r2 + h1 * r1 + h2 * r0 + h3 * (5 * r4) + h4 * (5 * r3)) +
    2 ^ 78 * (h0 * r3 + h1 * r2 + h2 * r1 + h3 * r0 + h4 * (5 * r4)) +
    2 ^ 104 * (h0 * r4 + h1 * r3 + h2 * r2 + h3 * r1 + h4 * r0) +
    (2 ^ 130 - 5) * ((h1 * r4 + h2 * r3 + h3 * r2 + h4 * r1) + 2 ^ 26 * (h2 * r4 + h3 * r3 + h4 * r2) +
      2 ^ 52 * (h3 * r4 + h4 * r3) + 2 ^ 78 * (h4 * r4))"
  by (simp add: algebra_simps)

lemma mul_fold_nat:
  "\<exists>j. lval (h0, h1, h2, h3, h4) * lval (r0, r1, r2, r3, r4) =
    (unat h0 * unat r0 + unat h1 * (5 * unat r4) + unat h2 * (5 * unat r3) + unat h3 * (5 * unat r2) + unat h4 * (5 * unat r1)) +
    2 ^ 26 * (unat h0 * unat r1 + unat h1 * unat r0 + unat h2 * (5 * unat r4) + unat h3 * (5 * unat r3) + unat h4 * (5 * unat r2)) +
    2 ^ 52 * (unat h0 * unat r2 + unat h1 * unat r1 + unat h2 * unat r0 + unat h3 * (5 * unat r4) + unat h4 * (5 * unat r3)) +
    2 ^ 78 * (unat h0 * unat r3 + unat h1 * unat r2 + unat h2 * unat r1 + unat h3 * unat r0 + unat h4 * (5 * unat r4)) +
    2 ^ 104 * (unat h0 * unat r4 + unat h1 * unat r3 + unat h2 * unat r2 + unat h3 * unat r1 + unat h4 * unat r0) + p1305 * j"
proof -
  let ?j = "(unat h1 * unat r4 + unat h2 * unat r3 + unat h3 * unat r2 + unat h4 * unat r1) +
    2 ^ 26 * (unat h2 * unat r4 + unat h3 * unat r3 + unat h4 * unat r2) +
    2 ^ 52 * (unat h3 * unat r4 + unat h4 * unat r3) + 2 ^ 78 * (unat h4 * unat r4)"
  have p: "int p1305 = 2 ^ 130 - 5" by (simp add: p1305_def of_nat_diff)
  note f = mul_fold [of "int (unat h0)" "int (unat h1)" "int (unat h2)" "int (unat h3)" "int (unat h4)"
      "int (unat r0)" "int (unat r1)" "int (unat r2)" "int (unat r3)" "int (unat r4)", folded p]
  show ?thesis
    by (rule exI [of _ ?j], unfold lval_def prod.case, rule of_nat_eq_iff [where 'a = int, THEN iffD1],
        unfold of_nat_add of_nat_mult of_nat_power of_nat_numeral, rule f)
qed

lemma poly_mul_val:
  assumes r: "limbs_r (r0, r1, r2, r3, r4)" and h: "limbs_sum (h0, h1, h2, h3, h4)"
    and d: "poly_mul (r0, r1, r2, r3, r4) (h0, h1, h2, h3, h4) = (d0, d1, d2, d3, d4)"
  shows "unat d0 = unat h0 * unat r0 + unat h1 * (5 * unat r4) + unat h2 * (5 * unat r3) + unat h3 * (5 * unat r2) + unat h4 * (5 * unat r1)"
    and "unat d1 = unat h0 * unat r1 + unat h1 * unat r0 + unat h2 * (5 * unat r4) + unat h3 * (5 * unat r3) + unat h4 * (5 * unat r2)"
    and "unat d2 = unat h0 * unat r2 + unat h1 * unat r1 + unat h2 * unat r0 + unat h3 * (5 * unat r4) + unat h4 * (5 * unat r3)"
    and "unat d3 = unat h0 * unat r3 + unat h1 * unat r2 + unat h2 * unat r1 + unat h3 * unat r0 + unat h4 * (5 * unat r4)"
    and "unat d4 = unat h0 * unat r4 + unat h1 * unat r3 + unat h2 * unat r2 + unat h3 * unat r1 + unat h4 * unat r0"
    and "unat d0 < 2 ^ 58 - 2 ^ 32 \<and> unat d1 < 2 ^ 58 - 2 ^ 32 \<and> unat d2 < 2 ^ 58 - 2 ^ 32 \<and> unat d3 < 2 ^ 58 - 2 ^ 32"
    and "unat d4 < 5 * ((2 ^ 27 + 64) * 2 ^ 26)"
proof -
  let ?B = "(2 ^ 27 + 64) * (5 * 2 ^ 26) :: nat" and ?Q = "(2 ^ 27 + 64) * 2 ^ 26 :: nat"
  have rb: "unat r0 < 2 ^ 26" "unat r1 < 2 ^ 26" "unat r2 < 2 ^ 26" "unat r3 < 2 ^ 26" "unat r4 < 2 ^ 26"
    using r by simp_all
  have rb5: "x < 2 ^ 26 \<Longrightarrow> x < 5 * (2 ^ 26 :: nat)" "x < 2 ^ 26 \<Longrightarrow> 5 * x < 5 * (2 ^ 26 :: nat)" for x by simp_all
  have hb: "unat h0 < 2 ^ 27 + 64" "unat h1 < 2 ^ 27 + 64" "unat h2 < 2 ^ 27 + 64" "unat h3 < 2 ^ 27 + 64" "unat h4 < 2 ^ 27 + 64"
    using h by simp_all
  note lt = prod_lt [OF hb(1) rb5(1) [OF rb(1)]] prod_lt [OF hb(1) rb5(1) [OF rb(2)]] prod_lt [OF hb(1) rb5(1) [OF rb(3)]]
    prod_lt [OF hb(1) rb5(1) [OF rb(4)]] prod_lt [OF hb(2) rb5(1) [OF rb(1)]] prod_lt [OF hb(2) rb5(1) [OF rb(2)]]
    prod_lt [OF hb(2) rb5(1) [OF rb(3)]] prod_lt [OF hb(3) rb5(1) [OF rb(1)]] prod_lt [OF hb(3) rb5(1) [OF rb(2)]]
    prod_lt [OF hb(4) rb5(1) [OF rb(1)]] prod_lt [OF hb(2) rb5(2) [OF rb(5)]] prod_lt [OF hb(3) rb5(2) [OF rb(4)]]
    prod_lt [OF hb(3) rb5(2) [OF rb(5)]] prod_lt [OF hb(4) rb5(2) [OF rb(3)]] prod_lt [OF hb(4) rb5(2) [OF rb(4)]]
    prod_lt [OF hb(4) rb5(2) [OF rb(5)]] prod_lt [OF hb(5) rb5(2) [OF rb(2)]] prod_lt [OF hb(5) rb5(2) [OF rb(3)]]
    prod_lt [OF hb(5) rb5(2) [OF rb(4)]] prod_lt [OF hb(5) rb5(2) [OF rb(5)]]
  note ltq = prod_lt [OF hb(1) rb(5)] prod_lt [OF hb(2) rb(4)] prod_lt [OF hb(3) rb(3)] prod_lt [OF hb(4) rb(2)] prod_lt [OF hb(5) rb(1)]
  note val = mul64_val times5_val [OF rb(2)] times5_val [OF rb(3)] times5_val [OF rb(4)] times5_val [OF rb(5)]
  have B: "?B \<le> 2 ^ 61" "?Q \<le> 2 ^ 61" by simp_all
  have ds: "d0 = mul64 h0 r0 + mul64 h1 (r4 * 5) + mul64 h2 (r3 * 5) + mul64 h3 (r2 * 5) + mul64 h4 (r1 * 5)"
    "d1 = mul64 h0 r1 + mul64 h1 r0 + mul64 h2 (r4 * 5) + mul64 h3 (r3 * 5) + mul64 h4 (r2 * 5)"
    "d2 = mul64 h0 r2 + mul64 h1 r1 + mul64 h2 r0 + mul64 h3 (r4 * 5) + mul64 h4 (r3 * 5)"
    "d3 = mul64 h0 r3 + mul64 h1 r2 + mul64 h2 r1 + mul64 h3 r0 + mul64 h4 (r4 * 5)"
    "d4 = mul64 h0 r4 + mul64 h1 r3 + mul64 h2 r2 + mul64 h3 r1 + mul64 h4 r0"
    using d unfolding poly_mul_def prod.case Let_def prod.inject by blast+
  show e0: "unat d0 = unat h0 * unat r0 + unat h1 * (5 * unat r4) + unat h2 * (5 * unat r3) + unat h3 * (5 * unat r2) + unat h4 * (5 * unat r1)"
    unfolding ds(1) by (subst sum5_val [OF _ _ _ _ _ B(1)]) (simp_all only: val lt)
  show e1: "unat d1 = unat h0 * unat r1 + unat h1 * unat r0 + unat h2 * (5 * unat r4) + unat h3 * (5 * unat r3) + unat h4 * (5 * unat r2)"
    unfolding ds(2) by (subst sum5_val [OF _ _ _ _ _ B(1)]) (simp_all only: val lt)
  show e2: "unat d2 = unat h0 * unat r2 + unat h1 * unat r1 + unat h2 * unat r0 + unat h3 * (5 * unat r4) + unat h4 * (5 * unat r3)"
    unfolding ds(3) by (subst sum5_val [OF _ _ _ _ _ B(1)]) (simp_all only: val lt)
  show e3: "unat d3 = unat h0 * unat r3 + unat h1 * unat r2 + unat h2 * unat r1 + unat h3 * unat r0 + unat h4 * (5 * unat r4)"
    unfolding ds(4) by (subst sum5_val [OF _ _ _ _ _ B(1)]) (simp_all only: val lt)
  show e4: "unat d4 = unat h0 * unat r4 + unat h1 * unat r3 + unat h2 * unat r2 + unat h3 * unat r1 + unat h4 * unat r0"
    unfolding ds(5) by (subst sum5_val [OF _ _ _ _ _ B(2)]) (simp_all only: val ltq)
  have five: "x1 < b \<Longrightarrow> x2 < b \<Longrightarrow> x3 < b \<Longrightarrow> x4 < b \<Longrightarrow> x5 < b \<Longrightarrow> x1 + x2 + x3 + x4 + x5 < 5 * (b :: nat)" for x1 x2 x3 x4 x5 b
    by simp
  have up: "x < 5 * ?B \<Longrightarrow> x < 2 ^ 58 - 2 ^ 32" for x :: nat by simp
  show "unat d0 < 2 ^ 58 - 2 ^ 32 \<and> unat d1 < 2 ^ 58 - 2 ^ 32 \<and> unat d2 < 2 ^ 58 - 2 ^ 32 \<and> unat d3 < 2 ^ 58 - 2 ^ 32"
    unfolding e0 e1 e2 e3 by (intro conjI up five lt)
  show "unat d4 < 5 * ((2 ^ 27 + 64) * 2 ^ 26)"
    unfolding e4 by (intro five ltq)
qed

section \<open>Reducing\<close>

lemma carry_low: "unat (ucast (d :: u64) AND 0x3ffffff :: u32) = unat d mod 2 ^ 26"
  by (simp add: unat_and_26 unat_down mod_mod_cancel)

lemma carry_high: "unat d < 2 ^ 58 \<Longrightarrow> unat (ucast (drop_bit 26 (d :: u64)) :: u32) = unat d div 2 ^ 26"
  by (simp add: unat_down unat_drop less_mult_imp_div_less)

lemma carry_add:
  fixes d e :: u64
  assumes "unat d < 2 ^ 58 - 2 ^ 32" and "unat e < 2 ^ 58"
  shows "unat (d + ucast (ucast (drop_bit 26 (e :: u64)) :: u32)) = unat d + unat e div 2 ^ 26"
    and "unat d + unat e div 2 ^ 26 < 2 ^ 58"
proof -
  have c: "unat e div 2 ^ 26 < 2 ^ 32" using assms(2) by (simp add: less_mult_imp_div_less)
  then show lt: "unat d + unat e div 2 ^ 26 < 2 ^ 58" using assms(1) by simp
  have u: "unat (ucast (ucast (drop_bit 26 e) :: u32) :: u64) = unat e div 2 ^ 26"
    using carry_high [OF assms(2)] by (simp add: unat_up)
  show "unat (d + ucast (ucast (drop_bit 26 e) :: u32)) = unat d + unat e div 2 ^ 26"
    unfolding u [symmetric] by (rule unat_add_nowrap) (use lt u in simp)
qed

lemma chain_int:
  fixes d0 d1 d2 d3 d4 m0 m1 m2 m3 m4 mf q0 q1 q2 q3 q4 qf :: int
  assumes "d0 = m0 + 2 ^ 26 * q0" "m1 + 2 ^ 26 * q1 = d1 + q0" "m2 + 2 ^ 26 * q2 = d2 + q1"
    "m3 + 2 ^ 26 * q3 = d3 + q2" "m4 + 2 ^ 26 * q4 = d4 + q3" "mf + 2 ^ 26 * qf = m0 + 5 * q4"
  shows "mf + 2 ^ 26 * (m1 + qf) + 2 ^ 52 * m2 + 2 ^ 78 * m3 + 2 ^ 104 * m4 + (2 ^ 130 - 5) * q4 =
    d0 + 2 ^ 26 * d1 + 2 ^ 52 * d2 + 2 ^ 78 * d3 + 2 ^ 104 * d4"
proof -
  have e: "d1 = m1 + 2 ^ 26 * q1 - q0" "d2 = m2 + 2 ^ 26 * q2 - q1" "d3 = m3 + 2 ^ 26 * q3 - q2" 
    "d4 = m4 + 2 ^ 26 * q4 - q3" "m0 = mf + 2 ^ 26 * qf - 5 * q4"
    using assms(2-6) by auto
  show ?thesis unfolding assms(1) e by (simp add: algebra_simps)
qed
lemma carry_chain:
  fixes d0 d1 d2 d3 d4 :: nat
  assumes "e1 = d1 + d0 div 2 ^ 26" "e2 = d2 + e1 div 2 ^ 26" "e3 = d3 + e2 div 2 ^ 26" "e4 = d4 + e3 div 2 ^ 26"
    and "f0 = d0 mod 2 ^ 26 + 5 * (e4 div 2 ^ 26)"
  shows "f0 mod 2 ^ 26 + 2 ^ 26 * (e1 mod 2 ^ 26 + f0 div 2 ^ 26) + 2 ^ 52 * (e2 mod 2 ^ 26) + 2 ^ 78 * (e3 mod 2 ^ 26) +
      2 ^ 104 * (e4 mod 2 ^ 26) + p1305 * (e4 div 2 ^ 26) =
    d0 + 2 ^ 26 * d1 + 2 ^ 52 * d2 + 2 ^ 78 * d3 + 2 ^ 104 * d4"
proof -
  have p: "int p1305 = 2 ^ 130 - 5" by (simp add: p1305_def of_nat_diff)
  define q0 q1 q2 q3 q4 qf m0 m1 m2 m3 m4 mf where
    defs: "q0 = d0 div 2 ^ 26" "q1 = e1 div 2 ^ 26" "q2 = e2 div 2 ^ 26" "q3 = e3 div 2 ^ 26" "q4 = e4 div 2 ^ 26" "qf = f0 div 2 ^ 26"
      "m0 = d0 mod 2 ^ 26" "m1 = e1 mod 2 ^ 26" "m2 = e2 mod 2 ^ 26" "m3 = e3 mod 2 ^ 26" "m4 = e4 mod 2 ^ 26" "mf = f0 mod 2 ^ 26"
  have n: "d0 = m0 + 2 ^ 26 * q0" "m1 + 2 ^ 26 * q1 = d1 + q0" "m2 + 2 ^ 26 * q2 = d2 + q1"
    "m3 + 2 ^ 26 * q3 = d3 + q2" "m4 + 2 ^ 26 * q4 = d4 + q3" "mf + 2 ^ 26 * qf = m0 + 5 * q4"
    unfolding defs by (simp_all only: mod_mult_div_eq assms)
  note eq = n [THEN arg_cong [of _ _ int], unfolded of_nat_add of_nat_mult of_nat_power of_nat_numeral]
  have "int mf + 2 ^ 26 * (int m1 + int qf) + 2 ^ 52 * int m2 + 2 ^ 78 * int m3 + 2 ^ 104 * int m4 + int p1305 * int q4 =
    int d0 + 2 ^ 26 * int d1 + 2 ^ 52 * int d2 + 2 ^ 78 * int d3 + 2 ^ 104 * int d4"
    unfolding p by (rule chain_int [OF eq])
  then have "int (mf + 2 ^ 26 * (m1 + qf) + 2 ^ 52 * m2 + 2 ^ 78 * m3 + 2 ^ 104 * m4 + p1305 * q4) =
    int (d0 + 2 ^ 26 * d1 + 2 ^ 52 * d2 + 2 ^ 78 * d3 + 2 ^ 104 * d4)"
    by (simp only: of_nat_add of_nat_mult of_nat_power of_nat_numeral)
  then show ?thesis unfolding defs by (simp only: of_nat_eq_iff)
qed

lemma poly_carry_val:
  assumes d: "unat d0 < 2 ^ 58 - 2 ^ 32" "unat d1 < 2 ^ 58 - 2 ^ 32" "unat d2 < 2 ^ 58 - 2 ^ 32" "unat d3 < 2 ^ 58 - 2 ^ 32"
    and d4: "unat d4 < 5 * ((2 ^ 27 + 64) * 2 ^ 26)"
  shows "limbs_ok (poly_carry (d0, d1, d2, d3, d4))"
    and "\<exists>k. lval (poly_carry (d0, d1, d2, d3, d4)) + p1305 * k =
      unat d0 + 2 ^ 26 * unat d1 + 2 ^ 52 * unat d2 + 2 ^ 78 * unat d3 + 2 ^ 104 * unat d4"
proof -
  define e1 where "e1 = d1 + ucast (ucast (drop_bit 26 d0) :: u32)"
  define e2 where "e2 = d2 + ucast (ucast (drop_bit 26 e1) :: u32)"
  define e3 where "e3 = d3 + ucast (ucast (drop_bit 26 e2) :: u32)"
  define e4 where "e4 = d4 + ucast (ucast (drop_bit 26 e3) :: u32)"
  define c4 where "c4 = (ucast (drop_bit 26 e4) :: u32)"
  define f0 where "f0 = (ucast d0 AND 0x3ffffff :: u32) + c4 * 5"
  have res: "poly_carry (d0, d1, d2, d3, d4) =
      (f0 AND 0x3ffffff, (ucast e1 AND 0x3ffffff) + drop_bit 26 f0, ucast e2 AND 0x3ffffff, ucast e3 AND 0x3ffffff, ucast e4 AND 0x3ffffff)"
    unfolding poly_carry_def e1_def e2_def e3_def e4_def c4_def f0_def Let_def by simp
  have b: "unat d0 < 2 ^ 58" "unat d4 < 2 ^ 58 - 2 ^ 32" using d(1) d4 by simp_all
  have v1: "unat e1 = unat d1 + unat d0 div 2 ^ 26" "unat e1 < 2 ^ 58" using carry_add [OF d(2) b(1)] by (simp_all only: e1_def)
  have v2: "unat e2 = unat d2 + unat e1 div 2 ^ 26" "unat e2 < 2 ^ 58" using carry_add [OF d(3) v1(2)] by (simp_all only: e2_def)
  have v3: "unat e3 = unat d3 + unat e2 div 2 ^ 26" "unat e3 < 2 ^ 58" using carry_add [OF d(4) v2(2)] by (simp_all only: e3_def)
  have v4: "unat e4 = unat d4 + unat e3 div 2 ^ 26" "unat e4 < 2 ^ 58" using carry_add [OF b(2) v3(2)] by (simp_all only: e4_def)
  have c4: "unat c4 = unat e4 div 2 ^ 26" unfolding c4_def by (rule carry_high [OF v4(2)])
  have "unat e3 div 2 ^ 26 < 2 ^ 32" using v3(2) by (simp add: less_mult_imp_div_less)
  then have "unat e4 < (5 * (2 ^ 27 + 64) + 64) * 2 ^ 26" using v4(1) d4 by simp
  then have c4lt: "unat c4 < 5 * (2 ^ 27 + 64) + 64" unfolding c4 by (rule less_mult_imp_div_less)
  have c45: "unat (c4 * 5) = 5 * unat c4" using c4lt by (simp add: unat_mult_nowrap)
  have low: "unat (ucast d0 AND 0x3ffffff :: u32) < 2 ^ 26" unfolding carry_low by simp
  have f0: "unat f0 = unat d0 mod 2 ^ 26 + 5 * (unat e4 div 2 ^ 26)"
    unfolding f0_def carry_low [symmetric] c4 [symmetric] c45 [symmetric]
    by (rule unat_add_nowrap) (use low c4lt c45 in simp)
  have f0lt: "unat f0 < 64 * 2 ^ 26" using low c4lt unfolding f0 carry_low [symmetric] c4 [symmetric] by simp
  then have fq: "unat f0 div 2 ^ 26 < 64" by (rule less_mult_imp_div_less)
  have h1: "unat ((ucast e1 AND 0x3ffffff) + drop_bit 26 f0) = unat e1 mod 2 ^ 26 + unat f0 div 2 ^ 26"
    unfolding carry_low [symmetric] unat_drop [symmetric]
    by (rule unat_add_limb) (use fq in \<open>simp_all add: carry_low unat_drop\<close>)
  show "limbs_ok (poly_carry (d0, d1, d2, d3, d4))"
    unfolding res limbs_ok.simps h1 carry_low unat_and_26 using fq by (simp add: add_less_le_mono less_imp_le)
  show "\<exists>k. lval (poly_carry (d0, d1, d2, d3, d4)) + p1305 * k =
      unat d0 + 2 ^ 26 * unat d1 + 2 ^ 52 * unat d2 + 2 ^ 78 * unat d3 + 2 ^ 104 * unat d4"
    unfolding res lval_def prod.case h1 carry_low unfolding unat_and_26
    by (rule exI, rule carry_chain [OF v1(1) v2(1) v3(1) v4(1) f0])
qed

section \<open>One block, modulo the prime\<close>

lemma poly_block_val:
  assumes r: "limbs_r r" and h: "limbs_ok h" and m: "16 \<le> length m" and hb: "hibit = 0 \<or> hibit = hibit24"
  shows "limbs_ok (poly_carry (poly_mul r (poly_add hibit m h)))"
    and "lval (poly_carry (poly_mul r (poly_add hibit m h))) mod p1305 =
      (lval h + (le_nat (take 16 m) + 2 ^ 104 * unat hibit)) * lval r mod p1305"
proof -
  obtain r0 r1 r2 r3 r4 where rr: "r = (r0, r1, r2, r3, r4)" by (cases r)
  obtain g0 g1 g2 g3 g4 where g: "poly_add hibit m h = (g0, g1, g2, g3, g4)" by (cases "poly_add hibit m h")
  obtain d0 d1 d2 d3 d4 where d: "poly_mul r (poly_add hibit m h) = (d0, d1, d2, d3, d4)"
    by (cases "poly_mul r (poly_add hibit m h)")
  note a = poly_add_val [OF h m hb, unfolded g]
  note v = poly_mul_val [OF r [unfolded rr] a(1) d [unfolded g rr]]
  have dl: "unat d0 < 2 ^ 58 - 2 ^ 32" "unat d1 < 2 ^ 58 - 2 ^ 32" "unat d2 < 2 ^ 58 - 2 ^ 32" "unat d3 < 2 ^ 58 - 2 ^ 32"
    using v(6) by blast+
  note c = poly_carry_val [OF dl v(7)]
  show "limbs_ok (poly_carry (poly_mul r (poly_add hibit m h)))" unfolding d by (rule c(1))
  obtain k where k: "lval (poly_carry (d0, d1, d2, d3, d4)) + p1305 * k =
      unat d0 + 2 ^ 26 * unat d1 + 2 ^ 52 * unat d2 + 2 ^ 78 * unat d3 + 2 ^ 104 * unat d4" using c(2) by blast
  obtain j where j: "lval (g0, g1, g2, g3, g4) * lval r =
      unat d0 + 2 ^ 26 * unat d1 + 2 ^ 52 * unat d2 + 2 ^ 78 * unat d3 + 2 ^ 104 * unat d4 + p1305 * j"
    using mul_fold_nat [of g0 g1 g2 g3 g4 r0 r1 r2 r3 r4] unfolding v(1-5) rr by blast
  have "lval (poly_carry (d0, d1, d2, d3, d4)) mod p1305 = (lval (poly_carry (d0, d1, d2, d3, d4)) + p1305 * k) mod p1305" by simp
  also have "\<dots> = lval (g0, g1, g2, g3, g4) * lval r mod p1305" unfolding k j by simp
  finally show "lval (poly_carry (poly_mul r (poly_add hibit m h))) mod p1305 =
      (lval h + (le_nat (take 16 m) + 2 ^ 104 * unat hibit)) * lval r mod p1305"
    unfolding d a(2) by (simp only: add.assoc)
qed

section \<open>The final reduction\<close>

lemma full_carry_val:
  assumes "limbs_ok h"
  shows "lval (poly_full_carry h) mod p1305 = lval h mod p1305" and "\<exists>k0 k1 k2 k3 k4. poly_full_carry h = (k0, k1, k2, k3, k4) \<and>
    unat k0 < 2 ^ 26 \<and> unat k1 < 2 ^ 26 \<and> unat k2 < 2 ^ 26 \<and> unat k3 < 2 ^ 26 \<and> unat k4 < 2 ^ 26"
proof -
  obtain h0 h1 h2 h3 h4 where h: "h = (h0, h1, h2, h3, h4)" by (cases h)
  have b: "unat h0 < 2 ^ 26" "unat h1 < 2 ^ 26 + 64" "unat h2 < 2 ^ 26" "unat h3 < 2 ^ 26" "unat h4 < 2 ^ 26"
    using assms by (simp_all add: h)
  define a2 where "a2 = h2 + drop_bit 26 h1"
  define a3 where "a3 = h3 + drop_bit 26 a2"
  define a4 where "a4 = h4 + drop_bit 26 a3"
  define a0 where "a0 = h0 + drop_bit 26 a4 * 5"
  define a1 where "a1 = (h1 AND 0x3ffffff) + drop_bit 26 a0"
  have res: "poly_full_carry h = (a0 AND 0x3ffffff, a1, a2 AND 0x3ffffff, a3 AND 0x3ffffff, a4 AND 0x3ffffff)"
    unfolding poly_full_carry_def h a1_def a0_def a4_def a3_def a2_def Let_def by simp
  have q1: "unat h1 div 2 ^ 26 \<le> 1" using b(2) by (simp add: div_le_mono [of _ "2 ^ 26 + 64" "2 ^ 26", simplified] less_imp_le)
  have add: "unat x < 2 ^ 26 \<Longrightarrow> unat y div 2 ^ 26 \<le> 1 \<Longrightarrow> unat (x + drop_bit 26 y) = unat x + unat y div 2 ^ 26" for x y :: u32
    unfolding unat_drop [symmetric] by (rule unat_add_limb) (simp_all add: unat_drop)
  have lt: "unat x + q \<le> 2 ^ 26 \<Longrightarrow> (unat x + q) div 2 ^ 26 \<le> 1" for x :: u32 and q
    using div_le_mono [of "unat x + q" "2 ^ 26" "2 ^ 26"] by simp
  have v2: "unat a2 = unat h2 + unat h1 div 2 ^ 26" unfolding a2_def by (rule add [OF b(3) q1])
  have q2: "unat a2 div 2 ^ 26 \<le> 1" unfolding v2 by (rule lt) (use b(3) q1 in simp)
  have v3: "unat a3 = unat h3 + unat a2 div 2 ^ 26" unfolding a3_def by (rule add [OF b(4) q2])
  have q3: "unat a3 div 2 ^ 26 \<le> 1" unfolding v3 by (rule lt) (use b(4) q2 in simp)
  have v4: "unat a4 = unat h4 + unat a3 div 2 ^ 26" unfolding a4_def by (rule add [OF b(5) q3])
  have q4: "unat a4 div 2 ^ 26 \<le> 1" unfolding v4 by (rule lt) (use b(5) q3 in simp)
  have m5: "unat (drop_bit 26 a4 * 5) = 5 * (unat a4 div 2 ^ 26)" using q4 by (simp add: unat_mult_nowrap unat_drop)
  have v0: "unat a0 = unat h0 + 5 * (unat a4 div 2 ^ 26)"
    unfolding a0_def m5 [symmetric] by (rule unat_add_limb) (use b(1) q4 m5 in simp_all)
  have q0: "unat a0 div 2 ^ 26 \<le> 1"
    using v0 b(1) q4 div_le_mono [of "unat a0" "2 ^ 26 + 5" "2 ^ 26"] by simp
  have v1: "unat a1 = unat h1 mod 2 ^ 26 + unat a0 div 2 ^ 26"
    unfolding a1_def unat_and_26 [symmetric] by (rule add) (use q0 in \<open>simp_all add: unat_and_26\<close>)
  have "lval (poly_full_carry h) + p1305 * (unat a4 div 2 ^ 26) = lval h"
    unfolding res unfolding lval_def h prod.case unat_and_26 v1
    by (rule carry_chain) (use b(1) v0 v2 v3 v4 in simp_all)
  then show "lval (poly_full_carry h) mod p1305 = lval h mod p1305" by (metis mod_mult_self2)
  have "unat a1 < 2 ^ 26"
  proof (cases "unat h1 < 2 ^ 26")
    case True
    then have "unat a2 = unat h2" using v2 by simp
    then have "unat a3 = unat h3" using v3 b(3) by simp
    then have "unat a4 = unat h4" using v4 b(4) by simp
    then have "unat a0 = unat h0" using v0 b(5) by simp
    then show ?thesis using v1 b(1) by simp
  next
    case False
    then have "unat h1 mod 2 ^ 26 = (unat h1 - 2 ^ 26) mod 2 ^ 26" by (simp add: le_mod_geq)
    moreover have "unat h1 - 2 ^ 26 < 64" using b(2) False by simp
    ultimately have "unat h1 mod 2 ^ 26 < 64" by simp
    then show ?thesis using v1 q0 by simp
  qed
  then show "\<exists>k0 k1 k2 k3 k4. poly_full_carry h = (k0, k1, k2, k3, k4) \<and>
    unat k0 < 2 ^ 26 \<and> unat k1 < 2 ^ 26 \<and> unat k2 < 2 ^ 26 \<and> unat k3 < 2 ^ 26 \<and> unat k4 < 2 ^ 26"
    unfolding res by (simp add: unat_and_26)
qed

lemma carry_sum:
  fixes g0 :: nat
  assumes "g1 = h1 + g0 div 2 ^ 26" "g2 = h2 + g1 div 2 ^ 26" "g3 = h3 + g2 div 2 ^ 26" "t4 = h4 + g3 div 2 ^ 26"
  shows "g0 + 2 ^ 26 * h1 + 2 ^ 52 * h2 + 2 ^ 78 * h3 + 2 ^ 104 * h4 =
    g0 mod 2 ^ 26 + 2 ^ 26 * (g1 mod 2 ^ 26) + 2 ^ 52 * (g2 mod 2 ^ 26) + 2 ^ 78 * (g3 mod 2 ^ 26) + 2 ^ 104 * t4"
proof -
  define q0 q1 q2 q3 m0 m1 m2 m3 where
    defs: "q0 = g0 div 2 ^ 26" "q1 = g1 div 2 ^ 26" "q2 = g2 div 2 ^ 26" "q3 = g3 div 2 ^ 26"
      "m0 = g0 mod 2 ^ 26" "m1 = g1 mod 2 ^ 26" "m2 = g2 mod 2 ^ 26" "m3 = g3 mod 2 ^ 26"
  have n: "g0 = m0 + 2 ^ 26 * q0" "m1 + 2 ^ 26 * q1 = h1 + q0" "m2 + 2 ^ 26 * q2 = h2 + q1" "m3 + 2 ^ 26 * q3 = h3 + q2"
    unfolding defs by (simp_all only: mod_mult_div_eq assms)
  note eq = n [THEN arg_cong [of _ _ int], unfolded of_nat_add of_nat_mult of_nat_power of_nat_numeral]
  have e: "int h1 = int m1 + 2 ^ 26 * int q1 - int q0" "int h2 = int m2 + 2 ^ 26 * int q2 - int q1" "int h3 = int m3 + 2 ^ 26 * int q3 - int q2"
    using eq(2-4) by auto
  have "int g0 + 2 ^ 26 * int h1 + 2 ^ 52 * int h2 + 2 ^ 78 * int h3 + 2 ^ 104 * int h4 =
      int m0 + 2 ^ 26 * int m1 + 2 ^ 52 * int m2 + 2 ^ 78 * int m3 + 2 ^ 104 * (int h4 + int q3)"
    unfolding eq(1) e by (simp add: algebra_simps)
  then have "int (g0 + 2 ^ 26 * h1 + 2 ^ 52 * h2 + 2 ^ 78 * h3 + 2 ^ 104 * h4) =
      int (m0 + 2 ^ 26 * m1 + 2 ^ 52 * m2 + 2 ^ 78 * m3 + 2 ^ 104 * (h4 + q3))"
    by (simp only: of_nat_add of_nat_mult of_nat_power of_nat_numeral)
  then show ?thesis unfolding defs assms(4) by (simp only: of_nat_eq_iff)
qed

lemma limbs4_lt:
  "a < 2 ^ 26 \<Longrightarrow> b < 2 ^ 26 \<Longrightarrow> c < 2 ^ 26 \<Longrightarrow> d < 2 ^ 26 \<Longrightarrow>
   a + 2 ^ 26 * b + 2 ^ 52 * c + 2 ^ 78 * d < (2 ^ 104 :: nat)"
  by simp

text \<open>The sign bit of \<open>g4\<close> decides; below the modulus the subtraction wraps.\<close>

lemma select_val:
  assumes b: "unat h0 < 2 ^ 26" "unat h1 < 2 ^ 26" "unat h2 < 2 ^ 26" "unat h3 < 2 ^ 26" "unat h4 < 2 ^ 26"
  shows "lval (poly_select (h0, h1, h2, h3, h4)) = lval (h0, h1, h2, h3, h4) mod p1305"
    and "\<exists>k0 k1 k2 k3 k4. poly_select (h0, h1, h2, h3, h4) = (k0, k1, k2, k3, k4) \<and>
      unat k0 < 2 ^ 26 \<and> unat k1 < 2 ^ 26 \<and> unat k2 < 2 ^ 26 \<and> unat k3 < 2 ^ 26 \<and> unat k4 < 2 ^ 26"
proof -
  define g0 where "g0 = h0 + 5"
  define g1 where "g1 = h1 + drop_bit 26 g0"
  define g2 where "g2 = h2 + drop_bit 26 g1"
  define g3 where "g3 = h3 + drop_bit 26 g2"
  define t4 where "t4 = h4 + drop_bit 26 g3"
  define mask where "mask = drop_bit 31 (t4 - push_bit 26 1) - (1 :: u32)"
  have add: "unat x < 2 ^ 26 \<Longrightarrow> unat y div 2 ^ 26 \<le> 1 \<Longrightarrow> unat (x + drop_bit 26 y) = unat x + unat y div 2 ^ 26" for x y :: u32
    unfolding unat_drop [symmetric] by (rule unat_add_limb) (simp_all add: unat_drop)
  have lt: "unat x + q \<le> 2 ^ 26 \<Longrightarrow> (unat x + q) div 2 ^ 26 \<le> 1" for x :: u32 and q
    using div_le_mono [of "unat x + q" "2 ^ 26" "2 ^ 26"] by simp
  have v0: "unat g0 = unat h0 + 5" unfolding g0_def using b(1) by (subst unat_add_limb) simp_all
  have q0: "unat g0 div 2 ^ 26 \<le> 1" using v0 b(1) div_le_mono [of "unat g0" "2 ^ 26 + 5" "2 ^ 26"] by simp
  have v1: "unat g1 = unat h1 + unat g0 div 2 ^ 26" unfolding g1_def by (rule add [OF b(2) q0])
  have q1: "unat g1 div 2 ^ 26 \<le> 1" unfolding v1 by (rule lt) (use b(2) q0 in simp)
  have v2: "unat g2 = unat h2 + unat g1 div 2 ^ 26" unfolding g2_def by (rule add [OF b(3) q1])
  have q2: "unat g2 div 2 ^ 26 \<le> 1" unfolding v2 by (rule lt) (use b(3) q1 in simp)
  have v3: "unat g3 = unat h3 + unat g2 div 2 ^ 26" unfolding g3_def by (rule add [OF b(4) q2])
  have q3: "unat g3 div 2 ^ 26 \<le> 1" unfolding v3 by (rule lt) (use b(4) q2 in simp)
  have v4: "unat t4 = unat h4 + unat g3 div 2 ^ 26" unfolding t4_def by (rule add [OF b(5) q3])
  have sum: "lval (h0, h1, h2, h3, h4) + 5 = unat g0 mod 2 ^ 26 + 2 ^ 26 * (unat g1 mod 2 ^ 26) + 2 ^ 52 * (unat g2 mod 2 ^ 26) +
      2 ^ 78 * (unat g3 mod 2 ^ 26) + 2 ^ 104 * unat t4"
    using carry_sum [OF v1 v2 v3 v4] unfolding lval_def prod.case v0 by simp
  have low: "unat g0 mod 2 ^ 26 + 2 ^ 26 * (unat g1 mod 2 ^ 26) + 2 ^ 52 * (unat g2 mod 2 ^ 26) + 2 ^ 78 * (unat g3 mod 2 ^ 26) < 2 ^ 104"
    by (rule limbs4_lt) simp_all
  have res: "poly_select (h0, h1, h2, h3, h4) = ((h0 AND NOT mask) OR (g0 AND 0x3ffffff AND mask), (h1 AND NOT mask) OR (g1 AND 0x3ffffff AND mask),
      (h2 AND NOT mask) OR (g2 AND 0x3ffffff AND mask), (h3 AND NOT mask) OR (g3 AND 0x3ffffff AND mask),
      (h4 AND NOT mask) OR ((t4 - push_bit 26 1) AND mask))"
    unfolding poly_select_def prod.case mask_def t4_def g3_def g2_def g1_def g0_def Let_def and.assoc by (rule refl)
  have p: "p1305 + 5 = 2 ^ 130" by (simp add: p1305_def)
  have 26: "unat (push_bit 26 1 :: u32) = 2 ^ 26" by (simp add: unat_push)
  have "lval (poly_select (h0, h1, h2, h3, h4)) = lval (h0, h1, h2, h3, h4) mod p1305 \<and> (\<exists>k0 k1 k2 k3 k4. poly_select (h0, h1, h2, h3, h4) = (k0, k1, k2, k3, k4) \<and>
      unat k0 < 2 ^ 26 \<and> unat k1 < 2 ^ 26 \<and> unat k2 < 2 ^ 26 \<and> unat k3 < 2 ^ 26 \<and> unat k4 < 2 ^ 26)"
  proof (cases "unat t4 < 2 ^ 26")
    case True
    have "unat (t4 - push_bit 26 1) = 2 ^ 32 + unat t4 - 2 ^ 26"
      using True 26 by (simp add: unat_sub_if_size word_size word_le_nat_alt)
    then have "unat (drop_bit 31 (t4 - push_bit 26 1)) = 1" using True by (simp add: unat_drop div_nat_eqI)
    then have "drop_bit 31 (t4 - push_bit 26 1) = 1" by (simp add: word_unat_eq_iff)
    then have mask: "mask = 0" by (simp add: mask_def)
    have "lval (h0, h1, h2, h3, h4) + 5 < 2 ^ 104 + 2 ^ 104 * unat t4" using sum low by simp
    also have "\<dots> \<le> 2 ^ 104 * 2 ^ 26" using True by simp
    finally have "lval (h0, h1, h2, h3, h4) < p1305" using p by simp
    then show ?thesis using b by (simp add: res mask)
  next
    case False
    then have t: "unat t4 = 2 ^ 26" using v4 b(5) q3 by simp
    then have "t4 = push_bit 26 1" using 26 by (simp only: word_unat_eq_iff)
    then have z: "t4 - push_bit 26 1 = 0" by simp
    then have mask: "mask = -1" by (simp add: mask_def)
    have l: "lval (h0, h1, h2, h3, h4) + 5 = lval (g0 AND 0x3ffffff, g1 AND 0x3ffffff, g2 AND 0x3ffffff, g3 AND 0x3ffffff, 0) + 2 ^ 130"
      using sum t by (simp add: lval_def unat_and_26)
    have "lval (g0 AND 0x3ffffff, g1 AND 0x3ffffff, g2 AND 0x3ffffff, g3 AND 0x3ffffff, 0) < 2 ^ 104"
      using low by (simp add: lval_def unat_and_26)
    moreover have "(2 :: nat) ^ 104 \<le> p1305" by (simp add: p1305_def)
    moreover have "lval (h0, h1, h2, h3, h4) =
        lval (g0 AND 0x3ffffff, g1 AND 0x3ffffff, g2 AND 0x3ffffff, g3 AND 0x3ffffff, 0) + p1305"
      using l unfolding p [symmetric] add.assoc [symmetric] by (simp only: add_right_cancel)
    ultimately have "lval (h0, h1, h2, h3, h4) mod p1305 = lval (g0 AND 0x3ffffff, g1 AND 0x3ffffff, g2 AND 0x3ffffff, g3 AND 0x3ffffff, 0)"
      by (simp only: mod_add_self2 mod_less less_le_trans)
    then show ?thesis unfolding res mask z by (simp add: unat_and_26)
  qed
  then show "lval (poly_select (h0, h1, h2, h3, h4)) = lval (h0, h1, h2, h3, h4) mod p1305"
    and "\<exists>k0 k1 k2 k3 k4. poly_select (h0, h1, h2, h3, h4) = (k0, k1, k2, k3, k4) \<and>
      unat k0 < 2 ^ 26 \<and> unat k1 < 2 ^ 26 \<and> unat k2 < 2 ^ 26 \<and> unat k3 < 2 ^ 26 \<and> unat k4 < 2 ^ 26"
    by blast+
qed

section \<open>Serialising\<close>

definition wval :: "u32 \<times> u32 \<times> u32 \<times> u32 \<Rightarrow> nat" where
  "wval = (\<lambda>(w0, w1, w2, w3). unat w0 + 2 ^ 32 * unat w1 + 2 ^ 64 * unat w2 + 2 ^ 96 * unat w3)"

lemma wval_lt: "wval w < 2 ^ 128"
proof -
  obtain w0 w1 w2 w3 where w: "w = (w0, w1, w2, w3)" by (cases w)
  show ?thesis using unat_lt32 [of w0] unat_lt32 [of w1] unat_lt32 [of w2] unat_lt32 [of w3] by (simp add: wval_def w)
qed

lemma pack_val:
  assumes b: "unat h0 < 2 ^ 26" "unat h1 < 2 ^ 26" "unat h2 < 2 ^ 26" "unat h3 < 2 ^ 26" "unat h4 < 2 ^ 26"
  shows "wval (poly_pack (h0, h1, h2, h3, h4)) = lval (h0, h1, h2, h3, h4) mod 2 ^ 128"
proof -
  define a1 a2 a3 a4 c1 c2 c3 c4 where
    defs: "a1 = unat h1 mod 2 ^ 6" "a2 = unat h2 mod 2 ^ 12" "a3 = unat h3 mod 2 ^ 18" "a4 = unat h4 mod 2 ^ 24"
      "c1 = unat h1 div 2 ^ 6" "c2 = unat h2 div 2 ^ 12" "c3 = unat h3 div 2 ^ 18" "c4 = unat h4 div 2 ^ 24"
  have c: "c1 < 2 ^ 20" "c2 < 2 ^ 14" "c3 < 2 ^ 8"
    unfolding defs using b by (simp_all add: less_mult_imp_div_less)
  have w: "unat (h0 OR push_bit 26 h1) = unat h0 + 2 ^ 26 * a1" "unat (drop_bit 6 h1 OR push_bit 20 h2) = c1 + 2 ^ 20 * a2"
    "unat (drop_bit 12 h2 OR push_bit 14 h3) = c2 + 2 ^ 14 * a3" "unat (drop_bit 18 h3 OR push_bit 8 h4) = c3 + 2 ^ 8 * a4"
    using unat_or_push [of 26 h0 h1] unat_or_push [of 20 "drop_bit 6 h1" h2] unat_or_push [of 14 "drop_bit 12 h2" h3]
      unat_or_push [of 8 "drop_bit 18 h3" h4] b(1) c by (simp_all add: defs unat_drop)
  have h: "unat h1 = a1 + 2 ^ 6 * c1" "unat h2 = a2 + 2 ^ 12 * c2" "unat h3 = a3 + 2 ^ 18 * c3" "unat h4 = a4 + 2 ^ 24 * c4"
    unfolding defs by (simp_all only: mod_mult_div_eq)
  have "lval (h0, h1, h2, h3, h4) = wval (poly_pack (h0, h1, h2, h3, h4)) + 2 ^ 128 * c4"
    unfolding lval_def wval_def poly_pack_def prod.case w h by (simp add: algebra_simps)
  then show ?thesis using wval_lt [of "poly_pack (h0, h1, h2, h3, h4)"] by simp
qed

lemma le_nat_u32to8le: "le_nat (u32to8le v) = unat v"
proof -
  have "u32to8le v = aegis_put_u32le v"
    by (simp add: u32to8le_def aegis_put_u32le_def le_put_def numeral_eq_Suc)
  moreover have "aegis_get_u32le = u8to32le" by (rule ext) (simp add: aegis_get_u32le_def u8to32le_def)
  ultimately have "u8to32le (u32to8le v) = v" by (metis get_put_u32le')
  then show ?thesis using unat_u8to32le [of "u32to8le v"] by simp
qed

lemma le_nat_words: "le_nat (u32to8le a @ u32to8le b @ u32to8le c @ u32to8le d) = wval (a, b, c, d)"
  by (simp add: wval_def le_nat_append le_nat_u32to8le)

lemma pad_chain:
  fixes f0 f1 f2 f3 :: nat
  assumes "f0 = w0 + p0" "f1 = w1 + p1 + f0 div 2 ^ 32" "f2 = w2 + p2 + f1 div 2 ^ 32" "f3 = w3 + p3 + f2 div 2 ^ 32"
  shows "(w0 + 2 ^ 32 * w1 + 2 ^ 64 * w2 + 2 ^ 96 * w3) + (p0 + 2 ^ 32 * p1 + 2 ^ 64 * p2 + 2 ^ 96 * p3) =
    f0 mod 2 ^ 32 + 2 ^ 32 * (f1 mod 2 ^ 32) + 2 ^ 64 * (f2 mod 2 ^ 32) + 2 ^ 96 * (f3 mod 2 ^ 32) + 2 ^ 128 * (f3 div 2 ^ 32)"
proof -
  define q0 q1 q2 q3 m0 m1 m2 m3 where
    defs: "q0 = f0 div 2 ^ 32" "q1 = f1 div 2 ^ 32" "q2 = f2 div 2 ^ 32" "q3 = f3 div 2 ^ 32"
      "m0 = f0 mod 2 ^ 32" "m1 = f1 mod 2 ^ 32" "m2 = f2 mod 2 ^ 32" "m3 = f3 mod 2 ^ 32"
  have n: "m0 + 2 ^ 32 * q0 = w0 + p0" "m1 + 2 ^ 32 * q1 = w1 + p1 + q0" "m2 + 2 ^ 32 * q2 = w2 + p2 + q1"
    "m3 + 2 ^ 32 * q3 = w3 + p3 + q2"
    unfolding defs by (simp_all only: mod_mult_div_eq assms)
  note eq = n [THEN arg_cong [of _ _ int], unfolded of_nat_add of_nat_mult of_nat_power of_nat_numeral]
  have e: "int w0 = int m0 + 2 ^ 32 * int q0 - int p0" "int w1 = int m1 + 2 ^ 32 * int q1 - int p1 - int q0"
    "int w2 = int m2 + 2 ^ 32 * int q2 - int p2 - int q1" "int w3 = int m3 + 2 ^ 32 * int q3 - int p3 - int q2"
    using eq by auto
  have "(int w0 + 2 ^ 32 * int w1 + 2 ^ 64 * int w2 + 2 ^ 96 * int w3) + (int p0 + 2 ^ 32 * int p1 + 2 ^ 64 * int p2 + 2 ^ 96 * int p3) =
      int m0 + 2 ^ 32 * int m1 + 2 ^ 64 * int m2 + 2 ^ 96 * int m3 + 2 ^ 128 * int q3"
    unfolding e by (simp add: algebra_simps)
  then have "int ((w0 + 2 ^ 32 * w1 + 2 ^ 64 * w2 + 2 ^ 96 * w3) + (p0 + 2 ^ 32 * p1 + 2 ^ 64 * p2 + 2 ^ 96 * p3)) =
      int (m0 + 2 ^ 32 * m1 + 2 ^ 64 * m2 + 2 ^ 96 * m3 + 2 ^ 128 * q3)"
    by (simp only: of_nat_add of_nat_mult of_nat_power of_nat_numeral)
  then show ?thesis unfolding defs by (simp only: of_nat_eq_iff)
qed

lemma add_pad_val: "le_nat (poly_add_pad pad w) = (wval w + wval pad) mod 2 ^ 128"
proof -
  obtain w0 w1 w2 w3 where w: "w = (w0, w1, w2, w3)" by (cases w)
  obtain p0 p1 p2 p3 where p: "pad = (p0, p1, p2, p3)" by (cases pad)
  define f0 where "f0 = (ucast w0 + ucast p0 :: u64)"
  define f1 where "f1 = (ucast w1 + ucast p1 + drop_bit 32 f0 :: u64)"
  define f2 where "f2 = (ucast w2 + ucast p2 + drop_bit 32 f1 :: u64)"
  define f3 where "f3 = (ucast w3 + ucast p3 + drop_bit 32 f2 :: u64)"
  have res: "poly_add_pad pad w = u32to8le (ucast f0) @ u32to8le (ucast f1) @ u32to8le (ucast f2) @ u32to8le (ucast f3)"
    unfolding poly_add_pad_def w p prod.case f0_def f1_def f2_def f3_def Let_def by (rule refl)
  have up: "unat (ucast (x :: u32) :: u64) = unat x" for x by (rule unat_up) simp
  have down: "unat (ucast (x :: u64) :: u32) = unat x mod 2 ^ 32" for x by (simp add: unat_down)
  have two: "unat (ucast (x :: u32) + ucast (y :: u32) :: u64) = unat x + unat y" for x y
    using unat_lt32 [of x] unat_lt32 [of y] by (subst unat_add_nowrap) (simp_all add: up)
  have three: "unat (ucast x + ucast y + drop_bit 32 f :: u64) = unat x + unat y + unat f div 2 ^ 32" for x y :: u32 and f :: u64
  proof -
    have "unat f < 2 ^ 64" using unat_lt [of f] by simp
    then have "unat f div 2 ^ 32 < 2 ^ 32" by (simp add: less_mult_imp_div_less)
    then show ?thesis using unat_lt32 [of x] unat_lt32 [of y] by (subst unat_add_nowrap) (simp_all add: two unat_drop)
  qed
  have v: "unat f0 = unat w0 + unat p0" "unat f1 = unat w1 + unat p1 + unat f0 div 2 ^ 32"
    "unat f2 = unat w2 + unat p2 + unat f1 div 2 ^ 32" "unat f3 = unat w3 + unat p3 + unat f2 div 2 ^ 32"
    unfolding f3_def f2_def f1_def f0_def by (simp_all only: two three)
  have bytes: "le_nat (poly_add_pad pad w) = unat f0 mod 2 ^ 32 + 2 ^ 32 * (unat f1 mod 2 ^ 32) +
      2 ^ 64 * (unat f2 mod 2 ^ 32) + 2 ^ 96 * (unat f3 mod 2 ^ 32)"
    unfolding res le_nat_words wval_def prod.case down by (rule refl)
  have "wval w + wval pad = le_nat (poly_add_pad pad w) + 2 ^ 128 * (unat f3 div 2 ^ 32)"
    unfolding bytes unfolding wval_def w p prod.case by (rule pad_chain [OF v])
  moreover have "le_nat (poly_add_pad pad w) < 2 ^ 128"
    using le_nat_lt [of "poly_add_pad pad w"] by (simp add: res)
  ultimately show ?thesis by simp
qed

section \<open>The key\<close>

lemma and_low: "m < 2 ^ 26 \<Longrightarrow> x AND m = x mod 2 ^ 26 AND (m :: nat)"
proof -
  assume "m < 2 ^ 26"
  then have "take_bit 26 m = m" by (rule take_bit_nat_eq_self)
  then have "x AND m = take_bit 26 x AND m" by (metis take_bit_and take_bit_tightened_less_eq_nat and.assoc and.idem and.commute take_bit_eq_mask)
  then show ?thesis by (simp only: take_bit_eq_mod)
qed

lemma limb_nat_and: "limb_nat (a AND b) i = limb_nat a i AND limb_nat b i"
  and div_and: "(a AND b) div 2 ^ n = a div 2 ^ n AND (b div 2 ^ n :: nat)"
  unfolding limb_nat_def by (simp_all only: take_bit_eq_mod [symmetric] drop_bit_eq_div [symmetric] drop_bit_and take_bit_and)

lemma and_lt: "a < 2 ^ n \<Longrightarrow> a AND b < (2 ^ n :: nat)"
  by (metis take_bit_and take_bit_nat_eq_self take_bit_nat_less_exp and.assoc and.commute take_bit_eq_mask)

lemma init_r:
  assumes "16 \<le> length key"
  shows "limbs_r (pc_r (poly1305_init key))" and "lval (pc_r (poly1305_init key)) = clamp (le_nat (take 16 key))"
proof -
  define N where "N = le_nat (take 16 key)"
  note l = load_limbs [OF assms N_def]
  define C :: nat where "C = 0x0ffffffc0ffffffc0ffffffc0fffffff"
  have c: "limb_nat C 0 = 0x3ffffff" "limb_nat C 1 = 0x3ffff03" "limb_nat C 2 = 0x3ffc0ff" "limb_nat C 3 = 0x3f03fff" "C div 2 ^ 104 = 0x00fffff"
    by (simp_all add: C_def limb_nat_def)
  have u: "unat (u8to32le key AND 0x3ffffff) = limb_nat N 0 AND limb_nat C 0"
    "unat (drop_bit 2 (u8to32le (drop 3 key)) AND 0x3ffff03) = limb_nat N 1 AND limb_nat C 1"
    "unat (drop_bit 4 (u8to32le (drop 6 key)) AND 0x3ffc0ff) = limb_nat N 2 AND limb_nat C 2"
    "unat (drop_bit 6 (u8to32le (drop 9 key)) AND 0x3f03fff) = limb_nat N 3 AND limb_nat C 3"
    unfolding c l [symmetric] unsigned_and_eq unat_drop
    by (subst and_low; simp)+
  have u4: "unat (drop_bit 8 (u8to32le (drop 12 key)) AND 0x00fffff) = N div 2 ^ 104 AND C div 2 ^ 104"
    unfolding c l(5) [symmetric] unsigned_and_eq unat_drop by simp
  have "N < 2 ^ 128" using le_nat_lt [of "take 16 key"] assms by (simp add: N_def)
  then have "N div 2 ^ 104 < 2 ^ 26" by (simp add: less_mult_imp_div_less)
  then show "limbs_r (pc_r (poly1305_init key))"
    unfolding poly1305_init_def poly1305_ctx.select_convs limbs_r.simps u u4
    by (intro conjI and_lt limb_nat_lt)
  have "N AND C = limb_nat (N AND C) 0 + 2 ^ 26 * limb_nat (N AND C) 1 + 2 ^ 52 * limb_nat (N AND C) 2 + 2 ^ 78 * limb_nat (N AND C) 3 +
      2 ^ 104 * ((N AND C) div 2 ^ 104)" by (rule limb_sum)
  then show "lval (pc_r (poly1305_init key)) = clamp (le_nat (take 16 key))"
    unfolding poly1305_init_def poly1305_ctx.select_convs lval_def prod.case u u4 clamp_def N_def [symmetric] C_def [symmetric]
      limb_nat_and div_and by (rule sym)
qed

lemma init_pad:
  assumes "length key = 32"
  shows "wval (pc_pad (poly1305_init key)) = le_nat (drop 16 key)"
proof -
  have f: "unat (u8to32le (drop k key)) = le_nat (take 4 (drop k key))" if "k + 4 \<le> 32" for k
    using unat_u8to32le [of "drop k key"] assms that by simp
  have s: "le_nat (drop k key) = le_nat (take 4 (drop k key)) + 2 ^ 32 * le_nat (drop (k + 4) key)" if "k + 4 \<le> 32" for k
  proof -
    have e: "drop k key = take 4 (drop k key) @ drop (k + 4) key" by (metis append_take_drop_id drop_drop add.commute)
    have "length (take 4 (drop k key)) = 4" using assms that by simp
    then show ?thesis by (subst e) (simp only: le_nat_append, simp)
  qed
  have e: "le_nat (drop 16 key) = le_nat (take 4 (drop 16 key)) + 2 ^ 32 * le_nat (drop 20 key)"
    "le_nat (drop 20 key) = le_nat (take 4 (drop 20 key)) + 2 ^ 32 * le_nat (drop 24 key)"
    "le_nat (drop 24 key) = le_nat (take 4 (drop 24 key)) + 2 ^ 32 * le_nat (drop 28 key)"
    using s [of 16] s [of 20] s [of 24] by (simp_all only: arith_simps)
  have l: "le_nat (drop 28 key) = le_nat (take 4 (drop 28 key))" using assms by simp
  show ?thesis
    unfolding e l poly1305_init_def poly1305_ctx.select_convs wval_def prod.case f [of 16, simplified] f [of 20, simplified]
      f [of 24, simplified] f [of 28, simplified] by simp
qed

section \<open>Streaming\<close>

lemma poly_add_append: "16 \<le> length a \<Longrightarrow> poly_add hibit (a @ b) h = poly_add hibit a h"
proof -
  assume l: "16 \<le> length a"
  moreover from l have "a \<noteq> []" by auto
  ultimately have f: "u8to32le (a @ b) = u8to32le a" "u8to32le (drop 3 (a @ b)) = u8to32le (drop 3 a)"
    "u8to32le (drop 6 (a @ b)) = u8to32le (drop 6 a)" "u8to32le (drop 9 (a @ b)) = u8to32le (drop 9 a)"
    "u8to32le (drop 12 (a @ b)) = u8to32le (drop 12 a)"
    by (simp_all add: u8to32le_def nth_append)
  show ?thesis by (cases h) (simp only: poly_add_def prod.case f)
qed

lemma poly_loop_append:
  "16 dvd length a \<Longrightarrow> poly_loop hibit r h (a @ b) = poly_loop hibit r (poly_loop hibit r h a) b"
proof (induction hibit r h a rule: poly_loop.induct)
  case (1 hibit r h a)
  show ?case
  proof (cases "a = []")
    case True
    then show ?thesis by (simp add: poly_loop.simps [of _ _ h "[]"])
  next
    case False
    with 1(2) have l: "16 \<le> length a" by (simp add: dvd_imp_le)
    moreover have "16 dvd length (drop 16 a)" using 1(2) l by (simp add: dvd_diff_nat)
    ultimately show ?thesis
      using 1(1) by (simp add: poly_loop.simps [of _ _ h "a @ b"] poly_loop.simps [of _ _ h a] poly_add_append)
  qed
qed

abbreviation whole :: "bytes \<Rightarrow> nat" where
  "whole m \<equiv> 16 * (length m div 16)"

text \<open>The state after the message \<open>m\<close> has been fed, however it was cut.\<close>

definition poly_rep :: "bytes \<Rightarrow> bytes \<Rightarrow> poly1305_ctx \<Rightarrow> bool" where
  "poly_rep key m st \<longleftrightarrow>
     st = (poly1305_init key)\<lparr>pc_h := poly_loop hibit24 (pc_r (poly1305_init key)) (0, 0, 0, 0, 0) (take (whole m) m),
       pc_buffer := drop (whole m) m\<rparr>"

lemma init_fields: "pc_final (poly1305_init key) = False" "pc_h (poly1305_init key) = (0, 0, 0, 0, 0)" "pc_buffer (poly1305_init key) = []"
  by (simp_all add: poly1305_init_def)

lemma rep_init: "poly_rep key [] (poly1305_init key)"
  by (simp add: poly_rep_def poly_loop.simps poly1305_init_def)

lemma tail_rep:
  assumes "poly_rep key m st" and "16 dvd length m"
  shows "poly_rep key (m @ m') (poly1305_update_tail st m')"
proof -
  obtain k where k: "length m = 16 * k" using assms(2) by (elim dvdE)
  have w: "whole m = length m" and w': "whole (m @ m') = length m + whole m'" by (simp_all add: k)
  let ?h = "\<lambda>x. poly_loop hibit24 (pc_r (poly1305_init key)) (0, 0, 0, 0, 0) x"
  have st: "st = (poly1305_init key)\<lparr>pc_h := ?h m, pc_buffer := []\<rparr>" using assms(1) by (simp add: poly_rep_def w)
  have "poly1305_update_tail st m' = (poly1305_init key)\<lparr>pc_h := ?h (m @ take (whole m') m'), pc_buffer := drop (whole m') m'\<rparr>"
    unfolding st poly1305_update_tail_def Let_def poly1305_blocks_def
    using assms(2) by (cases "16 \<le> length m'") (auto simp: init_fields poly_loop_append not_le)
  then show ?thesis unfolding poly_rep_def w' by simp
qed

lemma rep_parts:
  "poly_rep key m st \<longleftrightarrow> (\<exists>A B k. m = A @ B \<and> length A = 16 * k \<and> length B < 16 \<and>
    st = (poly1305_init key)\<lparr>pc_h := poly_loop hibit24 (pc_r (poly1305_init key)) (0, 0, 0, 0, 0) A, pc_buffer := B\<rparr>)"
  (is "_ \<longleftrightarrow> (\<exists>A B k. ?P A B k)")
proof
  assume r: "poly_rep key m st"
  have "length (drop (whole m) m) < 16" using mod_less_divisor [of 16 "length m"] by (simp add: minus_mult_div_eq_mod)
  moreover have "whole m \<le> length m" by simp
  ultimately have "?P (take (whole m) m) (drop (whole m) m) (length m div 16)" using r by (simp add: poly_rep_def min_absorb2)
  then show "\<exists>A B k. ?P A B k" by blast
next
  assume "\<exists>A B k. ?P A B k"
  then obtain A B k where p: "?P A B k" by blast
  then have "length m = 16 * k + length B" "length B < 16" by auto
  then have "length m div 16 = k" by simp
  with p show "poly_rep key m st" unfolding poly_rep_def by simp
qed

lemma update_rep:
  assumes "poly_rep key m st"
  shows "poly_rep key (m @ m') (poly1305_update st m')"
proof -
  let ?h = "\<lambda>x. poly_loop hibit24 (pc_r (poly1305_init key)) (0, 0, 0, 0, 0) x"
  obtain A B k where m: "m = A @ B" and lA: "length A = 16 * k" and lB: "length B < 16"
    and st: "st = (poly1305_init key)\<lparr>pc_h := ?h A, pc_buffer := B\<rparr>"
    using assms unfolding rep_parts by blast
  show ?thesis
  proof (cases "B = []")
    case True
    then have "16 dvd length m" using lA m by simp
    then show ?thesis using tail_rep [OF assms] True by (simp add: poly1305_update_def st)
  next
    case False
    define want where "want = min (16 - length B) (length m')"
    define buf where "buf = B @ take want m'"
    have up: "poly1305_update st m' = (if length buf < 16 then st\<lparr>pc_buffer := buf\<rparr>
        else poly1305_update_tail ((poly1305_blocks (st\<lparr>pc_buffer := buf\<rparr>) buf)\<lparr>pc_buffer := []\<rparr>) (drop want m'))"
      using False by (simp add: poly1305_update_def st want_def buf_def Let_def)
    show ?thesis
    proof (cases "length buf < 16")
      case True
      then have all: "take want m' = m'" using lB by (simp add: buf_def want_def min_def split: if_splits)
      show ?thesis unfolding rep_parts up
        by (intro exI [of _ A] exI [of _ buf] exI [of _ k]) (use True all in \<open>simp add: m lA st buf_def\<close>)
    next
      case b16: False
      then have len: "length buf = 16" using lB by (auto simp: buf_def want_def)
      let ?st = "(poly1305_blocks (st\<lparr>pc_buffer := buf\<rparr>) buf)\<lparr>pc_buffer := []\<rparr>"
      have loop: "?h (A @ buf) = poly_loop hibit24 (pc_r (poly1305_init key)) (?h A) buf"
        by (rule poly_loop_append) (simp add: lA)
      have split: "m @ take want m' = A @ buf" by (simp add: m buf_def)
      have "poly_rep key (A @ buf) ?st" unfolding rep_parts
        by (intro exI [of _ "A @ buf"] exI [of _ "[]"] exI [of _ "Suc k"])
          (simp add: len lA loop poly1305_blocks_def st init_fields)
      from tail_rep [OF this, of "drop want m'"] show ?thesis
        using b16 len lA split by (simp add: up) (metis append.assoc append_take_drop_id)
    qed
  qed
qed

section \<open>The loop computes the polynomial\<close>

lemma add_mul_mod: "(a mod p + x) * r mod p = (a + x) * r mod (p :: nat)"
  by (metis mod_add_left_eq mod_mult_left_eq)

lemma loop_spec:
  assumes "limbs_r r" and "limbs_ok h" and "length a = 16 * k"
  shows "limbs_ok (poly_loop hibit24 r h a) \<and>
    poly_spec (lval r) (lval h mod p1305) (a @ b) = poly_spec (lval r) (lval (poly_loop hibit24 r h a) mod p1305) b"
  using assms(2,3)
proof (induction k arbitrary: h a)
  case 0
  then show ?case by (simp add: poly_loop.simps)
next
  case (Suc k)
  define h' where "h' = poly_carry (poly_mul r (poly_add hibit24 a h))"
  have l: "16 \<le> length a" "a \<noteq> []" using Suc.prems(2) by auto
  note v = poly_block_val [OF assms(1) Suc.prems(1) l(1), of hibit24, folded h'_def]
  have hi: "2 ^ 104 * unat hibit24 = 256 ^ 16" by (simp add: hibit24_def unat_push)
  have one: "le_nat (take 16 a @ [1]) = le_nat (take 16 a) + 2 ^ 104 * unat hibit24"
    unfolding hi using l(1) by (simp add: le_nat_append)
  have "poly_spec (lval r) (lval h mod p1305) (a @ b) =
      poly_spec (lval r) ((lval h mod p1305 + le_nat (take 16 a @ [1])) * lval r mod p1305) (drop 16 a @ b)"
    using l by (simp add: poly_spec.simps [of _ _ "a @ b"])
  also have "(lval h mod p1305 + le_nat (take 16 a @ [1])) * lval r mod p1305 = lval h' mod p1305"
    unfolding one add_mul_mod using v(2) by simp
  finally have step: "poly_spec (lval r) (lval h mod p1305) (a @ b) = poly_spec (lval r) (lval h' mod p1305) (drop 16 a @ b)" .
  have loop: "poly_loop hibit24 r h a = poly_loop hibit24 r h' (drop 16 a)"
    using l by (simp add: poly_loop.simps [of _ _ h a] h'_def)
  show ?case unfolding step loop by (rule Suc.IH) (use v(1) Suc.prems(2) in simp_all)
qed

lemma poly_loop_16: "length b = 16 \<Longrightarrow> poly_loop hibit r h b = poly_carry (poly_mul r (poly_add hibit b h))"
  by (simp add: poly_loop.simps [of _ _ h b] poly_loop.simps [of _ _ _ "[]"])

lemma le_nat_zeros: "le_nat (b @ replicate n 0) = le_nat b"
proof -
  have "le_nat (replicate n 0) = 0" by (induction n) simp_all
  then show ?thesis by (simp add: le_nat_append)
qed

lemma poly_spec_lt: "a < p1305 \<Longrightarrow> poly_spec r a m < p1305"
proof (induction r a m rule: poly_spec.induct)
  case (1 r a m)
  have "0 < p1305" by (simp add: p1305_def)
  with 1 show ?case by (cases "m = []") (simp_all add: poly_spec.simps [of r a m] poly_spec.simps [of r a "[]"])
qed

lemma finish_spec:
  assumes "poly_rep key m st" and "length key = 32"
  shows "le_nat (poly1305_finish st) = (poly_spec (clamp (le_nat (take 16 key))) 0 m + le_nat (drop 16 key)) mod 2 ^ 128"
    and "length (poly1305_finish st) = 16"
proof -
  let ?r = "pc_r (poly1305_init key)" and ?R = "clamp (le_nat (take 16 key))"
  have r: "limbs_r ?r" "lval ?r = ?R" using init_r [of key] assms(2) by simp_all
  have zero: "limbs_ok (0, 0, 0, 0, 0)" "lval (0, 0, 0, 0, 0) mod p1305 = 0" by (simp_all add: lval_def)
  obtain A B k where m: "m = A @ B" and lA: "length A = 16 * k" and lB: "length B < 16"
    and st: "st = (poly1305_init key)\<lparr>pc_h := poly_loop hibit24 ?r (0, 0, 0, 0, 0) A, pc_buffer := B\<rparr>"
    using assms(1) unfolding rep_parts by blast
  define h where "h = poly_loop hibit24 ?r (0, 0, 0, 0, 0) A"
  have h: "limbs_ok h" "poly_spec ?R 0 m = poly_spec ?R (lval h mod p1305) B"
    using loop_spec [OF r(1) zero(1) lA, of B] unfolding r(2) zero(2) m h_def by blast+
  define f where "f = (if B = [] then h else poly_loop 0 ?r h (B @ [1] @ replicate (15 - length B) 0))"
  have f: "limbs_ok f \<and> lval f mod p1305 = poly_spec ?R 0 m mod p1305"
  proof (cases "B = []")
    case True
    then show ?thesis using h by (simp add: f_def poly_spec.simps [of _ _ "[]"])
  next
    case False
    let ?b = "B @ [1] @ replicate (15 - length B) 0"
    have lb: "length ?b = 16" using lB by simp
    then have "f = poly_carry (poly_mul ?r (poly_add 0 ?b h))"
      using False poly_loop_16 [OF lb] by (simp add: f_def)
    moreover have "le_nat (take 16 ?b) = le_nat (B @ [1])" using lb le_nat_zeros [of "B @ [1]"] by simp
    ultimately have v: "limbs_ok f" "lval f mod p1305 = (lval h + le_nat (B @ [1])) * ?R mod p1305"
      using poly_block_val [OF r(1) h(1), of ?b 0] lb unfolding r(2) by simp_all
    have "poly_spec ?R 0 m = (lval h mod p1305 + le_nat (B @ [1])) * ?R mod p1305"
      unfolding h(2) using False lB by (simp add: poly_spec.simps [of _ _ B] poly_spec.simps [of _ _ "[]"])
    then show ?thesis using v unfolding add_mul_mod by simp
  qed
  have fin: "poly1305_finish st = poly_add_pad (pc_pad (poly1305_init key)) (poly_pack (poly_select (poly_full_carry f)))"
    unfolding poly1305_finish_def st f_def h_def
    by (simp add: poly1305_blocks_def Let_def)
  obtain k0 k1 k2 k3 k4 where k: "poly_full_carry f = (k0, k1, k2, k3, k4)"
      "unat k0 < 2 ^ 26" "unat k1 < 2 ^ 26" "unat k2 < 2 ^ 26" "unat k3 < 2 ^ 26" "unat k4 < 2 ^ 26"
    using full_carry_val(2) f by blast
  note sel = select_val [OF k(2-6)]
  obtain j0 j1 j2 j3 j4 where j: "poly_select (k0, k1, k2, k3, k4) = (j0, j1, j2, j3, j4)"
      "unat j0 < 2 ^ 26" "unat j1 < 2 ^ 26" "unat j2 < 2 ^ 26" "unat j3 < 2 ^ 26" "unat j4 < 2 ^ 26"
    using sel(2) by blast
  have small: "poly_spec ?R 0 m mod p1305 = poly_spec ?R 0 m" by (rule mod_less) (rule poly_spec_lt, simp add: p1305_def)
  have "lval (j0, j1, j2, j3, j4) = poly_spec ?R 0 m"
    using sel(1) full_carry_val(1) [of f] f small unfolding j(1) k(1) by simp
  then show "le_nat (poly1305_finish st) = (poly_spec ?R 0 m + le_nat (drop 16 key)) mod 2 ^ 128"
    unfolding fin k(1) j(1) add_pad_val pack_val [OF j(2-6)] init_pad [OF assms(2)] by (simp only: mod_simps)
  show "length (poly1305_finish st) = 16"
    unfolding fin by (simp add: poly_add_pad_def Let_def split: prod.split)
qed

section \<open>Properties\<close>

text \<open>
  C33. For every 32-byte key and every message, cut into updates in any way, the 16-byte tag that the
  26-bit limb code produces is the little-endian encoding of the polynomial of RFC 8439 evaluated on
  whole numbers: each 16-byte block with a one appended is added and the sum multiplied by the clamped
  first half of the key modulo \<open>2 ^ 130 - 5\<close>, and the second half is added modulo \<open>2 ^ 128\<close>. No
  32-bit sum, 64-bit product sum or carry on the way overflows.
\<close>

theorem poly1305_correct:
  assumes "length key = 32"
  shows "le_nat (poly1305_finish (fold (\<lambda>m st. poly1305_update st m) ms (poly1305_init key))) =
      (poly_spec (clamp (le_nat (take 16 key))) 0 (concat ms) + le_nat (drop 16 key)) mod 2 ^ 128 \<and>
    length (poly1305_finish (fold (\<lambda>m st. poly1305_update st m) ms (poly1305_init key))) = 16"
proof -
  have "poly_rep key (m @ concat ms) (fold (\<lambda>m st. poly1305_update st m) ms st)" if "poly_rep key m st" for m st
    using that
  proof (induction ms arbitrary: m st)
    case (Cons x ms)
    from Cons.IH [OF update_rep [OF Cons.prems, of x]] show ?case by simp
  qed simp
  from finish_spec [OF this [OF rep_init] assms] show ?thesis by simp
qed

definition sample_key :: bytes where
  "sample_key = [2, 0, 0, 0, 0, 0, 0, 0, 0, 0, 0, 0, 0, 0, 0, 0, 3, 0, 0, 0, 0, 0, 0, 0, 0, 0, 0, 0, 0, 0, 0, 0]"

theorem poly1305_correct_witness:
  "le_nat (poly1305_finish (poly1305_update (poly1305_update (poly1305_init sample_key) [7]) [])) = 529"
proof -
  have k: "length sample_key = 32" "le_nat (take 16 sample_key) = 2" "le_nat (drop 16 sample_key) = 3"
    by (simp_all add: sample_key_def)
  have "clamp 2 = 2" by (simp add: clamp_def)
  moreover have "poly_spec 2 0 [7] = 526" by (simp add: poly_spec.simps p1305_def)
  ultimately show ?thesis
    using poly1305_correct [OF k(1), of "[[7], []]"] unfolding k by simp
qed

end
