(* ===== verification/Aead.thy ===== *)
theory Aead
  imports Poly1305
begin

text \<open>
  The XChaCha20-Poly1305 construction of \<^verbatim>\<open>src/src/util/chacha20poly1305.c\<close> over the two primitives:
  key and nonce set-up, the MAC over associated data, ciphertext and their lengths, \<^verbatim>\<open>aead_seal\<close> and
  \<^verbatim>\<open>aead_open\<close>. Keys have 32 bytes and nonces 24, as the array parameters of the source say. The
  result of \<^verbatim>\<open>aead_open\<close> is \<open>None\<close> for the return value \<open>-1\<close>, where the plaintext buffer is
  zeroed. The contract that the log and the checkpoints use is the locale \<open>envelope\<close>.
\<close>

section \<open>The construction\<close>

definition poly_pad16 :: "poly1305_ctx \<Rightarrow> nat \<Rightarrow> poly1305_ctx" where
  "poly_pad16 st len = (let rem = len mod 16 in if rem \<noteq> 0 then poly1305_update st (replicate (16 - rem) 0) else st)"

definition xchacha_setup :: "bytes \<Rightarrow> bytes \<Rightarrow> bytes \<times> bytes \<times> bytes" where
  "xchacha_setup key nonce =
     (let subkey = aegis_hchacha20 key nonce;
          cc_nonce = replicate 4 0 @ take 8 (drop 16 nonce);
          block0 = aegis_chacha20_block subkey 0 cc_nonce
      in (subkey, cc_nonce, take 32 block0))"

definition aead_mac :: "bytes \<Rightarrow> bytes \<Rightarrow> bytes \<Rightarrow> bytes" where
  "aead_mac polykey aad ct =
     (let st = poly1305_init polykey;
          st = (if length aad \<noteq> 0 then poly1305_update st aad else st);
          st = poly_pad16 st (length aad);
          st = (if length ct \<noteq> 0 then poly1305_update st ct else st);
          st = poly_pad16 st (length ct);
          lens = u64to8le (of_nat (length aad)) @ u64to8le (of_nat (length ct));
          st = poly1305_update st lens
      in poly1305_finish st)"

definition aead_seal :: "bytes \<Rightarrow> bytes \<Rightarrow> bytes \<Rightarrow> bytes \<Rightarrow> bytes \<times> bytes" where
  "aead_seal key nonce aad pt =
     (let (subkey, cc_nonce, polykey) = xchacha_setup key nonce;
          ct = chacha20_xor subkey 1 cc_nonce pt
      in (ct, aead_mac polykey aad ct))"

definition ct_eq16 :: "bytes \<Rightarrow> bytes \<Rightarrow> bool" where
  "ct_eq16 a b \<longleftrightarrow> fold (\<lambda>i diff. diff OR (a ! i XOR b ! i)) [0..<16] (0 :: u8) = 0"

definition aead_open :: "bytes \<Rightarrow> bytes \<Rightarrow> bytes \<Rightarrow> bytes \<Rightarrow> bytes \<Rightarrow> bytes option" where
  "aead_open key nonce aad ct tag =
     (let (subkey, cc_nonce, polykey) = xchacha_setup key nonce;
          expect = aead_mac polykey aad ct
      in if \<not> ct_eq16 expect tag then None else Some (chacha20_xor subkey 1 cc_nonce ct))"

section \<open>The contract\<close>

text \<open>
  What a user of the cipher relies on: what was sealed opens to itself, ciphertexts keep the length, tags
  have 16 bytes, and for a given ciphertext and associated data only one tag is accepted.
\<close>

locale envelope =
  fixes seal :: "bytes \<Rightarrow> bytes \<Rightarrow> bytes \<Rightarrow> bytes \<Rightarrow> bytes \<times> bytes"
    and unseal :: "bytes \<Rightarrow> bytes \<Rightarrow> bytes \<Rightarrow> bytes \<Rightarrow> bytes \<Rightarrow> bytes option"
    and mac_of :: "bytes \<Rightarrow> bytes \<Rightarrow> bytes \<Rightarrow> bytes \<Rightarrow> bytes"
  assumes unseal_seal: "seal key nonce aad pt = (ct, tag) \<Longrightarrow> unseal key nonce aad ct tag = Some pt"
    and seal_length: "seal key nonce aad pt = (ct, tag) \<Longrightarrow> length ct = length pt \<and> length tag = 16"
    and unseal_tag: "length tag = 16 \<Longrightarrow> unseal key nonce aad ct tag = Some pt \<Longrightarrow> tag = mac_of key nonce aad ct"
begin

text \<open>A changed tag is refused, whatever else the reader is given.\<close>

lemma changed_tag:
  assumes "seal key nonce aad pt = (ct, tag)" and "length tag' = 16" and "tag' \<noteq> tag"
  shows "unseal key nonce aad ct tag' = None"
proof (rule ccontr)
  assume "unseal key nonce aad ct tag' \<noteq> None"
  then obtain pt' where "unseal key nonce aad ct tag' = Some pt'" by blast
  then have "tag' = mac_of key nonce aad ct" using unseal_tag assms(2) by blast
  moreover have "tag = mac_of key nonce aad ct" using unseal_tag unseal_seal [OF assms(1)] seal_length [OF assms(1)] by blast
  ultimately show False using assms(3) by simp
qed

end

section \<open>The contract holds\<close>

lemma fold_or_zero: "fold (\<lambda>i d. d OR f i) xs (d :: u8) = 0 \<longleftrightarrow> d = 0 \<and> (\<forall>i \<in> set xs. f i = 0)"
  by (induction xs arbitrary: d) (auto simp: or_eq_0_iff)

lemma xor_zero_iff: "a XOR b = 0 \<longleftrightarrow> a = (b :: 'a::len word)"
  using xor_cancel [of a b b] by auto

lemma ct_eq16_iff:
  assumes "length a = 16" and "length b = 16"
  shows "ct_eq16 a b \<longleftrightarrow> a = b"
  using assms by (auto simp: ct_eq16_def fold_or_zero list_eq_iff_nth_eq xor_zero_iff)

lemma setup_polykey: "xchacha_setup key nonce = (subkey, cc, pk) \<Longrightarrow> length pk = 32"
  by (auto simp: xchacha_setup_def Let_def)

definition pad16 :: "nat \<Rightarrow> bytes" where
  "pad16 len = replicate ((16 - len mod 16) mod 16) 0"

text \<open>The bytes that the MAC of RFC 8439 covers.\<close>

definition mac_input :: "bytes \<Rightarrow> bytes \<Rightarrow> bytes" where
  "mac_input aad ct = aad @ pad16 (length aad) @ ct @ pad16 (length ct) @
     u64to8le (of_nat (length aad)) @ u64to8le (of_nat (length ct))"

lemma rep_pad16: "poly_rep key m st \<Longrightarrow> poly_rep key (m @ pad16 len) (poly_pad16 st len)"
proof -
  assume r: "poly_rep key m st"
  have "(16 - len mod 16) mod 16 = (if len mod 16 = 0 then 0 else 16 - len mod 16)" by auto
  then show ?thesis using r update_rep [OF r, of "replicate (16 - len mod 16) 0"] by (simp add: poly_pad16_def pad16_def Let_def)
qed

lemma rep_maybe: "poly_rep key m st \<Longrightarrow> poly_rep key (m @ x) (if length x \<noteq> 0 then poly1305_update st x else st)"
  using update_rep [of key m st x] by simp

lemma aead_mac_rep: "\<exists>st. poly_rep pk (mac_input aad ct) st \<and> aead_mac pk aad ct = poly1305_finish st"
proof -
  note r = update_rep [OF rep_pad16 [OF rep_maybe [OF rep_pad16 [OF rep_maybe [OF rep_init]]]],
      of pk aad "length aad" ct "length ct" "u64to8le (of_nat (length aad)) @ u64to8le (of_nat (length ct))"]
  show ?thesis unfolding aead_mac_def Let_def mac_input_def
    by (rule exI, rule conjI [OF _ refl]) (use r in simp)
qed

lemma length_aead_mac: "length pk = 32 \<Longrightarrow> length (aead_mac pk aad ct) = 16"
  using aead_mac_rep [of pk aad ct] finish_spec(2) by metis

definition aead_tag :: "bytes \<Rightarrow> bytes \<Rightarrow> bytes \<Rightarrow> bytes \<Rightarrow> bytes" where
  "aead_tag key nonce aad ct = aead_mac (snd (snd (xchacha_setup key nonce))) aad ct"

interpretation xcc: envelope aead_seal aead_open aead_tag
proof
  fix key nonce aad pt ct tag
  obtain sk cc pk where s: "xchacha_setup key nonce = (sk, cc, pk)" by (cases "xchacha_setup key nonce")
  note l = length_aead_mac [OF setup_polykey [OF s]]
  show "aead_open key nonce aad ct tag = Some pt" and "length ct = length pt \<and> length tag = 16"
    if "aead_seal key nonce aad pt = (ct, tag)"
    using that l by (auto simp: aead_seal_def aead_open_def s ct_eq16_iff chacha20_xor_twice Let_def)
  show "tag = aead_tag key nonce aad ct" if "length tag = 16" "aead_open key nonce aad ct tag = Some pt"
    using that l by (auto simp: aead_tag_def aead_open_def s ct_eq16_iff Let_def split: if_splits)
qed

section \<open>Properties\<close>

text \<open>
  C31. Sealing and opening: under the same key, nonce and associated data, what \<open>aead_seal\<close> wrote opens
  to the plaintext it was given, the ciphertext has the length of the plaintext and the tag 16 bytes;
  and with any other tag of that length the same ciphertext is refused, so that no plaintext comes out.
\<close>

theorem aead_roundtrip:
  assumes "aead_seal key nonce aad pt = (ct, tag)"
  shows "aead_open key nonce aad ct tag = Some pt \<and> length ct = length pt \<and> length tag = 16 \<and>
    (\<forall>tag'. length tag' = 16 \<and> tag' \<noteq> tag \<longrightarrow> aead_open key nonce aad ct tag' = None)"
  using xcc.unseal_seal [OF assms] xcc.seal_length [OF assms] xcc.changed_tag [OF assms] by blast

theorem aead_roundtrip_witness:
  "aead_open (replicate 32 1) (replicate 24 2) [3] (fst (aead_seal (replicate 32 1) (replicate 24 2) [3] [4]))
    (snd (aead_seal (replicate 32 1) (replicate 24 2) [3] [4])) = Some [4]"
  using aead_roundtrip [of "replicate 32 1" "replicate 24 2" "[3]" "[4]"]
  by (cases "aead_seal (replicate 32 1) (replicate 24 2) [3] [4]") (simp del: replicate.simps)

text \<open>
  C32. The tag is the one RFC 8439 prescribes: the number it encodes is the Poly1305 polynomial, under the
  one-time key from the first keystream block, of the associated data and the ciphertext, each padded with
  zeros to 16 bytes, followed by their lengths as 64-bit numbers.
\<close>

theorem aead_tag_spec:
  assumes "aead_seal key nonce aad pt = (ct, tag)" and "xchacha_setup key nonce = (subkey, cc_nonce, polykey)"
  shows "le_nat tag = (poly_spec (clamp (le_nat (take 16 polykey))) 0 (mac_input aad ct) + le_nat (drop 16 polykey)) mod 2 ^ 128 \<and>
    (\<forall>i < length pt. ct ! i = pt ! i XOR keystream subkey 1 cc_nonce i)"
proof -
  obtain st where "poly_rep polykey (mac_input aad ct) st" "aead_mac polykey aad ct = poly1305_finish st"
    using aead_mac_rep by blast
  moreover have "tag = aead_mac polykey aad ct" "ct = chacha20_xor subkey 1 cc_nonce pt"
    using assms by (auto simp: aead_seal_def Let_def)
  ultimately show ?thesis using finish_spec(1) setup_polykey [OF assms(2)] by (simp add: chacha20_xor_keystream)
qed

theorem aead_tag_spec_witness:
  "\<exists>polykey. le_nat (snd (aead_seal (replicate 32 1) (replicate 24 2) [3] [])) =
    (poly_spec (clamp (le_nat (take 16 polykey))) 0 (mac_input [3] []) + le_nat (drop 16 polykey)) mod 2 ^ 128"
proof -
  obtain sk cc pk where s: "xchacha_setup (replicate 32 1) (replicate 24 2) = (sk, cc, pk)" by (cases "xchacha_setup (replicate 32 1) (replicate 24 2)")
  then have e: "aead_seal (replicate 32 1) (replicate 24 2) [3] [] = ([], aead_mac pk [3] [])"
    by (simp add: aead_seal_def chacha20_xor.simps)
  show ?thesis using aead_tag_spec [OF e s] by (intro exI [of _ pk]) (simp add: e)
qed

end
