(* ===== verification/Log.thy ===== *)
theory Log
  imports Crc32 Aead
begin

text \<open>
  The append-only log, \<^verbatim>\<open>src/src/storage/log.c\<close>: frame headers of both formats, append, read,
  resynchronisation, the recovering scan, truncation, flushing, opening and the migration of the legacy
  format. A log file is the record \<open>LogFile\<close>, whose field \<open>lf_data\<close> is the content of the file
  behind the descriptor; it may extend past \<open>lf_size\<close>, the end that the code trusts, because a failed
  append leaves its bytes behind. Offsets are natural numbers: a file is addressable.

  The outcomes of system calls are arguments. \<open>rd off\<close> says whether a read at that offset succeeds,
  a \<open>write_out\<close> how far a write got, \<open>mem\<close> whether an allocation succeeds, and the nonce of an
  encrypted append is what the random source delivered, if it did. The mutex is not modelled: each
  operation is one step.
\<close>

section \<open>Constants and state\<close>

definition LOG_FRAME_MAGIC :: u32 where
  "LOG_FRAME_MAGIC = 0xA3D1B70F"

definition LOG_FRAME_MAGIC_ENC :: u32 where
  "LOG_FRAME_MAGIC_ENC = 0xA3D1B71E"

definition LOG_FRAME_HEADER :: nat where
  "LOG_FRAME_HEADER = 16"

definition V1_FRAME_HEADER :: nat where
  "V1_FRAME_HEADER = 8"

definition V3_NONCE_OFF :: nat where
  "V3_NONCE_OFF = 8"

definition V3_FRAME_HEADER :: nat where
  "V3_FRAME_HEADER = 36"

definition V3_AAD_LEN :: nat where
  "V3_AAD_LEN = 32"

definition AEAD_TAG_LEN :: nat where
  "AEAD_TAG_LEN = 16"

definition V3_FRAME_OVERHEAD :: nat where
  "V3_FRAME_OVERHEAD = V3_FRAME_HEADER + AEAD_TAG_LEN"

definition AEGIS_IO_BUF_SIZE :: nat where
  "AEGIS_IO_BUF_SIZE = 65536"

record LogFile =
  lf_data :: bytes
  lf_fd :: bool
  lf_size :: nat
  lf_since_fsync :: nat
  lf_fsync_batch :: nat
  lf_encrypted :: bool
  lf_key :: bytes

section \<open>Reading and writing\<close>

text \<open>\<^verbatim>\<open>pread\<close> and \<^verbatim>\<open>pwrite\<close> until the count is reached; a write past the end fills the gap with zeros.\<close>

definition read_full :: "(nat \<Rightarrow> bool) \<Rightarrow> bytes \<Rightarrow> nat \<Rightarrow> nat \<Rightarrow> bytes option" where
  "read_full rd data off n =
     (if n = 0 then Some []
      else if rd off \<and> off + n \<le> length data then Some (take n (drop off data)) else None)"

definition pwrite :: "nat \<Rightarrow> bytes \<Rightarrow> bytes \<Rightarrow> bytes" where
  "pwrite off bs data =
     (if bs = [] then data
      else take off (data @ replicate (off - length data) 0) @ bs @ drop (off + length bs) data)"

text \<open>\<open>None\<close>: everything is written. \<open>Some k\<close>: an error after \<open>k\<close> bytes.\<close>

type_synonym write_out = "nat option"

definition write_full :: "write_out \<Rightarrow> nat \<Rightarrow> bytes \<Rightarrow> bytes \<Rightarrow> bool \<times> bytes" where
  "write_full w off bs data =
     (case w of
        None \<Rightarrow> (True, pwrite off bs data)
      | Some k \<Rightarrow> if k < length bs then (False, pwrite off (take k bs) data) else (True, pwrite off bs data))"

section \<open>Headers\<close>

definition build_header :: "nat \<Rightarrow> u32 \<Rightarrow> bytes" where
  "build_header len payload_crc =
     (let h = aegis_put_u32le LOG_FRAME_MAGIC @ aegis_put_u32le (of_nat len) @ aegis_put_u32le payload_crc
      in h @ aegis_put_u32le (crc32_compute h))"

definition parse_header :: "bytes \<Rightarrow> (u32 \<times> u32) option" where
  "parse_header hdr =
     (if aegis_get_u32le hdr \<noteq> LOG_FRAME_MAGIC then None
      else if aegis_get_u32le (drop 12 hdr) \<noteq> crc32_compute (take 12 hdr) then None
      else Some (aegis_get_u32le (drop 4 hdr), aegis_get_u32le (drop 8 hdr)))"

definition build_header_v3 :: "nat \<Rightarrow> bytes \<Rightarrow> bytes" where
  "build_header_v3 len nonce =
     (let h = aegis_put_u32le LOG_FRAME_MAGIC_ENC @ aegis_put_u32le (of_nat len) @ nonce
      in h @ aegis_put_u32le (crc32_compute h))"

definition parse_header_v3 :: "bytes \<Rightarrow> u32 option" where
  "parse_header_v3 hdr =
     (if aegis_get_u32le hdr \<noteq> LOG_FRAME_MAGIC_ENC then None
      else if aegis_get_u32le (drop 32 hdr) \<noteq> crc32_compute (take 32 hdr) then None
      else Some (aegis_get_u32le (drop 4 hdr)))"

text \<open>What differs between the two modes of a log.\<close>

definition log_hdr_len :: "LogFile \<Rightarrow> nat" where
  "log_hdr_len lf = (if lf_encrypted lf then V3_FRAME_HEADER else LOG_FRAME_HEADER)"

definition log_frame_overhead :: "LogFile \<Rightarrow> nat" where
  "log_frame_overhead lf = (if lf_encrypted lf then V3_FRAME_OVERHEAD else LOG_FRAME_HEADER)"

definition log_magic :: "LogFile \<Rightarrow> u32" where
  "log_magic lf = (if lf_encrypted lf then LOG_FRAME_MAGIC_ENC else LOG_FRAME_MAGIC)"

definition parse_frame_header :: "LogFile \<Rightarrow> bytes \<Rightarrow> nat option" where
  "parse_frame_header lf hdr =
     (if lf_encrypted lf then map_option unat (parse_header_v3 hdr)
      else map_option (\<lambda>(len, pcrc). unat len) (parse_header hdr))"

text \<open>
  The integrity check of a frame whose header is good and whose \<open>len\<close> payload bytes, and the tag in
  an encrypted log, have been read.
\<close>

definition open_frame :: "LogFile \<Rightarrow> bytes \<Rightarrow> bytes \<Rightarrow> bytes \<Rightarrow> bytes option" where
  "open_frame lf hdr buf tag =
     (if lf_encrypted lf
      then aead_open (lf_key lf) (take 24 (drop V3_NONCE_OFF hdr)) (take V3_AAD_LEN hdr) buf tag
      else case parse_header hdr of
             None \<Rightarrow> None
           | Some (len, pcrc) \<Rightarrow> if crc32_compute buf \<noteq> pcrc then None else Some buf)"

section \<open>Appending\<close>

definition log_append_encrypted ::
  "alloc \<Rightarrow> bytes option \<Rightarrow> write_out \<times> write_out \<times> write_out \<Rightarrow> LogFile \<Rightarrow> bytes \<Rightarrow> int \<times> nat \<times> LogFile" where
  "log_append_encrypted mem rnd w lf payload =
     (case rnd of
        None \<Rightarrow> (-1, 0, lf)
      | Some nonce \<Rightarrow>
          let hdr = build_header_v3 (length payload) nonce
          in if \<not> mem 0 then (-1, 0, lf)
             else let (ct, tag) = aead_seal (lf_key lf) nonce (take V3_AAD_LEN hdr) payload;
                      off = lf_size lf;
                      (ok1, d1) = write_full (fst w) off hdr (lf_data lf)
                  in if \<not> ok1 then (-1, 0, lf\<lparr>lf_data := d1\<rparr>)
                     else let (ok2, d2) = write_full (fst (snd w)) (off + V3_FRAME_HEADER) ct d1
                          in if \<not> ok2 then (-1, 0, lf\<lparr>lf_data := d2\<rparr>)
                             else let (ok3, d3) = write_full (snd (snd w)) (off + V3_FRAME_HEADER + length payload) tag d2
                                  in if \<not> ok3 then (-1, 0, lf\<lparr>lf_data := d3\<rparr>)
                                     else (0, off, lf\<lparr>lf_data := d3, lf_size := off + V3_FRAME_OVERHEAD + length payload,
                                                      lf_since_fsync := lf_since_fsync lf + 1\<rparr>))"

definition log_append ::
  "alloc \<Rightarrow> bytes option \<Rightarrow> write_out \<times> write_out \<times> write_out \<Rightarrow> LogFile \<Rightarrow> bytes \<Rightarrow> int \<times> nat \<times> LogFile" where
  "log_append mem rnd w lf payload =
     (if 0xFFFFFFFF < length payload then (-1, 0, lf)
      else if lf_encrypted lf then log_append_encrypted mem rnd w lf payload
      else let hdr = build_header (length payload) (crc32_compute payload);
               off = lf_size lf;
               (ok1, d1) = write_full (fst w) off hdr (lf_data lf)
           in if \<not> ok1 then (-1, 0, lf\<lparr>lf_data := d1\<rparr>)
              else let (ok2, d2) = write_full (fst (snd w)) (off + LOG_FRAME_HEADER) payload d1
                   in if \<not> ok2 then (-1, 0, lf\<lparr>lf_data := d2\<rparr>)
                      else (0, off, lf\<lparr>lf_data := d2, lf_size := off + LOG_FRAME_HEADER + length payload,
                                       lf_since_fsync := lf_since_fsync lf + 1\<rparr>))"

section \<open>Durability and size\<close>

definition log_fsync :: "bool \<Rightarrow> LogFile \<Rightarrow> int \<times> LogFile" where
  "log_fsync ok lf =
     (if \<not> lf_fd lf then (0, lf) else if ok then (0, lf\<lparr>lf_since_fsync := 0\<rparr>) else (-1, lf))"

definition log_fsync_if_batched :: "bool \<Rightarrow> LogFile \<Rightarrow> int \<times> LogFile" where
  "log_fsync_if_batched ok lf =
     (if \<not> lf_fd lf then (0, lf)
      else if lf_fsync_batch lf = 0 \<or> lf_fsync_batch lf \<le> lf_since_fsync lf
      then if ok then (0, lf\<lparr>lf_since_fsync := 0\<rparr>) else (-1, lf)
      else (0, lf))"

definition log_flush_pending :: "LogFile \<Rightarrow> bool" where
  "log_flush_pending lf \<longleftrightarrow> lf_fd lf \<and> 0 < lf_since_fsync lf"

definition log_close :: "bool \<Rightarrow> bool \<Rightarrow> LogFile \<Rightarrow> int \<times> LogFile" where
  "log_close sync_ok close_ok lf =
     (if lf_fd lf then (if sync_ok \<and> close_ok then 0 else -1, lf\<lparr>lf_fd := False\<rparr>) else (0, lf))"

definition log_truncate :: "bool \<Rightarrow> LogFile \<Rightarrow> nat \<Rightarrow> int \<times> LogFile" where
  "log_truncate ok lf valid_end =
     (if ok then (0, lf\<lparr>lf_data := take valid_end (lf_data lf) @ replicate (valid_end - length (lf_data lf)) 0,
                        lf_size := valid_end\<rparr>)
      else (-1, lf))"

section \<open>Reading a frame\<close>

definition log_read_encrypted :: "alloc \<Rightarrow> (nat \<Rightarrow> bool) \<Rightarrow> LogFile \<Rightarrow> nat \<Rightarrow> bytes option" where
  "log_read_encrypted mem rd lf offset =
     (case read_full rd (lf_data lf) offset V3_FRAME_HEADER of
        None \<Rightarrow> None
      | Some hdr \<Rightarrow>
          (case parse_header_v3 hdr of
             None \<Rightarrow> None
           | Some len \<Rightarrow>
               if \<not> mem 0 then None
               else case read_full rd (lf_data lf) (offset + V3_FRAME_HEADER) (unat len) of
                      None \<Rightarrow> None
                    | Some buf \<Rightarrow>
                        (case read_full rd (lf_data lf) (offset + V3_FRAME_HEADER + unat len) AEAD_TAG_LEN of
                           None \<Rightarrow> None
                         | Some tag \<Rightarrow>
                             aead_open (lf_key lf) (take 24 (drop V3_NONCE_OFF hdr)) (take V3_AAD_LEN hdr) buf tag)))"

definition log_read :: "alloc \<Rightarrow> (nat \<Rightarrow> bool) \<Rightarrow> LogFile \<Rightarrow> nat \<Rightarrow> bytes option" where
  "log_read mem rd lf offset =
     (if lf_encrypted lf then log_read_encrypted mem rd lf offset
      else case read_full rd (lf_data lf) offset LOG_FRAME_HEADER of
             None \<Rightarrow> None
           | Some hdr \<Rightarrow>
               (case parse_header hdr of
                  None \<Rightarrow> None
                | Some (len, pcrc) \<Rightarrow>
                    if \<not> mem 0 then None
                    else case read_full rd (lf_data lf) (offset + LOG_FRAME_HEADER) (unat len) of
                           None \<Rightarrow> None
                         | Some buf \<Rightarrow> if crc32_compute buf \<noteq> pcrc then None else Some buf))"

section \<open>Resynchronisation\<close>

text \<open>A position of a window holds a structurally valid frame that ends before \<open>end\<close>.\<close>

definition frame_here :: "(nat \<Rightarrow> bool) \<Rightarrow> LogFile \<Rightarrow> bytes \<Rightarrow> nat \<Rightarrow> nat \<Rightarrow> nat \<Rightarrow> bool" where
  "frame_here rd lf win base stop i \<longleftrightarrow>
     aegis_get_u32le (drop i win) = log_magic lf \<and>
     (case read_full rd (lf_data lf) (base + i) (log_hdr_len lf) of
        None \<Rightarrow> False
      | Some hdr \<Rightarrow>
          (case parse_frame_header lf hdr of
             None \<Rightarrow> False
           | Some len \<Rightarrow> base + i + log_frame_overhead lf + len \<le> stop))"

text \<open>The windows overlap by one byte less than a header, so that the next one starts right after the last position tried.\<close>

function find_next_frame :: "(nat \<Rightarrow> bool) \<Rightarrow> LogFile \<Rightarrow> nat \<Rightarrow> nat \<Rightarrow> nat" where
  "find_next_frame rd lf base stop =
     (if base + log_hdr_len lf \<le> stop
      then let want = (if AEGIS_IO_BUF_SIZE < stop - base then AEGIS_IO_BUF_SIZE else stop - base)
           in case read_full rd (lf_data lf) base want of
                None \<Rightarrow> stop
              | Some win \<Rightarrow>
                  let limit = (if log_hdr_len lf \<le> want then want - log_hdr_len lf else 0)
                  in case find (frame_here rd lf win base stop) [0..<Suc limit] of
                       Some i \<Rightarrow> base + i
                     | None \<Rightarrow> find_next_frame rd lf (base + (want - (log_hdr_len lf - 1))) stop
      else stop)"
  by pat_completeness auto
termination
  by (relation "measure (\<lambda>(rd, lf, base, stop). stop - base)")
    (auto simp: log_hdr_len_def V3_FRAME_HEADER_def LOG_FRAME_HEADER_def AEGIS_IO_BUF_SIZE_def split: if_splits)

declare find_next_frame.simps [simp del]

section \<open>Scanning\<close>

record LogScanResult =
  sr_truncate_to :: nat
  sr_good_frames :: nat
  sr_corrupt_frames :: nat
  sr_recovered_after_hole :: bool

text \<open>The payload bytes of a frame, and its tag in an encrypted log.\<close>

definition read_body :: "(nat \<Rightarrow> bool) \<Rightarrow> LogFile \<Rightarrow> nat \<Rightarrow> nat \<Rightarrow> (bytes \<times> bytes) option" where
  "read_body rd lf off len =
     (case read_full rd (lf_data lf) (off + log_hdr_len lf) len of
        None \<Rightarrow> None
      | Some buf \<Rightarrow>
          if lf_encrypted lf
          then map_option (\<lambda>tag. (buf, tag)) (read_full rd (lf_data lf) (off + log_hdr_len lf + len) AEAD_TAG_LEN)
          else Some (buf, []))"

text \<open>
  The local variables of the loop. A callback returns a new context and whether the scan goes on;
  \<open>mem off\<close> is the outcome of the allocation for the frame at that offset. The loop ends with
  \<open>None\<close> where the code returns \<open>-1\<close>.
\<close>

record 'c scan_state =
  ss_ctx :: 'c
  ss_clean_end :: nat
  ss_good :: nat
  ss_corrupt :: nat
  ss_hole :: bool
  ss_recovered :: bool

type_synonym 'c scan_cb = "nat \<Rightarrow> bytes \<Rightarrow> 'c \<Rightarrow> bool \<times> 'c"

lemma log_hdr_len_bounds [simp]: "0 < log_hdr_len lf" "log_hdr_len lf \<le> AEGIS_IO_BUF_SIZE"
  by (simp_all add: log_hdr_len_def V3_FRAME_HEADER_def LOG_FRAME_HEADER_def AEGIS_IO_BUF_SIZE_def)

text \<open>Induction over the windows: the next one starts strictly later and not past the end.\<close>

lemma find_next_frame_cases:
  assumes "base + log_hdr_len lf \<le> stop"
  obtains (fail) "find_next_frame rd lf base stop = stop"
    "read_full rd (lf_data lf) base (min AEGIS_IO_BUF_SIZE (stop - base)) = None"
  | (found) win i where "find_next_frame rd lf base stop = base + i"
      "read_full rd (lf_data lf) base (min AEGIS_IO_BUF_SIZE (stop - base)) = Some win"
      "frame_here rd lf win base stop i" "i \<le> min AEGIS_IO_BUF_SIZE (stop - base) - log_hdr_len lf"
      "\<And>j. j < i \<Longrightarrow> \<not> frame_here rd lf win base stop j"
  | (next_window) win where
      "find_next_frame rd lf base stop = find_next_frame rd lf (base + (min AEGIS_IO_BUF_SIZE (stop - base) - (log_hdr_len lf - 1))) stop"
      "read_full rd (lf_data lf) base (min AEGIS_IO_BUF_SIZE (stop - base)) = Some win"
      "\<And>j. j \<le> min AEGIS_IO_BUF_SIZE (stop - base) - log_hdr_len lf \<Longrightarrow> \<not> frame_here rd lf win base stop j"
proof -
  define want where "want = min AEGIS_IO_BUF_SIZE (stop - base)"
  have w: "(if AEGIS_IO_BUF_SIZE < stop - base then AEGIS_IO_BUF_SIZE else stop - base) = want"
    by (simp add: want_def)
  have l: "(if log_hdr_len lf \<le> want then want - log_hdr_len lf else 0) = want - log_hdr_len lf" by simp
  note step = find_next_frame.simps [of rd lf base stop, unfolded w Let_def l]
  show thesis
  proof (cases "read_full rd (lf_data lf) base want")
    case None
    then show thesis using step assms by (intro fail) (simp_all add: want_def)
  next
    case (Some win)
    show thesis
    proof (cases "find (frame_here rd lf win base stop) [0..<Suc (want - log_hdr_len lf)]")
      case None
      then have "\<not> frame_here rd lf win base stop j" if "j \<le> want - log_hdr_len lf" for j
        using that unfolding find_None_iff set_upt by auto
      then show thesis using step assms Some None by (intro next_window [of win]) (simp_all add: want_def del: upt_Suc)
    next
      case (Some i)
      then obtain "i \<le> want - log_hdr_len lf" "frame_here rd lf win base stop i"
        "\<And>j. j < i \<Longrightarrow> \<not> frame_here rd lf win base stop j"
        unfolding find_Some_iff by (auto simp del: upt_Suc)
      then show thesis
        using step assms Some \<open>read_full rd (lf_data lf) base want = Some win\<close>
        by (intro found [of i win]) (simp_all add: want_def del: upt_Suc)
    qed
  qed
qed

lemma find_frame_ge: "base \<le> stop \<Longrightarrow> base \<le> find_next_frame rd lf base stop"
proof (induction "stop - base" arbitrary: base rule: less_induct)
  case less
  show ?case
  proof (cases "base + log_hdr_len lf \<le> stop")
    case True
    define w where "w = min AEGIS_IO_BUF_SIZE (stop - base) - (log_hdr_len lf - 1)"
    have "0 < w" "base + w \<le> stop"
      using True log_hdr_len_bounds [of lf] unfolding w_def by linarith+
    with less(1) [of "base + w"] less(2) have "base \<le> find_next_frame rd lf (base + w) stop" by linarith
    with True less(2) show ?thesis by (cases rule: find_next_frame_cases [of base lf stop rd]) (simp_all add: w_def)
  qed (use less(2) in \<open>simp add: find_next_frame.simps [of rd lf base stop]\<close>)
qed

function log_scan_loop ::
  "(nat \<Rightarrow> bool) \<Rightarrow> (nat \<Rightarrow> bool) \<Rightarrow> LogFile \<Rightarrow> 'c scan_cb \<Rightarrow> nat \<Rightarrow> nat \<Rightarrow> 'c scan_state \<Rightarrow> 'c scan_state option" where
  "log_scan_loop mem rd lf cb stop off st =
     (if off < stop
      then if stop < off + log_hdr_len lf then Some st
           else case read_full rd (lf_data lf) off (log_hdr_len lf) of
                  None \<Rightarrow> Some st
                | Some hdr \<Rightarrow>
                    (case parse_frame_header lf hdr of
                       None \<Rightarrow>
                         let nxt = find_next_frame rd lf (off + 1) stop
                         in if stop \<le> nxt then Some st
                            else log_scan_loop mem rd lf cb stop nxt (st\<lparr>ss_hole := True, ss_corrupt := ss_corrupt st + 1\<rparr>)
                     | Some len \<Rightarrow>
                         if stop < off + log_frame_overhead lf + len then Some st
                         else if \<not> mem off then None
                         else case read_body rd lf off len of
                                None \<Rightarrow> Some st
                              | Some (buf, tag) \<Rightarrow>
                                  let off' = off + log_frame_overhead lf + len
                                  in case open_frame lf hdr buf tag of
                                       None \<Rightarrow> log_scan_loop mem rd lf cb stop off'
                                                  (st\<lparr>ss_hole := True, ss_corrupt := ss_corrupt st + 1\<rparr>)
                                     | Some payload \<Rightarrow>
                                         let (go, ctx) = cb off payload (ss_ctx st);
                                             st1 = st\<lparr>ss_ctx := ctx, ss_good := ss_good st + 1\<rparr>;
                                             st2 = (if ss_hole st then st1\<lparr>ss_recovered := True\<rparr> else st1\<lparr>ss_clean_end := off'\<rparr>)
                                         in if go then log_scan_loop mem rd lf cb stop off' st2 else Some st2)
      else Some st)"
  by pat_completeness auto
termination
proof (relation "measure (\<lambda>(mem, rd, lf, cb, stop, off, st). stop - off)", goal_cases)
  case (2 mem rd lf cb stop off st hdr nxt)
  then have "off + 1 \<le> nxt" using find_frame_ge [of "off + 1" stop rd lf] by simp
  with 2 show ?case by simp
qed (auto simp: log_frame_overhead_def V3_FRAME_OVERHEAD_def V3_FRAME_HEADER_def LOG_FRAME_HEADER_def)

declare log_scan_loop.simps [simp del]

definition log_scan ::
  "(nat \<Rightarrow> bool) \<Rightarrow> (nat \<Rightarrow> bool) \<Rightarrow> LogFile \<Rightarrow> nat \<Rightarrow> nat \<Rightarrow> 'c scan_cb \<Rightarrow> 'c \<Rightarrow> ('c \<times> LogScanResult) option" where
  "log_scan mem rd lf start stop cb ctx =
     map_option (\<lambda>st. (ss_ctx st,
         \<lparr>sr_truncate_to = (if ss_recovered st then stop else ss_clean_end st), sr_good_frames = ss_good st,
          sr_corrupt_frames = ss_corrupt st, sr_recovered_after_hole = ss_recovered st\<rparr>))
       (log_scan_loop mem rd lf cb stop start
          \<lparr>ss_ctx = ctx, ss_clean_end = start, ss_good = 0, ss_corrupt = 0, ss_hole = False, ss_recovered = False\<rparr>)"

section \<open>The legacy format\<close>

text \<open>
  The loop over v1 frames: the new file and the number of frames migrated, \<open>None\<close> when an allocation or a
  write fails. \<open>wr off\<close> says whether the writes of the frame at that offset of the new file succeed.
\<close>

function migrate_loop ::
  "(nat \<Rightarrow> bool) \<Rightarrow> (nat \<Rightarrow> bool) \<Rightarrow> (nat \<Rightarrow> bool) \<Rightarrow> bytes \<Rightarrow> nat \<Rightarrow> bytes \<Rightarrow> nat \<Rightarrow> (bytes \<times> nat) option" where
  "migrate_loop mem rd wr data inp out migrated =
     (if inp + V1_FRAME_HEADER \<le> length data
      then case read_full rd data inp V1_FRAME_HEADER of
             None \<Rightarrow> Some (out, migrated)
           | Some h \<Rightarrow>
               let crc = aegis_get_u32le h; len = unat (aegis_get_u32le (drop 4 h))
               in if length data < inp + V1_FRAME_HEADER + len then Some (out, migrated)
                  else if \<not> mem inp then None
                  else case read_full rd data (inp + V1_FRAME_HEADER) len of
                         None \<Rightarrow> Some (out, migrated)
                       | Some buf \<Rightarrow>
                           if crc32_compute buf \<noteq> crc then Some (out, migrated)
                           else if \<not> wr (length out) then None
                           else migrate_loop mem rd wr data (inp + V1_FRAME_HEADER + len)
                                  (out @ build_header len crc @ buf) (migrated + 1)
      else Some (out, migrated))"
  by pat_completeness auto
termination
  by (relation "measure (\<lambda>(mem, rd, wr, data, inp, out, migrated). length data - inp)") (auto simp: V1_FRAME_HEADER_def)

declare migrate_loop.simps [simp del]

text \<open>\<open>Some\<close> of the new content for the return value 0, when the rename has replaced the file; \<open>fin\<close> covers the opens, the fsync and the rename.\<close>

definition migrate_legacy_log ::
  "bool \<Rightarrow> (nat \<Rightarrow> bool) \<Rightarrow> (nat \<Rightarrow> bool) \<Rightarrow> (nat \<Rightarrow> bool) \<Rightarrow> bytes \<Rightarrow> bytes option" where
  "migrate_legacy_log fin mem rd wr data =
     (case migrate_loop mem rd wr data 0 [] 0 of
        None \<Rightarrow> None
      | Some (out, migrated) \<Rightarrow>
          if migrated = 0 \<and> 0 < length data then None
          else if \<not> fin then None else Some out)"

section \<open>Opening\<close>

datatype LogOpenStatus =
    LOG_OPEN_OK | LOG_OPEN_ERR_IO | LOG_OPEN_ERR_KEY_ON_PLAIN | LOG_OPEN_ERR_PLAIN_ON_ENC | LOG_OPEN_ERR_WRONG_KEY

definition verify_first_frame :: "alloc \<Rightarrow> (nat \<Rightarrow> bool) \<Rightarrow> bytes \<Rightarrow> bytes \<Rightarrow> nat \<Rightarrow> bool" where
  "verify_first_frame mem rd key data stop \<longleftrightarrow>
     (if stop < V3_FRAME_HEADER then True
      else case read_full rd data 0 V3_FRAME_HEADER of
             None \<Rightarrow> False
           | Some hdr \<Rightarrow>
               (case parse_header_v3 hdr of
                  None \<Rightarrow> False
                | Some len \<Rightarrow>
                    if stop < V3_FRAME_HEADER + unat len + AEAD_TAG_LEN then False
                    else if \<not> mem 0 \<or> \<not> mem 1 then False
                    else case (read_full rd data V3_FRAME_HEADER (unat len),
                               read_full rd data (V3_FRAME_HEADER + unat len) AEAD_TAG_LEN) of
                           (Some ct, Some tag) \<Rightarrow>
                             aead_open key (take 24 (drop V3_NONCE_OFF hdr)) (take V3_AAD_LEN hdr) ct tag \<noteq> None
                         | _ \<Rightarrow> False))"

text \<open>The outcomes of the calls of one \<^verbatim>\<open>log_open\<close>.\<close>

record open_io =
  oi_open :: bool
  oi_seek :: bool
  oi_read :: "nat \<Rightarrow> bool"
  oi_mem :: alloc
  oi_mig_fin :: bool
  oi_mig_mem :: "nat \<Rightarrow> bool"
  oi_mig_wr :: "nat \<Rightarrow> bool"
  oi_reopen :: bool

definition new_log :: "bytes \<Rightarrow> nat \<Rightarrow> bytes option \<Rightarrow> LogFile" where
  "new_log data fsync_batch key =
     \<lparr>lf_data = data, lf_fd = True, lf_size = length data, lf_since_fsync = 0, lf_fsync_batch = fsync_batch,
      lf_encrypted = (key \<noteq> None), lf_key = (case key of None \<Rightarrow> [] | Some k \<Rightarrow> k)\<rparr>"

text \<open>The status, the open log if there is one, and the content of the file afterwards.\<close>

definition log_open :: "open_io \<Rightarrow> bytes \<Rightarrow> nat \<Rightarrow> bytes option \<Rightarrow> LogOpenStatus \<times> LogFile option \<times> bytes" where
  "log_open io data fsync_batch key =
     (if \<not> oi_open io \<or> \<not> oi_seek io then (LOG_OPEN_ERR_IO, None, data)
      else if length data < 4 then (LOG_OPEN_OK, Some (new_log data fsync_batch key), data)
      else case read_full (oi_read io) data 0 4 of
             None \<Rightarrow> (LOG_OPEN_ERR_IO, None, data)
           | Some m \<Rightarrow>
               let magic = aegis_get_u32le m;
                   on_disk_encrypted = (magic = LOG_FRAME_MAGIC_ENC);
                   on_disk_plain_v2 = (magic = LOG_FRAME_MAGIC)
               in if on_disk_encrypted \<and> key = None then (LOG_OPEN_ERR_PLAIN_ON_ENC, None, data)
                  else if on_disk_plain_v2 \<and> key \<noteq> None then (LOG_OPEN_ERR_KEY_ON_PLAIN, None, data)
                  else if \<not> on_disk_encrypted \<and> \<not> on_disk_plain_v2
                  then if key \<noteq> None then (LOG_OPEN_ERR_KEY_ON_PLAIN, None, data)
                       else case migrate_legacy_log (oi_mig_fin io) (oi_mig_mem io) (oi_read io) (oi_mig_wr io) data of
                              None \<Rightarrow> (LOG_OPEN_ERR_IO, None, data)
                            | Some data' \<Rightarrow>
                                if \<not> oi_reopen io then (LOG_OPEN_ERR_IO, None, data')
                                else (LOG_OPEN_OK, Some (new_log data' fsync_batch key), data')
                  else if on_disk_encrypted \<and> \<not> verify_first_frame (oi_mem io) (oi_read io) (case key of None \<Rightarrow> [] | Some k \<Rightarrow> k) data (length data)
                  then (LOG_OPEN_ERR_WRONG_KEY, None, data)
                  else (LOG_OPEN_OK, Some (new_log data fsync_batch key), data))"

end
