(* ===== verification/Log_Frames.thy ===== *)
theory Log_Frames
  imports Log
begin

text \<open>
  The correctness of the log: what \<^verbatim>\<open>log_append\<close> writes is a frame, \<^verbatim>\<open>log_read\<close> returns the payload of a
  frame, \<^verbatim>\<open>find_next_frame\<close> finds the first structurally valid frame, and \<^verbatim>\<open>log_scan\<close> recovers
  the good frames of arbitrary bytes. \<open>frame_of\<close> and \<open>frame_is\<close> are the reference definitions: the bytes
  of a frame, and what a reader makes of the bytes of a frame.
\<close>

section \<open>The bytes of a frame\<close>

definition frame_of :: "LogFile \<Rightarrow> bytes \<Rightarrow> bytes \<Rightarrow> bytes" where
  "frame_of lf nonce p =
     (if lf_encrypted lf
      then let hdr = build_header_v3 (length p) nonce;
               (ct, tag) = aead_seal (lf_key lf) nonce (take V3_AAD_LEN hdr) p
           in hdr @ ct @ tag
      else build_header (length p) (crc32_compute p) @ p)"

definition nonce_ok :: "LogFile \<Rightarrow> bytes \<Rightarrow> bool" where
  "nonce_ok lf nonce \<longleftrightarrow> (lf_encrypted lf \<longrightarrow> length nonce = 24)"

definition frame_is :: "LogFile \<Rightarrow> bytes \<Rightarrow> bytes option \<Rightarrow> bool" where
  "frame_is lf b r \<longleftrightarrow>
     log_hdr_len lf \<le> length b \<and>
     (case parse_frame_header lf (take (log_hdr_len lf) b) of
        None \<Rightarrow> False
      | Some len \<Rightarrow>
          length b = log_frame_overhead lf + len \<and>
          open_frame lf (take (log_hdr_len lf) b) (take len (drop (log_hdr_len lf) b)) (drop (log_hdr_len lf + len) b) = r)"

lemmas log_consts = LOG_FRAME_HEADER_def V1_FRAME_HEADER_def V3_NONCE_OFF_def V3_FRAME_HEADER_def V3_AAD_LEN_def
  AEAD_TAG_LEN_def V3_FRAME_OVERHEAD_def

lemmas log_modes = log_hdr_len_def log_frame_overhead_def log_magic_def parse_frame_header_def

lemma hdr_overhead: "log_hdr_len lf \<le> log_frame_overhead lf" "0 < log_frame_overhead lf"
  by (simp_all add: log_modes log_consts)

lemma length_build_header [simp]: "length (build_header len c) = 16"
  by (simp add: build_header_def Let_def)

lemma length_build_header_v3: "length nonce = 24 \<Longrightarrow> length (build_header_v3 len nonce) = 36"
  by (simp add: build_header_v3_def Let_def)

lemma unat_len32: "len \<le> 0xFFFFFFFF \<Longrightarrow> unat (of_nat len :: u32) = len"
  by (simp add: unat_of_nat take_bit_nat_eq_self)

lemma parse_build_header: "parse_header (build_header len c) = Some (of_nat len, c)"
  by (simp add: parse_header_def build_header_def Let_def)

lemma parse_build_header_v3:
  "length nonce = 24 \<Longrightarrow> parse_header_v3 (build_header_v3 len nonce) = Some (of_nat len)"
  by (simp add: parse_header_v3_def build_header_v3_def Let_def)

lemma nonce_of_header_v3: "length nonce = 24 \<Longrightarrow> take 24 (drop V3_NONCE_OFF (build_header_v3 len nonce)) = nonce"
  by (simp add: build_header_v3_def Let_def V3_NONCE_OFF_def)

lemma frame_of_is:
  assumes "nonce_ok lf nonce" and "length p \<le> 0xFFFFFFFF"
  shows "frame_is lf (frame_of lf nonce p) (Some p)"
proof (cases "lf_encrypted lf")
  case True
  then have n: "length nonce = 24" using assms(1) by (simp add: nonce_ok_def)
  define hdr where "hdr = build_header_v3 (length p) nonce"
  obtain ct tag where s: "aead_seal (lf_key lf) nonce (take V3_AAD_LEN hdr) p = (ct, tag)" by fastforce
  have "length hdr = 36" "length ct = length p" "length tag = 16"
    using length_build_header_v3 [OF n] xcc.seal_length [OF s] by (simp_all add: hdr_def)
  then show ?thesis
    using True n s xcc.unseal_seal [OF s] assms(2)
    by (simp add: frame_is_def frame_of_def log_modes log_consts open_frame_def hdr_def [symmetric]
        parse_build_header_v3 [OF n, of "length p", folded hdr_def] unat_len32
        nonce_of_header_v3 [OF n, of "length p", folded hdr_def, unfolded V3_NONCE_OFF_def])
next
  case False
  then show ?thesis
    using assms(2) by (simp add: frame_is_def frame_of_def log_modes log_consts open_frame_def parse_build_header unat_len32)
qed

lemma length_frame_of:
  assumes "nonce_ok lf nonce"
  shows "length (frame_of lf nonce p) = log_frame_overhead lf + length p"
proof (cases "lf_encrypted lf")
  case True
  then have n: "length nonce = 24" using assms by (simp add: nonce_ok_def)
  obtain ct tag where s: "aead_seal (lf_key lf) nonce (take V3_AAD_LEN (build_header_v3 (length p) nonce)) p = (ct, tag)" by fastforce
  show ?thesis using True s xcc.seal_length [OF s] length_build_header_v3 [OF n]
    by (simp add: frame_of_def log_modes log_consts)
qed (simp add: frame_of_def log_modes log_consts)

section \<open>Reads\<close>

lemma read_full_ok: "off + n \<le> length data \<Longrightarrow> read_full (\<lambda>_. True) data off n = Some (take n (drop off data))"
  by (simp add: read_full_def)

lemma read_full_Some:
  "read_full rd data off n = Some b \<Longrightarrow> b = take n (drop off data) \<and> (n = 0 \<or> rd off \<and> off + n \<le> length data)"
  by (auto simp: read_full_def split: if_splits)

text \<open>A read of a stretch of the file that holds a frame.\<close>

lemma frame_isE:
  assumes "frame_is lf b r"
  obtains len where "parse_frame_header lf (take (log_hdr_len lf) b) = Some len" "length b = log_frame_overhead lf + len"
    "open_frame lf (take (log_hdr_len lf) b) (take len (drop (log_hdr_len lf) b)) (drop (log_hdr_len lf + len) b) = r"
    "log_hdr_len lf \<le> length b"
  using assms by (auto simp: frame_is_def split: option.splits)

lemma read_header_in:
  assumes "lf_data lf = pre @ b @ post" and "log_hdr_len lf \<le> length b"
  shows "read_full (\<lambda>_. True) (lf_data lf) (length pre) (log_hdr_len lf) = Some (take (log_hdr_len lf) b)"
  using assms by (simp add: read_full_def)

lemma read_body_in:
  assumes "lf_data lf = pre @ b @ post" and "length b = log_frame_overhead lf + len"
  shows "read_body (\<lambda>_. True) lf (length pre) len = Some (take len (drop (log_hdr_len lf) b), drop (log_hdr_len lf + len) b)"
  using assms by (auto simp: read_body_def read_full_def log_modes log_consts drop_append)

lemma log_read_alt:
  "log_read mem rd lf off =
     (case read_full rd (lf_data lf) off (log_hdr_len lf) of
        None \<Rightarrow> None
      | Some hdr \<Rightarrow>
          (case parse_frame_header lf hdr of
             None \<Rightarrow> None
           | Some len \<Rightarrow>
               if \<not> mem 0 then None
               else case read_body rd lf off len of
                      None \<Rightarrow> None
                    | Some (buf, tag) \<Rightarrow> open_frame lf hdr buf tag))"
  by (cases "lf_encrypted lf")
    (auto simp: log_read_def log_read_encrypted_def read_body_def open_frame_def log_modes split: option.split)

lemma log_read_frame:
  assumes "lf_data lf = pre @ b @ post" and "frame_is lf b r" and "mem 0"
  shows "log_read mem (\<lambda>_. True) lf (length pre) = r"
proof -
  obtain len where l: "parse_frame_header lf (take (log_hdr_len lf) b) = Some len" "length b = log_frame_overhead lf + len"
    "open_frame lf (take (log_hdr_len lf) b) (take len (drop (log_hdr_len lf) b)) (drop (log_hdr_len lf + len) b) = r"
    "log_hdr_len lf \<le> length b"
    using assms(2) by (rule frame_isE)
  show ?thesis
    using l(1,3) assms(3) by (simp add: log_read_alt read_header_in [OF assms(1) l(4)] read_body_in [OF assms(1) l(2)])
qed

section \<open>Appends\<close>

lemma pwrite_in: "off \<le> length data \<Longrightarrow> pwrite off bs data = take off data @ bs @ drop (off + length bs) data"
  by (simp add: pwrite_def)

lemma pwrite_pwrite:
  "off \<le> length data \<Longrightarrow> pwrite (off + length a) b (pwrite off a data) = pwrite off (a @ b) data"
  by (simp add: pwrite_in drop_append min_def ac_simps)

lemma pwrite_part:
  assumes "off \<le> length data" and "k < length b"
  shows "pwrite (off + length a) (take k b) (pwrite off a data) = pwrite off (take (length a + k) (a @ b @ c)) data"
    and "length a + k < length (a @ b @ c)"
  using assms by (simp_all add: pwrite_pwrite)

lemma write_full_True: "write_full w off bs data = (ok, d) \<Longrightarrow> ok \<Longrightarrow> d = pwrite off bs data"
  by (auto simp: write_full_def split: option.splits if_splits)

lemma write_full_False: "write_full w off bs data = (False, d) \<Longrightarrow> \<exists>k < length bs. d = pwrite off (take k bs) data"
  by (auto simp: write_full_def split: option.splits if_splits)

text \<open>What a failed append leaves: part of a frame at the trusted end, the size unchanged.\<close>

definition partial_frame :: "LogFile \<Rightarrow> bytes \<Rightarrow> LogFile \<Rightarrow> bool" where
  "partial_frame lf F lf' \<longleftrightarrow> (\<exists>k < length F. lf' = lf\<lparr>lf_data := pwrite (lf_size lf) (take k F) (lf_data lf)\<rparr>)"

lemma partial_write:
  assumes "lf_size lf \<le> length (lf_data lf)" and "write_full w (lf_size lf + length a) b (pwrite (lf_size lf) a (lf_data lf)) = (False, d)"
  shows "partial_frame lf (a @ b @ c) (lf\<lparr>lf_data := d\<rparr>)"
proof -
  obtain k where k: "k < length b" "d = pwrite (lf_size lf + length a) (take k b) (pwrite (lf_size lf) a (lf_data lf))"
    using write_full_False [OF assms(2)] by blast
  show ?thesis
    unfolding partial_frame_def k(2) pwrite_part(1) [OF assms(1) k(1), of a c]
    using pwrite_part(2) [OF assms(1) k(1), of a c] by blast
qed

lemma partial_first:
  assumes "lf_size lf \<le> length (lf_data lf)" and "write_full w (lf_size lf) b (lf_data lf) = (False, d)"
  shows "partial_frame lf (b @ c) (lf\<lparr>lf_data := d\<rparr>)"
  using partial_write [of lf w "[]" b d c] assms by (simp add: pwrite_def)

definition appended :: "LogFile \<Rightarrow> bytes \<Rightarrow> LogFile" where
  "appended lf F = lf\<lparr>lf_data := pwrite (lf_size lf) F (lf_data lf), lf_size := lf_size lf + length F, lf_since_fsync := lf_since_fsync lf + 1\<rparr>"

definition append_result :: "LogFile \<Rightarrow> bytes \<Rightarrow> int \<times> nat \<times> LogFile \<Rightarrow> bool" where
  "append_result lf p r \<longleftrightarrow> (\<exists>nonce. nonce_ok lf nonce \<and>
     (case r of (rc, off, lf') \<Rightarrow>
        rc = 0 \<and> length p \<le> 0xFFFFFFFF \<and> off = lf_size lf \<and> lf' = appended lf (frame_of lf nonce p) \<or>
        rc = -1 \<and> (lf' = lf \<or> length p \<le> 0xFFFFFFFF \<and> partial_frame lf (frame_of lf nonce p) lf')))"

lemma append_result_ok:
  "nonce_ok lf nonce \<Longrightarrow> length p \<le> 0xFFFFFFFF \<Longrightarrow> lf' = appended lf (frame_of lf nonce p) \<Longrightarrow> off = lf_size lf \<Longrightarrow>
    append_result lf p (0, off, lf')"
  by (auto simp: append_result_def)

lemma append_result_part:
  "nonce_ok lf nonce \<Longrightarrow> length p \<le> 0xFFFFFFFF \<Longrightarrow> partial_frame lf (frame_of lf nonce p) lf' \<Longrightarrow> append_result lf p (-1, off, lf')"
  by (auto simp: append_result_def)

lemma append_result_none: "append_result lf p (-1, off, lf)"
  unfolding append_result_def by (rule exI [of _ "replicate 24 0"]) (simp add: nonce_ok_def)

lemma log_append_encrypted_result:
  assumes sz: "lf_size lf \<le> length (lf_data lf)" and n: "\<And>n. rnd = Some n \<Longrightarrow> length n = 24"
    and enc: "lf_encrypted lf" and len: "length p \<le> 0xFFFFFFFF"
  shows "append_result lf p (log_append_encrypted mem rnd w lf p)"
proof (cases rnd)
  case None
  then show ?thesis by (simp add: log_append_encrypted_def append_result_none)
next
  case (Some nonce)
  with n have l: "length nonce = 24" by simp
  then have nk: "nonce_ok lf nonce" by (simp add: nonce_ok_def)
  define hdr where "hdr = build_header_v3 (length p) nonce"
  have lh: "length hdr = V3_FRAME_HEADER" by (simp add: hdr_def length_build_header_v3 [OF l] log_consts)
  obtain ct tag where s: "aead_seal (lf_key lf) nonce (take V3_AAD_LEN hdr) p = (ct, tag)" by fastforce
  note lens = xcc.seal_length [OF s]
  have F: "frame_of lf nonce p = hdr @ ct @ tag" using enc s by (simp add: frame_of_def hdr_def)
  obtain ok1 d1 where w1: "write_full (fst w) (lf_size lf) hdr (lf_data lf) = (ok1, d1)" by fastforce
  obtain ok2 d2 where w2: "write_full (fst (snd w)) (lf_size lf + V3_FRAME_HEADER) ct d1 = (ok2, d2)" by fastforce
  obtain ok3 d3 where w3: "write_full (snd (snd w)) (lf_size lf + V3_FRAME_HEADER + length p) tag d2 = (ok3, d3)" by fastforce
  have step: "log_append_encrypted mem rnd w lf p =
      (if \<not> mem 0 then (-1, 0, lf)
       else if \<not> ok1 then (-1, 0, lf\<lparr>lf_data := d1\<rparr>)
       else if \<not> ok2 then (-1, 0, lf\<lparr>lf_data := d2\<rparr>)
       else if \<not> ok3 then (-1, 0, lf\<lparr>lf_data := d3\<rparr>)
       else (0, lf_size lf, lf\<lparr>lf_data := d3, lf_size := lf_size lf + V3_FRAME_OVERHEAD + length p,
                                lf_since_fsync := lf_since_fsync lf + 1\<rparr>))"
    using s w1 w2 w3 by (simp add: log_append_encrypted_def Some hdr_def Let_def)
  have d1: "d1 = pwrite (lf_size lf) hdr (lf_data lf)" if ok1 using write_full_True [OF w1] that by blast
  have d2: "d2 = pwrite (lf_size lf) (hdr @ ct) (lf_data lf)" if ok1 ok2
    using write_full_True [OF w2] that d1 pwrite_pwrite [OF sz, of hdr ct] lh by simp
  have d3: "d3 = pwrite (lf_size lf) (hdr @ ct @ tag) (lf_data lf)" if ok1 ok2 ok3
    using write_full_True [OF w3] that d2 pwrite_pwrite [OF sz, of "hdr @ ct" tag] lh lens
    by (simp add: add.assoc)
  have p1: "partial_frame lf (hdr @ ct @ tag) (lf\<lparr>lf_data := d1\<rparr>)" if "\<not> ok1"
    using partial_first [OF sz, of "fst w" hdr d1] w1 that by simp
  have p2: "partial_frame lf (hdr @ ct @ tag) (lf\<lparr>lf_data := d2\<rparr>)" if ok1 "\<not> ok2"
    using partial_write [OF sz, of "fst (snd w)" hdr ct d2 tag] w2 that d1 lh by simp
  have p3: "partial_frame lf (hdr @ ct @ tag) (lf\<lparr>lf_data := d3\<rparr>)" if ok1 ok2 "\<not> ok3"
    using partial_write [OF sz, of "snd (snd w)" "hdr @ ct" tag d3 "[]"] w3 that d2 lh lens by (simp add: add.assoc)
  show ?thesis
  proof (cases "mem 0 \<and> ok1 \<and> ok2 \<and> ok3")
    case True
    then have "log_append_encrypted mem rnd w lf p = (0, lf_size lf, appended lf (hdr @ ct @ tag))"
      using step d3 lh lens by (simp add: appended_def V3_FRAME_OVERHEAD_def AEAD_TAG_LEN_def ac_simps)
    then show ?thesis using append_result_ok [OF nk len] F by simp
  next
    case False
    then show ?thesis using p1 p2 p3
      by (auto simp: step append_result_none intro: append_result_part [OF nk len, unfolded F])
  qed
qed

lemma log_append_result:
  assumes sz: "lf_size lf \<le> length (lf_data lf)" and n: "\<And>n. rnd = Some n \<Longrightarrow> length n = 24"
  shows "append_result lf p (log_append mem rnd w lf p)"
proof (cases "lf_encrypted lf \<or> 0xFFFFFFFF < length p")
  case True
  then show ?thesis
    using log_append_encrypted_result [OF sz n, where p = p] append_result_none [of lf p 0] by (auto simp: log_append_def)
next
  case False
  then have nk: "nonce_ok lf []" and len: "length p \<le> 0xFFFFFFFF" by (simp_all add: nonce_ok_def)
  define hdr where "hdr = build_header (length p) (crc32_compute p)"
  have lh: "length hdr = LOG_FRAME_HEADER" by (simp add: hdr_def log_consts)
  have F: "frame_of lf [] p = hdr @ p" using False by (simp add: frame_of_def hdr_def)
  obtain ok1 d1 where w1: "write_full (fst w) (lf_size lf) hdr (lf_data lf) = (ok1, d1)" by fastforce
  obtain ok2 d2 where w2: "write_full (fst (snd w)) (lf_size lf + LOG_FRAME_HEADER) p d1 = (ok2, d2)" by fastforce
  have step: "log_append mem rnd w lf p =
      (if \<not> ok1 then (-1, 0, lf\<lparr>lf_data := d1\<rparr>)
       else if \<not> ok2 then (-1, 0, lf\<lparr>lf_data := d2\<rparr>)
       else (0, lf_size lf, lf\<lparr>lf_data := d2, lf_size := lf_size lf + LOG_FRAME_HEADER + length p,
                                lf_since_fsync := lf_since_fsync lf + 1\<rparr>))"
    using False w1 w2 by (simp add: log_append_def hdr_def Let_def)
  have d1: "d1 = pwrite (lf_size lf) hdr (lf_data lf)" if ok1 using write_full_True [OF w1] that by blast
  have d2: "d2 = pwrite (lf_size lf) (hdr @ p) (lf_data lf)" if ok1 ok2
    using write_full_True [OF w2] that d1 pwrite_pwrite [OF sz, of hdr p] lh by simp
  have p1: "partial_frame lf (hdr @ p) (lf\<lparr>lf_data := d1\<rparr>)" if "\<not> ok1"
    using partial_first [OF sz, of "fst w" hdr d1] w1 that by simp
  have p2: "partial_frame lf (hdr @ p) (lf\<lparr>lf_data := d2\<rparr>)" if ok1 "\<not> ok2"
    using partial_write [OF sz, of "fst (snd w)" hdr p d2 "[]"] w2 that d1 lh by simp
  show ?thesis
  proof (cases "ok1 \<and> ok2")
    case True
    then have "log_append mem rnd w lf p = (0, lf_size lf, appended lf (hdr @ p))"
      using step d2 lh by (simp add: appended_def add.assoc)
    then show ?thesis using append_result_ok [OF nk len] F by simp
  next
    case not_ok: False
    then show ?thesis using p1 p2 by (auto simp: step intro: append_result_part [OF nk len, unfolded F])
  qed
qed

lemma length_aead_open: "aead_open key nonce aad ct tag = Some pt \<Longrightarrow> length pt = length ct"
  by (auto simp: aead_open_def chacha20_xor_keystream Let_def split: prod.splits if_splits)

lemma length_open_frame: "open_frame lf hdr buf tag = Some q \<Longrightarrow> length q = length buf"
  by (auto simp: open_frame_def length_aead_open split: if_splits option.splits)

lemma log_read_SomeD:
  assumes "log_read mem rd lf off = Some q"
  shows "off + log_frame_overhead lf + length q \<le> length (lf_data lf)"
    and "frame_is lf (take (log_frame_overhead lf + length q) (drop off (lf_data lf))) (Some q)"
proof -
  obtain hdr len buf tag where h: "read_full rd (lf_data lf) off (log_hdr_len lf) = Some hdr"
    "parse_frame_header lf hdr = Some len" "read_body rd lf off len = Some (buf, tag)" "open_frame lf hdr buf tag = Some q"
    using assms by (auto simp: log_read_alt split: option.splits if_splits)
  have hdr: "hdr = take (log_hdr_len lf) (drop off (lf_data lf))" "off + log_hdr_len lf \<le> length (lf_data lf)"
    using read_full_Some [OF h(1)] log_hdr_len_bounds(1) [of lf] by auto
  have body: "off + log_frame_overhead lf + len \<le> length (lf_data lf)" 
    "buf = take len (drop (off + log_hdr_len lf) (lf_data lf))"
    "tag = take (log_frame_overhead lf - log_hdr_len lf) (drop (off + log_hdr_len lf + len) (lf_data lf))"
    using h(3) hdr(2)
    by (auto simp: read_body_def read_full_def log_modes log_consts split: option.splits if_splits)
  have len: "length q = len" using length_open_frame [OF h(4)] body hdr_overhead(1) [of lf] by (auto simp: min_def)
  show "off + log_frame_overhead lf + length q \<le> length (lf_data lf)" using body len by simp
  show "frame_is lf (take (log_frame_overhead lf + length q) (drop off (lf_data lf))) (Some q)"
    using h(2,4) hdr body hdr_overhead(1) [of lf]
    by (simp add: frame_is_def len drop_take min_absorb1 min_absorb2 ac_simps)
qed

text \<open>The mode, which decides how the bytes are read.\<close>

definition same_mode :: "LogFile \<Rightarrow> LogFile \<Rightarrow> bool" where
  "same_mode lf lf' \<longleftrightarrow> lf_encrypted lf' = lf_encrypted lf \<and> lf_key lf' = lf_key lf"

lemma mode_cong:
  assumes "same_mode lf lf'"
  shows "log_hdr_len lf' = log_hdr_len lf" "log_frame_overhead lf' = log_frame_overhead lf"
    "parse_frame_header lf' = parse_frame_header lf" "open_frame lf' = open_frame lf"
    "frame_of lf' = frame_of lf" "nonce_ok lf' = nonce_ok lf"
  using assms by (simp_all add: fun_eq_iff same_mode_def log_modes open_frame_def frame_of_def nonce_ok_def)

lemma mode_frame_is: "same_mode lf lf' \<Longrightarrow> frame_is lf' = frame_is lf"
  by (simp add: fun_eq_iff frame_is_def mode_cong split: option.split)

lemma log_read_prefix:
  assumes r: "log_read mem rd lf off = Some q" and "off + log_frame_overhead lf + length q \<le> n"
    and t: "take n (lf_data lf') = take n (lf_data lf)" and m: "same_mode lf lf'" and "mem' 0"
  shows "log_read mem' (\<lambda>_. True) lf' off = Some q"
proof -
  define k where "k = log_frame_overhead lf + length q"
  note d = log_read_SomeD [OF r, folded k_def, unfolded add.assoc, folded k_def]
  have "take k (drop off (lf_data lf')) = take k (drop off (lf_data lf))"
    using arg_cong [OF t, of "\<lambda>x. take k (drop off x)"] assms(2) by (simp add: drop_take k_def min_absorb1)
  moreover have len: "off + k \<le> length (lf_data lf')"
    using arg_cong [OF t, of length] assms(2) d(1) by (simp add: k_def)
  ultimately have "frame_is lf' (take k (drop off (lf_data lf'))) (Some q)" using d(2) mode_frame_is [OF m] by simp
  moreover have "lf_data lf' = take off (lf_data lf') @ take k (drop off (lf_data lf')) @ drop (off + k) (lf_data lf')"
    by (simp only: drop_drop [symmetric] append_take_drop_id add.commute [of off k])
  ultimately show ?thesis using log_read_frame [of lf' "take off (lf_data lf')"] len assms(5) by simp
qed

section \<open>The scan\<close>

definition torn_tail :: "LogFile \<Rightarrow> bytes \<Rightarrow> bool" where
  "torn_tail lf t \<longleftrightarrow>
     length t < log_hdr_len lf \<or>
     (case parse_frame_header lf (take (log_hdr_len lf) t) of
        None \<Rightarrow> False
      | Some len \<Rightarrow> length t < log_frame_overhead lf + len)"

text \<open>The payloads of the good frames of a stretch of the log, with their offsets.\<close>

fun good_at :: "nat \<Rightarrow> (bytes \<times> bytes option) list \<Rightarrow> (nat \<times> bytes) list" where
  "good_at off [] = []"
| "good_at off ((b, None) # ss) = good_at (off + length b) ss"
| "good_at off ((b, Some p) # ss) = (off, p) # good_at (off + length b) ss"

abbreviation good_seg :: "bytes \<times> bytes option \<Rightarrow> bool" where
  "good_seg s \<equiv> snd s \<noteq> None"

lemma torn_prefix:
  assumes "frame_is lf b r" and "k < length b"
  shows "torn_tail lf (take k b)"
proof (cases "k < log_hdr_len lf")
  case False
  then have "take (log_hdr_len lf) (take k b) = take (log_hdr_len lf) b" by (simp add: min_def)
  then show ?thesis using assms by (auto simp: frame_is_def torn_tail_def split: option.splits)
qed (use assms in \<open>simp add: torn_tail_def\<close>)

lemma scan_frame:
  assumes "lf_data lf = pre @ b @ post" and "frame_is lf b r" and "length pre + length b \<le> stop"
  shows "log_scan_loop (\<lambda>_. True) (\<lambda>_. True) lf (\<lambda>i p c. (True, f i p c)) stop (length pre) st =
    log_scan_loop (\<lambda>_. True) (\<lambda>_. True) lf (\<lambda>i p c. (True, f i p c)) stop (length pre + length b)
      (case r of None \<Rightarrow> st\<lparr>ss_hole := True, ss_corrupt := ss_corrupt st + 1\<rparr>
       | Some p \<Rightarrow> let st1 = st\<lparr>ss_ctx := f (length pre) p (ss_ctx st), ss_good := ss_good st + 1\<rparr>
                   in if ss_hole st then st1\<lparr>ss_recovered := True\<rparr> else st1\<lparr>ss_clean_end := length pre + length b\<rparr>)"
proof -
  obtain len where l: "parse_frame_header lf (take (log_hdr_len lf) b) = Some len" "length b = log_frame_overhead lf + len"
    "open_frame lf (take (log_hdr_len lf) b) (take len (drop (log_hdr_len lf) b)) (drop (log_hdr_len lf + len) b) = r"
    "log_hdr_len lf \<le> length b"
    using assms(2) by (rule frame_isE)
  have "length pre < stop" "\<not> stop < length pre + log_hdr_len lf" using l(4) assms(3) log_hdr_len_bounds(1) [of lf] by linarith+
  moreover have "\<not> stop < length pre + log_frame_overhead lf + len" using assms(3) l(2) by simp
  ultimately show ?thesis
    by (subst log_scan_loop.simps)
      (simp add: read_header_in [OF assms(1) l(4)] read_body_in [OF assms(1) l(2)] l(1,3) Let_def l(2) add.assoc split: option.split)
qed

abbreviation seg_bytes :: "(bytes \<times> bytes option) list \<Rightarrow> bytes" where
  "seg_bytes segs \<equiv> concat (map fst segs)"

abbreviation segs_ok :: "LogFile \<Rightarrow> (bytes \<times> bytes option) list \<Rightarrow> bool" where
  "segs_ok lf segs \<equiv> list_all (\<lambda>(b, r). frame_is lf b r) segs"

abbreviation scan_all where
  "scan_all lf f \<equiv> log_scan_loop (\<lambda>_. True) (\<lambda>_. True) lf (\<lambda>i p c. (True, f i p c))"

section \<open>Resynchronisation\<close>

text \<open>A structurally valid frame: a good header, and the frame it announces ends before \<open>stop\<close>.\<close>

definition valid_at :: "LogFile \<Rightarrow> nat \<Rightarrow> nat \<Rightarrow> bool" where
  "valid_at lf stop i \<longleftrightarrow>
     (case parse_frame_header lf (take (log_hdr_len lf) (drop i (lf_data lf))) of
        None \<Rightarrow> False
      | Some len \<Rightarrow> i + log_frame_overhead lf + len \<le> stop)"

lemma parse_magic: "parse_frame_header lf hdr = Some len \<Longrightarrow> aegis_get_u32le hdr = log_magic lf"
  by (auto simp: log_modes parse_header_def parse_header_v3_def split: if_splits)

lemma valid_at_bound: "valid_at lf stop i \<Longrightarrow> i + log_hdr_len lf \<le> stop"
  using hdr_overhead(1) [of lf] by (auto simp: valid_at_def split: option.splits)

lemma frame_here_valid:
  assumes "base + i + log_hdr_len lf \<le> base + want" and "base + want \<le> stop" and "stop \<le> length (lf_data lf)" and that: "i' = base + i"
  shows "frame_here (\<lambda>_. True) lf (take want (drop base (lf_data lf))) base stop i \<longleftrightarrow> valid_at lf stop i'"
proof -
  have "4 \<le> log_hdr_len lf" by (simp add: log_modes log_consts)
  then have "aegis_get_u32le (drop i (take want (drop base (lf_data lf)))) =
      aegis_get_u32le (take (log_hdr_len lf) (drop i' (lf_data lf)))"
    using assms that by (simp add: drop_take add.commute)
  then show ?thesis
    using assms that parse_magic [of lf "take (log_hdr_len lf) (drop i' (lf_data lf))"]
    by (auto simp: frame_here_def valid_at_def read_full_ok split: option.splits)
qed

lemma find_next_frame_first:
  assumes "stop \<le> length (lf_data lf)" and "base \<le> stop"
  shows "(\<forall>j. base \<le> j \<and> j < find_next_frame (\<lambda>_. True) lf base stop \<longrightarrow> \<not> valid_at lf stop j) \<and>
    (find_next_frame (\<lambda>_. True) lf base stop < stop \<longrightarrow> valid_at lf stop (find_next_frame (\<lambda>_. True) lf base stop)) \<and>
    find_next_frame (\<lambda>_. True) lf base stop \<le> stop"
  using assms(2)
proof (induction "stop - base" arbitrary: base rule: less_induct)
  case less
  define want where "want = min AEGIS_IO_BUF_SIZE (stop - base)"
  show ?case
  proof (cases "base + log_hdr_len lf \<le> stop")
    case True
    have w: "base + want \<le> stop" "log_hdr_len lf \<le> want" using True log_hdr_len_bounds(2) [of lf] less.prems by (auto simp: want_def)
    have win: "read_full (\<lambda>_. True) (lf_data lf) base want = Some (take want (drop base (lf_data lf)))"
      using w(1) assms(1) by (intro read_full_ok) linarith
    have here: "frame_here (\<lambda>_. True) lf (take want (drop base (lf_data lf))) base stop i \<longleftrightarrow> valid_at lf stop (base + i)"
      if "i \<le> want - log_hdr_len lf" for i
      using that w assms(1) by (intro frame_here_valid) linarith+
    show ?thesis
      using True
    proof (cases rule: find_next_frame_cases [of base lf stop "\<lambda>_. True", folded want_def, consumes 1, case_names fail found next_window])
      case fail
      with win show ?thesis by simp
    next
      case (found wn i)
      have "\<not> valid_at lf stop j" if j: "base \<le> j" "j < base + i" for j
      proof -
        have "j - base < i" "j - base \<le> want - log_hdr_len lf" using j found(4) by linarith+
        then show ?thesis using here [of "j - base"] found(2) found(5) [of "j - base"] j(1) win by simp
      qed
      moreover have v: "valid_at lf stop (base + i)" using found win here by simp
      moreover have "base + i \<le> stop" using valid_at_bound [OF v] by linarith
      ultimately show ?thesis unfolding found(1) by blast
    next
      case (next_window wn)
      let ?b = "base + (want - (log_hdr_len lf - 1))"
      have none: "\<not> valid_at lf stop j" if j: "base \<le> j" "j < ?b" for j
      proof -
        have "j - base \<le> want - log_hdr_len lf" using j w log_hdr_len_bounds(1) [of lf] by linarith
        then show ?thesis using next_window(2) next_window(3) [of "j - base"] here [of "j - base"] j win by simp
      qed
      have "stop - ?b < stop - base" "?b \<le> stop" using w log_hdr_len_bounds(1) [of lf] by linarith+
      note ih = less.hyps [OF this, folded next_window(1)]
      have "\<not> valid_at lf stop j" if "base \<le> j" "j < find_next_frame (\<lambda>_. True) lf base stop" for j
        using none [of j] ih that by (cases "j < ?b") auto
      with ih show ?thesis by blast
    qed
  next
    case False
    then show ?thesis using less.prems by (simp add: find_next_frame.simps [of _ lf base stop]) (fastforce dest: valid_at_bound)
  qed
qed

section \<open>The scan of arbitrary bytes\<close>

text \<open>
  How the scan divides the bytes up to \<open>stop\<close>. A frame whose header is good is delimited by its length, whether its payload is good
  or not. From a header that does not parse, the bytes up to the next structurally valid frame are lost. What is left at the end holds
  no further frame: it is shorter than a header, or announces more than there is, or has no structurally valid frame in it.
\<close>

definition lost_stretch :: "LogFile \<Rightarrow> nat \<Rightarrow> nat \<Rightarrow> bytes \<Rightarrow> bool" where
  "lost_stretch lf stop i b \<longleftrightarrow>
     i + log_hdr_len lf \<le> stop \<and> parse_frame_header lf (take (log_hdr_len lf) (drop i (lf_data lf))) = None \<and> b \<noteq> [] \<and>
     (\<forall>j \<in> {i + 1..<i + length b}. \<not> valid_at lf stop j) \<and> valid_at lf stop (i + length b)"

fun scan_segs :: "LogFile \<Rightarrow> nat \<Rightarrow> nat \<Rightarrow> (bytes \<times> bytes option) list \<Rightarrow> bool" where
  "scan_segs lf stop i [] = True"
| "scan_segs lf stop i ((b, r) # ss) =
     (i + length b \<le> stop \<and> take (length b) (drop i (lf_data lf)) = b \<and> (frame_is lf b r \<or> r = None \<and> lost_stretch lf stop i b) \<and>
      scan_segs lf stop (i + length b) ss)"

definition scan_tail :: "LogFile \<Rightarrow> nat \<Rightarrow> nat \<Rightarrow> bool" where
  "scan_tail lf stop i \<longleftrightarrow>
     stop < i + log_hdr_len lf \<or>
     (case parse_frame_header lf (take (log_hdr_len lf) (drop i (lf_data lf))) of
        None \<Rightarrow> \<forall>j \<in> {i + 1..<stop}. \<not> valid_at lf stop j
      | Some len \<Rightarrow> stop < i + log_frame_overhead lf + len)"

lemma resync_iff:
  assumes "stop \<le> length (lf_data lf)" and "base \<le> stop"
  shows "stop \<le> find_next_frame (\<lambda>_. True) lf base stop \<longleftrightarrow> (\<forall>j \<in> {base..<stop}. \<not> valid_at lf stop j)"
    and "valid_at lf stop n \<Longrightarrow> base \<le> n \<Longrightarrow> \<forall>j \<in> {base..<n}. \<not> valid_at lf stop j \<Longrightarrow> find_next_frame (\<lambda>_. True) lf base stop = n"
proof -
  let ?r = "find_next_frame (\<lambda>_. True) lf base stop"
  note r = find_next_frame_first [OF assms] and ge = find_frame_ge [OF assms(2), of "\<lambda>_. True" lf]
  show "stop \<le> ?r \<longleftrightarrow> (\<forall>j \<in> {base..<stop}. \<not> valid_at lf stop j)" using r ge by (auto simp: not_le [symmetric])
  assume n: "valid_at lf stop n" "base \<le> n" "\<forall>j \<in> {base..<n}. \<not> valid_at lf stop j"
  have "n < stop" using valid_at_bound [OF n(1)] log_hdr_len_bounds(1) [of lf] by linarith
  then have "\<not> stop \<le> ?r" using r n by (auto simp: not_le)
  then show "?r = n" using r ge n by (meson atLeastLessThan_iff linorder_neqE_nat not_le)
qed

lemma scan_lost:
  assumes "stop \<le> length (lf_data lf)" and "lost_stretch lf stop i b"
  shows "scan_all lf f stop i st = scan_all lf f stop (i + length b) (st\<lparr>ss_hole := True, ss_corrupt := ss_corrupt st + 1\<rparr>)"
proof -
  have l: "i + log_hdr_len lf \<le> stop" "parse_frame_header lf (take (log_hdr_len lf) (drop i (lf_data lf))) = None"
    "0 < length b" "\<forall>j \<in> {i + 1..<i + length b}. \<not> valid_at lf stop j" "valid_at lf stop (i + length b)"
    using assms(2) by (simp_all add: lost_stretch_def)
  have lt: "i < stop" "i + 1 \<le> stop" using l(1) log_hdr_len_bounds(1) [of lf] by linarith+
  have n: "find_next_frame (\<lambda>_. True) lf (i + 1) stop = i + length b"
    using resync_iff(2) [OF assms(1) lt(2) l(5)] l(3,4) by simp
  have "i + length b < stop" using valid_at_bound [OF l(5)] log_hdr_len_bounds(1) [of lf] by linarith
  moreover have "read_full (\<lambda>_. True) (lf_data lf) i (log_hdr_len lf) = Some (take (log_hdr_len lf) (drop i (lf_data lf)))"
    using l(1) assms(1) by (intro read_full_ok) linarith
  ultimately show ?thesis using lt l(1,2) n
    by (subst log_scan_loop.simps) (simp add: Let_def not_less not_le)
qed

text \<open>One step of the division is one round of the loop.\<close>

lemma scan_seg:
  assumes "stop \<le> length (lf_data lf)" and "scan_segs lf stop i ((b, r) # ss)"
  shows "scan_all lf f stop i st = scan_all lf f stop (i + length b)
      (case r of None \<Rightarrow> st\<lparr>ss_hole := True, ss_corrupt := ss_corrupt st + 1\<rparr>
       | Some p \<Rightarrow> let st1 = st\<lparr>ss_ctx := f i p (ss_ctx st), ss_good := ss_good st + 1\<rparr>
                   in if ss_hole st then st1\<lparr>ss_recovered := True\<rparr> else st1\<lparr>ss_clean_end := i + length b\<rparr>)"
proof (cases "frame_is lf b r")
  case True
  have d: "lf_data lf = take i (lf_data lf) @ b @ drop (i + length b) (lf_data lf)"
    using assms(2) by (metis add.commute append_take_drop_id drop_drop scan_segs.simps(2))
  have len: "length (take i (lf_data lf)) = i" using assms by simp
  show ?thesis using scan_frame [OF d True, of stop f st, unfolded len] assms(2) by simp
next
  case False
  then have l: "r = None" "lost_stretch lf stop i b" using assms(2) by simp_all
  show ?thesis using scan_lost [OF assms(1) l(2), of f st] l(1) by simp
qed

lemma scan_end:
  assumes "stop \<le> length (lf_data lf)" and "scan_tail lf stop i" and "i \<le> stop"
  shows "scan_all lf f stop i st = Some st"
proof (cases "stop < i + log_hdr_len lf")
  case True
  then show ?thesis by (subst log_scan_loop.simps) simp
next
  case False
  then have h: "read_full (\<lambda>_. True) (lf_data lf) i (log_hdr_len lf) = Some (take (log_hdr_len lf) (drop i (lf_data lf)))"
    using assms(1) by (intro read_full_ok) linarith
  have "i + 1 \<le> stop" using False log_hdr_len_bounds(1) [of lf] by linarith
  then show ?thesis using False assms(2) h resync_iff(1) [OF assms(1), of "i + 1"]
    by (subst log_scan_loop.simps) (auto simp: scan_tail_def Let_def split: option.splits)
qed

lemma scan_after_hole:
  assumes "stop \<le> length (lf_data lf)" and "scan_segs lf stop i segs" and "scan_tail lf stop (i + length (seg_bytes segs))" and "ss_hole st"
    and "i \<le> stop"
  shows "scan_all lf f stop i st =
    Some (st\<lparr>ss_ctx := fold (\<lambda>(j, p). f j p) (good_at i segs) (ss_ctx st),
             ss_good := ss_good st + length (good_at i segs),
             ss_corrupt := ss_corrupt st + length (filter (\<lambda>s. \<not> good_seg s) segs),
             ss_recovered := (ss_recovered st \<or> list_ex good_seg segs)\<rparr>)"
  using assms(2-)
proof (induction segs arbitrary: i st)
  case Nil
  then show ?case using scan_end [OF assms(1)] by simp
next
  case (Cons s segs)
  obtain b r where s: "s = (b, r)" by (cases s)
  have n: "scan_segs lf stop (i + length b) segs" "scan_tail lf stop (i + length b + length (seg_bytes segs))" "i + length b \<le> stop"
    using Cons.prems by (simp_all add: s add.assoc)
  show ?case
    using scan_seg [OF assms(1) Cons.prems(1) [unfolded s], of f st] Cons.prems(3) Cons.IH [OF n(1,2) _ n(3)]
    by (cases r) (simp_all add: s)
qed

lemma scan_clean:
  assumes "stop \<le> length (lf_data lf)" and "scan_segs lf stop i segs" and "scan_tail lf stop (i + length (seg_bytes segs))" and "\<not> ss_hole st"
    and "i \<le> stop" and "ss_clean_end st = i" and "\<not> ss_recovered st"
  shows "scan_all lf f stop i st =
    Some (st\<lparr>ss_ctx := fold (\<lambda>(j, p). f j p) (good_at i segs) (ss_ctx st),
             ss_clean_end := i + length (seg_bytes (takeWhile good_seg segs)),
             ss_good := ss_good st + length (good_at i segs),
             ss_corrupt := ss_corrupt st + length (filter (\<lambda>s. \<not> good_seg s) segs),
             ss_hole := list_ex (\<lambda>s. \<not> good_seg s) segs,
             ss_recovered := list_ex good_seg (dropWhile good_seg segs)\<rparr>)"
  using assms(2-)
proof (induction segs arbitrary: i st)
  case Nil
  then show ?case using scan_end [OF assms(1)] by (cases st) simp
next
  case (Cons s segs)
  obtain b r where s: "s = (b, r)" by (cases s)
  have n: "scan_segs lf stop (i + length b) segs" "scan_tail lf stop (i + length b + length (seg_bytes segs))" "i + length b \<le> stop"
    using Cons.prems by (simp_all add: s add.assoc)
  note ih = Cons.IH [OF n(1,2) _ n(3)] and hole = scan_after_hole [OF assms(1) n(1,2) _ n(3)]
  show ?case
    using scan_seg [OF assms(1) Cons.prems(1) [unfolded s], of f st] Cons.prems(3,5,6)
    by (cases r; cases st) (simp_all add: s ih hole)
qed

lemma log_scan_division:
  assumes "stop \<le> length (lf_data lf)" and "start \<le> stop" and "scan_segs lf stop start segs"
    and "scan_tail lf stop (start + length (seg_bytes segs))"
  shows "log_scan (\<lambda>_. True) (\<lambda>_. True) lf start stop (\<lambda>i p c. (True, f i p c)) ctx =
    Some (fold (\<lambda>(i, p). f i p) (good_at start segs) ctx,
      \<lparr>sr_truncate_to = (if list_ex good_seg (dropWhile good_seg segs) then stop
                           else start + length (seg_bytes (takeWhile good_seg segs))),
       sr_good_frames = length (good_at start segs),
       sr_corrupt_frames = length (filter (\<lambda>s. \<not> good_seg s) segs),
       sr_recovered_after_hole = list_ex good_seg (dropWhile good_seg segs)\<rparr>)"
  by (simp add: log_scan_def scan_clean [OF assms(1,3,4) _ assms(2)])

text \<open>Every stretch of bytes has such a division.\<close>

lemma next_seg:
  assumes "stop \<le> length (lf_data lf)" and "i \<le> stop" and "\<not> scan_tail lf stop i"
  shows "\<exists>b r. b \<noteq> [] \<and> scan_segs lf stop i [(b, r)]"
proof (cases "parse_frame_header lf (take (log_hdr_len lf) (drop i (lf_data lf)))")
  case None
  then obtain k where k: "i + 1 \<le> k" "k < stop" "valid_at lf stop k" using assms(3) by (auto simp: scan_tail_def)
  define n where "n = (LEAST k. i + 1 \<le> k \<and> valid_at lf stop k)"
  have n: "i + 1 \<le> n" "valid_at lf stop n" "n \<le> k"
    unfolding n_def using LeastI [of "\<lambda>k. i + 1 \<le> k \<and> valid_at lf stop k" k] Least_le [of "\<lambda>k. i + 1 \<le> k \<and> valid_at lf stop k" k] k by auto
  have least: "\<not> valid_at lf stop j" if "i + 1 \<le> j" "j < n" for j
    using not_less_Least [of j "\<lambda>k. i + 1 \<le> k \<and> valid_at lf stop k"] that unfolding n_def by blast
  define b where "b = take (n - i) (drop i (lf_data lf))"
  have len: "length b = n - i" "i + length b = n" using n k assms(1) by (simp_all add: b_def)
  have ne: "b \<noteq> []" using len n(1) by auto
  have "lost_stretch lf stop i b" unfolding lost_stretch_def len(2)
    using None n(2) least ne assms(3) by (auto simp: scan_tail_def)
  moreover have "take (length b) (drop i (lf_data lf)) = b" by (subst len(1)) (simp only: b_def)
  ultimately have "scan_segs lf stop i [(b, None)]" using len n k by simp
  then show ?thesis using ne by blast
next
  case (Some l)
  let ?n = "log_frame_overhead lf + l" and ?h = "log_hdr_len lf"
  define b where "b = take ?n (drop i (lf_data lf))"
  have fit: "i + ?n \<le> stop" using assms(3) Some by (simp add: scan_tail_def add.assoc)
  have len: "length b = ?n" "?h \<le> ?n" using fit assms(1) hdr_overhead(1) [of lf] by (simp_all add: b_def)
  define r where "r = open_frame lf (take ?h b) (take l (drop ?h b)) (drop (?h + l) b)"
  have "take ?h b = take ?h (drop i (lf_data lf))" using len(2) by (simp add: b_def min_def)
  then have "frame_is lf b r" unfolding frame_is_def using Some len r_def by simp
  moreover have "b \<noteq> []" using len(1) hdr_overhead(2) [of lf] by auto
  moreover have "take (length b) (drop i (lf_data lf)) = b" by (subst len(1)) (simp only: b_def)
  ultimately have "scan_segs lf stop i [(b, r)]" "b \<noteq> []" using len(1) fit by simp_all
  then show ?thesis by blast
qed

lemma division_exists:
  assumes "stop \<le> length (lf_data lf)" and "i \<le> stop"
  shows "\<exists>segs. scan_segs lf stop i segs \<and> scan_tail lf stop (i + length (seg_bytes segs))"
  using assms(2)
proof (induction "stop - i" arbitrary: i rule: less_induct)
  case less
  show ?case
  proof (cases "scan_tail lf stop i")
    case True
    then show ?thesis by (intro exI [of _ "[]"]) simp
  next
    case False
    obtain b r where b: "b \<noteq> []" "scan_segs lf stop i [(b, r)]" using next_seg [OF assms(1) less.prems False] by blast
    then have "i + length b \<le> stop" "0 < length b" by simp_all
    moreover from this have "stop - (i + length b) < stop - i" by linarith
    ultimately obtain segs where "scan_segs lf stop (i + length b) segs" "scan_tail lf stop (i + length b + length (seg_bytes segs))"
      using less.hyps [of "i + length b"] by blast
    then show ?thesis using b(2) by (intro exI [of _ "(b, r) # segs"]) (simp add: add.assoc)
  qed
qed

text \<open>A log of whole frames with a torn end is divided into its frames.\<close>

lemma frames_division:
  assumes "lf_data lf = pre @ seg_bytes segs @ t @ post" and "segs_ok lf segs" and "torn_tail lf t"
    and "stop = length pre + length (seg_bytes segs) + length t"
  shows "scan_segs lf stop (length pre) segs \<and> scan_tail lf stop (length pre + length (seg_bytes segs))"
  using assms
proof (induction segs arbitrary: pre)
  case Nil
  show ?case
  proof (cases "length t < log_hdr_len lf")
    case False
    then have "take (log_hdr_len lf) (drop (length pre) (lf_data lf)) = take (log_hdr_len lf) t" using Nil.prems(1) by simp
    then show ?thesis using Nil.prems(3,4) False by (simp add: scan_tail_def torn_tail_def split: option.splits)
  qed (use Nil.prems(4) in \<open>simp add: scan_tail_def\<close>)
next
  case (Cons s segs)
  obtain b r where s: "s = (b, r)" by (cases s)
  have d: "lf_data lf = (pre @ b) @ seg_bytes segs @ t @ post" using Cons.prems(1) by (simp add: s)
  show ?case using Cons.IH [OF d] Cons.prems by (simp add: s add.assoc)
qed

lemma log_scan_segments:
  assumes "lf_data lf = pre @ seg_bytes segs @ t @ post" and "segs_ok lf segs" and "torn_tail lf t"
    and "stop = length pre + length (seg_bytes segs) + length t"
  shows "log_scan (\<lambda>_. True) (\<lambda>_. True) lf (length pre) stop (\<lambda>i p c. (True, f i p c)) ctx =
    Some (fold (\<lambda>(i, p). f i p) (good_at (length pre) segs) ctx,
      \<lparr>sr_truncate_to = (if list_ex good_seg (dropWhile good_seg segs) then stop
                           else length pre + length (seg_bytes (takeWhile good_seg segs))),
       sr_good_frames = length (good_at (length pre) segs),
       sr_corrupt_frames = length (filter (\<lambda>s. \<not> good_seg s) segs),
       sr_recovered_after_hole = list_ex good_seg (dropWhile good_seg segs)\<rparr>)"
  using frames_division [OF assms] assms(1,4) by (intro log_scan_division) simp_all

end
