(* ===== verification/Log_Recovery.thy ===== *)
theory Log_Recovery
  imports Log_Frames
begin

text \<open>
  What the log promises its clients: appends that can be read back, a scan that recovers everything but
  the damage, a crash in the middle of an append that costs nothing but that append, opening in the right
  mode, and the migration of a log in the first format. Two theorems show where recovery loses data.
\<close>

section \<open>Appending to a clean log\<close>

abbreviation all_ok :: "nat \<Rightarrow> bool" where
  "all_ok \<equiv> \<lambda>_. True"

lemma appended_mode: "same_mode lf (appended lf F)"
  by (simp add: same_mode_def appended_def)

lemma appended_data:
  "lf_size lf \<le> length (lf_data lf) \<Longrightarrow>
    lf_data (appended lf F) = take (lf_size lf) (lf_data lf) @ F @ drop (lf_size lf + length F) (lf_data lf)"
  by (simp add: appended_def pwrite_in)

lemma appended_size:
  "lf_size lf \<le> length (lf_data lf) \<Longrightarrow> lf_size (appended lf F) \<le> length (lf_data (appended lf F))"
  by (simp add: appended_data) (simp add: appended_def)

lemma log_append_ok:
  assumes "lf_size lf \<le> length (lf_data lf)" and "\<And>n. rnd = Some n \<Longrightarrow> length n = 24"
    and "log_append mem rnd w lf p = (0, off, lf')"
  obtains nonce where "nonce_ok lf nonce" "length p \<le> 0xFFFFFFFF" "off = lf_size lf" "lf' = appended lf (frame_of lf nonce p)"
  using log_append_result [OF assms(1,2), where p = p and mem = mem and w = w and rnd = rnd] assms(3) by (auto simp: append_result_def)

text \<open>A log whose content is a sequence of frames, all good, up to the trusted end.\<close>

definition clean_log :: "LogFile \<Rightarrow> bytes list \<Rightarrow> (bytes \<times> bytes option) list \<Rightarrow> bool" where
  "clean_log lf ps segs \<longleftrightarrow> lf_data lf = seg_bytes segs \<and> lf_size lf = length (lf_data lf) \<and> segs_ok lf segs \<and> map snd segs = map Some ps"

lemma good_all:
  assumes "map snd segs = map Some ps"
  shows "takeWhile good_seg segs = segs" "dropWhile good_seg segs = []" "filter (\<lambda>s. \<not> good_seg s) segs = []"
proof -
  have "good_seg s" if "s \<in> set segs" for s
    using assms that by (metis (no_types, lifting) image_iff list.set_map option.distinct(1))
  then show "takeWhile good_seg segs = segs" "dropWhile good_seg segs = []" "filter (\<lambda>s. \<not> good_seg s) segs = []"
    by (auto simp: takeWhile_eq_all_conv)
qed

lemma good_at_payloads: "map snd segs = map Some ps \<Longrightarrow> map snd (good_at off segs) = ps"
  by (induction off segs arbitrary: ps rule: good_at.induct) (auto simp: Cons_eq_map_conv)

lemma good_at_append: "good_at off (s1 @ s2) = good_at off s1 @ good_at (off + length (seg_bytes s1)) s2"
  by (induction off s1 rule: good_at.induct) (simp_all add: add.assoc)

lemma mode_torn: "same_mode lf lf' \<Longrightarrow> torn_tail lf' = torn_tail lf"
  by (simp add: fun_eq_iff torn_tail_def mode_cong split: option.split)

lemma clean_scan:
  assumes "clean_log lf ps segs" and "lf_data lf' = lf_data lf @ t" and "same_mode lf lf'" and "torn_tail lf t"
  shows "log_scan all_ok all_ok lf' 0 (length (lf_data lf')) (\<lambda>i p c. (True, f i p c)) ctx =
    Some (fold (\<lambda>(i, p). f i p) (good_at 0 segs) ctx,
      \<lparr>sr_truncate_to = lf_size lf, sr_good_frames = length ps, sr_corrupt_frames = 0, sr_recovered_after_hole = False\<rparr>)"
proof -
  have p: "map snd segs = map Some ps" using assms(1) by (simp add: clean_log_def)
  have "length (good_at 0 segs) = length ps" using arg_cong [OF good_at_payloads [OF p, of 0], of length] by simp
  moreover have "lf_data lf' = [] @ seg_bytes segs @ t @ []" "segs_ok lf' segs" "torn_tail lf' t"
    "length (lf_data lf') = length [] + length (seg_bytes segs) + length t" "lf_size lf = length (seg_bytes segs)"
    using assms mode_frame_is [OF assms(3)] mode_torn [OF assms(3)] by (simp_all add: clean_log_def)
  ultimately show ?thesis
    using log_scan_segments [of lf' "[]" segs t "[]" "length (lf_data lf')" f ctx, unfolded good_all [OF p]] by simp
qed

lemma clean_appended:
  assumes "clean_log lf ps segs" and "nonce_ok lf nonce" and "length p \<le> 0xFFFFFFFF"
  shows "clean_log (appended lf (frame_of lf nonce p)) (ps @ [p]) (segs @ [(frame_of lf nonce p, Some p)])"
  using assms frame_of_is [OF assms(2,3)] mode_frame_is [OF appended_mode]
  by (simp add: clean_log_def appended_data) (simp add: appended_def)

lemma torn_nil: "torn_tail lf []"
  by (simp add: torn_tail_def)

lemma clean_length: "clean_log lf ps segs \<Longrightarrow> length segs = length ps"
  unfolding clean_log_def by (metis length_map)

lemma clean_truncate: "clean_log lf ps segs \<Longrightarrow> snd (log_truncate True lf (lf_size lf)) = lf"
  by (simp add: clean_log_def log_truncate_def)

text \<open>At the end of a log, an append that fails leaves a torn tail.\<close>

lemma append_torn:
  assumes "append_result lf p (rc, off, lf')" and "lf_size lf = length (lf_data lf)"
    and "\<And>nonce. nonce_ok lf nonce \<Longrightarrow> rc = 0 \<Longrightarrow> length p \<le> 0xFFFFFFFF \<Longrightarrow> lf' = appended lf (frame_of lf nonce p) \<Longrightarrow> thesis"
    and "\<And>t. rc = -1 \<Longrightarrow> lf' = lf\<lparr>lf_data := lf_data lf @ t\<rparr> \<Longrightarrow> torn_tail lf t \<Longrightarrow> thesis"
  shows thesis
proof -
  obtain nonce where n: "nonce_ok lf nonce"
    and "rc = 0 \<and> length p \<le> 0xFFFFFFFF \<and> lf' = appended lf (frame_of lf nonce p) \<or>
      rc = -1 \<and> (lf' = lf \<or> length p \<le> 0xFFFFFFFF \<and> partial_frame lf (frame_of lf nonce p) lf')"
    using assms(1) unfolding append_result_def by auto
  then show thesis
  proof (elim disjE conjE)
    assume "rc = -1" "lf' = lf"
    then show thesis using assms(4) [of "[]"] torn_nil by simp
  next
    assume fail: "rc = -1" "length p \<le> 0xFFFFFFFF" "partial_frame lf (frame_of lf nonce p) lf'"
    then obtain k where k: "k < length (frame_of lf nonce p)" "lf' = lf\<lparr>lf_data := lf_data lf @ take k (frame_of lf nonce p)\<rparr>"
      unfolding partial_frame_def by (auto simp: pwrite_in assms(2))
    show thesis using assms(4) [OF fail(1) k(2)] torn_prefix [OF frame_of_is [OF n fail(2)] k(1)] by blast
  qed (use assms(3) n in blast)
qed

section \<open>The legacy format\<close>

definition v1_frame :: "bytes \<Rightarrow> bytes" where
  "v1_frame p = aegis_put_u32le (crc32_compute p) @ aegis_put_u32le (of_nat (length p)) @ p"

text \<open>Where the migration stops: a partial frame or a damaged one.\<close>

definition v1_stop :: "bytes \<Rightarrow> bool" where
  "v1_stop t \<longleftrightarrow> length t < 8 \<or> length t < 8 + unat (aegis_get_u32le (drop 4 t)) \<or>
     crc32_compute (take (unat (aegis_get_u32le (drop 4 t))) (drop 8 t)) \<noteq> aegis_get_u32le t"

abbreviation v2_frame :: "bytes \<Rightarrow> bytes" where
  "v2_frame p \<equiv> build_header (length p) (crc32_compute p) @ p"

lemma migrate_step:
  assumes "length p \<le> 0xFFFFFFFF" and "data = pre @ v1_frame p @ rest"
  shows "migrate_loop all_ok all_ok all_ok data (length pre) out n =
    migrate_loop all_ok all_ok all_ok data (length (pre @ v1_frame p)) (out @ v2_frame p) (Suc n)"
  by (subst migrate_loop.simps)
    (simp add: assms(2) v1_frame_def V1_FRAME_HEADER_def read_full_ok unat_len32 [OF assms(1)] Let_def add.assoc)

lemma migrate_end:
  assumes "v1_stop t" and "data = pre @ t"
  shows "migrate_loop all_ok all_ok all_ok data (length pre) out n = Some (out, n)"
proof (cases "length t < 8")
  case False
  then show ?thesis using assms(1)
    by (subst migrate_loop.simps) (auto simp: assms(2) V1_FRAME_HEADER_def read_full_ok v1_stop_def Let_def drop_take)
qed (simp add: migrate_loop.simps assms(2) V1_FRAME_HEADER_def)

lemma migrate_all:
  assumes "list_all (\<lambda>p. length p \<le> 0xFFFFFFFF) ps" and "v1_stop t" and "data = pre @ concat (map v1_frame ps) @ t"
  shows "migrate_loop all_ok all_ok all_ok data (length pre) out n = Some (out @ concat (map v2_frame ps), n + length ps)"
  using assms
proof (induction ps arbitrary: pre out n)
  case Nil
  then show ?case using migrate_end [of t data pre] by simp
next
  case (Cons p ps)
  then show ?case
    using migrate_step [of p data pre "concat (map v1_frame ps) @ t" out n] Cons.IH [of "pre @ v1_frame p" "out @ v2_frame p" "Suc n"]
    by simp
qed

lemma v2_clean: "list_all (\<lambda>p. length p \<le> 0xFFFFFFFF) ps \<Longrightarrow>
    clean_log (new_log (concat (map v2_frame ps)) b None) ps (map (\<lambda>p. (v2_frame p, Some p)) ps)"
proof -
  let ?lf = "new_log (concat (map v2_frame ps)) b None"
  have "frame_is ?lf (v2_frame p) (Some p)" if "length p \<le> 0xFFFFFFFF" for p
    using frame_of_is [of ?lf "[]" p] that by (simp add: frame_of_def nonce_ok_def new_log_def)
  then show "list_all (\<lambda>p. length p \<le> 0xFFFFFFFF) ps \<Longrightarrow> ?thesis"
    by (auto simp: clean_log_def o_def list_all_iff) (simp_all add: new_log_def o_def)
qed

text \<open>Every call that opening a log makes succeeds.\<close>

definition io_ok :: open_io where
  "io_ok = \<lparr>oi_open = True, oi_seek = True, oi_read = all_ok, oi_mem = all_ok, oi_mig_fin = True, oi_mig_mem = all_ok,
     oi_mig_wr = all_ok, oi_reopen = True\<rparr>"

section \<open>Properties\<close>

text \<open>
  C2. An append that returns 0 puts the payload at the old end of the log, from where \<^verbatim>\<open>log_read\<close> returns it, in
  both modes; everything that could be read below the old end still reads the same, and the trusted end stays
  inside the file. The random source of an encrypted append delivers 24 bytes.
\<close>

theorem log_append_read:
  assumes "lf_size lf \<le> length (lf_data lf)" and "rnd = None \<or> length (the rnd) = 24"
    and "log_append mem rnd w lf p = (0, off, lf')" and "mem' 0"
  shows "off = lf_size lf \<and> lf_size lf' = off + log_frame_overhead lf + length p \<and> lf_size lf' \<le> length (lf_data lf') \<and>
    log_read mem' all_ok lf' off = Some p \<and>
    (\<forall>i q. log_read mem' all_ok lf i = Some q \<and> i + log_frame_overhead lf + length q \<le> off \<longrightarrow> log_read mem' all_ok lf' i = Some q)"
proof -
  have rnd: "length n = 24" if "rnd = Some n" for n using assms(2) that by auto
  obtain nonce where n: "nonce_ok lf nonce" "length p \<le> 0xFFFFFFFF" "off = lf_size lf" "lf' = appended lf (frame_of lf nonce p)"
    by (rule log_append_ok [OF assms(1) rnd assms(3)])
  have d: "lf_data lf' = take off (lf_data lf) @ frame_of lf nonce p @ drop (off + length (frame_of lf nonce p)) (lf_data lf)"
    using appended_data [OF assms(1)] n by simp
  have m: "same_mode lf lf'" using appended_mode n(4) by blast
  have "frame_is lf' (frame_of lf nonce p) (Some p)" using frame_of_is [OF n(1,2)] mode_frame_is [OF m] by simp
  then have "log_read mem' all_ok lf' off = Some p"
    using log_read_frame [OF d] assms(1,4) n(3) by simp
  moreover have t: "take off (lf_data lf') = take off (lf_data lf)" using d assms(1) n(3) by simp
  have "log_read mem' all_ok lf' i = Some q"
    if "log_read mem' all_ok lf i = Some q" "i + log_frame_overhead lf + length q \<le> off" for i q
    by (rule log_read_prefix [where lf = lf and mem' = mem', OF that t m assms(4)])
  moreover have "lf_size lf' = off + log_frame_overhead lf + length p"
    using n(3,4) length_frame_of [OF n(1), of p] by (simp add: appended_def)
  ultimately show ?thesis using appended_size [OF assms(1), of "frame_of lf nonce p", folded n(4)] n(3) by simp
qed

theorem log_append_read_witness:
  "\<exists>lf'. log_append all_ok None (None, None, None) (new_log [] 1 None) [7, 8] = (0, 0, lf') \<and>
    log_read all_ok all_ok lf' 0 = Some [7, 8]"
proof -
  obtain lf' where a: "log_append all_ok None (None, None, None) (new_log [] 1 None) [7, 8] = (0, 0, lf')"
    by (simp add: log_append_def write_full_def new_log_def Let_def)
  have "log_read all_ok all_ok lf' 0 = Some [7, 8]"
    using log_append_read [OF _ _ a, of all_ok] by (simp add: new_log_def)
  with a show ?thesis by blast
qed


lemma v2_damaged:
  assumes "length p \<le> 0xFFFFFFFF" and "length q = length p" and "crc32_compute q \<noteq> crc32_compute p"
  shows "frame_is (new_log d b None) (build_header (length p) (crc32_compute p) @ q) None"
  using assms by (simp add: frame_is_def new_log_def log_modes log_consts open_frame_def parse_build_header unat_len32)

lemma v2_good: "length p \<le> 0xFFFFFFFF \<Longrightarrow> frame_is (new_log d b None) (v2_frame p) (Some p)"
  by (simp add: frame_is_def new_log_def log_modes log_consts open_frame_def parse_build_header unat_len32)


text \<open>
  C1. A crash in the middle of an append. Whatever a single append to a log of good frames does and wherever
  its writes stop, the recovering scan of the file afterwards delivers exactly the frames of the appends that
  returned 0, says to cut the file at the trusted end, and cutting it there leaves such a log again.
\<close>

theorem log_crash_recovery:
  assumes "clean_log lf ps segs" and "rnd = None \<or> length (the rnd) = 24"
    and "log_append mem rnd w lf p = (rc, off, lf')"
  shows "\<exists>segs'. map snd segs' = map Some (if rc = 0 then ps @ [p] else ps) \<and>
    log_scan all_ok all_ok lf' 0 (length (lf_data lf')) (\<lambda>i q c. (True, f i q c)) ctx =
      Some (fold (\<lambda>(i, q). f i q) (good_at 0 segs') ctx,
        \<lparr>sr_truncate_to = lf_size lf', sr_good_frames = length segs', sr_corrupt_frames = 0, sr_recovered_after_hole = False\<rparr>) \<and>
    clean_log (snd (log_truncate True lf' (lf_size lf'))) (if rc = 0 then ps @ [p] else ps) segs'"
proof -
  have sz: "lf_size lf \<le> length (lf_data lf)" and eq: "lf_size lf = length (lf_data lf)" using assms(1) by (simp_all add: clean_log_def)
  have rnd: "length n = 24" if "rnd = Some n" for n using assms(2) that by auto
  have r: "append_result lf p (rc, off, lf')" using log_append_result [OF sz rnd, where p = p and mem = mem and w = w and rnd = rnd] assms(3) by simp
  consider (ok) nonce where "nonce_ok lf nonce" "rc = 0" "length p \<le> 0xFFFFFFFF" "lf' = appended lf (frame_of lf nonce p)"
    | (torn) t where "rc = -1" "lf' = lf\<lparr>lf_data := lf_data lf @ t\<rparr>" "torn_tail lf t"
    by (rule append_torn [OF r eq])
  then show ?thesis
  proof cases
    case ok
    note c = clean_appended [OF assms(1) ok(1,3), folded ok(4)]
    show ?thesis
      using clean_scan [OF c, of lf' "[]" f ctx] clean_truncate [OF c] clean_length [OF c] c ok(2)
      by (intro exI [of _ "segs @ [(frame_of lf nonce p, Some p)]"]) (simp add: same_mode_def torn_nil clean_log_def)
  next
    case torn
    have m: "same_mode lf lf'" using torn(2) by (simp add: same_mode_def)
    have "snd (log_truncate True lf' (lf_size lf')) = lf" using torn(2) eq by (simp add: log_truncate_def)
    then show ?thesis
      using clean_scan [OF assms(1) _ m torn(3), of f ctx] clean_length [OF assms(1)] assms(1) torn(1,2)
      by (intro exI [of _ segs]) (simp add: clean_log_def)
  qed
qed

theorem log_crash_recovery_witness:
  "\<exists>rc off lf' segs'. log_append all_ok None (None, Some 1, None) (new_log (v2_frame [5]) 1 None) [7, 8] = (rc, off, lf') \<and> rc = -1 \<and>
    log_scan all_ok all_ok lf' 0 (length (lf_data lf')) (\<lambda>i q c. (True, c @ [q])) [] =
      Some (fold (\<lambda>(i, q) c. c @ [q]) (good_at 0 segs') [],
        \<lparr>sr_truncate_to = 17, sr_good_frames = length segs', sr_corrupt_frames = 0, sr_recovered_after_hole = False\<rparr>) \<and>
    map snd segs' = [Some [5]]"
proof -
  let ?lf = "new_log (v2_frame [5]) 1 None"
  obtain lf' where a: "log_append all_ok None (None, Some 1, None) ?lf [7, 8] = (-1, 0, lf')" and sz: "lf_size lf' = 17"
    by (simp add: log_append_def write_full_def new_log_def Let_def)
  have c: "clean_log ?lf [[5]] [(v2_frame [5], Some [5])]" using v2_clean [of "[[5]]" 1] by simp
  show ?thesis using log_crash_recovery [OF c _ a, of "\<lambda>i q c. c @ [q]" "[]"] a sz by auto
qed

text \<open>
  C4. Resynchronisation is exact: from any position, \<^verbatim>\<open>find_next_frame\<close> returns the first position that
  holds a structurally valid frame, however the windows fall, and the end of the range when there is none.
\<close>

theorem find_next_frame_exact:
  assumes "stop \<le> length (lf_data lf)" and "base \<le> stop"
  shows "find_next_frame all_ok lf base stop = (case List.find (valid_at lf stop) [base..<stop] of None \<Rightarrow> stop | Some i \<Rightarrow> i)"
proof -
  let ?r = "find_next_frame all_ok lf base stop"
  note r = find_next_frame_first [OF assms]
  show ?thesis
  proof (cases "?r < stop")
    case True
    have "base \<le> ?r" by (rule find_frame_ge [OF assms(2)])
    then have "List.find (valid_at lf stop) [base..<stop] = Some ?r"
      unfolding find_Some_iff using r True by (intro exI [of _ "?r - base"]) auto
    then show ?thesis by simp
  next
    case False
    then have "List.find (valid_at lf stop) [base..<stop] = None" using r by (auto simp: find_None_iff)
    then show ?thesis using False r by simp
  qed
qed

theorem find_next_frame_exact_witness:
  "find_next_frame all_ok (new_log ([1, 2] @ v2_frame [5]) 1 None) 0 19 =
    (case List.find (valid_at (new_log ([1, 2] @ v2_frame [5]) 1 None) 19) [0..<19] of None \<Rightarrow> 19 | Some i \<Rightarrow> i)"
  by (rule find_next_frame_exact) (simp_all add: new_log_def)

lemma migrate_cases:
  assumes "migrate_loop mem rd wr data inp out n = Some r"
  shows "r = (out, n) \<or> (\<exists>len c buf. inp + 8 + len \<le> length data \<and>
    migrate_loop mem rd wr data (inp + 8 + len) (out @ build_header len c @ buf) (n + 1) = Some r)"
  using assms
  by (subst (asm) migrate_loop.simps) (auto simp: Let_def V1_FRAME_HEADER_def not_less split: if_splits option.splits)

lemma migrate_out:
  assumes "migrate_loop mem rd wr data inp out n = Some (out', n')"
  shows "n \<le> n' \<and> (\<exists>x. out' = out @ x) \<and> (n < n' \<longrightarrow> (\<exists>len c x. out' = out @ build_header len c @ x))"
  using assms
proof (induction "length data - inp" arbitrary: inp out n rule: less_induct)
  case less
  show ?case
    using migrate_cases [OF less.prems]
  proof (elim disjE exE conjE)
    fix len c buf
    assume l: "inp + 8 + len \<le> length data"
      and m: "migrate_loop mem rd wr data (inp + 8 + len) (out @ build_header len c @ buf) (n + 1) = Some (out', n')"
    from l have "length data - (inp + 8 + len) < length data - inp" by simp
    from less.hyps [OF this m] show ?case by auto
  qed simp
qed

lemma build_header_magic: "aegis_get_u32le (build_header len c @ x) = LOG_FRAME_MAGIC"
  by (simp add: build_header_def Let_def)

lemma migrated_magic:
  assumes "migrate_legacy_log fin mem rd wr data = Some out" and "data \<noteq> []"
  shows "aegis_get_u32le out = LOG_FRAME_MAGIC"
proof -
  obtain n where m: "migrate_loop mem rd wr data 0 [] 0 = Some (out, n)" "0 < n"
    using assms by (auto simp: migrate_legacy_log_def split: option.splits if_splits)
  then show ?thesis using migrate_out [OF m(1)] build_header_magic by auto
qed

lemma LOG_magics: "LOG_FRAME_MAGIC \<noteq> LOG_FRAME_MAGIC_ENC"
  by (simp add: LOG_FRAME_MAGIC_def LOG_FRAME_MAGIC_ENC_def)

lemma verify_first_read:
  assumes "verify_first_frame mem rd k data (length data)" and "V3_FRAME_HEADER \<le> length data"
  shows "log_read all_ok all_ok (new_log data b (Some k)) 0 \<noteq> None"
  using assms
  by (auto simp: verify_first_frame_def log_read_def log_read_encrypted_def new_log_def read_full_def split: if_splits option.splits)

text \<open>
  C5. Opening is fail-closed. A log is returned exactly for the status \<open>LOG_OPEN_OK\<close>; its mode is the one the
  key asks for, its first bytes carry the magic of that mode, the trusted end is the end of the file, and if an
  encrypted log holds a whole header, its first frame opens under the key. With a key the file is not changed.
\<close>

theorem log_open_fail_closed:
  assumes "log_open io data batch key = (s, r, data')"
  shows "(r = None \<longleftrightarrow> s \<noteq> LOG_OPEN_OK) \<and> (key \<noteq> None \<longrightarrow> data' = data) \<and>
    (\<forall>lf. r = Some lf \<longrightarrow>
       lf_data lf = data' \<and> lf_size lf = length data' \<and> lf_fd lf \<and> lf_encrypted lf = (key \<noteq> None) \<and>
       (4 \<le> length data \<longrightarrow> aegis_get_u32le data' = log_magic lf) \<and>
       (lf_encrypted lf \<and> V3_FRAME_HEADER \<le> length data' \<longrightarrow> log_read all_ok all_ok lf 0 \<noteq> None))"
proof (cases "oi_open io \<and> oi_seek io \<and> 4 \<le> length data \<and> oi_read io 0")
  case False
  then show ?thesis using assms by (auto simp: log_open_def new_log_def read_full_def V3_FRAME_HEADER_def split: if_splits)
next
  case True
  then have rd: "read_full (oi_read io) data 0 4 = Some (take 4 data)" by (simp add: read_full_def)
  show ?thesis
  proof (cases key)
    case None
    show ?thesis
      using assms True None LOG_magics
      by (auto simp: log_open_def rd Let_def new_log_def log_magic_def dest: migrated_magic split: if_splits option.splits)
  next
    case (Some k)
    show ?thesis
      using assms True Some LOG_magics verify_first_read [of "oi_mem io" "oi_read io" k data batch]
      by (auto simp: log_open_def rd Let_def log_magic_def split: if_splits option.splits) (auto simp: new_log_def)
  qed
qed

theorem log_open_fail_closed_witness:
  "log_open io_ok (v2_frame [5]) 1 (Some (replicate 32 0)) = (LOG_OPEN_ERR_KEY_ON_PLAIN, None, v2_frame [5]) \<and>
   (\<exists>lf. log_open io_ok (v2_frame [5]) 1 None = (LOG_OPEN_OK, Some lf, v2_frame [5]) \<and> aegis_get_u32le (lf_data lf) = log_magic lf)"
proof -
  have m: "aegis_get_u32le (take 4 (build_header (Suc 0) (crc32_compute [5]))) = LOG_FRAME_MAGIC"
    using build_header_magic [of 1 _ "[]"] by simp
  have "log_open io_ok (v2_frame [5]) 1 None = (LOG_OPEN_OK, Some (new_log (v2_frame [5]) 1 None), v2_frame [5])"
    and "log_open io_ok (v2_frame [5]) 1 (Some (replicate 32 0)) = (LOG_OPEN_ERR_KEY_ON_PLAIN, None, v2_frame [5])"
    by (simp_all add: log_open_def io_ok_def read_full_def Let_def m LOG_magics)
  with log_open_fail_closed [OF this(1)] show ?thesis by simp
qed

text \<open>
  C6. Migration. Opening a file of the first format without a key, where everything succeeds, rewrites it: the
  frames before the first partial or damaged one become frames of the second format with the same payloads, in
  order, and the scan of the log that is returned delivers exactly those. The file must hold at least one good
  frame and must not start, by coincidence of its first checksum, with a magic of the newer formats.
\<close>

theorem log_open_migrates:
  assumes "data = concat (map v1_frame ps) @ t" and "list_all (\<lambda>p. length p \<le> 0xFFFFFFFF) ps" and "v1_stop t" and "ps \<noteq> []"
    and "crc32_compute (hd ps) \<notin> {LOG_FRAME_MAGIC, LOG_FRAME_MAGIC_ENC}"
  shows "\<exists>lf segs. log_open io_ok data batch None = (LOG_OPEN_OK, Some lf, lf_data lf) \<and> map snd segs = map Some ps \<and>
    log_scan all_ok all_ok lf 0 (lf_size lf) (\<lambda>i p c. (True, f i p c)) ctx =
      Some (fold (\<lambda>(i, p). f i p) (good_at 0 segs) ctx,
        \<lparr>sr_truncate_to = lf_size lf, sr_good_frames = length ps, sr_corrupt_frames = 0, sr_recovered_after_hole = False\<rparr>)"
proof -
  let ?lf = "new_log (concat (map v2_frame ps)) batch None"
  obtain p ps' where ps: "ps = p # ps'" using assms(4) by (cases ps) auto
  have rd: "read_full all_ok data 0 4 = Some (take 4 data)" "\<not> length data < 4"
    by (simp_all add: assms(1) ps v1_frame_def read_full_def)
  have mg: "aegis_get_u32le data = crc32_compute p" by (simp add: assms(1) ps v1_frame_def)
  have "migrate_loop all_ok all_ok all_ok data 0 [] 0 = Some (concat (map v2_frame ps), length ps)"
    using migrate_all [OF assms(2,3), of data "[]" "[]" 0] assms(1) by simp
  then have "migrate_legacy_log True all_ok all_ok all_ok data = Some (concat (map v2_frame ps))"
    using assms(4) by (simp add: migrate_legacy_log_def)
  then have o: "log_open io_ok data batch None = (LOG_OPEN_OK, Some ?lf, lf_data ?lf)"
    using assms(5) by (simp add: log_open_def io_ok_def rd mg Let_def ps new_log_def)
  note c = v2_clean [OF assms(2), of batch]
  from clean_scan [OF c, of ?lf "[]" f ctx] c o show ?thesis
    by (intro exI [of _ ?lf] exI [of _ "map (\<lambda>p. (v2_frame p, Some p)) ps"])
      (simp add: same_mode_def torn_nil clean_log_def o_def)
qed

theorem log_open_migrates_witness:
  "\<exists>lf segs. log_open io_ok (v1_frame []) 1 None = (LOG_OPEN_OK, Some lf, lf_data lf) \<and> map snd segs = [Some []] \<and>
    log_scan all_ok all_ok lf 0 (lf_size lf) (\<lambda>i p c. (True, c @ [p])) [] =
      Some (fold (\<lambda>(i, p) c. c @ [p]) (good_at 0 segs) [],
        \<lparr>sr_truncate_to = lf_size lf, sr_good_frames = 1, sr_corrupt_frames = 0, sr_recovered_after_hole = False\<rparr>)"
proof -
  have "crc32_compute [] = 0" by (simp add: crc32_compute_def crc32_update_def)
  then show ?thesis
    using log_open_migrates [of "v1_frame []" "[[]]" "[]" 1 "\<lambda>i p c. c @ [p]" "[]"]
    by (simp add: v1_stop_def LOG_FRAME_MAGIC_def LOG_FRAME_MAGIC_ENC_def)
qed

text \<open>
  C8. A crash during the very first append of an encrypted log. When the header made it to the file and the rest
  did not, the log cannot be opened again: the torn frame that recovery would cut off is reported as a wrong key,
  although the key is the one the frame was sealed with.
\<close>

theorem log_open_torn_first:
  assumes "length nonce = 24" and "length p \<le> 0xFFFFFFFF" and "F = frame_of (new_log [] batch (Some key)) nonce p"
    and "V3_FRAME_HEADER \<le> k" and "k < length F"
  shows "log_open io_ok (take k F) batch (Some key) = (LOG_OPEN_ERR_WRONG_KEY, None, take k F)"
proof -
  define hdr where "hdr = build_header_v3 (length p) nonce"
  have lh: "length hdr = 36" using length_build_header_v3 [OF assms(1)] by (simp add: hdr_def)
  obtain x where F: "F = hdr @ x"
    using assms(3) by (cases "aead_seal key nonce (take V3_AAD_LEN hdr) p") (simp add: frame_of_def new_log_def hdr_def)
  have k: "36 \<le> k" "take k F = hdr @ take (k - 36) x" using assms(4) F lh by (simp_all add: V3_FRAME_HEADER_def)
  have mg: "aegis_get_u32le (hdr @ y) = LOG_FRAME_MAGIC_ENC" for y by (simp add: hdr_def build_header_v3_def Let_def)
  have len: "length F = 52 + length p"
    using length_frame_of [of "new_log [] batch (Some key)" nonce p] assms(1,3) by (simp add: nonce_ok_def log_modes log_consts new_log_def)
  have "\<not> verify_first_frame all_ok all_ok key (take k F) (length (take k F))"
    using k lh len assms(5) parse_build_header_v3 [OF assms(1), of "length p", folded hdr_def] unat_len32 [OF assms(2)]
    by (simp add: verify_first_frame_def V3_FRAME_HEADER_def read_full_def AEAD_TAG_LEN_def)
  moreover have "read_full all_ok (take k F) 0 4 = Some (take 4 (take k F))" "\<not> length (take k F) < 4"
    using k lh assms(5) by (simp_all add: read_full_def)
  moreover have "aegis_get_u32le (take k F) = LOG_FRAME_MAGIC_ENC" using k(2) mg by simp
  ultimately show ?thesis by (simp add: log_open_def io_ok_def Let_def LOG_magics [symmetric])
qed

theorem log_open_torn_first_witness:
  "\<exists>F. log_open io_ok (take 40 F) 1 (Some (replicate 32 0)) = (LOG_OPEN_ERR_WRONG_KEY, None, take 40 F) \<and> length F = 53"
proof -
  let ?F = "frame_of (new_log [] 1 (Some (replicate 32 0))) (replicate 24 0) [1]"
  have "length ?F = 53"
    using length_frame_of [of "new_log [] 1 (Some (replicate 32 0))" "replicate 24 0" "[1]"]
    by (simp add: nonce_ok_def log_modes log_consts new_log_def)
  then show ?thesis
    using log_open_torn_first [of "replicate 24 0" "[1]" ?F 1 "replicate 32 0" 40] by (intro exI [of _ ?F]) (simp add: V3_FRAME_HEADER_def)
qed

text \<open>
  C7. A torn tail behind a damaged frame is kept, and swallows what is written after it. If the scan recovered a
  frame past a damaged one, it says to cut nothing; if the log then ends in a torn frame whose header is whole,
  a later append of fewer bytes than are missing from that frame returns 0, and the next scan does not deliver it.
\<close>

theorem log_append_lost_after_torn:
  assumes "lf_data lf = seg_bytes segs @ take k F" and "lf_size lf = length (lf_data lf)" and "segs_ok lf segs"
    and "list_ex good_seg (dropWhile good_seg segs)" and "frame_is lf F r" and "log_hdr_len lf \<le> k"
    and "rnd = None \<or> length (the rnd) = 24" and "log_append mem rnd w lf p = (0, off, lf')"
    and "k + log_frame_overhead lf + length p < length F"
  shows "(\<exists>c. log_scan all_ok all_ok lf 0 (lf_size lf) (\<lambda>i q c. (True, f i q c)) ctx = Some c \<and> sr_truncate_to (snd c) = lf_size lf) \<and>
    map_option fst (log_scan all_ok all_ok lf' 0 (lf_size lf') (\<lambda>i q c. (True, f i q c)) ctx) =
      Some (fold (\<lambda>(i, q). f i q) (good_at 0 segs) ctx)"
proof -
  have rnd: "length n = 24" if "rnd = Some n" for n using assms(7) that by auto
  obtain nonce where n: "nonce_ok lf nonce" "length p \<le> 0xFFFFFFFF" "off = lf_size lf" "lf' = appended lf (frame_of lf nonce p)"
    by (rule log_append_ok [OF _ rnd assms(8)]) (simp add: assms(2))
  let ?N = "frame_of lf nonce p"
  have m: "same_mode lf lf'" using appended_mode n(4) by blast
  have lN: "length ?N = log_frame_overhead lf + length p" by (rule length_frame_of [OF n(1)])
  have k: "k < length F" using assms(9) by simp
  have t1: "torn_tail lf (take k F)" by (rule torn_prefix [OF assms(5) k])
  have "take (log_hdr_len lf) (take k F @ ?N) = take (log_hdr_len lf) F" using k assms(6) by (simp add: min_absorb1)
  then have t2: "torn_tail lf (take k F @ ?N)"
    using assms(5,9) k lN by (auto simp: torn_tail_def frame_is_def min_def split: option.splits)
  have d: "lf_data lf' = [] @ seg_bytes segs @ (take k F @ ?N) @ []" "lf_size lf' = length (seg_bytes segs) + length (take k F @ ?N)"
    using n(3,4) assms(1,2) k by (simp_all add: appended_def pwrite_in min_absorb2)
  from log_scan_segments [of lf' "[]", OF d(1) _ _ refl, of f ctx] d(2) t2 assms(3) mode_torn [OF m] mode_frame_is [OF m]
  have "map_option fst (log_scan all_ok all_ok lf' 0 (lf_size lf') (\<lambda>i q c. (True, f i q c)) ctx) =
      Some (fold (\<lambda>(i, q). f i q) (good_at 0 segs) ctx)" by simp
  moreover have "lf_data lf = [] @ seg_bytes segs @ take k F @ []" "lf_size lf = length [] + length (seg_bytes segs) + length (take k F)"
    using assms(1,2) by simp_all
  from log_scan_segments [of lf "[]", OF this(1) assms(3) t1 this(2), of f ctx] assms(4)
  have "\<exists>c. log_scan all_ok all_ok lf 0 (lf_size lf) (\<lambda>i q c. (True, f i q c)) ctx = Some c \<and> sr_truncate_to (snd c) = lf_size lf"
    by simp
  ultimately show ?thesis by blast
qed

theorem log_append_lost_after_torn_witness:
  "\<exists>lf lf'. log_append all_ok None (None, None, None) lf [1] = (0, lf_size lf, lf') \<and>
    map_option fst (log_scan all_ok all_ok lf' 0 (lf_size lf') (\<lambda>i q c. (True, c @ [q])) []) = Some [[6]]"
proof -
  define bad where "bad = build_header 1 (crc32_compute [1]) @ [2 :: u8]"
  define F :: bytes where "F = v2_frame (replicate 100 0)"
  define segs where "segs = [(bad, None), (v2_frame [6], Some [6 :: u8])]"
  define lf where "lf = new_log (seg_bytes segs @ take 20 F) 1 None"
  have "crc32_compute [2] \<noteq> crc32_compute [1]" using crc.burst [of "[2]" "[1]" "[]" "[]"] by auto
  then have "frame_is lf bad None" using v2_damaged [of "[1]" "[2]"] by (simp add: bad_def lf_def)
  moreover have "frame_is lf F (Some (replicate 100 0))" "frame_is lf (v2_frame [6]) (Some [6])"
    using v2_good [of "replicate 100 0"] v2_good [of "[6]"] by (simp_all add: lf_def F_def)
  ultimately have ok: "segs_ok lf segs" "frame_is lf F (Some (replicate 100 0))" by (simp_all add: segs_def)
  have lf: "lf_data lf = seg_bytes segs @ take 20 F" "lf_size lf = length (lf_data lf)" "log_hdr_len lf = 16" "log_frame_overhead lf = 16"
    by (simp_all add: lf_def new_log_def log_modes log_consts)
  obtain lf' where a: "log_append all_ok None (None, None, None) lf [1] = (0, lf_size lf, lf')"
    by (simp add: log_append_def write_full_def lf_def new_log_def Let_def)
  have g: "list_ex good_seg (dropWhile good_seg segs)" "length F = 116" by (simp_all add: segs_def F_def)
  show ?thesis
    using log_append_lost_after_torn [OF lf(1,2) ok(1) g(1) ok(2) _ _ a, of "\<lambda>i q c. c @ [q]" "[]"] a lf(3,4) g(2)
    by (intro exI [of _ lf] exI [of _ lf']) (simp add: segs_def)
qed

end
