(* ===== verification/Counted_Table.thy ===== *)
theory Counted_Table
  imports Open_Addressing
begin

text \<open>
  Open addressing tables that count their live and their used slots and double when three quarters would be
  used: the usage index, the subject and object tables of the fact index. The facts here extend the locale
  \<open>probe_table\<close> by the two counters and the smallest capacity \<open>mn\<close>, so that each component only
  says which of its functions stores what. The second part is the same for the tables without deletion, which keep one counter:
  the two tables of an inference pass and the accumulator of the lexical search.
\<close>

definition counted_ok ::
  "('s \<Rightarrow> slot_state) \<Rightarrow> ('s \<Rightarrow> 'k) \<Rightarrow> ('k \<Rightarrow> u64) \<Rightarrow> nat \<Rightarrow> 's list \<Rightarrow> nat \<Rightarrow> nat \<Rightarrow> bool" where
  "counted_ok st key hash mn sl live used \<longleftrightarrow>
     (if sl = [] then live = 0 \<and> used = 0
      else probe_ok st key hash sl \<and> live = count_state st SLOT_LIVE sl \<and>
           used = live + count_state st SLOT_DEAD sl \<and> 4 * used < 3 * length sl \<and> mn \<le> length sl)"

definition grown :: "nat \<Rightarrow> 's list \<Rightarrow> nat" where
  "grown mn sl = (if length sl \<noteq> 0 then length sl * 2 else mn)"

lemma probe_claim_no_hit:
  "(\<And>s. s \<in> set sl \<Longrightarrow> st s = SLOT_LIVE \<Longrightarrow> \<not> P s) \<Longrightarrow> sl \<noteq> [] \<Longrightarrow> (\<exists>m. length sl = 2 ^ m) \<Longrightarrow>
   probe_claim st P sl i p r n = probe_claim st (\<lambda>_. False) sl i p r n"
proof (induction n arbitrary: p r)
  case (Suc n)
  obtain m where m: "length sl = 2 ^ m" using Suc.prems(3) by blast
  have "(i + p) AND (length sl - 1) < length sl" using Suc.prems(2) by (simp only: and_cap_mask [OF m]) simp
  then have "st (sl ! ((i + p) AND (length sl - 1))) = SLOT_LIVE \<Longrightarrow> \<not> P (sl ! ((i + p) AND (length sl - 1)))"
    using Suc.prems(1) nth_mem by blast
  moreover have "probe_claim st P sl i (Suc p) r' n = probe_claim st (\<lambda>_. False) sl i (Suc p) r' n" for r'
    by (rule Suc.IH [OF Suc.prems])
  ultimately show ?case by (simp add: Let_def split: slot_state.split)
qed simp

context probe_table
begin

lemma counted_find:
  assumes "counted_ok st key hash mn sl live used" and "sl \<noteq> []"
  shows "probe_find st (hit k) sl (start k sl) 0 (length sl) = Some j \<Longrightarrow>
      j < length sl \<and> st (sl ! j) = SLOT_LIVE \<and> key (sl ! j) = k \<and> tmap sl k = Some (sl ! j)"
    and "probe_find st (hit k) sl (start k sl) 0 (length sl) = None \<longleftrightarrow> tmap sl k = None"
proof -
  have ok: "ok sl" using assms by (simp add: counted_ok_def)
  show "probe_find st (hit k) sl (start k sl) 0 (length sl) = None \<longleftrightarrow> tmap sl k = None"
    using find_map [OF ok, of k] by (metis option.map_disc_iff)
  assume "probe_find st (hit k) sl (start k sl) 0 (length sl) = Some j"
  then show "j < length sl \<and> st (sl ! j) = SLOT_LIVE \<and> key (sl ! j) = k \<and> tmap sl k = Some (sl ! j)"
    using find_iff [OF ok, of k j] find_map [OF ok, of k] by auto
qed

lemma counted_grow:
  assumes "counted_ok st key hash mn sl live used" and "mn = 2 ^ k" and "4 \<le> mn"
  shows "\<exists>nt. rehash_into st stop (\<lambda>s. hash (key s)) sl (replicate (grown mn sl) blank) = Some nt \<and>
    counted_ok st key hash mn nt live live \<and> nt \<noteq> [] \<and> tmap nt = tmap sl \<and> 4 * (live + 1) < 3 * length nt"
proof -
  have ok: "sl = [] \<or> ok sl" using assms(1) by (auto simp: counted_ok_def split: if_splits)
  have live: "live = count_state st SLOT_LIVE sl" using assms(1) by (auto simp: counted_ok_def count_state_def split: if_splits)
  have room: "4 * (live + 1) < 3 * grown mn sl" "mn \<le> grown mn sl"
    using assms(1,3) by (auto simp: counted_ok_def grown_def split: if_splits)
  obtain m where m: "grown mn sl = 2 ^ m"
  proof (cases "sl = []")
    case True
    then show ?thesis using that [of k] assms(2) by (simp add: grown_def)
  next
    case False
    then obtain m where "length sl = 2 ^ m" using ok probe_ok_pow2 by blast
    with False show ?thesis using that [of "Suc m"] by (simp add: grown_def)
  qed
  have "count_state st SLOT_LIVE sl < 2 ^ m" using room live unfolding m by simp
  from regrow [OF ok this] obtain nt where nt:
    "rehash_into st stop (\<lambda>s. hash (key s)) sl (replicate (grown mn sl) blank) = Some nt" "ok nt" "length nt = grown mn sl"
    "count_state st SLOT_DEAD nt = 0" "count_state st SLOT_LIVE nt = live" "tmap nt = tmap sl"
    unfolding m live by blast
  moreover have "nt \<noteq> []" using nt(3) room assms(3) by auto
  ultimately show ?thesis using room by (auto simp: counted_ok_def)
qed

lemma counted_claim:
  assumes ok: "counted_ok st key hash mn sl live used" and ne: "sl \<noteq> []" and room: "4 * (used + 1) < 3 * length sl"
    and n: "st s = SLOT_LIVE" "key s = k"
  obtains (old) j where "probe_claim st (hit k) sl (start k sl) 0 None (length sl) = Some (Inl j)"
      "j < length sl" "st (sl ! j) = SLOT_LIVE" "key (sl ! j) = k" "tmap sl k = Some (sl ! j)"
  | (new) j where "probe_claim st (hit k) sl (start k sl) 0 None (length sl) = Some (Inr j)"
      "j < length sl" "tmap sl k = None" "st (sl ! j) \<noteq> SLOT_LIVE"
      "counted_ok st key hash mn (sl[j := s]) (live + 1) (if st (sl ! j) = SLOT_EMPTY then used + 1 else used)"
      "tmap (sl[j := s]) = (tmap sl)(k \<mapsto> s)"
proof -
  have po: "probe_ok st key hash sl" and cnt: "live = count_state st SLOT_LIVE sl" "used = live + count_state st SLOT_DEAD sl"
    using ok ne by (simp_all add: counted_ok_def)
  have sp: "0 < count_state st SLOT_EMPTY sl" using count_state_total [of st sl] cnt room by auto
  show thesis
  proof (cases rule: claim [OF po sp, of k, case_names old new])
    case (old j)
    then have "tmap sl k = Some (sl ! j)" by (auto simp: slot_map_iff [OF po])
    with old that(1) show thesis by blast
  next
    case (new j)
    have p: "probe_ok st key hash (sl[j := s])" "tmap (sl[j := s]) = (tmap sl)(k \<mapsto> s)"
      using place [OF po, of s j] new n by simp_all
    moreover have "count_state st SLOT_LIVE (sl[j := s]) = count_state st SLOT_LIVE sl + 1"
      "count_state st SLOT_DEAD (sl[j := s]) + (if st (sl ! j) = SLOT_DEAD then 1 else 0) = count_state st SLOT_DEAD sl"
      using count_state_update [OF new(2), of st SLOT_LIVE s] count_state_update [OF new(2), of st SLOT_DEAD s] new n by auto
    ultimately have "counted_ok st key hash mn (sl[j := s]) (live + 1) (if st (sl ! j) = SLOT_EMPTY then used + 1 else used)"
      using cnt room ne new(3) ok by (cases "st (sl ! j)") (auto simp: counted_ok_def)
    with new p that(2) show thesis by blast
  qed
qed

lemma counted_store:
  assumes "counted_ok st key hash mn sl live used" and "j < length sl" "st (sl ! j) = SLOT_LIVE"
    and "st s = SLOT_LIVE" "key s = key (sl ! j)"
  shows "counted_ok st key hash mn (sl[j := s]) live used" and "tmap (sl[j := s]) = (tmap sl)(key s \<mapsto> s)"
proof -
  have ne: "sl \<noteq> []" using assms(2) by auto
  then have po: "probe_ok st key hash sl" using assms(1) by (simp add: counted_ok_def)
  note o = overwrite [OF po assms(2-5)]
  have "count_state st x (sl[j := s]) = count_state st x sl" for x
    using count_state_update [OF assms(2), of st x s] assms by simp
  then show "counted_ok st key hash mn (sl[j := s]) live used" using assms(1) ne o(1) by (simp add: counted_ok_def)
  show "tmap (sl[j := s]) = (tmap sl)(key s \<mapsto> s)" by (rule o(2))
qed

lemma counted_kill:
  assumes "counted_ok st key hash mn sl live used" and "j < length sl" "st (sl ! j) = SLOT_LIVE" and "st s = SLOT_DEAD"
  shows "counted_ok st key hash mn (sl[j := s]) (live - 1) used" and "tmap (sl[j := s]) = (tmap sl)(key (sl ! j) := None)"
proof -
  have ne: "sl \<noteq> []" using assms(2) by auto
  then have po: "probe_ok st key hash sl" using assms(1) by (simp add: counted_ok_def)
  note k = kill [OF po assms(2-4)]
  have "count_state st SLOT_LIVE (sl[j := s]) + 1 = count_state st SLOT_LIVE sl"
    "count_state st SLOT_DEAD (sl[j := s]) = count_state st SLOT_DEAD sl + 1"
    using count_state_update [OF assms(2), of st SLOT_LIVE s] count_state_update [OF assms(2), of st SLOT_DEAD s] assms by simp_all
  then show "counted_ok st key hash mn (sl[j := s]) (live - 1) used" using assms(1) ne k(1) by (auto simp: counted_ok_def)
  show "tmap (sl[j := s]) = (tmap sl)(key (sl ! j) := None)" by (rule k(2))
qed

text \<open>The unbounded walk that stops at a free slot or at the key, in a table without tombstones.\<close>

lemma walk_key:
  assumes ok: "ok nt" and space: "0 < count_state st SLOT_EMPTY nt" and dead: "count_state st SLOT_DEAD nt = 0"
    and w: "\<And>t. t \<in> set nt \<Longrightarrow> w t \<longleftrightarrow> st t \<noteq> SLOT_LIVE \<or> key t = k"
  obtains (found) j where "probe_until w nt (start k nt) = Some j" "j < length nt" "st (nt ! j) = SLOT_LIVE" "key (nt ! j) = k"
      "tmap nt k = Some (nt ! j)"
  | (free) j where "probe_until w nt (start k nt) = Some j" "j < length nt" "st (nt ! j) = SLOT_EMPTY" "tmap nt k = None"
      "reach st nt (hash k) j"
proof -
  obtain m where m: "length nt = 2 ^ m" using probe_ok_pow2 [OF ok] by blast
  then have pos: "0 < length nt" by simp
  let ?at = "\<lambda>t. (unat (hash k) + t) mod length nt"
  have w_at: "w (nt ! ?at t) \<longleftrightarrow> st (nt ! ?at t) \<noteq> SLOT_LIVE \<or> key (nt ! ?at t) = k" for t
    using w pos by simp
  obtain e where e: "e < length nt" "st (nt ! e) = SLOT_EMPTY" using ex_state_of_count [OF space] by blast
  obtain t0 where t0: "t0 < length nt" "?at t0 = e" using cyc_offset [OF e(1)] by blast
  then have "w (nt ! ?at t0)" using w_at [of t0] e(2) by simp
  define t where "t = (LEAST t. w (nt ! ?at t))"
  have wt: "w (nt ! ?at t)" and lt: "\<And>q. q < t \<Longrightarrow> \<not> w (nt ! ?at q)" and tb: "t \<le> t0"
    using \<open>w (nt ! ?at t0)\<close> unfolding t_def by (auto intro: LeastI Least_le dest: not_less_Least)
  have "probe_until w nt (unat (hash k) mod length nt) = Some ((unat (hash k) mod length nt + t) mod length nt)"
    using pos wt lt by (intro probe_until_least [OF m]) (simp_all add: mod_add_left_eq)
  then have p: "probe_until w nt (start k nt) = Some (?at t)" by (simp only: and_cap_mask [OF m] mod_add_left_eq)
  have jl: "?at t < length nt" using pos by simp
  show thesis
  proof (cases "st (nt ! ?at t) = SLOT_LIVE")
    case True
    then have "key (nt ! ?at t) = k" using wt w_at by blast
    with True jl have "tmap nt k = Some (nt ! ?at t)" by (auto simp: slot_map_iff [OF ok])
    with True jl p \<open>key (nt ! ?at t) = k\<close> show thesis by (intro found)
  next
    case False
    have "st (nt ! ?at t) \<noteq> SLOT_DEAD" using dead jl by (auto simp: count_state_def filter_empty_conv)
    with False have em: "st (nt ! ?at t) = SLOT_EMPTY" by (cases "st (nt ! ?at t)") auto
    have ne: "st (nt ! ?at q) \<noteq> SLOT_EMPTY \<and> (st (nt ! ?at q) = SLOT_LIVE \<longrightarrow> key (nt ! ?at q) \<noteq> k)" if "q < t" for q
      using lt [OF that] w_at by auto
    have "tmap nt k = None"
    proof (rule ccontr)
      assume "tmap nt k \<noteq> None"
      then obtain i where i: "i < length nt" "st (nt ! i) = SLOT_LIVE" "key (nt ! i) = k" by (auto simp: slot_map_iff [OF ok])
      then obtain u where u: "u < length nt" "?at u = i" "\<And>q. q < u \<Longrightarrow> st (nt ! ?at q) \<noteq> SLOT_EMPTY"
        using probe_ok_reach [OF ok i(1,2)] by (auto simp: reach_def)
      then have "u < t \<or> t < u \<or> u = t" by linarith
      then show False using ne [of u] u i em by auto
    qed
    moreover have "reach st nt (hash k) (?at t)" using ne tb t0(1) by (auto simp: reach_def intro!: exI [of _ t])
    ultimately show thesis using p jl em by (intro free)
  qed
qed

end

section \<open>Tables without deletion\<close>

definition sparse_ok :: "('s \<Rightarrow> slot_state) \<Rightarrow> ('s \<Rightarrow> 'k) \<Rightarrow> ('k \<Rightarrow> u64) \<Rightarrow> 's list \<Rightarrow> nat \<Rightarrow> bool" where
  "sparse_ok st key hash sl n \<longleftrightarrow>
     (if sl = [] then n = 0
      else probe_ok st key hash sl \<and> n = count_state st SLOT_LIVE sl \<and> count_state st SLOT_DEAD sl = 0 \<and>
           4 * n < 3 * length sl + 4 \<and> 64 \<le> length sl)"

context probe_table
begin

lemma sparse_walk:
  assumes "sparse_ok st key hash sl n" and "sl \<noteq> []" and w: "\<And>t. t \<in> set sl \<Longrightarrow> w t \<longleftrightarrow> st t \<noteq> SLOT_LIVE \<or> key t = k"
  obtains (found) j where "probe_until w sl (start k sl) = Some j" "j < length sl" "st (sl ! j) = SLOT_LIVE" "key (sl ! j) = k"
      "tmap sl k = Some (sl ! j)"
  | (free) j where "probe_until w sl (start k sl) = Some j" "j < length sl" "st (sl ! j) = SLOT_EMPTY" "tmap sl k = None"
      "reach st sl (hash k) j"
proof -
  have "ok sl" "count_state st SLOT_DEAD sl = 0" "0 < count_state st SLOT_EMPTY sl"
    using assms(1,2) count_state_total [of st sl] by (auto simp: sparse_ok_def)
  note c = walk_key [where w = w and k = k, OF this(1,3,2) w]
  show thesis by (rule c) (assumption | erule (4) that)+
qed

lemma sparse_grow:
  assumes "sparse_ok st key hash sl n"
  shows "\<exists>nt. rehash_into st stop (\<lambda>s. hash (key s)) sl (replicate (if length sl \<noteq> 0 then length sl * 2 else 64) blank) = Some nt \<and>
    sparse_ok st key hash nt n \<and> nt \<noteq> [] \<and> 4 * n < 3 * length nt \<and> tmap nt = tmap sl"
proof -
  let ?cap = "if length sl \<noteq> 0 then length sl * 2 else 64"
  have ok: "sl = [] \<or> ok sl" and n: "n = count_state st SLOT_LIVE sl"
    using assms by (auto simp: sparse_ok_def count_state_def split: if_splits)
  have room: "4 * n < 3 * ?cap" "64 \<le> ?cap" using assms by (auto simp: sparse_ok_def split: if_splits)
  obtain m where m: "?cap = 2 ^ m"
  proof (cases "sl = []")
    case True
    then show ?thesis using that [of 6] by simp
  next
    case False
    then obtain m where "length sl = 2 ^ m" using ok probe_ok_pow2 by blast
    with False show ?thesis using that [of "Suc m"] by simp
  qed
  have "count_state st SLOT_LIVE sl < 2 ^ m" using room n unfolding m by simp
  from regrow [OF ok this] obtain nt where nt:
    "rehash_into st stop (\<lambda>s. hash (key s)) sl (replicate ?cap blank) = Some nt" "ok nt" "length nt = ?cap"
    "count_state st SLOT_DEAD nt = 0" "count_state st SLOT_LIVE nt = n" "tmap nt = tmap sl"
    unfolding m n by blast
  moreover have "nt \<noteq> []" using nt(3) room by auto
  ultimately show ?thesis using room by (intro exI [of _ nt]) (auto simp: sparse_ok_def)
qed

lemma sparse_place:
  assumes "sparse_ok st key hash sl n" and "4 * n < 3 * length sl" and "j < length sl" and "st (sl ! j) = SLOT_EMPTY"
    and "tmap sl (key s) = None" and "reach st sl (hash (key s)) j" and "st s = SLOT_LIVE"
  shows "sparse_ok st key hash (sl[j := s]) (n + 1)" and "tmap (sl[j := s]) = (tmap sl)(key s \<mapsto> s)"
proof -
  have ne: "sl \<noteq> []" using assms(3) by auto
  then have ok: "ok sl" using assms(1) by (simp add: sparse_ok_def)
  have p: "ok (sl[j := s])" "tmap (sl[j := s]) = (tmap sl)(key s \<mapsto> s)"
    using place [OF ok assms(5,7,3) _ assms(6)] assms(4) by simp_all
  have "count_state st SLOT_LIVE (sl[j := s]) = n + 1" "count_state st SLOT_DEAD (sl[j := s]) = 0"
    using count_state_update [OF assms(3), of st SLOT_LIVE s] count_state_update [OF assms(3), of st SLOT_DEAD s] assms ne
    by (auto simp: sparse_ok_def)
  then show "sparse_ok st key hash (sl[j := s]) (n + 1)" using assms(1,2) ne p(1) by (simp add: sparse_ok_def)
  show "tmap (sl[j := s]) = (tmap sl)(key s \<mapsto> s)" by (rule p(2))
qed

lemma sparse_store:
  assumes "sparse_ok st key hash sl n" and "j < length sl" "st (sl ! j) = SLOT_LIVE" and "st s = SLOT_LIVE" "key s = key (sl ! j)"
  shows "sparse_ok st key hash (sl[j := s]) n" and "tmap (sl[j := s]) = (tmap sl)(key s \<mapsto> s)"
proof -
  have ne: "sl \<noteq> []" using assms(2) by auto
  then have ok: "ok sl" using assms(1) by (simp add: sparse_ok_def)
  note o = overwrite [OF ok assms(2-5)]
  have "count_state st x (sl[j := s]) = count_state st x sl" for x
    using count_state_update [OF assms(2), of st x s] assms by simp
  then show "sparse_ok st key hash (sl[j := s]) n" using assms(1) ne o(1) by (simp add: sparse_ok_def)
  show "tmap (sl[j := s]) = (tmap sl)(key s \<mapsto> s)" by (rule o(2))
qed

end

lemma rehash_into_set:
  "rehash_into st stop h ss nt = Some nt' \<Longrightarrow> set nt' \<subseteq> set nt \<union> {s \<in> set ss. st s = SLOT_LIVE}"
proof (induction ss arbitrary: nt)
  case (Cons s ss)
  show ?case
  proof (cases "st s = SLOT_LIVE")
    case True
    then obtain j where "rehash_into st stop h ss (nt[j := s]) = Some nt'" using Cons.prems by (auto split: option.splits)
    from Cons.IH [OF this] True set_update_subset_insert [of nt j s] show ?thesis by auto
  next
    case False
    then show ?thesis using Cons by auto
  qed
qed simp

end
