(* ===== verification/Usage_Index.thy ===== *)
theory Usage_Index
  imports Counted_Table
begin

text \<open>
  The usage index of \<^verbatim>\<open>src/src/storage/usage_index.c\<close>: recall counters per record id in an open addressing
  table with tombstones, and its checkpoint image. \<^verbatim>\<open>atomic_uint_fast32_t\<close> is 64 bits wide on the platform of
  the build, so the counter is a \<open>u64\<close> that the readers narrow. Operations of the read path change only the
  counters of a slot; each is one step here.

  Shown: the operations act on a finite map from tracked ids to counters, and an image loaded into any
  index restores exactly the counters of the ids that index tracks.
\<close>

section \<open>State\<close>

record UsageEntry =
  us_id :: u64
  us_count :: u64
  us_last :: u64
  us_state :: slot_state

record UsageIndex =
  ui_slots :: "UsageEntry list"
  ui_live :: nat
  ui_used :: nat

definition blank_usage :: UsageEntry where
  "blank_usage = \<lparr>us_id = 0, us_count = 0, us_last = 0, us_state = SLOT_EMPTY\<rparr>"

section \<open>Operations\<close>

text \<open>A null index is \<open>None\<close>; the position of the slot stands for the pointer to it.\<close>

definition slot_of :: "UsageIndex \<Rightarrow> u64 \<Rightarrow> nat option" where
  "slot_of u rid =
     (let sl = ui_slots u
      in if sl = [] then None
         else probe_find us_state (\<lambda>e. us_id e = rid) sl (unat (mix64 rid) AND (length sl - 1)) 0 (length sl))"

text \<open>The inner \<open>None\<close> is the failed allocation; the outer one a copy loop that would not end.\<close>

definition usage_grow :: "alloc \<Rightarrow> UsageIndex \<Rightarrow> UsageIndex option option" where
  "usage_grow mem u =
     (let ncap = (if length (ui_slots u) \<noteq> 0 then length (ui_slots u) * 2 else 256)
      in if \<not> mem 0 then Some None
         else map_option (\<lambda>ns. Some (u\<lparr>ui_slots := ns, ui_used := ui_live u\<rparr>))
                (rehash_into us_state (\<lambda>_ t. us_state t \<noteq> SLOT_LIVE) (\<lambda>e. mix64 (us_id e))
                   (ui_slots u) (replicate ncap blank_usage)))"

definition usage_index_create :: "alloc \<Rightarrow> UsageIndex option" where
  "usage_index_create mem = (if mem 0 then Some \<lparr>ui_slots = [], ui_live = 0, ui_used = 0\<rparr> else None)"

text \<open>The loop that claims a slot for an id that is not in the table; it runs past live slots without looking at them.\<close>

definition usage_claim :: "UsageIndex \<Rightarrow> u64 \<Rightarrow> int \<times> UsageIndex" where
  "usage_claim u rid =
     (let sl = ui_slots u
      in case probe_claim us_state (\<lambda>_. False) sl (unat (mix64 rid) AND (length sl - 1)) 0 None (length sl) of
           Some (Inr j) \<Rightarrow>
             (0, u\<lparr>ui_slots := sl[j := \<lparr>us_id = rid, us_count = 0, us_last = 0, us_state = SLOT_LIVE\<rparr>],
                   ui_used := (if us_state (sl ! j) = SLOT_EMPTY then ui_used u + 1 else ui_used u),
                   ui_live := ui_live u + 1\<rparr>)
         | _ \<Rightarrow> (-1, u))"

definition usage_index_track :: "alloc \<Rightarrow> UsageIndex option \<Rightarrow> u64 \<Rightarrow> (int \<times> UsageIndex option) option" where
  "usage_index_track mem uo rid =
     (case uo of
        None \<Rightarrow> Some (0, None)
      | Some u \<Rightarrow>
          if slot_of u rid \<noteq> None then Some (0, Some u)
          else case (if length (ui_slots u) = 0 \<or> length (ui_slots u) * 3 \<le> (ui_used u + 1) * 4
                     then usage_grow mem u else Some (Some u)) of
                 None \<Rightarrow> None
               | Some None \<Rightarrow> Some (-1, Some u)
               | Some (Some u1) \<Rightarrow> let (rv, u2) = usage_claim u1 rid in Some (rv, Some u2))"

definition usage_index_untrack :: "UsageIndex option \<Rightarrow> u64 \<Rightarrow> UsageIndex option" where
  "usage_index_untrack uo rid =
     map_option (\<lambda>u. case slot_of u rid of
         None \<Rightarrow> u
       | Some j \<Rightarrow> u\<lparr>ui_slots := (ui_slots u)[j := (ui_slots u ! j)\<lparr>us_state := SLOT_DEAD\<rparr>], ui_live := ui_live u - 1\<rparr>) uo"

definition usage_index_record :: "UsageIndex option \<Rightarrow> u64 \<Rightarrow> u64 \<Rightarrow> UsageIndex option" where
  "usage_index_record uo rid now_ms =
     map_option (\<lambda>u. case slot_of u rid of
         None \<Rightarrow> u
       | Some j \<Rightarrow> let e = ui_slots u ! j
                   in u\<lparr>ui_slots := (ui_slots u)[j := e\<lparr>us_count := us_count e + 1, us_last := now_ms\<rparr>]\<rparr>) uo"

definition usage_index_get :: "UsageIndex option \<Rightarrow> u64 \<Rightarrow> (u32 \<times> u64) option" where
  "usage_index_get uo rid =
     (case uo of
        None \<Rightarrow> None
      | Some u \<Rightarrow> map_option (\<lambda>j. (ucast (us_count (ui_slots u ! j)), us_last (ui_slots u ! j))) (slot_of u rid))"

definition usage_index_count :: "UsageIndex option \<Rightarrow> nat" where
  "usage_index_count uo = (case uo of None \<Rightarrow> 0 | Some u \<Rightarrow> ui_live u)"

definition usage_index_total_recalls :: "UsageIndex option \<Rightarrow> u64" where
  "usage_index_total_recalls uo =
     (case uo of
        None \<Rightarrow> 0
      | Some u \<Rightarrow> fold (\<lambda>e total. if us_state e = SLOT_LIVE then total + us_count e else total) (ui_slots u) 0)"

section \<open>The checkpoint image\<close>

definition USG_MAGIC :: bytes where
  "USG_MAGIC = lit ''AUSG''"

definition USG_VERSION :: u32 where
  "USG_VERSION = 1"

definition USG_HDR :: nat where
  "USG_HDR = 16"

definition USG_ENTRY :: nat where
  "USG_ENTRY = 20"

definition usage_entry_bytes :: "UsageEntry \<Rightarrow> bytes" where
  "usage_entry_bytes e =
     aegis_put_u64le (us_id e) @ aegis_put_u32le (ucast (us_count e)) @ aegis_put_u64le (us_last e)"

text \<open>The second loop: what it writes from the position \<open>p\<close> on.\<close>

fun usage_write :: "nat \<Rightarrow> UsageEntry list \<Rightarrow> nat \<Rightarrow> bytes" where
  "usage_write len [] p = []"
| "usage_write len (e # es) p =
     (if \<not> p < len then []
      else if us_state e \<noteq> SLOT_LIVE then usage_write len es p
      else if (ucast (us_count e) :: u32) = 0 then usage_write len es p
      else usage_entry_bytes e @ usage_write len es (p + USG_ENTRY))"

text \<open>The image has the length computed first; \<open>fresh i\<close> is the byte that the allocation left at \<open>i\<close>.\<close>

definition usage_index_serialize :: "alloc \<Rightarrow> (nat \<Rightarrow> u8) \<Rightarrow> UsageIndex option \<Rightarrow> bytes option" where
  "usage_index_serialize mem fresh uo =
     (case uo of
        None \<Rightarrow> None
      | Some u \<Rightarrow>
          let n = length (filter (\<lambda>e. us_state e = SLOT_LIVE \<and> us_count e \<noteq> 0) (ui_slots u));
              len = USG_HDR + n * USG_ENTRY
          in if \<not> mem 0 then None
             else let w = USG_MAGIC @ aegis_put_u32le USG_VERSION @ aegis_put_u64le (of_nat n) @
                            usage_write len (ui_slots u) USG_HDR
                  in Some (w @ map fresh [length w..<len]))"

fun usage_restore :: "nat \<Rightarrow> bytes \<Rightarrow> UsageIndex \<Rightarrow> UsageIndex" where
  "usage_restore 0 p u = u"
| "usage_restore (Suc n) p u =
     (let rid = aegis_get_u64le p;
          u1 = (case slot_of u rid of
                  None \<Rightarrow> u
                | Some j \<Rightarrow> u\<lparr>ui_slots := (ui_slots u)[j := (ui_slots u ! j)\<lparr>us_count := ucast (aegis_get_u32le (drop 8 p)),
                                                                               us_last := aegis_get_u64le (drop 12 p)\<rparr>]\<rparr>)
      in usage_restore n (drop USG_ENTRY p) u1)"

definition usage_index_load_buf :: "UsageIndex option \<Rightarrow> bytes option \<Rightarrow> int \<times> UsageIndex option" where
  "usage_index_load_buf uo bo =
     (case (uo, bo) of
        (Some u, Some buf) \<Rightarrow>
          if length buf < USG_HDR then (-1, uo)
          else if take 4 buf \<noteq> USG_MAGIC \<or> aegis_get_u32le (drop 4 buf) \<noteq> USG_VERSION then (-1, uo)
          else let n = aegis_get_u64le (drop 8 buf)
               in if (length buf - USG_HDR) div USG_ENTRY < unat n then (-1, uo)
                  else (0, Some (usage_restore (unat n) (drop USG_HDR buf) u))
      | _ \<Rightarrow> (-1, uo))"

section \<open>Invariant and abstraction\<close>

definition usage_inv :: "UsageIndex \<Rightarrow> bool" where
  "usage_inv u \<longleftrightarrow> counted_ok us_state us_id mix64 256 (ui_slots u) (ui_live u) (ui_used u)"

definition usage_slots :: "UsageIndex \<Rightarrow> u64 \<rightharpoonup> UsageEntry" where
  "usage_slots u = slot_map us_state us_id (ui_slots u)"

text \<open>The tracked ids with their recall count and the time of the last recall.\<close>

definition usage_map :: "UsageIndex \<Rightarrow> u64 \<rightharpoonup> u64 \<times> u64" where
  "usage_map u rid = map_option (\<lambda>e. (us_count e, us_last e)) (usage_slots u rid)"

interpretation us: probe_table us_state us_id mix64 "\<lambda>k e. us_id e = k" "\<lambda>_ t. us_state t \<noteq> SLOT_LIVE" blank_usage
  by unfold_locales (auto simp: blank_usage_def)

lemma slot_of_ok:
  assumes "usage_inv u"
  shows "slot_of u rid = Some j \<Longrightarrow>
      j < length (ui_slots u) \<and> us_state (ui_slots u ! j) = SLOT_LIVE \<and> us_id (ui_slots u ! j) = rid \<and>
      usage_slots u rid = Some (ui_slots u ! j)"
    and "slot_of u rid = None \<longleftrightarrow> usage_slots u rid = None"
proof -
  show "slot_of u rid = None \<longleftrightarrow> usage_slots u rid = None"
    using us.counted_find(2) [of 256 "ui_slots u" "ui_live u" "ui_used u" rid] assms
    by (cases "ui_slots u = []") (simp_all add: slot_of_def Let_def usage_inv_def usage_slots_def slot_map_def)
  assume "slot_of u rid = Some j"
  then show "j < length (ui_slots u) \<and> us_state (ui_slots u ! j) = SLOT_LIVE \<and> us_id (ui_slots u ! j) = rid \<and>
      usage_slots u rid = Some (ui_slots u ! j)"
    using us.counted_find(1) [of 256 "ui_slots u" "ui_live u" "ui_used u" rid j] assms
    by (cases "ui_slots u = []") (simp_all add: slot_of_def Let_def usage_inv_def usage_slots_def)
qed

lemma usage_map_None: "usage_map u rid = None \<longleftrightarrow> usage_slots u rid = None"
  by (simp add: usage_map_def)

lemma usage_grow_ok:
  assumes "usage_inv u" and "mem 0"
  shows "\<exists>u'. usage_grow mem u = Some (Some u') \<and> usage_inv u' \<and> usage_slots u' = usage_slots u \<and>
    ui_slots u' \<noteq> [] \<and> 4 * (ui_used u' + 1) < 3 * length (ui_slots u')"
proof -
  have "counted_ok us_state us_id mix64 256 (ui_slots u) (ui_live u) (ui_used u)"
    using assms(1) by (simp only: usage_inv_def)
  from us.counted_grow [OF this, of 8] obtain nt
    where nt: "rehash_into us_state (\<lambda>_ t. us_state t \<noteq> SLOT_LIVE) (\<lambda>e. mix64 (us_id e)) (ui_slots u)
      (replicate (grown 256 (ui_slots u)) blank_usage) = Some nt"
    "counted_ok us_state us_id mix64 256 nt (ui_live u) (ui_live u)" "nt \<noteq> []"
    "slot_map us_state us_id nt = slot_map us_state us_id (ui_slots u)" "4 * (ui_live u + 1) < 3 * length nt"
    by (simp, blast)
  have "usage_grow mem u = Some (Some (u\<lparr>ui_slots := nt, ui_used := ui_live u\<rparr>))"
    using nt(1) assms(2) unfolding grown_def usage_grow_def Let_def by simp
  with nt(2-5) show ?thesis by (simp add: usage_inv_def usage_slots_def)
qed

lemma usage_claim_ok:
  assumes "usage_inv u" and "ui_slots u \<noteq> []" and "4 * (ui_used u + 1) < 3 * length (ui_slots u)" and "usage_slots u rid = None"
  shows "\<exists>u'. usage_claim u rid = (0, u') \<and> usage_inv u' \<and> usage_map u' = (usage_map u)(rid \<mapsto> (0, 0))"
proof -
  let ?sl = "ui_slots u"
  let ?e = "\<lparr>us_id = rid, us_count = 0, us_last = 0, us_state = SLOT_LIVE\<rparr>"
  have ok: "counted_ok us_state us_id mix64 256 ?sl (ui_live u) (ui_used u)" using assms(1) by (simp add: usage_inv_def)
  have "\<exists>m. length ?sl = 2 ^ m" using ok assms(2) probe_ok_pow2 by (auto simp: counted_ok_def)
  moreover have "\<not> us_id s = rid" if "s \<in> set ?sl" "us_state s = SLOT_LIVE" for s
    using assms(4) that by (auto simp: usage_slots_def slot_map_None in_set_conv_nth)
  ultimately have eq: "probe_claim us_state (\<lambda>e. us_id e = rid) ?sl i p r n = probe_claim us_state (\<lambda>_. False) ?sl i p r n" for i p r n
    using assms(2) by (intro probe_claim_no_hit) auto
  show ?thesis
  proof (cases rule: us.counted_claim [OF ok assms(2,3), of ?e rid, case_names _ _ old new])
    case (old j)
    then show ?thesis using assms(4) by (simp add: usage_slots_def)
  next
    case (new j)
    then show ?thesis
      by (auto simp: usage_claim_def Let_def eq usage_inv_def usage_map_def usage_slots_def fun_eq_iff)
  qed simp_all
qed

lemma usage_track_ok:
  assumes "usage_inv u"
  shows "\<exists>rv u'. usage_index_track mem (Some u) rid = Some (rv, Some u') \<and> usage_inv u' \<and>
    (rv = 0 \<and> usage_map u' = (if rid \<in> dom (usage_map u) then usage_map u else (usage_map u)(rid \<mapsto> (0, 0))) \<or>
     rv = -1 \<and> u' = u \<and> \<not> mem 0)"
proof (cases "usage_slots u rid")
  case (Some e)
  then have "slot_of u rid \<noteq> None" using slot_of_ok(2) [OF assms, of rid] by simp
  then show ?thesis using Some assms by (simp add: usage_index_track_def usage_map_def dom_def)
next
  case None
  then have s: "slot_of u rid = None" using slot_of_ok(2) [OF assms] by simp
  have d: "rid \<notin> dom (usage_map u)" using None by (simp add: usage_map_def dom_def)
  show ?thesis
  proof (cases "length (ui_slots u) = 0 \<or> length (ui_slots u) * 3 \<le> (ui_used u + 1) * 4")
    case False
    then have "ui_slots u \<noteq> []" "4 * (ui_used u + 1) < 3 * length (ui_slots u)" by auto
    from usage_claim_ok [OF assms this None] False s d show ?thesis by (auto simp: usage_index_track_def)
  next
    case grow: True
    show ?thesis
    proof (cases "mem 0")
      case True
      then obtain u1 where u1: "usage_grow mem u = Some (Some u1)" "usage_inv u1" "usage_slots u1 = usage_slots u"
        "ui_slots u1 \<noteq> []" "4 * (ui_used u1 + 1) < 3 * length (ui_slots u1)"
        using usage_grow_ok [OF assms] by blast
      then have "usage_map u1 = usage_map u" by (simp add: fun_eq_iff usage_map_def)
      with usage_claim_ok [OF u1(2,4,5), of rid] u1 None grow s d show ?thesis
        by (auto simp: usage_index_track_def)
    qed (use grow s assms in \<open>auto simp: usage_index_track_def usage_grow_def Let_def\<close>)
  qed
qed

lemma usage_store_ok:
  assumes "usage_inv u" and "slot_of u rid = Some j" and "us_state e = SLOT_LIVE" and "us_id e = rid"
  shows "usage_inv (u\<lparr>ui_slots := (ui_slots u)[j := e]\<rparr>)"
    and "usage_map (u\<lparr>ui_slots := (ui_slots u)[j := e]\<rparr>) = (usage_map u)(rid \<mapsto> (us_count e, us_last e))"
  using us.counted_store [of 256 "ui_slots u" "ui_live u" "ui_used u" j e] slot_of_ok(1) [OF assms(1,2)] assms
  by (auto simp: usage_inv_def usage_map_def usage_slots_def fun_eq_iff)

lemma usage_untrack_ok:
  assumes "usage_inv u"
  shows "\<exists>u'. usage_index_untrack (Some u) rid = Some u' \<and> usage_inv u' \<and> usage_map u' = (usage_map u)(rid := None)"
proof (cases "slot_of u rid")
  case None
  then have "usage_map u rid = None" using slot_of_ok(2) [OF assms, of rid] by (simp add: usage_map_def)
  then show ?thesis using None assms by (simp add: usage_index_untrack_def fun_upd_idem)
next
  case (Some j)
  then show ?thesis
    using us.counted_kill [of 256 "ui_slots u" "ui_live u" "ui_used u" j "(ui_slots u ! j)\<lparr>us_state := SLOT_DEAD\<rparr>"]
      slot_of_ok(1) [OF assms Some] assms
    by (auto simp: usage_index_untrack_def usage_inv_def usage_map_def usage_slots_def fun_eq_iff)
qed

lemma usage_record_ok:
  assumes "usage_inv u"
  shows "\<exists>u'. usage_index_record (Some u) rid now = Some u' \<and> usage_inv u' \<and>
    usage_map u' = (case usage_map u rid of None \<Rightarrow> usage_map u | Some (c, t) \<Rightarrow> (usage_map u)(rid \<mapsto> (c + 1, now)))"
proof (cases "slot_of u rid")
  case None
  then have "usage_map u rid = None" using slot_of_ok(2) [OF assms, of rid] by (simp add: usage_map_def)
  then show ?thesis using None assms by (simp add: usage_index_record_def)
next
  case (Some j)
  let ?e = "(ui_slots u ! j)\<lparr>us_count := us_count (ui_slots u ! j) + 1, us_last := now\<rparr>"
  show ?thesis
    using usage_store_ok [OF assms Some, of ?e] slot_of_ok(1) [OF assms Some] Some
    by (simp add: usage_index_record_def Let_def usage_map_def)
qed

lemma usage_get_map: "usage_inv u \<Longrightarrow> usage_index_get (Some u) rid = map_option (\<lambda>(c, t). (ucast c, t)) (usage_map u rid)"
  using slot_of_ok [of u rid]
  by (cases "slot_of u rid") (auto simp: usage_index_get_def usage_map_def)

lemma usage_count_map: "usage_inv u \<Longrightarrow> usage_index_count (Some u) = card (dom (usage_map u))"
proof -
  assume inv: "usage_inv u"
  have d: "dom (usage_map u) = us_id ` {s \<in> set (ui_slots u). us_state s = SLOT_LIVE}"
    using dom_slot_map [of us_state us_id "ui_slots u"] by (auto simp: usage_map_def usage_slots_def dom_def)
  show ?thesis
  proof (cases "ui_slots u = []")
    case False
    then have "distinct (map us_id (filter (\<lambda>s. us_state s = SLOT_LIVE) (ui_slots u)))"
      using inv us.ok_distinct_keys by (simp add: usage_inv_def counted_ok_def)
    from distinct_card [OF this] False inv d show ?thesis
      by (simp add: usage_index_count_def usage_inv_def counted_ok_def count_state_def)
  qed (use inv d in \<open>simp add: usage_index_count_def usage_inv_def counted_ok_def\<close>)
qed

subsection \<open>Images\<close>

text \<open>The entries that an image records, and what loading one of them does to the counters.\<close>

definition recalled :: "UsageIndex \<Rightarrow> UsageEntry list" where
  "recalled u = filter (\<lambda>e. us_state e = SLOT_LIVE \<and> us_count e \<noteq> 0) (ui_slots u)"

definition adopt :: "UsageEntry \<Rightarrow> (u64 \<rightharpoonup> u64 \<times> u64) \<Rightarrow> u64 \<rightharpoonup> u64 \<times> u64" where
  "adopt e m = (if m (us_id e) = None then m else m(us_id e \<mapsto> (ucast (ucast (us_count e) :: u32), us_last e)))"

lemma length_usage_entry_bytes [simp]: "length (usage_entry_bytes e) = 20"
  by (simp add: usage_entry_bytes_def)

lemma length_usage_entries: "length (concat (map usage_entry_bytes es)) = 20 * length es"
  by (induction es) simp_all

lemma narrow_count: "unat (c :: u64) < 2 ^ 32 \<Longrightarrow> ucast (ucast c :: u32) = c"
  by (simp add: word_unat_eq_iff unsigned_ucast_eq unsigned_take_bit_eq take_bit_nat_eq_self)

lemma usage_write_all:
  "(\<forall>e \<in> set es. us_state e = SLOT_LIVE \<longrightarrow> unat (us_count e) < 2 ^ 32) \<Longrightarrow>
   p + 20 * length (filter (\<lambda>e. us_state e = SLOT_LIVE \<and> us_count e \<noteq> 0) es) = len \<Longrightarrow>
   usage_write len es p = concat (map usage_entry_bytes (filter (\<lambda>e. us_state e = SLOT_LIVE \<and> us_count e \<noteq> 0) es))"
proof (induction es arbitrary: p)
  case (Cons e es)
  have "us_state e = SLOT_LIVE \<Longrightarrow> (ucast (us_count e) :: u32) = 0 \<longleftrightarrow> us_count e = 0"
    using narrow_count [of "us_count e"] Cons.prems(1) by auto
  then show ?case using Cons by (auto simp: USG_ENTRY_def filter_empty_conv)
qed simp

lemma usage_restore_adopts:
  "usage_inv u \<Longrightarrow> usage_inv (usage_restore (length es) (concat (map usage_entry_bytes es) @ rest) u) \<and>
   usage_map (usage_restore (length es) (concat (map usage_entry_bytes es) @ rest) u) = fold adopt es (usage_map u)"
proof (induction es arbitrary: u)
  case (Cons e es)
  let ?p = "usage_entry_bytes e @ concat (map usage_entry_bytes es) @ rest"
  have rd: "aegis_get_u64le ?p = us_id e" "aegis_get_u32le (drop 8 ?p) = ucast (us_count e)" "aegis_get_u64le (drop 12 ?p) = us_last e"
    "drop USG_ENTRY ?p = concat (map usage_entry_bytes es) @ rest"
    by (simp_all add: usage_entry_bytes_def USG_ENTRY_def)
  show ?case
  proof (cases "slot_of u (us_id e)")
    case None
    then have "usage_map u (us_id e) = None" using slot_of_ok(2) [OF Cons.prems] by (simp add: usage_map_None)
    then show ?thesis using Cons None rd by (simp add: adopt_def)
  next
    case (Some j)
    let ?n = "(ui_slots u ! j)\<lparr>us_count := ucast (ucast (us_count e) :: u32), us_last := us_last e\<rparr>"
    note j = slot_of_ok(1) [OF Cons.prems Some]
    then have "usage_map u (us_id e) \<noteq> None" by (simp add: usage_map_None)
    then have ad: "adopt e (usage_map u) = (usage_map u)(us_id e \<mapsto> (us_count ?n, us_last ?n))" by (auto simp: adopt_def)
    have "usage_restore (length (e # es)) (concat (map usage_entry_bytes (e # es)) @ rest) u =
      usage_restore (length es) (concat (map usage_entry_bytes es) @ rest) (u\<lparr>ui_slots := (ui_slots u)[j := ?n]\<rparr>)"
      by (simp only: list.map concat.simps append_assoc length_Cons usage_restore.simps Let_def rd Some option.case)
    moreover have "usage_inv (u\<lparr>ui_slots := (ui_slots u)[j := ?n]\<rparr>)"
      "usage_map (u\<lparr>ui_slots := (ui_slots u)[j := ?n]\<rparr>) = adopt e (usage_map u)"
      unfolding ad by (rule usage_store_ok [OF Cons.prems Some]; use j in simp)+
    ultimately show ?thesis using Cons.IH by simp
  qed
qed simp

lemma fold_adopt:
  "distinct (map us_id es) \<Longrightarrow> fold adopt es m rid =
     (case m rid of None \<Rightarrow> None
      | Some v \<Rightarrow> (case map_of (map (\<lambda>e. (us_id e, e)) es) rid of None \<Rightarrow> Some v
                    | Some e \<Rightarrow> Some (ucast (ucast (us_count e) :: u32), us_last e)))"
proof (induction es arbitrary: m)
  case (Cons e es)
  have "us_id e = rid \<Longrightarrow> map_of (map (\<lambda>e. (us_id e, e)) es) rid = None"
    using Cons.prems by (auto simp: map_of_eq_None_iff image_iff)
  then show ?case using Cons by (auto simp: adopt_def split: option.split)
qed (simp split: option.split)

lemma recalled_map:
  assumes "usage_inv u"
  shows "distinct (map us_id (recalled u))"
    and "map_of (map (\<lambda>e. (us_id e, e)) (recalled u)) rid = Some e \<longleftrightarrow> usage_slots u rid = Some e \<and> us_count e \<noteq> 0"
proof -
  have r: "recalled u = filter (\<lambda>e. us_count e \<noteq> 0) (filter (\<lambda>e. us_state e = SLOT_LIVE) (ui_slots u))"
    by (simp add: recalled_def conj_commute)
  have d: "distinct (map us_id (filter (\<lambda>e. us_state e = SLOT_LIVE) (ui_slots u)))"
    using assms us.ok_distinct_keys by (cases "ui_slots u = []") (simp_all add: usage_inv_def counted_ok_def)
  then show d': "distinct (map us_id (recalled u))" unfolding r by (rule distinct_map_filter)
  have m: "map_of (map (\<lambda>e. (us_id e, e)) xs) rid = Some e \<longleftrightarrow> e \<in> set xs \<and> us_id e = rid"
    if "distinct (map us_id xs)" for xs using that by (subst map_of_eq_Some_iff) (auto simp: comp_def)
  show "map_of (map (\<lambda>e. (us_id e, e)) (recalled u)) rid = Some e \<longleftrightarrow> usage_slots u rid = Some e \<and> us_count e \<noteq> 0"
    unfolding usage_slots_def slot_map_def m [OF d] m [OF d'] by (auto simp: r)
qed

lemma live_counted:
  assumes "usage_inv u" and "\<forall>(c, t) \<in> ran (usage_map u). unat c < 2 ^ 32" and "e \<in> set (ui_slots u)" and "us_state e = SLOT_LIVE"
  shows "unat (us_count e) < 2 ^ 32"
proof -
  have "probe_ok us_state us_id mix64 (ui_slots u)" using assms(1,3) by (auto simp: usage_inv_def counted_ok_def split: if_splits)
  then have "usage_slots u (us_id e) = Some e"
    using assms(3,4) by (auto simp: usage_slots_def slot_map_iff in_set_conv_nth)
  then have "usage_map u (us_id e) = Some (us_count e, us_last e)" by (simp add: usage_map_def)
  then show ?thesis using assms(2) by (auto simp: ran_def)
qed

lemma usage_image:
  assumes "usage_inv u" and "\<forall>(c, t) \<in> ran (usage_map u). unat c < 2 ^ 32" and "mem 0"
  shows "usage_index_serialize mem fresh (Some u) =
    Some (USG_MAGIC @ aegis_put_u32le USG_VERSION @ aegis_put_u64le (of_nat (length (recalled u))) @
      concat (map usage_entry_bytes (recalled u)))"
proof -
  have w: "usage_write (USG_HDR + length (recalled u) * USG_ENTRY) (ui_slots u) USG_HDR = concat (map usage_entry_bytes (recalled u))"
    unfolding recalled_def by (rule usage_write_all) (use live_counted [OF assms(1,2)] in \<open>auto simp: USG_ENTRY_def\<close>)
  show ?thesis using assms(3) w length_usage_entries [of "recalled u"]
    by (simp add: usage_index_serialize_def Let_def flip: recalled_def) (simp add: USG_HDR_def USG_ENTRY_def USG_MAGIC_def lit_def)
qed

lemma recalled_few:
  assumes "usage_inv u"
  shows "length (recalled u) \<le> card (dom (usage_map u))"
proof -
  have "length (filter (\<lambda>e. us_count e \<noteq> 0) (filter (\<lambda>e. us_state e = SLOT_LIVE) (ui_slots u))) \<le>
      count_state us_state SLOT_LIVE (ui_slots u)"
    unfolding count_state_def by (rule length_filter_le)
  then show ?thesis
    using usage_count_map [OF assms] assms
    by (auto simp: recalled_def usage_index_count_def usage_inv_def counted_ok_def conj_commute split: if_splits)
qed

section \<open>Properties\<close>

text \<open>
  C38. The usage index is a map from tracked ids to counters. Tracking adds an id with zero counters and leaves a tracked
  one alone, untracking forgets it, recording a recall adds one and stamps the time of tracked ids only, and the
  readers see that map. Tracking fails only when growing the table finds no memory, and then nothing changed.
\<close>

theorem usage_index_refines:
  assumes "usage_inv u"
  shows "(\<exists>rv u'. usage_index_track mem (Some u) rid = Some (rv, Some u') \<and> usage_inv u' \<and>
           (rv = 0 \<and> usage_map u' = (if rid \<in> dom (usage_map u) then usage_map u else (usage_map u)(rid \<mapsto> (0, 0))) \<or>
            rv = -1 \<and> u' = u \<and> \<not> mem 0)) \<and>
         (\<exists>u'. usage_index_untrack (Some u) rid = Some u' \<and> usage_inv u' \<and> usage_map u' = (usage_map u)(rid := None)) \<and>
         (\<exists>u'. usage_index_record (Some u) rid now = Some u' \<and> usage_inv u' \<and>
           usage_map u' = (case usage_map u rid of None \<Rightarrow> usage_map u | Some (c, t) \<Rightarrow> (usage_map u)(rid \<mapsto> (c + 1, now)))) \<and>
         usage_index_get (Some u) rid = map_option (\<lambda>(c, t). (ucast c, t)) (usage_map u rid) \<and>
         usage_index_count (Some u) = card (dom (usage_map u))"
  using usage_track_ok [OF assms] usage_untrack_ok [OF assms] usage_record_ok [OF assms] usage_get_map [OF assms]
    usage_count_map [OF assms] by simp

lemma usage_inv_empty: "usage_inv \<lparr>ui_slots = [], ui_live = 0, ui_used = 0\<rparr>"
  by (simp add: usage_inv_def counted_ok_def)

lemma usage_map_empty: "usage_map \<lparr>ui_slots = [], ui_live = 0, ui_used = 0\<rparr> = Map.empty"
  by (simp add: usage_map_def usage_slots_def slot_map_def fun_eq_iff)

theorem usage_index_refines_witness:
  "\<exists>rv u'. usage_index_track mem_ok (Some \<lparr>ui_slots = [], ui_live = 0, ui_used = 0\<rparr>) 7 = Some (rv, Some u') \<and> rv = 0 \<and>
     usage_map u' 7 = Some (0, 0)"
  using conjunct1 [OF usage_index_refines [OF usage_inv_empty, of mem_ok 7 1]] unfolding usage_map_empty by auto

text \<open>
  C39. A checkpoint of the usage index loses nothing: loading the image of \<open>u\<close> into an index \<open>v\<close> succeeds, keeps the set
  of ids \<open>v\<close> tracks, gives each of them the counters it had in \<open>u\<close> when it was recalled there, and leaves the others.
  The counters have to fit the 32 bits of an entry.
\<close>

theorem usage_checkpoint_roundtrip:
  assumes "usage_inv u" and "usage_inv v" and "\<forall>(c, t) \<in> ran (usage_map u). unat c < 2 ^ 32"
    and "card (dom (usage_map u)) < 2 ^ 64" and "mem 0"
  shows "\<exists>img v'. usage_index_serialize mem fresh (Some u) = Some img \<and> usage_index_load_buf (Some v) (Some img) = (0, Some v') \<and>
    usage_inv v' \<and>
    (\<forall>rid. usage_map v' rid =
       (case (usage_map v rid, usage_map u rid) of
          (Some _, Some (c, t)) \<Rightarrow> if c = 0 then usage_map v rid else Some (c, t)
        | _ \<Rightarrow> usage_map v rid))"
proof -
  let ?es = "recalled u"
  let ?body = "concat (map usage_entry_bytes ?es)"
  let ?img = "USG_MAGIC @ aegis_put_u32le USG_VERSION @ aegis_put_u64le (of_nat (length ?es)) @ ?body"
  have l: "length ?body = 20 * length ?es" by (rule length_usage_entries)
  have n: "unat (of_nat (length ?es) :: u64) = length ?es"
    using recalled_few [OF assms(1)] assms(4) by (simp add: unsigned_of_nat take_bit_nat_eq_self)
  have m: "length USG_MAGIC = 4" by (simp add: USG_MAGIC_def lit_def)
  have load: "usage_index_load_buf (Some v) (Some ?img) = (0, Some (usage_restore (length ?es) (?body @ []) v))"
    by (simp add: usage_index_load_buf_def Let_def USG_HDR_def USG_ENTRY_def m l n)
  have "fold adopt ?es (usage_map v) rid = (case (usage_map v rid, usage_map u rid) of
          (Some _, Some (c, t)) \<Rightarrow> if c = 0 then usage_map v rid else Some (c, t)
        | _ \<Rightarrow> usage_map v rid)" for rid
  proof (cases "map_of (map (\<lambda>e. (us_id e, e)) ?es) rid")
    case None
    then have "usage_slots u rid = Some e \<Longrightarrow> us_count e = 0" for e using recalled_map(2) [OF assms(1), of rid] by auto
    then show ?thesis unfolding fold_adopt [OF recalled_map(1) [OF assms(1)]]
      by (auto simp: None usage_map_def [of u] split: option.split)
  next
    case (Some e)
    then have e: "usage_slots u rid = Some e" "us_count e \<noteq> 0" using recalled_map(2) [OF assms(1)] by auto
    have "e \<in> set (ui_slots u)" "us_state e = SLOT_LIVE" using map_of_SomeD [OF Some] by (auto simp: recalled_def)
    from live_counted [OF assms(1,3) this] have "ucast (ucast (us_count e) :: u32) = us_count e" by (rule narrow_count)
    then show ?thesis unfolding fold_adopt [OF recalled_map(1) [OF assms(1)]]
      by (simp add: Some e usage_map_def [of u] split: option.split)
  qed
  with usage_image [where mem = mem and fresh = fresh, OF assms(1,3,5)] load usage_restore_adopts [OF assms(2), of ?es "[]"] show ?thesis by auto
qed

lemma usage_once: "\<exists>u. usage_inv u \<and> usage_map u = [7 \<mapsto> (1, 5)]"
proof -
  obtain u where u: "usage_inv u" "usage_map u = [7 \<mapsto> (0, 0)]"
    using usage_track_ok [OF usage_inv_empty, of mem_ok 7] unfolding usage_map_empty by auto
  from usage_record_ok [OF u(1), of 7 5] show ?thesis unfolding u(2) by auto
qed

theorem usage_checkpoint_roundtrip_witness:
  "\<exists>u v img v'. usage_map v 7 = Some (0, 0) \<and> usage_index_serialize mem_ok (\<lambda>_. 0) (Some u) = Some img \<and>
     usage_index_load_buf (Some v) (Some img) = (0, Some v') \<and> usage_map v' 7 = Some (1, 5)"
proof -
  obtain u where u: "usage_inv u" "usage_map u = [7 \<mapsto> (1, 5)]" using usage_once by blast
  obtain v where v: "usage_inv v" "usage_map v = [7 \<mapsto> (0, 0)]"
    using usage_track_ok [OF usage_inv_empty, of mem_ok 7] unfolding usage_map_empty by auto
  have "\<forall>(c, t) \<in> ran (usage_map u). unat c < 2 ^ 32" "card (dom (usage_map u)) < 2 ^ 64" by (simp_all add: u(2) ran_def)
  from usage_checkpoint_roundtrip [OF u(1) v(1) this, of mem_ok "\<lambda>_. 0"] obtain img v' where
    "usage_index_serialize mem_ok (\<lambda>_. 0) (Some u) = Some img" "usage_index_load_buf (Some v) (Some img) = (0, Some v')"
    "usage_map v' 7 = Some (1, 5)"
    unfolding u(2) v(2) by auto
  moreover have "usage_map v 7 = Some (0, 0)" by (simp add: v(2))
  ultimately show ?thesis by blast
qed

end
