(* ===== verification/Working_Buffer.thy ===== *)
theory Working_Buffer
  imports String_Table Memory_Record
begin

text \<open>
  Working memory, \<^verbatim>\<open>src/src/memory/working_buffer.c\<close>: per session a ring of records with a time to live. Every public
  operation runs under the mutex of the store, so it is one step of the model; the mutex itself is left out.

  Shown: a session is a map from ids to records in which an insertion evicts exactly the record that is one
  capacity older, readers and the sweep drop only expired records, and an expiry time never wraps.
\<close>

section \<open>State\<close>

text \<open>An empty slot is \<open>None\<close>; \<open>se_slots\<close> is the array of \<open>se_capacity\<close> slots.\<close>

record Session =
  se_id :: cstr
  se_slots :: "MemoryRecord option list"
  se_capacity :: u32
  se_head :: u32
  se_next_id :: u64

definition SBUCKETS :: nat where
  "SBUCKETS = 256"

record WorkingStore =
  ws_buckets :: "nat \<Rightarrow> Session list"
  ws_capacity :: u32
  ws_default_ttl_ms :: u64

section \<open>Operations\<close>

text \<open>\<open>mutex_ok\<close> is the outcome of initialising the mutex.\<close>

definition working_store_create :: "alloc \<Rightarrow> bool \<Rightarrow> u32 \<Rightarrow> u64 \<Rightarrow> WorkingStore option" where
  "working_store_create mem mutex_ok cap ttl =
     (if \<not> mem 0 then None
      else if \<not> mutex_ok then None
      else Some \<lparr>ws_buckets = (\<lambda>_. []), ws_capacity = (if cap \<noteq> 0 then cap else 256),
                 ws_default_ttl_ms = (if ttl \<noteq> 0 then ttl else 3600000)\<rparr>)"

definition occupied :: "Session \<Rightarrow> nat" where
  "occupied s = length (filter (\<lambda>x. x \<noteq> None) (se_slots s))"

definition working_store_count :: "WorkingStore option \<Rightarrow> nat" where
  "working_store_count wo =
     (case wo of None \<Rightarrow> 0 | Some ws \<Rightarrow> \<Sum>b\<leftarrow>[0..<SBUCKETS]. \<Sum>s\<leftarrow>ws_buckets ws b. occupied s)"

definition find_session :: "WorkingStore \<Rightarrow> cstr \<Rightarrow> Session option" where
  "find_session ws sid = table_find se_id SBUCKETS (ws_buckets ws) sid"

definition new_session :: "WorkingStore \<Rightarrow> cstr \<Rightarrow> Session" where
  "new_session ws sid =
     \<lparr>se_id = sid, se_slots = replicate (unat (ws_capacity ws)) None, se_capacity = ws_capacity ws,
      se_head = 0, se_next_id = 1\<rparr>"

text \<open>The three allocations are the session, the copy of its name and its slots; all are made before the test.\<close>

definition get_session :: "alloc \<Rightarrow> WorkingStore \<Rightarrow> cstr \<Rightarrow> bool \<Rightarrow> Session option \<times> WorkingStore" where
  "get_session mem ws sid create =
     (case find_session ws sid of
        Some s \<Rightarrow> (Some s, ws)
      | None \<Rightarrow>
          if \<not> create then (None, ws)
          else if \<not> mem 0 then (None, ws)
          else if \<not> mem 1 \<or> \<not> mem 2 then (None, ws)
          else let s = new_session ws sid in (Some s, ws\<lparr>ws_buckets := table_push se_id SBUCKETS (ws_buckets ws) s\<rparr>))"

text \<open>A store through the pointer to the session.\<close>

definition put_session :: "WorkingStore \<Rightarrow> Session \<Rightarrow> WorkingStore" where
  "put_session ws s = ws\<lparr>ws_buckets := table_update se_id SBUCKETS (ws_buckets ws) (se_id s) (\<lambda>_. s)\<rparr>"

definition expired :: "u64 \<Rightarrow> MemoryRecord \<Rightarrow> bool" where
  "expired now r \<longleftrightarrow> mr_expires_at r \<noteq> 0 \<and> mr_expires_at r \<le> now"

text \<open>The slots after the loop, and the position it returned.\<close>

fun find_slot :: "MemoryRecord option list \<Rightarrow> u64 \<Rightarrow> u64 \<Rightarrow> MemoryRecord option list \<times> nat option" where
  "find_slot [] rid now = ([], None)"
| "find_slot (x # xs) rid now =
     (let rest = (\<lambda>y. let (ys, k) = find_slot xs rid now in (y # ys, map_option Suc k))
      in case x of
           None \<Rightarrow> rest None
         | Some r \<Rightarrow> if expired now r then rest None
                     else if mr_id r = rid then (x # xs, Some 0)
                     else rest (Some r))"

definition UINT64_MAX :: u64 where
  "UINT64_MAX = - 1"

definition stamped :: "MemoryRecord \<Rightarrow> u64 \<Rightarrow> u64 \<Rightarrow> u64 \<Rightarrow> MemoryRecord" where
  "stamped r rid now ttl =
     r\<lparr>mr_type := MEM_WORKING, mr_id := rid, mr_created := now, mr_updated := now,
       mr_expires_at := (if UINT64_MAX - now < ttl then UINT64_MAX else now + ttl)\<rparr>"

text \<open>The result code, the id stored through \<open>out_id\<close>, and the store.\<close>

definition working_store_add ::
  "alloc \<Rightarrow> alloc \<Rightarrow> (nat \<Rightarrow> alloc) \<Rightarrow> WorkingStore \<Rightarrow> cstr \<Rightarrow> MemoryRecord \<Rightarrow> u64 \<Rightarrow> u64 \<Rightarrow> int \<times> u64 option \<times> WorkingStore" where
  "working_store_add mem cmem cmems ws sid rec now ttl_ms =
     (case get_session mem ws sid True of
        (None, ws1) \<Rightarrow> (-1, None, ws1)
      | (Some s, ws1) \<Rightarrow>
          case record_clone cmem cmems rec of
            None \<Rightarrow> (-1, None, ws1)
          | Some c \<Rightarrow>
              let ttl = (if ttl_ms \<noteq> 0 then ttl_ms else ws_default_ttl_ms ws1);
                  copy = stamped c (se_next_id s) now ttl
              in (0, Some (mr_id copy),
                  put_session ws1 (s\<lparr>se_next_id := se_next_id s + 1,
                                     se_slots := (se_slots s)[unat (se_head s) := Some copy],
                                     se_head := (se_head s + 1) mod se_capacity s\<rparr>)))"

definition working_store_get ::
  "alloc \<Rightarrow> (nat \<Rightarrow> alloc) \<Rightarrow> WorkingStore \<Rightarrow> cstr \<Rightarrow> u64 \<Rightarrow> u64 \<Rightarrow> MemoryRecord option \<times> WorkingStore" where
  "working_store_get cmem cmems ws sid rid now =
     (case find_session ws sid of
        None \<Rightarrow> (None, ws)
      | Some s \<Rightarrow>
          let (sl, k) = find_slot (se_slots s) rid now; ws1 = put_session ws (s\<lparr>se_slots := sl\<rparr>)
          in case k of
               None \<Rightarrow> (None, ws1)
             | Some j \<Rightarrow> (Option.bind (sl ! j) (record_clone cmem cmems), ws1))"

text \<open>The record that is moved out, or \<open>None\<close> for the result -1.\<close>

definition working_store_take ::
  "WorkingStore \<Rightarrow> cstr \<Rightarrow> u64 \<Rightarrow> u64 \<Rightarrow> cstr option \<Rightarrow> MemoryRecord option \<times> WorkingStore" where
  "working_store_take ws sid rid now ns =
     (case find_session ws sid of
        None \<Rightarrow> (None, ws)
      | Some s \<Rightarrow>
          let (sl, k) = find_slot (se_slots s) rid now; s1 = s\<lparr>se_slots := sl\<rparr>
          in case Option.bind k (\<lambda>j. map_option (Pair j) (sl ! j)) of
               None \<Rightarrow> (None, put_session ws s1)
             | Some (j, r) \<Rightarrow>
                 if ns \<noteq> None \<and> (mr_agent_id r = None \<or> mr_agent_id r \<noteq> ns) then (None, put_session ws s1)
                 else (Some r, put_session ws (s1\<lparr>se_slots := sl[j := None]\<rparr>)))"

fun sweep_slots :: "u64 \<Rightarrow> MemoryRecord option list \<Rightarrow> nat \<times> MemoryRecord option list" where
  "sweep_slots now [] = (0, [])"
| "sweep_slots now (x # xs) =
     (let (n, ys) = sweep_slots now xs
      in case x of
           None \<Rightarrow> (n, None # ys)
         | Some r \<Rightarrow> if mr_expires_at r \<noteq> 0 \<and> mr_expires_at r \<le> now then (Suc n, None # ys) else (n, Some r # ys))"

definition working_store_sweep :: "WorkingStore \<Rightarrow> u64 \<Rightarrow> nat \<times> WorkingStore" where
  "working_store_sweep ws now =
     (\<Sum>b\<leftarrow>[0..<SBUCKETS]. \<Sum>s\<leftarrow>ws_buckets ws b. fst (sweep_slots now (se_slots s)),
      ws\<lparr>ws_buckets := (\<lambda>b. if b < SBUCKETS then map (\<lambda>s. s\<lparr>se_slots := snd (sweep_slots now (se_slots s))\<rparr>) (ws_buckets ws b)
                             else ws_buckets ws b)\<rparr>)"

section \<open>Invariant and abstraction\<close>

definition entry_ok :: "Session \<Rightarrow> nat \<Rightarrow> MemoryRecord \<Rightarrow> bool" where
  "entry_ok s k r \<longleftrightarrow>
     1 \<le> unat (mr_id r) \<and> unat (mr_id r) < unat (se_next_id s) \<and>
     unat (se_next_id s) \<le> unat (mr_id r) + unat (se_capacity s) \<and>
     (unat (mr_id r) - 1) mod unat (se_capacity s) = k \<and> mr_expires_at r \<noteq> 0 \<and> mr_type r = MEM_WORKING"

definition session_ok :: "Session \<Rightarrow> bool" where
  "session_ok s \<longleftrightarrow>
     se_capacity s \<noteq> 0 \<and> length (se_slots s) = unat (se_capacity s) \<and> 1 \<le> unat (se_next_id s) \<and>
     unat (se_head s) = (unat (se_next_id s) - 1) mod unat (se_capacity s) \<and>
     (\<forall>k < length (se_slots s). \<forall>r. se_slots s ! k = Some r \<longrightarrow> entry_ok s k r)"

definition store_ok :: "WorkingStore \<Rightarrow> bool" where
  "store_ok ws \<longleftrightarrow>
     table_ok se_id SBUCKETS (ws_buckets ws) \<and> ws_capacity ws \<noteq> 0 \<and> ws_default_ttl_ms ws \<noteq> 0 \<and>
     (\<forall>b. \<forall>s \<in> set (ws_buckets ws b). session_ok s \<and> se_capacity s = ws_capacity ws)"

text \<open>The records of a session by id, and the id that its next record gets.\<close>

definition session_map :: "Session \<Rightarrow> u64 \<rightharpoonup> MemoryRecord" where
  "session_map s = map_of (map (\<lambda>r. (mr_id r, r)) (List.map_filter (\<lambda>x. x) (se_slots s)))"

definition entries :: "WorkingStore \<Rightarrow> cstr \<Rightarrow> u64 \<rightharpoonup> MemoryRecord" where
  "entries ws sid = (case find_session ws sid of None \<Rightarrow> Map.empty | Some s \<Rightarrow> session_map s)"

definition next_id_of :: "WorkingStore \<Rightarrow> cstr \<Rightarrow> u64" where
  "next_id_of ws sid = (case find_session ws sid of None \<Rightarrow> 1 | Some s \<Rightarrow> se_next_id s)"

definition unexpired :: "u64 \<Rightarrow> (u64 \<rightharpoonup> MemoryRecord) \<Rightarrow> u64 \<rightharpoonup> MemoryRecord" where
  "unexpired now m rid = (case m rid of None \<Rightarrow> None | Some r \<Rightarrow> if expired now r then None else Some r)"

subsection \<open>Sessions\<close>

lemma session_map_iff:
  assumes "session_ok s"
  shows "session_map s rid = Some r \<longleftrightarrow> (\<exists>k < length (se_slots s). se_slots s ! k = Some r \<and> mr_id r = rid)"
proof -
  have set: "(i, t) \<in> set (map (\<lambda>r. (mr_id r, r)) (List.map_filter (\<lambda>x. x) (se_slots s))) \<longleftrightarrow>
    (\<exists>k < length (se_slots s). se_slots s ! k = Some t \<and> mr_id t = i)" for i t
    by (auto simp: map_filter_def in_set_conv_nth image_iff)
  have mem: "session_map s i = Some t \<Longrightarrow> \<exists>k < length (se_slots s). se_slots s ! k = Some t \<and> mr_id t = i" for i t
    unfolding session_map_def by (drule map_of_SomeD) (simp only: set)
  show ?thesis
  proof
    assume "session_map s rid = Some r"
    then show "\<exists>k < length (se_slots s). se_slots s ! k = Some r \<and> mr_id r = rid" by (rule mem)
  next
    assume "\<exists>k < length (se_slots s). se_slots s ! k = Some r \<and> mr_id r = rid"
    then obtain k where k: "k < length (se_slots s)" "se_slots s ! k = Some r" "mr_id r = rid" by blast
    then have "(rid, r) \<in> set (map (\<lambda>r. (mr_id r, r)) (List.map_filter (\<lambda>x. x) (se_slots s)))"
      unfolding set by blast
    from weak_map_of_SomeI [OF this] obtain t where t: "session_map s rid = Some t" unfolding session_map_def by blast
    from mem [OF this] obtain k' where k': "k' < length (se_slots s)" "se_slots s ! k' = Some t" "mr_id t = rid" by blast
    have "entry_ok s k r" "entry_ok s k' t" using assms k k' by (auto simp: session_ok_def)
    then have "k = k'" using k(3) k'(3) by (simp add: entry_ok_def)
    with t k k' show "session_map s rid = Some r" by simp
  qed
qed

lemma session_map_eqI:
  assumes "session_ok s" and "\<And>rid r. m rid = Some r \<longleftrightarrow> (\<exists>k < length (se_slots s). se_slots s ! k = Some r \<and> mr_id r = rid)"
  shows "session_map s = m"
proof
  fix rid
  have e: "session_map s rid = Some r \<longleftrightarrow> m rid = Some r" for r using session_map_iff [OF assms(1)] assms(2) by simp
  show "session_map s rid = m rid"
    using e [of "the (m rid)"] e [of "the (session_map s rid)"] by (cases "m rid"; cases "session_map s rid") simp_all
qed

text \<open>What a loop over the slots may do at the time \<open>now\<close>: empty a slot whose record has expired.\<close>

definition dropped :: "u64 \<Rightarrow> MemoryRecord option \<Rightarrow> MemoryRecord option \<Rightarrow> bool" where
  "dropped now x y \<longleftrightarrow> y = x \<or> y = None \<and> (\<exists>r. x = Some r \<and> expired now r)"

lemma dropped_simps [simp]: "dropped now x x" "expired now r \<Longrightarrow> dropped now (Some r) None"
  by (simp_all add: dropped_def)

lemma entry_ok_slots [simp]: "entry_ok (s\<lparr>se_slots := sl\<rparr>) k r = entry_ok s k r"
  by (simp add: entry_ok_def)

lemma dropped_session:
  assumes "session_ok s" and "list_all2 (dropped now) (se_slots s) sl"
  shows "session_ok (s\<lparr>se_slots := sl\<rparr>)" and "session_map (s\<lparr>se_slots := sl\<rparr>) \<subseteq>\<^sub>m session_map s"
    and "unexpired now (session_map (s\<lparr>se_slots := sl\<rparr>)) = unexpired now (session_map s)"
proof -
  let ?s = "s\<lparr>se_slots := sl\<rparr>"
  have len: "length sl = length (se_slots s)" and d: "\<And>k. k < length sl \<Longrightarrow> dropped now (se_slots s ! k) (sl ! k)"
    using assms(2) by (auto simp: list_all2_conv_all_nth)
  then have kept: "k < length sl \<Longrightarrow> sl ! k = Some r \<Longrightarrow> se_slots s ! k = Some r" for k r by (fastforce simp: dropped_def)
  show ok: "session_ok ?s" using assms(1) kept len by (simp add: session_ok_def)
  show sub: "session_map ?s \<subseteq>\<^sub>m session_map s"
  proof (unfold map_le_def, intro ballI)
    fix rid assume "rid \<in> dom (session_map ?s)"
    then obtain r where r: "session_map ?s rid = Some r" by blast
    then have "session_map s rid = Some r"
      using kept len by (auto simp: session_map_iff [OF ok] session_map_iff [OF assms(1)])
    with r show "session_map ?s rid = session_map s rid" by simp
  qed
  have keep: "session_map ?s rid = Some r" if r: "session_map s rid = Some r" "\<not> expired now r" for rid r
  proof -
    obtain k where k: "k < length (se_slots s)" "se_slots s ! k = Some r" "mr_id r = rid"
      using r(1) by (auto simp: session_map_iff [OF assms(1)])
    then have "sl ! k = Some r" using d [of k] r(2) len by (auto simp: dropped_def)
    with k len show ?thesis by (auto simp: session_map_iff [OF ok])
  qed
  have two: "session_map ?s rid = None \<or> session_map ?s rid = session_map s rid" for rid
    using sub by (auto simp: map_le_def dom_def)
  have "unexpired now (session_map ?s) rid = unexpired now (session_map s) rid" for rid
    using keep [of rid] two [of rid] by (cases "session_map s rid"; cases "session_map ?s rid") (auto simp: unexpired_def)
  then show "unexpired now (session_map ?s) = unexpired now (session_map s)" by (rule ext)
qed

lemma find_slot_ok:
  assumes "find_slot xs rid now = (ys, ko)"
  shows "list_all2 (dropped now) xs ys"
    and "ko = Some j \<Longrightarrow> \<exists>r. j < length xs \<and> xs ! j = Some r \<and> ys ! j = Some r \<and> mr_id r = rid \<and> \<not> expired now r"
    and "ko = None \<Longrightarrow> i < length xs \<Longrightarrow> xs ! i = Some r \<Longrightarrow> mr_id r = rid \<Longrightarrow> expired now r"
proof -
  have refl: "list_all2 (dropped t) xs xs" for t xs by (rule list.rel_refl) simp
  have "list_all2 (dropped now) xs ys \<and>
      (\<forall>j. ko = Some j \<longrightarrow> (\<exists>r. j < length xs \<and> xs ! j = Some r \<and> ys ! j = Some r \<and> mr_id r = rid \<and> \<not> expired now r)) \<and>
      (ko = None \<longrightarrow> (\<forall>i < length xs. \<forall>r. xs ! i = Some r \<longrightarrow> mr_id r = rid \<longrightarrow> expired now r))"
    using assms
  proof (induction xs rid now arbitrary: ys ko rule: find_slot.induct)
    case (2 x xs rid now)
    obtain zs k where f: "find_slot xs rid now = (zs, k)" by (cases "find_slot xs rid now")
    have "list_all2 (dropped now) xs zs \<and>
      (\<forall>j. k = Some j \<longrightarrow> (\<exists>r. j < length xs \<and> xs ! j = Some r \<and> zs ! j = Some r \<and> mr_id r = rid \<and> \<not> expired now r)) \<and>
      (k = None \<longrightarrow> (\<forall>i < length xs. \<forall>r. xs ! i = Some r \<longrightarrow> mr_id r = rid \<longrightarrow> expired now r))"
      by (rule "2.IH" [OF f])
    then show ?case using "2.prems"
      by (auto simp: f refl Let_def nth_Cons' less_Suc_eq_0_disj split: option.splits if_splits)
  qed simp
  then show "list_all2 (dropped now) xs ys"
    and "ko = Some j \<Longrightarrow> \<exists>r. j < length xs \<and> xs ! j = Some r \<and> ys ! j = Some r \<and> mr_id r = rid \<and> \<not> expired now r"
    and "ko = None \<Longrightarrow> i < length xs \<Longrightarrow> xs ! i = Some r \<Longrightarrow> mr_id r = rid \<Longrightarrow> expired now r" by blast+
qed

definition add_entry :: "Session \<Rightarrow> MemoryRecord \<Rightarrow> Session" where
  "add_entry s c = s\<lparr>se_next_id := se_next_id s + 1, se_slots := (se_slots s)[unat (se_head s) := Some c],
                      se_head := (se_head s + 1) mod se_capacity s\<rparr>"

lemma head_less: "session_ok s \<Longrightarrow> unat (se_head s) < length (se_slots s)"
  by (simp add: session_ok_def unat_gt_0)

lemma next_head:
  assumes "session_ok s"
  shows "unat ((se_head s + 1) mod se_capacity s) = unat (se_next_id s) mod unat (se_capacity s)"
proof -
  have h: "unat (se_head s) = (unat (se_next_id s) - 1) mod unat (se_capacity s)" and n: "1 \<le> unat (se_next_id s)"
    using assms by (auto simp: session_ok_def)
  have "unat (se_head s) < unat (se_capacity s)" using head_less [OF assms] assms by (simp add: session_ok_def)
  moreover have "unat (se_capacity s) < 2 ^ LENGTH(32)" by (rule unsigned_less)
  ultimately have "unat (se_head s) + 1 < 2 ^ 32" by simp
  then have "unat (se_head s + 1) = unat (se_head s) + 1" by (simp add: unat_word_ariths)
  then show ?thesis unfolding unat_mod_distrib h using n by (simp add: mod_Suc_eq)
qed

text \<open>The record that an insertion overwrites is one capacity older than the new one.\<close>

lemma head_oldest:
  assumes ok: "session_ok s" and t: "se_slots s ! unat (se_head s) = Some t"
  shows "mr_id t \<noteq> se_next_id s \<and> unat (mr_id t) + unat (se_capacity s) = unat (se_next_id s)"
proof -
  have e: "entry_ok s (unat (se_head s)) t" using ok head_less [OF ok] t by (simp add: session_ok_def)
  let ?d = "unat (se_next_id s) - unat (mr_id t)"
  have "(unat (mr_id t) - 1 + ?d) mod unat (se_capacity s) = (unat (mr_id t) - 1) mod unat (se_capacity s)"
    using e ok by (simp add: entry_ok_def session_ok_def)
  then have "?d mod unat (se_capacity s) = 0" by (metis add_diff_cancel_left' mod_eq_dvd_iff_nat le_add1 dvd_imp_mod_0)
  moreover have "0 < ?d" "?d \<le> unat (se_capacity s)" using e by (auto simp: entry_ok_def)
  ultimately have "?d = unat (se_capacity s)" by (metis dvd_imp_le le_antisym mod_0_imp_dvd)
  with \<open>0 < ?d\<close> show ?thesis by auto
qed

lemma add_entry_slot:
  assumes ok: "session_ok s" and n: "unat (se_next_id s) < 2 ^ 64 - 1"
    and c: "mr_id c = se_next_id s" "mr_expires_at c \<noteq> 0" "mr_type c = MEM_WORKING"
    and k: "k < length (se_slots s)" "(se_slots s)[unat (se_head s) := Some c] ! k = Some r"
  shows "entry_ok (add_entry s c) k r"
proof (cases "k = unat (se_head s)")
  case True
  then show ?thesis using k c n ok head_less [OF ok]
    by (auto simp: entry_ok_def add_entry_def session_ok_def unat_word_ariths unat_gt_0 Suc_le_eq)
next
  case False
  then have e: "entry_ok s k r" using k ok by (auto simp: session_ok_def)
  have "unat (se_next_id s) \<noteq> unat (mr_id r) + unat (se_capacity s)"
  proof
    assume "unat (se_next_id s) = unat (mr_id r) + unat (se_capacity s)"
    then have "unat (se_next_id s) - 1 = unat (mr_id r) - 1 + unat (se_capacity s)" using e by (simp add: entry_ok_def)
    then have "(unat (se_next_id s) - 1) mod unat (se_capacity s) = (unat (mr_id r) - 1) mod unat (se_capacity s)" by simp
    then show False using e False ok by (simp add: entry_ok_def session_ok_def)
  qed
  then show ?thesis using e n by (auto simp: entry_ok_def add_entry_def unat_word_ariths)
qed

lemma add_entry_ok:
  assumes ok: "session_ok s" and n: "unat (se_next_id s) < 2 ^ 64 - 1"
    and c: "mr_id c = se_next_id s" "mr_expires_at c \<noteq> 0" "mr_type c = MEM_WORKING"
  shows "session_ok (add_entry s c)"
    and "session_map (add_entry s c) =
      (\<lambda>i. if i = se_next_id s then Some c
           else if unat i + unat (se_capacity s) \<le> unat (se_next_id s) then None else session_map s i)"
proof -
  have n1: "unat (se_next_id s + 1) = unat (se_next_id s) + 1" using n by (simp add: unat_word_ariths)
  show ok': "session_ok (add_entry s c)"
    using ok next_head [OF ok] n1 add_entry_slot [OF ok n c] by (simp add: session_ok_def add_entry_def)
  show "session_map (add_entry s c) = (\<lambda>i. if i = se_next_id s then Some c
           else if unat i + unat (se_capacity s) \<le> unat (se_next_id s) then None else session_map s i)"
  proof (rule session_map_eqI [OF ok'])
    fix rid r
    let ?sl = "se_slots (add_entry s c)"
    have sl: "?sl = (se_slots s)[unat (se_head s) := Some c]" by (simp add: add_entry_def)
    have new: "entry_ok (add_entry s c) k t" if "k < length ?sl" "?sl ! k = Some t" for k t
      using ok' that by (simp add: session_ok_def)
    have hd: "mr_id t \<noteq> se_next_id s \<and> unat (mr_id t) + unat (se_capacity s) = unat (se_next_id s)"
      if "se_slots s ! unat (se_head s) = Some t" for t using head_oldest [OF ok that] .
    show "(if rid = se_next_id s then Some c else if unat rid + unat (se_capacity s) \<le> unat (se_next_id s) then None
        else session_map s rid) = Some r \<longleftrightarrow> (\<exists>k < length ?sl. ?sl ! k = Some r \<and> mr_id r = rid)" (is "?l \<longleftrightarrow> ?r")
    proof
      assume l: ?l
      show ?r
      proof (cases "rid = se_next_id s")
        case True
        then show ?thesis using l c head_less [OF ok] unfolding sl by (intro exI [of _ "unat (se_head s)"]) simp
      next
        case False
        then obtain k where "k < length (se_slots s)" "se_slots s ! k = Some r" "mr_id r = rid"
          using l by (auto simp: session_map_iff [OF ok] split: if_splits)
        moreover from this have "k \<noteq> unat (se_head s)" using hd [of r] l False by (auto split: if_splits)
        ultimately show ?thesis unfolding sl by (intro exI [of _ k]) simp
      qed
    next
      assume ?r
      then obtain k where k: "k < length ?sl" "?sl ! k = Some r" "mr_id r = rid" by blast
      show ?l
      proof (cases "k = unat (se_head s)")
        case True
        then show ?thesis using k c unfolding sl by simp
      next
        case False
        then have "session_map s rid = Some r" "entry_ok s k r"
          using k ok unfolding sl by (auto simp: session_map_iff [OF ok] session_ok_def)
        moreover have "entry_ok (add_entry s c) k r" using new k by blast
        ultimately show ?thesis using k(3) n1 by (auto simp: entry_ok_def add_entry_def)
      qed
    qed
  qed
qed

subsection \<open>The store\<close>

lemma find_session_ok:
  "store_ok ws \<Longrightarrow> find_session ws sid = Some s \<Longrightarrow> session_ok s \<and> se_capacity s = ws_capacity ws \<and> se_id s = sid"
  using table_find_in [of se_id SBUCKETS "ws_buckets ws" sid s] table_find_key [of se_id SBUCKETS "ws_buckets ws" sid s]
  by (auto simp: store_ok_def find_session_def)

lemma find_put_session:
  "find_session (put_session ws s) sid = (if sid = se_id s then map_option (\<lambda>_. s) (find_session ws sid) else find_session ws sid)"
  by (simp add: find_session_def put_session_def table_find_update)

lemma put_session_ok:
  assumes "store_ok ws" and "session_ok s" and "se_capacity s = ws_capacity ws"
  shows "store_ok (put_session ws s)"
proof -
  have "session_ok n \<and> se_capacity n = ws_capacity ws" if "n \<in> set (ws_buckets (put_session ws s) b)" for b n
  proof (rule table_all_update [where bk = "ws_buckets ws" and key = se_id and nb = SBUCKETS and s = "se_id s" and f = "\<lambda>_. s"])
    show "n \<in> set (table_update se_id SBUCKETS (ws_buckets ws) (se_id s) (\<lambda>_. s) b)" using that by (simp add: put_session_def)
    show "session_ok m \<and> se_capacity m = ws_capacity ws" if "m \<in> set (ws_buckets ws d)" for m d
      using assms(1) that by (auto simp: store_ok_def)
  qed (use assms in simp)
  moreover have "table_ok se_id SBUCKETS (table_update se_id SBUCKETS (ws_buckets ws) (se_id s) (\<lambda>_. s))"
    using assms(1) by (intro table_ok_update) (auto simp: store_ok_def)
  ultimately show ?thesis using assms(1) by (simp add: store_ok_def put_session_def)
qed

lemma entries_put_session:
  "find_session ws (se_id s) \<noteq> None \<Longrightarrow> entries (put_session ws s) = (entries ws)(se_id s := session_map s)"
  by (auto simp: entries_def find_put_session fun_eq_iff)

text \<open>A session that is created is empty.\<close>

lemma new_session_simps [simp]:
  "se_id (new_session ws sid) = sid" "se_capacity (new_session ws sid) = ws_capacity ws" "se_next_id (new_session ws sid) = 1"
  by (simp_all add: new_session_def)

lemma new_session_ok:
  assumes "store_ok ws"
  shows "session_ok (new_session ws sid)" and "session_map (new_session ws sid) = Map.empty"
proof -
  show ok: "session_ok (new_session ws sid)" using assms by (simp add: session_ok_def store_ok_def new_session_def)
  show "session_map (new_session ws sid) = Map.empty" by (rule session_map_eqI [OF ok]) (auto simp: new_session_def)
qed

lemma get_session_ok:
  assumes "store_ok ws" and "get_session mem ws sid True = (Some s, ws1)"
  shows "store_ok ws1" and "find_session ws1 sid = Some s" and "se_id s = sid" and "session_ok s"
    and "se_capacity s = ws_capacity ws" and "ws_capacity ws1 = ws_capacity ws" and "ws_default_ttl_ms ws1 = ws_default_ttl_ms ws"
    and "entries ws1 = entries ws" and "next_id_of ws1 = next_id_of ws" and "se_next_id s = next_id_of ws sid"
proof -
  have "store_ok ws1 \<and> find_session ws1 sid = Some s \<and> se_id s = sid \<and> session_ok s \<and> se_capacity s = ws_capacity ws \<and>
      ws_capacity ws1 = ws_capacity ws \<and> ws_default_ttl_ms ws1 = ws_default_ttl_ms ws \<and> entries ws1 = entries ws \<and>
      next_id_of ws1 = next_id_of ws \<and> se_next_id s = next_id_of ws sid"
  proof (cases "find_session ws sid")
    case (Some t)
    then show ?thesis using assms find_session_ok [OF assms(1) Some] by (auto simp: get_session_def next_id_of_def)
  next
    case None
    then have s: "s = new_session ws sid" and w: "ws1 = ws\<lparr>ws_buckets := table_push se_id SBUCKETS (ws_buckets ws) s\<rparr>"
      using assms(2) by (auto simp: get_session_def Let_def split: if_splits)
    have f: "find_session ws1 t = (if t = sid then Some s else find_session ws t)" for t
      by (simp add: find_session_def w table_find_push s)
    have "n \<in> set (ws_buckets ws1 b) \<Longrightarrow> n = s \<or> n \<in> set (ws_buckets ws b)" for n b
      by (auto simp: w table_push_def split: if_splits)
    moreover have "table_ok se_id SBUCKETS (ws_buckets ws1)"
      using assms(1) None table_ok_push [of se_id SBUCKETS "ws_buckets ws" s] by (simp add: w s store_ok_def find_session_def)
    ultimately have "store_ok ws1" using assms(1) new_session_ok(1) [OF assms(1), of sid] unfolding store_ok_def
      by (fastforce simp: w s)
    moreover have "entries ws1 = entries ws" using f None new_session_ok(2) [OF assms(1)] by (auto simp: entries_def s fun_eq_iff)
    moreover have "next_id_of ws1 = next_id_of ws" using f None by (auto simp: next_id_of_def s fun_eq_iff)
    ultimately show ?thesis using f new_session_ok(1) [OF assms(1)] None by (simp add: s w next_id_of_def)
  qed
  then show "store_ok ws1" and "find_session ws1 sid = Some s" and "se_id s = sid" and "session_ok s"
    and "se_capacity s = ws_capacity ws" and "ws_capacity ws1 = ws_capacity ws" and "ws_default_ttl_ms ws1 = ws_default_ttl_ms ws"
    and "entries ws1 = entries ws" and "next_id_of ws1 = next_id_of ws" and "se_next_id s = next_id_of ws sid" by simp_all
qed

lemma stamped_expiry:
  "unat (mr_expires_at (stamped r rid now ttl)) = min (2 ^ 64 - 1) (unat now + unat ttl)"
proof -
  have m: "unat UINT64_MAX = 2 ^ 64 - 1" by (simp add: UINT64_MAX_def unsigned_minus_1_eq_mask mask_eq_exp_minus_1)
  have n: "unat now < 2 ^ LENGTH(64)" by (rule unsigned_less)
  then have d: "unat (UINT64_MAX - now) = 2 ^ 64 - 1 - unat now"
    unfolding m [symmetric] by (subst unat_sub) (simp_all add: word_le_nat_alt m)
  show ?thesis
  proof (cases "UINT64_MAX - now < ttl")
    case True
    then show ?thesis using d n by (simp add: stamped_def word_less_nat_alt m min_def)
  next
    case False
    then have "unat now + unat ttl < 2 ^ 64" using d n by (simp add: word_less_nat_alt)
    then show ?thesis using False by (simp add: stamped_def unat_word_ariths min_def)
  qed
qed

lemma stamped_live: "ttl \<noteq> 0 \<Longrightarrow> mr_expires_at (stamped r rid now ttl) \<noteq> 0"
  using stamped_expiry [of r rid now ttl] by (auto simp: unat_eq_0 min_def split: if_splits)

lemma next_id_put_session:
  "find_session ws (se_id s) \<noteq> None \<Longrightarrow> next_id_of (put_session ws s) = (next_id_of ws)(se_id s := se_next_id s)"
  by (auto simp: next_id_of_def find_put_session fun_eq_iff)

text \<open>A store in which one session dropped expired records.\<close>

lemma put_dropped:
  assumes "store_ok ws" and "find_session ws sid = Some s" and "list_all2 (dropped now) (se_slots s) sl"
  shows "store_ok (put_session ws (s\<lparr>se_slots := sl\<rparr>))" and "entries (put_session ws (s\<lparr>se_slots := sl\<rparr>)) t \<subseteq>\<^sub>m entries ws t"
    and "unexpired now (entries (put_session ws (s\<lparr>se_slots := sl\<rparr>)) t) = unexpired now (entries ws t)"
proof -
  have s: "session_ok s" "se_capacity s = ws_capacity ws" "se_id s = sid" using find_session_ok [OF assms(1,2)] by simp_all
  note d = dropped_session [OF s(1) assms(3)]
  show "store_ok (put_session ws (s\<lparr>se_slots := sl\<rparr>))" using assms(1) d(1) s by (intro put_session_ok) simp_all
  have "entries (put_session ws (s\<lparr>se_slots := sl\<rparr>)) = (entries ws)(sid := session_map (s\<lparr>se_slots := sl\<rparr>))"
    using entries_put_session [of ws "s\<lparr>se_slots := sl\<rparr>"] assms(2) s by simp
  moreover have "entries ws sid = session_map s" using assms(2) by (simp add: entries_def)
  ultimately show "entries (put_session ws (s\<lparr>se_slots := sl\<rparr>)) t \<subseteq>\<^sub>m entries ws t"
    and "unexpired now (entries (put_session ws (s\<lparr>se_slots := sl\<rparr>)) t) = unexpired now (entries ws t)"
    using d(2,3) by simp_all
qed

text \<open>The slot that is found holds what the map of unexpired records has.\<close>

lemma find_slot_map:
  assumes "session_ok s" and "find_slot (se_slots s) rid now = (sl, ko)"
  shows "Option.bind ko (\<lambda>j. sl ! j) = unexpired now (session_map s) rid"
proof (cases ko)
  case None
  have "expired now r" if "session_map s rid = Some r" for r
    using find_slot_ok(3) [OF assms(2) None] that by (auto simp: session_map_iff [OF assms(1)])
  then show ?thesis using None by (auto simp: unexpired_def split: option.split)
next
  case (Some j)
  then obtain r where r: "j < length (se_slots s)" "se_slots s ! j = Some r" "sl ! j = Some r" "mr_id r = rid" "\<not> expired now r"
    using find_slot_ok(2) [OF assms(2) Some] by blast
  then have "session_map s rid = Some r" by (auto simp: session_map_iff [OF assms(1)])
  then show ?thesis using Some r by (simp add: unexpired_def)
qed

lemma clear_slot:
  assumes "session_ok s" and "j < length (se_slots s)" and "se_slots s ! j = Some r"
  shows "session_ok (s\<lparr>se_slots := (se_slots s)[j := None]\<rparr>)"
    and "session_map (s\<lparr>se_slots := (se_slots s)[j := None]\<rparr>) = (session_map s)(mr_id r := None)"
proof -
  let ?s = "s\<lparr>se_slots := (se_slots s)[j := None]\<rparr>"
  show ok: "session_ok ?s" using assms(1,2) by (auto simp: session_ok_def nth_list_update split: if_splits)
  have e: "k < length (se_slots s) \<Longrightarrow> se_slots s ! k = Some t \<Longrightarrow> entry_ok s k t" for k t using assms(1) by (simp add: session_ok_def)
  show "session_map ?s = (session_map s)(mr_id r := None)"
  proof (rule session_map_eqI [OF ok])
    fix rid t
    have "k = j" if "k < length (se_slots s)" "se_slots s ! k = Some t" "mr_id t = mr_id r" for k
      using e [OF that(1,2)] e [OF assms(2,3)] that(3) by (simp add: entry_ok_def)
    then show "((session_map s)(mr_id r := None)) rid = Some t \<longleftrightarrow>
        (\<exists>k < length (se_slots ?s). se_slots ?s ! k = Some t \<and> mr_id t = rid)"
      using assms(2,3) by (auto simp: session_map_iff [OF assms(1)] nth_list_update) (metis option.inject)
  qed
qed

lemma sweep_slots_snd: "snd (sweep_slots now xs) = map (\<lambda>x. Option.bind x (\<lambda>r. if expired now r then None else Some r)) xs"
  by (induction xs) (auto simp: expired_def split: prod.split option.split)

lemma sweep_slots_count: "fst (sweep_slots now (se_slots s)) + occupied (s\<lparr>se_slots := snd (sweep_slots now (se_slots s))\<rparr>) = occupied s"
proof -
  have "fst (sweep_slots now xs) + length (filter (\<lambda>x. x \<noteq> None) (snd (sweep_slots now xs))) = length (filter (\<lambda>x. x \<noteq> None) xs)" for xs
    by (induction xs) (auto split: prod.split option.split)
  then show ?thesis by (simp add: occupied_def)
qed

lemma sweep_session:
  assumes "session_ok s"
  shows "session_ok (s\<lparr>se_slots := snd (sweep_slots now (se_slots s))\<rparr>)"
    and "session_map (s\<lparr>se_slots := snd (sweep_slots now (se_slots s))\<rparr>) = unexpired now (session_map s)"
proof -
  let ?s = "s\<lparr>se_slots := snd (sweep_slots now (se_slots s))\<rparr>"
  have "list_all2 (dropped now) (se_slots s) (snd (sweep_slots now (se_slots s)))"
    by (auto simp: sweep_slots_snd list_all2_map2 dropped_def split: bind_split intro!: list.rel_refl_strong)
  note d = dropped_session [OF assms this]
  show "session_ok ?s" by (rule d(1))
  have "\<not> expired now r" if "session_map ?s rid = Some r" for rid r
    using iffD1 [OF session_map_iff [OF d(1)] that] by (auto simp: sweep_slots_snd bind_eq_Some_conv split: if_splits)
  then have "unexpired now (session_map ?s) rid = session_map ?s rid" for rid
    by (auto simp: unexpired_def split: option.split)
  with d(3) show "session_map ?s = unexpired now (session_map s)" by (metis ext)
qed

lemma find_session_sweep:
  "find_session (snd (working_store_sweep ws now)) sid =
     map_option (\<lambda>s. s\<lparr>se_slots := snd (sweep_slots now (se_slots s))\<rparr>) (find_session ws sid)"
proof -
  have "find (\<lambda>n. se_id n = sid) (map (\<lambda>s. s\<lparr>se_slots := snd (sweep_slots now (se_slots s))\<rparr>) ss) =
      map_option (\<lambda>s. s\<lparr>se_slots := snd (sweep_slots now (se_slots s))\<rparr>) (find (\<lambda>n. se_id n = sid) ss)" for ss
    by (induction ss) simp_all
  then show ?thesis by (simp add: find_session_def table_find_def working_store_sweep_def hash_bucket_def SBUCKETS_def)
qed

lemma store_ok_sweep:
  assumes "store_ok ws"
  shows "store_ok (snd (working_store_sweep ws now))"
proof -
  let ?ws = "snd (working_store_sweep ws now)"
  have "map se_id (ws_buckets ?ws b) = map se_id (ws_buckets ws b)" for b by (simp add: working_store_sweep_def comp_def)
  moreover have "\<exists>m \<in> set (ws_buckets ws b). se_id m = se_id n \<and> se_capacity n = se_capacity m \<and> (session_ok m \<longrightarrow> session_ok n)"
    if "n \<in> set (ws_buckets ?ws b)" for n b
    using that sweep_session(1) by (fastforce simp: working_store_sweep_def split: if_splits)
  ultimately show ?thesis using assms
    unfolding store_ok_def table_ok_def by (fastforce simp: working_store_sweep_def)
qed

lemma sweep_count: "fst (working_store_sweep ws now) + working_store_count (Some (snd (working_store_sweep ws now))) = working_store_count (Some ws)"
proof -
  have b: "(\<Sum>s\<leftarrow>ss. fst (sweep_slots now (se_slots s))) + (\<Sum>s\<leftarrow>map (\<lambda>s. s\<lparr>se_slots := snd (sweep_slots now (se_slots s))\<rparr>) ss. occupied s) =
      (\<Sum>s\<leftarrow>ss. occupied s)" for ss
  proof (induction ss)
    case (Cons s ss)
    then show ?case using sweep_slots_count [of now s] by simp
  qed simp
  have "(\<Sum>b\<leftarrow>bs. \<Sum>s\<leftarrow>ws_buckets ws b. fst (sweep_slots now (se_slots s))) +
      (\<Sum>b\<leftarrow>bs. \<Sum>s\<leftarrow>ws_buckets (snd (working_store_sweep ws now)) b. occupied s) = (\<Sum>b\<leftarrow>bs. \<Sum>s\<leftarrow>ws_buckets ws b. occupied s)"
    if "\<forall>b \<in> set bs. b < SBUCKETS" for bs
    using that
  proof (induction bs)
    case (Cons c bs)
    then show ?case using b [of "ws_buckets ws c"] by (simp add: working_store_sweep_def)
  qed simp
  from this [of "[0..<SBUCKETS]"] show ?thesis by (simp add: working_store_count_def) (simp add: working_store_sweep_def)
qed

lemma stamped_simps [simp]: "mr_id (stamped r rid now ttl) = rid" "mr_type (stamped r rid now ttl) = MEM_WORKING"
  by (simp_all add: stamped_def)

text \<open>The branch in which every allocation of an insertion succeeds.\<close>

lemma add_to_session:
  assumes ws: "store_ok ws" and n: "unat (next_id_of ws sid) < 2 ^ 64 - 1" and e: "mr_id e = next_id_of ws sid" "mr_expires_at e \<noteq> 0" "mr_type e = MEM_WORKING"
    and get: "get_session mem ws sid True = (Some s, ws1)"
  shows "store_ok (put_session ws1 (add_entry s e))"
    and "next_id_of (put_session ws1 (add_entry s e)) = (next_id_of ws)(sid := next_id_of ws sid + 1)"
    and "entries (put_session ws1 (add_entry s e)) = (entries ws)(sid := \<lambda>i. if i = next_id_of ws sid then Some e
           else if unat i + unat (ws_capacity ws) \<le> unat (next_id_of ws sid) then None else entries ws sid i)"
proof -
  note g = get_session_ok [OF ws get]
  have a: "session_ok (add_entry s e)" "session_map (add_entry s e) = (\<lambda>i. if i = se_next_id s then Some e
       else if unat i + unat (se_capacity s) \<le> unat (se_next_id s) then None else session_map s i)"
    using add_entry_ok [OF g(4), of e] n e g(10) by simp_all
  have sa: "se_id (add_entry s e) = sid" "se_capacity (add_entry s e) = ws_capacity ws1" "se_next_id (add_entry s e) = next_id_of ws sid + 1"
    using g by (simp_all add: add_entry_def)
  show "store_ok (put_session ws1 (add_entry s e))" by (rule put_session_ok [OF g(1) a(1) sa(2)])
  show "next_id_of (put_session ws1 (add_entry s e)) = (next_id_of ws)(sid := next_id_of ws sid + 1)"
    using next_id_put_session [of ws1 "add_entry s e"] sa g by simp
  have "session_map s = entries ws sid" using g(2,8) by (metis entries_def option.case(2))
  note a(2) [unfolded this g(5) g(10)]
  then show "entries (put_session ws1 (add_entry s e)) = (entries ws)(sid := \<lambda>i. if i = next_id_of ws sid then Some e
           else if unat i + unat (ws_capacity ws) \<le> unat (next_id_of ws sid) then None else entries ws sid i)"
    using entries_put_session [of ws1 "add_entry s e"] sa g(2,8) by simp
qed

lemma get_spec:
  assumes "store_ok ws"
  shows "case working_store_get cmem cmems ws sid rid now of (ro, ws') \<Rightarrow>
    ro = Option.bind (unexpired now (entries ws sid) rid) (record_clone cmem cmems) \<and> store_ok ws' \<and>
    (\<forall>t. entries ws' t \<subseteq>\<^sub>m entries ws t \<and> unexpired now (entries ws' t) = unexpired now (entries ws t))"
proof (cases "find_session ws sid")
  case None
  then show ?thesis using assms by (simp add: working_store_get_def entries_def unexpired_def)
next
  case (Some s)
  obtain sl k where f: "find_slot (se_slots s) rid now = (sl, k)" by (cases "find_slot (se_slots s) rid now")
  have s: "session_ok s" using find_session_ok [OF assms Some] by simp
  have "working_store_get cmem cmems ws sid rid now =
      (Option.bind (Option.bind k (\<lambda>j. sl ! j)) (record_clone cmem cmems), put_session ws (s\<lparr>se_slots := sl\<rparr>))"
    by (simp add: working_store_get_def Some f Let_def split: option.split)
  then show ?thesis
    using find_slot_map [OF s f] put_dropped [OF assms Some find_slot_ok(1) [OF f]] Some by (simp add: entries_def)
qed

lemma take_spec:
  assumes "store_ok ws"
  shows "case working_store_take ws sid rid now ns of (ro, ws') \<Rightarrow>
    ro = Option.bind (unexpired now (entries ws sid) rid) (\<lambda>r. if ns = None \<or> mr_agent_id r = ns then Some r else None) \<and>
    store_ok ws' \<and>
    (\<forall>t. entries ws' t \<subseteq>\<^sub>m entries ws t \<and>
         unexpired now (entries ws' t) = (if t = sid \<and> ro \<noteq> None then (unexpired now (entries ws t))(rid := None)
                                          else unexpired now (entries ws t)))"
proof (cases "find_session ws sid")
  case None
  then show ?thesis using assms by (simp add: working_store_take_def entries_def unexpired_def)
next
  case (Some s)
  obtain sl k where f: "find_slot (se_slots s) rid now = (sl, k)" by (cases "find_slot (se_slots s) rid now")
  have s: "session_ok s" "se_capacity s = ws_capacity ws" "se_id s = sid" using find_session_ok [OF assms Some] by simp_all
  have es: "entries ws sid = session_map s" using Some by (simp add: entries_def)
  note m = find_slot_map [OF s(1) f, folded es] and d = put_dropped [OF assms Some find_slot_ok(1) [OF f]]
  show ?thesis
  proof (cases k)
    case None
    then show ?thesis using m d by (simp add: working_store_take_def Some f Let_def flip: m)
  next
    case j: (Some j)
    then obtain r where r: "j < length (se_slots s)" "se_slots s ! j = Some r" "sl ! j = Some r" "mr_id r = rid" "\<not> expired now r"
      using find_slot_ok(2) [OF f j] by blast
    have u: "unexpired now (entries ws sid) rid = Some r" using m j r(3) by simp
    let ?s = "s\<lparr>se_slots := sl\<rparr>" and ?w = "put_session ws (s\<lparr>se_slots := sl[j := None]\<rparr>)"
    show ?thesis
    proof (cases "ns = None \<or> mr_agent_id r = ns")
      case False
      then have "working_store_take ws sid rid now ns = (None, put_session ws ?s)"
        using j r by (auto simp: working_store_take_def Some f Let_def)
      then show ?thesis using d u False by auto
    next
      case True
      then have t: "working_store_take ws sid rid now ns = (Some r, ?w)" using j r by (auto simp: working_store_take_def Some f Let_def)
      have l: "j < length sl" using r(1) list_all2_lengthD [OF find_slot_ok(1) [OF f]] by simp
      note ds = dropped_session [OF s(1) find_slot_ok(1) [OF f]]
      have c: "session_ok (s\<lparr>se_slots := sl[j := None]\<rparr>)" "session_map (s\<lparr>se_slots := sl[j := None]\<rparr>) = (session_map ?s)(rid := None)"
        using clear_slot [OF ds(1), of j r] l r by simp_all
      have "store_ok ?w" using assms c(1) s by (intro put_session_ok) simp_all
      moreover have e: "entries ?w = (entries ws)(sid := (session_map ?s)(rid := None))"
        using entries_put_session [of ws "s\<lparr>se_slots := sl[j := None]\<rparr>"] Some s c(2) by simp
      moreover have "(session_map ?s)(rid := None) \<subseteq>\<^sub>m entries ws sid" using ds(2) es by (auto simp: map_le_def)
      moreover have "unexpired now ((session_map ?s)(rid := None)) = (unexpired now (entries ws sid))(rid := None)"
        using ds(3) es by (auto simp: unexpired_def fun_eq_iff)
      ultimately show ?thesis using t u True by auto
    qed
  qed
qed

lemma sweep_spec:
  assumes "store_ok ws"
  shows "case working_store_sweep ws now of (n, ws') \<Rightarrow>
    store_ok ws' \<and> entries ws' = (\<lambda>t. unexpired now (entries ws t)) \<and>
    n + working_store_count (Some ws') = working_store_count (Some ws)"
proof -
  have "entries (snd (working_store_sweep ws now)) t = unexpired now (entries ws t)" for t
  proof (cases "find_session ws t")
    case None
    then show ?thesis by (simp add: entries_def find_session_sweep unexpired_def fun_eq_iff)
  next
    case (Some s)
    then show ?thesis using sweep_session(2) find_session_ok [OF assms Some] by (simp add: entries_def find_session_sweep)
  qed
  then show ?thesis using store_ok_sweep [OF assms] sweep_count [of ws now] by (auto simp: split_beta)
qed

section \<open>Properties\<close>

text \<open>
  C36. Adding to a session that has not used up its ids gives the record the next id of that session and a stamped clone,
  and evicts exactly the record one capacity older; every other record and session is untouched. The expiry time is
  the sum of time and time to live, cut at the largest 64-bit value. A failed allocation changes no record.
\<close>

theorem working_store_add_ring:
  assumes "store_ok ws" and "unat (next_id_of ws sid) < 2 ^ 64 - 1"
    and "working_store_add mem cmem cmems ws sid rec now ttl_ms = (rv, oid, ws')"
  shows "store_ok ws' \<and>
    (rv = 0 \<and> oid = Some (next_id_of ws sid) \<and> next_id_of ws' = (next_id_of ws)(sid := next_id_of ws sid + 1) \<and>
       (\<exists>c e. record_clone cmem cmems rec = Some c \<and>
          e = stamped c (next_id_of ws sid) now (if ttl_ms \<noteq> 0 then ttl_ms else ws_default_ttl_ms ws) \<and>
          unat (mr_expires_at e) = min (2 ^ 64 - 1) (unat now + unat (if ttl_ms \<noteq> 0 then ttl_ms else ws_default_ttl_ms ws)) \<and>
          entries ws' = (entries ws)(sid := \<lambda>i. if i = next_id_of ws sid then Some e
             else if unat i + unat (ws_capacity ws) \<le> unat (next_id_of ws sid) then None else entries ws sid i)) \<or>
     rv = -1 \<and> oid = None \<and> entries ws' = entries ws \<and> next_id_of ws' = next_id_of ws)"
proof (cases "get_session mem ws sid True")
  case (Pair so ws1)
  show ?thesis
  proof (cases so)
    case None
    then have "ws1 = ws" using Pair by (auto simp: get_session_def Let_def split: option.splits if_splits)
    then show ?thesis using None Pair assms by (auto simp: working_store_add_def)
  next
    case (Some s)
    note g = get_session_ok [OF assms(1) Pair [unfolded Some]]
    show ?thesis
    proof (cases "record_clone cmem cmems rec")
      case None
      then show ?thesis using Some Pair assms g by (auto simp: working_store_add_def)
    next
      case c: (Some c)
      let ?ttl = "if ttl_ms \<noteq> 0 then ttl_ms else ws_default_ttl_ms ws"
      let ?e = "stamped c (next_id_of ws sid) now ?ttl"
      have w: "rv = 0" "oid = Some (next_id_of ws sid)" "ws' = put_session ws1 (add_entry s ?e)"
        using assms(3) unfolding working_store_add_def Pair Some c add_entry_def Let_def prod.case option.case g(7) g(10) by auto
      have "?ttl \<noteq> 0" using assms(1) by (simp add: store_ok_def)
      from add_to_session [OF assms(1,2) stamped_simps(1) stamped_live [OF this] stamped_simps(2) Pair [unfolded Some]]
      show ?thesis unfolding w using c stamped_expiry by auto
    qed
  qed
qed

definition demo_store :: WorkingStore where
  "demo_store = \<lparr>ws_buckets = (\<lambda>_. []), ws_capacity = 2, ws_default_ttl_ms = 10\<rparr>"

lemma demo_store_ok: "store_ok demo_store"
  by (simp add: store_ok_def demo_store_def)

lemma demo_store_next: "next_id_of demo_store sid = 1"
  by (simp add: next_id_of_def find_session_def demo_store_def)

theorem working_store_add_ring_witness:
  "\<exists>rv oid ws'. working_store_add mem_ok mem_ok (\<lambda>_. mem_ok) demo_store (lit ''s'') record_init 5 0 = (rv, oid, ws') \<and>
     rv = 0 \<and> store_ok ws' \<and> oid = Some 1 \<and> (\<exists>e. entries ws' (lit ''s'') 1 = Some e \<and> unat (mr_expires_at e) = 15)"
proof -
  obtain rv oid ws' where r: "working_store_add mem_ok mem_ok (\<lambda>_. mem_ok) demo_store (lit ''s'') record_init 5 0 = (rv, oid, ws')"
    by (cases "working_store_add mem_ok mem_ok (\<lambda>_. mem_ok) demo_store (lit ''s'') record_init 5 0") auto
  have n: "unat (next_id_of demo_store (lit ''s'')) < 2 ^ 64 - 1" by (simp add: demo_store_next)
  have rv: "rv = 0" using r
    by (auto simp: working_store_add_def get_session_def find_session_def demo_store_def record_clone_def record_init_def no_fact_def
        clone_scalars_def clone_embedding_def Let_def split: option.splits)
  note p = working_store_add_ring [OF demo_store_ok n r]
  from rv p have "store_ok ws'" "oid = Some 1" by (auto simp: demo_store_next)
  moreover from rv p obtain e where "unat (mr_expires_at e) = min (2 ^ 64 - 1) (unat (5 :: u64) + unat (10 :: u64))" "entries ws' (lit ''s'') 1 = Some e"
    unfolding demo_store_next by (auto simp: demo_store_def)
  ultimately show ?thesis using rv r by auto
qed

text \<open>
  C37. Readers, takers and the sweep see the unexpired records. A get returns a clone of the unexpired record with the id,
  take moves it out exactly when the caller's namespace, if any, is the record's agent, and both leave what is
  unexpired elsewhere as it was. A sweep leaves exactly the unexpired records and counts the ones it removed.
\<close>

theorem working_store_expiry:
  assumes "store_ok ws"
  shows "(case working_store_get cmem cmems ws sid rid now of (ro, ws') \<Rightarrow>
            ro = Option.bind (unexpired now (entries ws sid) rid) (record_clone cmem cmems) \<and> store_ok ws' \<and>
            (\<forall>t. entries ws' t \<subseteq>\<^sub>m entries ws t \<and> unexpired now (entries ws' t) = unexpired now (entries ws t))) \<and>
         (case working_store_take ws sid rid now ns of (ro, ws') \<Rightarrow>
            ro = Option.bind (unexpired now (entries ws sid) rid) (\<lambda>r. if ns = None \<or> mr_agent_id r = ns then Some r else None) \<and>
            store_ok ws' \<and>
            (\<forall>t. entries ws' t \<subseteq>\<^sub>m entries ws t \<and>
                 unexpired now (entries ws' t) = (if t = sid \<and> ro \<noteq> None then (unexpired now (entries ws t))(rid := None)
                                                  else unexpired now (entries ws t)))) \<and>
         (case working_store_sweep ws now of (n, ws') \<Rightarrow>
            store_ok ws' \<and> entries ws' = (\<lambda>t. unexpired now (entries ws t)) \<and>
            n + working_store_count (Some ws') = working_store_count (Some ws))"
  by (intro conjI get_spec take_spec sweep_spec assms)

lemma demo_filled: "\<exists>ws e. store_ok ws \<and> entries ws = (\<lambda>_. Map.empty)(lit ''s'' := [1 \<mapsto> e]) \<and> mr_expires_at e = 15"
proof -
  let ?e = "stamped record_init 1 5 10"
  have "mr_expires_at ?e = 15" using stamped_expiry [of record_init 1 5 10] by (simp add: word_unat_eq_iff)
  moreover have "get_session mem_ok demo_store (lit ''s'') True = (Some (new_session demo_store (lit ''s'')),
      demo_store\<lparr>ws_buckets := table_push se_id SBUCKETS (ws_buckets demo_store) (new_session demo_store (lit ''s''))\<rparr>)"
    by (simp add: get_session_def find_session_def demo_store_def Let_def)
  moreover have "entries demo_store = (\<lambda>_. Map.empty)" by (simp add: entries_def find_session_def demo_store_def fun_eq_iff)
  ultimately show ?thesis
    using add_to_session [OF demo_store_ok, of "lit ''s''" ?e mem_ok] by (auto simp: demo_store_next fun_eq_iff intro!: exI)
qed

theorem working_store_expiry_witness:
  "\<exists>ws e. entries ws (lit ''s'') 1 = Some e \<and> fst (working_store_take ws (lit ''s'') 1 14 None) = Some e \<and>
     fst (working_store_take ws (lit ''s'') 1 15 None) = None \<and> entries (snd (working_store_sweep ws 15)) (lit ''s'') 1 = None"
proof -
  obtain ws e where w: "store_ok ws" "entries ws = (\<lambda>_. Map.empty)(lit ''s'' := [1 \<mapsto> e])" "mr_expires_at e = 15"
    using demo_filled by blast
  from working_store_expiry [where cmem = mem_ok and cmems = "\<lambda>_. mem_ok" and sid = "lit ''s''" and rid = 1 and now = 14 and ns = None, OF w(1)] w(2,3)
  have "fst (working_store_take ws (lit ''s'') 1 14 None) = Some e" by (auto simp: unexpired_def expired_def split_beta)
  moreover from working_store_expiry [where cmem = mem_ok and cmems = "\<lambda>_. mem_ok" and sid = "lit ''s''" and rid = 1 and now = 15 and ns = None, OF w(1)] w(2,3)
  have "fst (working_store_take ws (lit ''s'') 1 15 None) = None" "entries (snd (working_store_sweep ws 15)) (lit ''s'') 1 = None"
    by (auto simp: unexpired_def expired_def split_beta)
  moreover have "entries ws (lit ''s'') 1 = Some e" by (simp add: w(2))
  ultimately show ?thesis by blast
qed

end
