(* ===== verification/Ordered_Lists.thy ===== *)
theory Ordered_Lists
  imports Memory_Record
begin

text \<open>
  Two ways of collecting a stream of elements that several components share: the different elements by their first
  occurrence, and the least few of them in ascending order.
\<close>

section \<open>First occurrences\<close>

definition firsts :: "'x list \<Rightarrow> 'x list" where
  "firsts xs = rev (remdups (rev xs))"

lemma firsts_Nil [simp]: "firsts [] = []"
  by (simp add: firsts_def)

lemma firsts_snoc: "firsts (xs @ [x]) = (if x \<in> set xs then firsts xs else firsts xs @ [x])"
  by (simp add: firsts_def)

lemma set_firsts [simp]: "set (firsts xs) = set xs"
  and distinct_firsts [simp]: "distinct (firsts xs)"
  and length_firsts: "length (firsts xs) = card (set xs)"
  by (simp_all add: firsts_def length_remdups_card_conv)

section \<open>The least few\<close>

text \<open>Insertion into an ascending list of at most \<open>n\<close> elements with different keys.\<close>

definition cap_insert :: "nat \<Rightarrow> ('e \<Rightarrow> 'k::linorder) \<Rightarrow> 'e \<Rightarrow> 'e list \<Rightarrow> 'e list" where
  "cap_insert n f x xs = (if f x \<in> f ` set xs then xs else take n (insort_key f x xs))"

lemma insort_key_strict:
  assumes "sorted (map f L)" and "distinct (map f L)" and "f x \<notin> f ` set L"
  shows "sorted (map f (insort_key f x L))" and "distinct (map f (insort_key f x L))"
proof -
  show "sorted (map f (insort_key f x L))" using assms(1) by (simp add: sorted_insort_key)
  have "mset (map f (insort_key f x L)) = mset (map f (x # L))" by simp
  from mset_eq_imp_distinct_iff [OF this] show "distinct (map f (insort_key f x L))" using assms(2,3) by simp
qed

lemma cap_insert_sorted:
  "sorted (map f xs) \<Longrightarrow> distinct (map f xs) \<Longrightarrow> sorted (map f (cap_insert n f x xs)) \<and> distinct (map f (cap_insert n f x xs))"
  using insort_key_strict [of f xs x] by (auto simp: cap_insert_def take_map [symmetric] sorted_wrt_take)

lemma cap_inserts:
  assumes "inj_on f (set xs)"
  shows "\<exists>L. sorted (map f L) \<and> distinct (map f L) \<and> set L = set xs \<and> fold (cap_insert n f) xs [] = take n L"
  using assms
proof (induction xs rule: rev_induct)
  case Nil
  then show ?case by (intro exI [of _ "[]"]) simp
next
  case (snoc x xs)
  then obtain L where L: "sorted (map f L)" "distinct (map f L)" "set L = set xs" "fold (cap_insert n f) xs [] = take n L"
    by (auto simp: inj_on_Un)
  have st: "fold (cap_insert n f) (xs @ [x]) [] = cap_insert n f x (take n L)" by (simp add: L(4))
  have inj: "y = x" if "y \<in> set L" "f y = f x" for y using snoc.prems that L(3) by (auto simp: inj_on_def)
  show ?case
  proof (cases "x \<in> set L")
    case False
    then have new: "f x \<notin> f ` set L" using inj by force
    then have "f x \<notin> f ` set (take n L)" using set_take_subset [of n L] by auto
    then have "cap_insert n f x (take n L) = take n (insort_key f x L)" by (simp add: cap_insert_def take_insort)
    then show ?thesis unfolding st using L(3) insort_key_strict [OF L(1,2) new]
      by (intro exI [of _ "insort_key f x L"]) (simp add: set_insort_key)
  next
    case True
    have "cap_insert n f x (take n L) = take n L"
      using insort_beyond [OF L(1) imageI [OF True], of n] by (simp add: cap_insert_def take_insort)
    then show ?thesis unfolding st using L True by (intro exI [of _ L]) auto
  qed
qed

text \<open>So what is kept depends on the set of the elements alone.\<close>

lemma cap_inserts_set:
  assumes "inj_on f (set xs)" and "set xs = set ys"
  shows "fold (cap_insert n f) xs [] = fold (cap_insert n f) ys []"
proof -
  obtain L where L: "sorted (map f L)" "distinct (map f L)" "set L = set xs" "fold (cap_insert n f) xs [] = take n L"
    using cap_inserts [OF assms(1)] by blast
  obtain M where M: "sorted (map f M)" "distinct (map f M)" "set M = set xs" "fold (cap_insert n f) ys [] = take n M"
    using cap_inserts [of f ys n] assms by auto
  have "map f L = map f M" using sorted_distinct_set_unique [OF L(1,2) M(1,2)] L(3) M(3) by simp
  then have "L = M" using L(3) M(3) assms(1) by (metis inj_on_map_eq_map sup.idem)
  with L(4) M(4) show ?thesis by simp
qed

lemma cap_inserts_subset: "set (fold (cap_insert n f) xs ys) \<subseteq> set xs \<union> set ys"
proof (induction xs arbitrary: ys)
  case (Cons x xs)
  have "set (cap_insert n f x ys) \<subseteq> insert x (set ys)"
    unfolding cap_insert_def using set_take_subset [of n "insort_key f x ys"] by (auto simp: set_insort_key)
  then show ?case using Cons [of "cap_insert n f x ys"] by auto
qed simp

lemma cap_inserts_keep:
  assumes "0 < n"
  shows "xs \<noteq> [] \<Longrightarrow> fold (cap_insert n f) xs ys \<noteq> []"
proof (induction xs arbitrary: ys)
  case (Cons x xs)
  have "cap_insert n f x ys \<noteq> []" using assms by (cases ys) (auto simp: cap_insert_def)
  then show ?case
  proof (induction xs arbitrary: x ys)
    case (Cons z zs)
    have "cap_insert n f z (cap_insert n f x ys) \<noteq> []" using assms Cons.prems by (auto simp: cap_insert_def)
    from Cons.IH [OF this] show ?case by simp
  qed simp
qed simp

lemma length_cap_insert: "length xs \<le> n \<Longrightarrow> length (cap_insert n f x xs) \<le> n"
  by (simp add: cap_insert_def)

end
