(* ===== verification/Conflict_Set.thy ===== *)
theory Conflict_Set
  imports Ordered_Lists
begin

text \<open>
  The contradictions of one inference pass, \<^verbatim>\<open>src/src/query/conflict_set.c\<close>: a bounded list of record pairs, each
  pair once. Shown: a pass keeps the first pairs in the order of their first report, says truncated exactly
  when there were more, and a listing is the requested part of what was kept.
\<close>

section \<open>State\<close>

definition CONFLICT_PREDICATE_MAX :: nat where
  "CONFLICT_PREDICATE_MAX = 64"

definition CONFLICT_NS_MAX :: nat where
  "CONFLICT_NS_MAX = 128"

definition CONFLICT_REASON_MAX :: nat where
  "CONFLICT_REASON_MAX = 15"

definition CONFLICT_SET_MAX :: nat where
  "CONFLICT_SET_MAX = 1024"

record ConflictPair =
  cp_a :: u64
  cp_b :: u64
  cp_ns :: cstr
  cp_predicate_a :: cstr
  cp_predicate_b :: cstr
  cp_reason :: cstr

text \<open>\<open>cs_items\<close> has the first \<^verbatim>\<open>count\<close> elements of the array.\<close>

record ConflictSet =
  cs_items :: "ConflictPair list"
  cs_cap :: nat
  cs_truncated :: bool

section \<open>Operations\<close>

definition conflict_set_create :: "alloc \<Rightarrow> ConflictSet option" where
  "conflict_set_create mem =
     (if \<not> mem 0 then None
      else if \<not> mem 1 then None
      else Some \<lparr>cs_items = [], cs_cap = CONFLICT_SET_MAX, cs_truncated = False\<rparr>)"

definition conflict_set_clear :: "ConflictSet option \<Rightarrow> ConflictSet option" where
  "conflict_set_clear co = map_option (\<lambda>cs. cs\<lparr>cs_items := [], cs_truncated := False\<rparr>) co"

text \<open>The string in a field of \<open>dstsz\<close> bytes.\<close>

definition copy_bounded :: "nat \<Rightarrow> cstr option \<Rightarrow> cstr" where
  "copy_bounded dstsz src =
     (case src of None \<Rightarrow> [] | Some s \<Rightarrow> take (if dstsz \<le> length s then dstsz - 1 else length s) s)"

definition conflict_set_add ::
  "ConflictSet option \<Rightarrow> u64 \<Rightarrow> u64 \<Rightarrow> cstr option \<Rightarrow> cstr option \<Rightarrow> cstr option \<Rightarrow> cstr option \<Rightarrow> int \<times> ConflictSet option" where
  "conflict_set_add co a b ns predicate_a predicate_b reason =
     (case co of
        None \<Rightarrow> (-1, co)
      | Some cs \<Rightarrow>
          if a = 0 \<or> b = 0 \<or> a = b then (-1, co)
          else let (a, b, pa, pb) = (if b < a then (b, a, predicate_b, predicate_a) else (a, b, predicate_a, predicate_b))
               in if list_ex (\<lambda>p. cp_a p = a \<and> cp_b p = b) (cs_items cs) then (1, co)
                  else if cs_cap cs \<le> length (cs_items cs) then (-1, Some (cs\<lparr>cs_truncated := True\<rparr>))
                  else (0, Some (cs\<lparr>cs_items := cs_items cs @
                         [\<lparr>cp_a = a, cp_b = b, cp_ns = copy_bounded (CONFLICT_NS_MAX + 1) ns,
                           cp_predicate_a = copy_bounded (CONFLICT_PREDICATE_MAX + 1) pa,
                           cp_predicate_b = copy_bounded (CONFLICT_PREDICATE_MAX + 1) pb,
                           cp_reason = copy_bounded (CONFLICT_REASON_MAX + 1) reason\<rparr>]\<rparr>)))"

definition conflict_set_count :: "ConflictSet option \<Rightarrow> nat" where
  "conflict_set_count co = (case co of None \<Rightarrow> 0 | Some cs \<Rightarrow> length (cs_items cs))"

definition conflict_set_truncated :: "ConflictSet option \<Rightarrow> bool" where
  "conflict_set_truncated co = (case co of None \<Rightarrow> False | Some cs \<Rightarrow> cs_truncated cs)"

text \<open>The loop: pairs that matched and those written to \<open>out\<close>.\<close>

fun conflict_list_loop :: "cstr option \<Rightarrow> nat \<Rightarrow> ConflictPair list \<Rightarrow> nat \<Rightarrow> ConflictPair list \<Rightarrow> nat \<times> ConflictPair list" where
  "conflict_list_loop ns mx [] matched out = (matched, out)"
| "conflict_list_loop ns mx (p # ps) matched out =
     (if (case ns of None \<Rightarrow> False | Some s \<Rightarrow> s \<noteq> [] \<and> cp_ns p \<noteq> s) then conflict_list_loop ns mx ps matched out
      else conflict_list_loop ns mx ps (matched + 1) (if length out < mx then out @ [p] else out))"

text \<open>\<open>has_out\<close> says that \<open>out\<close> is not null. The result is the total and the pairs written.\<close>

definition conflict_set_list :: "ConflictSet option \<Rightarrow> cstr option \<Rightarrow> bool \<Rightarrow> nat \<Rightarrow> nat \<times> ConflictPair list" where
  "conflict_set_list co ns has_out mx =
     (case co of
        None \<Rightarrow> (0, [])
      | Some cs \<Rightarrow> if 0 < mx \<and> \<not> has_out then (0, []) else conflict_list_loop ns mx (cs_items cs) 0 [])"

section \<open>A pass\<close>

type_synonym conflict_report = "u64 \<times> u64 \<times> cstr option \<times> cstr option \<times> cstr option \<times> cstr option"

text \<open>What the scans of the inference pass do with each contradiction they reach: they count it unless the set had it already.\<close>

fun report_conflict :: "conflict_report \<Rightarrow> nat \<times> ConflictSet option \<Rightarrow> nat \<times> ConflictSet option" where
  "report_conflict (a, b, ns, pa, pb, reason) (found, co) =
     (let (rv, co1) = conflict_set_add co a b ns pa pb reason in (if rv \<noteq> 1 then found + 1 else found, co1))"

definition conflict_pass :: "conflict_report list \<Rightarrow> nat \<times> ConflictSet option" where
  "conflict_pass rs = fold report_conflict rs (0, conflict_set_create mem_ok)"

text \<open>The identity of a contradiction, and the different ones of a list by their first report.\<close>

fun pair_of :: "conflict_report \<Rightarrow> u64 \<times> u64" where
  "pair_of (a, b, _) = (min a b, max a b)"

fun proper_report :: "conflict_report \<Rightarrow> bool" where
  "proper_report (a, b, _) \<longleftrightarrow> a \<noteq> 0 \<and> b \<noteq> 0 \<and> a \<noteq> b"

definition kept :: "ConflictSet \<Rightarrow> (u64 \<times> u64) list" where
  "kept cs = map (\<lambda>p. (cp_a p, cp_b p)) (cs_items cs)"

text \<open>One report to a set that has the pairs \<open>kept cs\<close>.\<close>

lemma report_cases:
  assumes "proper_report r" and "report_conflict r (found, Some cs) = (found', co)"
  obtains (old) "pair_of r \<in> set (kept cs)" "found' = found" "co = Some cs"
  | (full) "pair_of r \<notin> set (kept cs)" "cs_cap cs \<le> length (kept cs)" "found' = found + 1" "co = Some (cs\<lparr>cs_truncated := True\<rparr>)"
  | (new) cs' where "pair_of r \<notin> set (kept cs)" "length (kept cs) < cs_cap cs" "found' = found + 1" "co = Some cs'"
      "kept cs' = kept cs @ [pair_of r]" "cs_cap cs' = cs_cap cs" "cs_truncated cs' = cs_truncated cs"
proof -
  obtain a b ns pa pb reason where r: "r = (a, b, ns, pa, pb, reason)" by (cases r)
  have ex: "list_ex (\<lambda>p. cp_a p = x \<and> cp_b p = y) (cs_items cs) \<longleftrightarrow> (x, y) \<in> set (kept cs)" for x y
    by (auto simp: kept_def list_ex_iff)
  have p: "pair_of r = (if b < a then (b, a) else (a, b))" by (auto simp: r min_def max_def)
  show thesis
    using assms that unfolding r report_conflict.simps proper_report.simps p [unfolded r]
    by (auto simp: conflict_set_add_def ex Let_def kept_def split: if_splits)
qed

lemma conflict_pass_invariant:
  assumes "list_all proper_report rs"
  shows "\<exists>found cs. conflict_pass rs = (found, Some cs) \<and> cs_cap cs = CONFLICT_SET_MAX \<and>
    kept cs = take CONFLICT_SET_MAX (firsts (map pair_of rs)) \<and>
    cs_truncated cs = (CONFLICT_SET_MAX < length (firsts (map pair_of rs))) \<and>
    found = length (kept cs) + length (filter (\<lambda>r. pair_of r \<notin> set (kept cs)) rs)"
  using assms
proof (induction rs rule: rev_induct)
  case Nil
  then show ?case by (simp add: conflict_pass_def conflict_set_create_def kept_def firsts_def)
next
  case (snoc r rs)
  then obtain found cs where I: "conflict_pass rs = (found, Some cs)" "cs_cap cs = CONFLICT_SET_MAX"
    "kept cs = take CONFLICT_SET_MAX (firsts (map pair_of rs))"
    "cs_truncated cs = (CONFLICT_SET_MAX < length (firsts (map pair_of rs)))"
    "found = length (kept cs) + length (filter (\<lambda>r. pair_of r \<notin> set (kept cs)) rs)" by auto
  have step: "conflict_pass (rs @ [r]) = report_conflict r (found, Some cs)" using I(1) by (simp add: conflict_pass_def)
  obtain f' co where e: "report_conflict r (found, Some cs) = (f', co)" by (cases "report_conflict r (found, Some cs)")
  let ?u = "firsts (map pair_of rs)"
  have u: "firsts (map pair_of (rs @ [r])) = (if pair_of r \<in> set ?u then ?u else ?u @ [pair_of r])" by (simp add: firsts_snoc)
  from snoc.prems have "proper_report r" by simp
  from this e show ?case
  proof (cases rule: report_cases)
    case old
    then have "pair_of r \<in> set ?u" using I(3) in_set_takeD by metis
    with old I step e u show ?thesis by simp
  next
    case full
    have len: "CONFLICT_SET_MAX \<le> length ?u" using full(2) I(2,3) by simp
    have "CONFLICT_SET_MAX < length (firsts (map pair_of (rs @ [r])))"
    proof (cases "pair_of r \<in> set ?u")
      case True
      then have "CONFLICT_SET_MAX \<noteq> length ?u" using full(1) I(3) by (metis order_refl take_all)
      with len u True show ?thesis by simp
    qed (use len u in simp)
    moreover have "take CONFLICT_SET_MAX (firsts (map pair_of (rs @ [r]))) = take CONFLICT_SET_MAX ?u" using len u by simp
    ultimately show ?thesis using full I step e by (simp add: kept_def)
  next
    case (new cs')
    have len: "length ?u < CONFLICT_SET_MAX" using new(2) I(2,3) by simp
    then have k: "kept cs = ?u" using I(3) by simp
    then have "firsts (map pair_of (rs @ [r])) = ?u @ [pair_of r]" using u new(1) by simp
    moreover have "filter (\<lambda>x. pair_of x \<notin> set (kept cs')) (rs @ [r]) = []" "filter (\<lambda>x. pair_of x \<notin> set (kept cs)) rs = []"
      using new(5) k by (auto simp: filter_empty_conv)
    ultimately show ?thesis using new I(2,4,5) step e len k by simp
  qed
qed

lemma conflict_list_loop_eq:
  "conflict_list_loop ns mx ps matched out =
     (let sel = filter (\<lambda>p. case ns of None \<Rightarrow> True | Some s \<Rightarrow> s = [] \<or> cp_ns p = s) ps
      in (matched + length sel, out @ take (mx - length out) sel))"
proof (induction ps arbitrary: matched out)
  case (Cons p ps)
  have "take (mx - length out) (p # xs) = (if length out < mx then p # take (mx - Suc (length out)) xs else [])" for xs
    by (auto simp: take_Cons' Suc_diff_Suc)
  then show ?case using Cons by (auto simp: Let_def split: option.split)
qed simp

section \<open>Property\<close>

text \<open>
  C40. A pass keeps the different contradictions in the order of their first report up to the capacity, is marked truncated
  exactly when there were more, and counts them exactly as long as there were not. Past the capacity every report
  of a pair that was not kept counts again. A listing has the first pairs of the namespace and their number.
\<close>

theorem conflict_pass_exact:
  assumes "list_all proper_report rs"
  shows "\<exists>found cs. conflict_pass rs = (found, Some cs) \<and>
    kept cs = take CONFLICT_SET_MAX (firsts (map pair_of rs)) \<and>
    conflict_set_truncated (Some cs) = (CONFLICT_SET_MAX < card (set (map pair_of rs))) \<and>
    found = conflict_set_count (Some cs) + length (filter (\<lambda>r. pair_of r \<notin> set (kept cs)) rs) \<and>
    (card (set (map pair_of rs)) \<le> CONFLICT_SET_MAX \<longrightarrow> found = card (set (map pair_of rs))) \<and>
    (\<forall>ns mx. conflict_set_list (Some cs) ns True mx =
       (let sel = filter (\<lambda>p. case ns of None \<Rightarrow> True | Some s \<Rightarrow> s = [] \<or> cp_ns p = s) (cs_items cs) in (length sel, take mx sel)))"
proof -
  obtain found cs where I: "conflict_pass rs = (found, Some cs)" "kept cs = take CONFLICT_SET_MAX (firsts (map pair_of rs))"
    "cs_truncated cs = (CONFLICT_SET_MAX < length (firsts (map pair_of rs)))"
    "found = length (kept cs) + length (filter (\<lambda>r. pair_of r \<notin> set (kept cs)) rs)"
    using conflict_pass_invariant [OF assms] by blast
  have "found = card (set (map pair_of rs))" if "card (set (map pair_of rs)) \<le> CONFLICT_SET_MAX"
  proof -
    have "kept cs = firsts (map pair_of rs)" using I(2) that length_firsts [of "map pair_of rs"] by simp
    then show ?thesis using I(4) length_firsts [of "map pair_of rs"] by (simp add: filter_empty_conv)
  qed
  moreover have "conflict_set_count (Some cs) = length (kept cs)" by (simp add: conflict_set_count_def kept_def)
  moreover have "conflict_set_list (Some cs) ns True mx =
      (let sel = filter (\<lambda>p. case ns of None \<Rightarrow> True | Some s \<Rightarrow> s = [] \<or> cp_ns p = s) (cs_items cs) in (length sel, take mx sel))" for ns mx
    by (simp add: conflict_set_list_def conflict_list_loop_eq Let_def)
  ultimately show ?thesis using I unfolding length_firsts conflict_set_truncated_def by auto
qed

theorem conflict_pass_exact_witness:
  "\<exists>found cs. conflict_pass [(5, 3, None, None, None, None), (3, 5, None, None, None, None), (2, 9, None, None, None, None)] =
     (found, Some cs) \<and> found = 2 \<and> kept cs = [(3, 5), (2, 9)]"
proof -
  let ?rs = "[(5, 3, None, None, None, None), (3, 5, None, None, None, None), (2, 9, None, None, None, None)] :: conflict_report list"
  have c: "card (set (map pair_of ?rs)) = 2" "firsts (map pair_of ?rs) = [(3, 5), (2, 9)]" by (simp_all add: firsts_def)
  have "list_all proper_report ?rs" by simp
  from conflict_pass_exact [OF this] show ?thesis unfolding c by (auto simp: CONFLICT_SET_MAX_def)
qed

end
