(* ===== verification/Infer_Tables.thy ===== *)
theory Infer_Tables
  imports Counted_Table Memory_Record
begin

text \<open>
  The two tables of an inference pass, the first half of \<^verbatim>\<open>src/src/query/inference.c\<close>: the set of known triples and the
  facts by subject and predicate. Both are open addressing tables without deletion. \<open>mem\<close> gives the outcome of the
  allocations of a pass in order, and a counter is threaded through the calls; an outer \<open>None\<close> is a loop that would
  not end. Shown: with memory every operation returns, and they implement finite maps.
\<close>

section \<open>The triple set\<close>

definition str_hash64 :: "cstr option \<Rightarrow> u64" where
  "str_hash64 s = (let h = fnv1a (case s of None \<Rightarrow> [] | Some t \<Rightarrow> t) in if h \<noteq> 0 then h else 1)"

text \<open>\<open>sn_out_idx\<close> is \<open>None\<close> for \<^verbatim>\<open>SEEN_INPUT\<close>.\<close>

record SeenSlot =
  sn_subject :: u64
  sn_predicate :: cstr
  sn_okind :: FactKind
  sn_oid :: u64
  sn_ostr :: "cstr option"
  sn_out_idx :: "nat option"
  sn_used :: bool

record Seen =
  sn_slots :: "SeenSlot list"
  sn_n :: nat

definition triple_hash :: "u64 \<Rightarrow> cstr \<Rightarrow> FactKind \<Rightarrow> u64 \<Rightarrow> cstr option \<Rightarrow> u64" where
  "triple_hash subject predicate okind oid ostr =
     mix64 (mix64 subject XOR str_hash64 (Some predicate) XOR (if okind = FACT_OBJ_ID then mix64 oid else str_hash64 ostr))"

definition triple_eq :: "SeenSlot \<Rightarrow> u64 \<Rightarrow> cstr \<Rightarrow> FactKind \<Rightarrow> u64 \<Rightarrow> cstr option \<Rightarrow> bool" where
  "triple_eq s subject predicate okind oid ostr =
     (if sn_subject s \<noteq> subject \<or> sn_okind s \<noteq> okind then False
      else if sn_predicate s \<noteq> predicate then False
      else if okind = FACT_OBJ_ID then sn_oid s = oid
      else sn_ostr s \<noteq> None \<and> ostr \<noteq> None \<and> sn_ostr s = ostr)"

definition sn_state :: "SeenSlot \<Rightarrow> slot_state" where
  "sn_state s = (if sn_used s then SLOT_LIVE else SLOT_EMPTY)"

definition blank_seen :: SeenSlot where
  "blank_seen = \<lparr>sn_subject = 0, sn_predicate = [], sn_okind = FACT_NONE, sn_oid = 0, sn_ostr = None, sn_out_idx = Some 0, sn_used = False\<rparr>"

definition sn_hash :: "SeenSlot \<Rightarrow> u64" where
  "sn_hash s = triple_hash (sn_subject s) (sn_predicate s) (sn_okind s) (sn_oid s) (sn_ostr s)"

definition seen_grow :: "bool \<Rightarrow> Seen \<Rightarrow> (int \<times> Seen) option" where
  "seen_grow got t =
     (let ncap = (if length (sn_slots t) \<noteq> 0 then length (sn_slots t) * 2 else 64)
      in if \<not> got then Some (-1, t)
         else map_option (\<lambda>ns. (0, t\<lparr>sn_slots := ns\<rparr>))
                (rehash_into sn_state (\<lambda>_ u. \<not> sn_used u) sn_hash (sn_slots t) (replicate ncap blank_seen)))"

text \<open>The position of the slot with the triple, or of the free slot at which the walk ends.\<close>

definition seen_walk :: "Seen \<Rightarrow> u64 \<Rightarrow> cstr \<Rightarrow> FactKind \<Rightarrow> u64 \<Rightarrow> cstr option \<Rightarrow> nat option" where
  "seen_walk t subject predicate okind oid ostr =
     probe_until (\<lambda>s. \<not> sn_used s \<or> triple_eq s subject predicate okind oid ostr) (sn_slots t)
       (unat (triple_hash subject predicate okind oid ostr) AND (length (sn_slots t) - 1))"

definition seen_find :: "Seen \<Rightarrow> u64 \<Rightarrow> cstr \<Rightarrow> FactKind \<Rightarrow> u64 \<Rightarrow> cstr option \<Rightarrow> SeenSlot option option" where
  "seen_find t subject predicate okind oid ostr =
     (if length (sn_slots t) = 0 then Some None
      else map_option (\<lambda>i. if sn_used (sn_slots t ! i) then Some (sn_slots t ! i) else None)
             (seen_walk t subject predicate okind oid ostr))"

text \<open>The counter comes back with the result: one more allocation when the table had to grow.\<close>

definition seen_put ::
  "alloc \<Rightarrow> nat \<Rightarrow> Seen \<Rightarrow> u64 \<Rightarrow> cstr \<Rightarrow> FactKind \<Rightarrow> u64 \<Rightarrow> cstr option \<Rightarrow> nat option \<Rightarrow> (int \<times> Seen \<times> nat) option" where
  "seen_put mem al t subject predicate okind oid ostr out_idx =
     (let full = length (sn_slots t) * 3 \<le> sn_n t * 4; al1 = (if full then al + 1 else al)
      in case (if full then seen_grow (mem al) t else Some (0, t)) of
           None \<Rightarrow> None
         | Some (rv, t1) \<Rightarrow>
             if rv \<noteq> 0 then Some (-1, t1, al1)
             else map_option (\<lambda>i.
                    if sn_used (sn_slots t1 ! i) then (0, t1, al1)
                    else (1, t1\<lparr>sn_slots := (sn_slots t1)[i :=
                             \<lparr>sn_subject = subject, sn_predicate = predicate, sn_okind = okind, sn_oid = oid, sn_ostr = ostr,
                              sn_out_idx = out_idx, sn_used = True\<rparr>], sn_n := sn_n t1 + 1\<rparr>, al1))
                  (seen_walk t1 subject predicate okind oid ostr))"

section \<open>Facts by subject and predicate\<close>

record AdjSlot =
  aj_subject :: u64
  aj_predicate :: cstr
  aj_idx :: "nat list"
  aj_cap :: nat
  aj_used :: bool

record Adj =
  aj_slots :: "AdjSlot list"
  aj_n :: nat

definition sp_hash :: "u64 \<Rightarrow> cstr \<Rightarrow> u64" where
  "sp_hash subject predicate = mix64 (mix64 subject XOR str_hash64 (Some predicate))"

definition aj_state :: "AdjSlot \<Rightarrow> slot_state" where
  "aj_state s = (if aj_used s then SLOT_LIVE else SLOT_EMPTY)"

definition blank_adj :: AdjSlot where
  "blank_adj = \<lparr>aj_subject = 0, aj_predicate = [], aj_idx = [], aj_cap = 0, aj_used = False\<rparr>"

definition adj_grow :: "bool \<Rightarrow> Adj \<Rightarrow> (int \<times> Adj) option" where
  "adj_grow got a =
     (let ncap = (if length (aj_slots a) \<noteq> 0 then length (aj_slots a) * 2 else 64)
      in if \<not> got then Some (-1, a)
         else map_option (\<lambda>ns. (0, a\<lparr>aj_slots := ns\<rparr>))
                (rehash_into aj_state (\<lambda>_ u. \<not> aj_used u) (\<lambda>s. sp_hash (aj_subject s) (aj_predicate s)) (aj_slots a)
                   (replicate ncap blank_adj)))"

definition adj_walk :: "Adj \<Rightarrow> u64 \<Rightarrow> cstr \<Rightarrow> nat option" where
  "adj_walk a subject predicate =
     probe_until (\<lambda>s. \<not> aj_used s \<or> aj_subject s = subject \<and> aj_predicate s = predicate) (aj_slots a)
       (unat (sp_hash subject predicate) AND (length (aj_slots a) - 1))"

text \<open>The slot is claimed before its list grows, so it stays claimed when that fails.\<close>

definition adj_add :: "alloc \<Rightarrow> nat \<Rightarrow> Adj \<Rightarrow> u64 \<Rightarrow> cstr \<Rightarrow> nat \<Rightarrow> (int \<times> Adj \<times> nat) option" where
  "adj_add mem al a subject predicate idx =
     (let full = length (aj_slots a) * 3 \<le> aj_n a * 4; al1 = (if full then al + 1 else al)
      in case (if full then adj_grow (mem al) a else Some (0, a)) of
           None \<Rightarrow> None
         | Some (rv, a1) \<Rightarrow>
             if rv \<noteq> 0 then Some (-1, a1, al1)
             else map_option (\<lambda>i.
                    let s0 = aj_slots a1 ! i;
                        s = (if aj_used s0 then s0 else s0\<lparr>aj_used := True, aj_subject := subject, aj_predicate := predicate\<rparr>);
                        a2 = a1\<lparr>aj_slots := (aj_slots a1)[i := s], aj_n := (if aj_used s0 then aj_n a1 else aj_n a1 + 1)\<rparr>;
                        tight = (length (aj_idx s) = aj_cap s)
                    in if tight \<and> \<not> mem al1 then (-1, a2, al1 + 1)
                       else (0, a2\<lparr>aj_slots := (aj_slots a2)[i :=
                               s\<lparr>aj_cap := (if tight then if aj_cap s \<noteq> 0 then aj_cap s * 2 else 2 else aj_cap s),
                                 aj_idx := aj_idx s @ [idx]\<rparr>]\<rparr>,
                             if tight then al1 + 1 else al1))
                  (adj_walk a1 subject predicate))"

definition adj_get :: "Adj \<Rightarrow> u64 \<Rightarrow> cstr \<Rightarrow> AdjSlot option option" where
  "adj_get a subject predicate =
     (if length (aj_slots a) = 0 then Some None
      else map_option (\<lambda>i. if aj_used (aj_slots a ! i) then Some (aj_slots a ! i) else None) (adj_walk a subject predicate))"

section \<open>What the triple set stands for\<close>

type_synonym triple_id = "u64 \<times> cstr \<times> FactKind \<times> (u64 + cstr option)"

definition triple_key :: "u64 \<Rightarrow> cstr \<Rightarrow> FactKind \<Rightarrow> u64 \<Rightarrow> cstr option \<Rightarrow> triple_id" where
  "triple_key subject predicate okind oid ostr = (subject, predicate, okind, if okind = FACT_OBJ_ID then Inl oid else Inr ostr)"

definition seen_key :: "SeenSlot \<Rightarrow> triple_id" where
  "seen_key s = triple_key (sn_subject s) (sn_predicate s) (sn_okind s) (sn_oid s) (sn_ostr s)"

definition key_hash :: "triple_id \<Rightarrow> u64" where
  "key_hash k = (case k of (subject, predicate, okind, obj) \<Rightarrow>
     mix64 (mix64 subject XOR str_hash64 (Some predicate) XOR (case obj of Inl oid \<Rightarrow> mix64 oid | Inr ostr \<Rightarrow> str_hash64 ostr)))"

lemma key_hash_triple: "key_hash (triple_key subject predicate okind oid ostr) = triple_hash subject predicate okind oid ostr"
  by (simp add: key_hash_def triple_key_def triple_hash_def)

lemma sn_hash_key: "sn_hash = (\<lambda>s. key_hash (seen_key s))"
  by (simp add: fun_eq_iff sn_hash_def seen_key_def key_hash_triple)

lemma triple_eq_key:
  "okind = FACT_OBJ_ID \<or> ostr \<noteq> None \<Longrightarrow>
   triple_eq s subject predicate okind oid ostr \<longleftrightarrow> seen_key s = triple_key subject predicate okind oid ostr"
  by (auto simp: triple_eq_def seen_key_def triple_key_def)

interpretation sn: probe_table sn_state seen_key key_hash "\<lambda>k s. seen_key s = k" "\<lambda>_ u. \<not> sn_used u" blank_seen
  by unfold_locales (auto simp: sn_state_def blank_seen_def)

definition seen_inv :: "Seen \<Rightarrow> bool" where
  "seen_inv t \<longleftrightarrow> sparse_ok sn_state seen_key key_hash (sn_slots t) (sn_n t)"

definition seen_slot :: "Seen \<Rightarrow> triple_id \<rightharpoonup> SeenSlot" where
  "seen_slot t = slot_map sn_state seen_key (sn_slots t)"

definition seen_map :: "Seen \<Rightarrow> triple_id \<rightharpoonup> nat option" where
  "seen_map t k = map_option sn_out_idx (seen_slot t k)"

lemma seen_walk_ok:
  assumes "seen_inv t" and "sn_slots t \<noteq> []" and "okind = FACT_OBJ_ID \<or> ostr \<noteq> None"
    and k: "k = triple_key subject predicate okind oid ostr"
  obtains (found) j where "seen_walk t subject predicate okind oid ostr = Some j" "sn_used (sn_slots t ! j)"
      "seen_slot t k = Some (sn_slots t ! j)"
  | (free) j where "seen_walk t subject predicate okind oid ostr = Some j" "j < length (sn_slots t)" "\<not> sn_used (sn_slots t ! j)"
      "seen_slot t k = None" "reach sn_state (sn_slots t) (key_hash k) j"
proof -
  have w: "\<not> sn_used s \<or> triple_eq s subject predicate okind oid ostr \<longleftrightarrow> sn_state s \<noteq> SLOT_LIVE \<or> seen_key s = k" for s
    using triple_eq_key [OF assms(3)] by (simp add: sn_state_def k)
  have e: "seen_walk t subject predicate okind oid ostr =
      probe_until (\<lambda>s. \<not> sn_used s \<or> triple_eq s subject predicate okind oid ostr) (sn_slots t) (unat (key_hash k) AND (length (sn_slots t) - 1))"
    by (simp add: seen_walk_def k key_hash_triple)
  from assms(1) have s: "sparse_ok sn_state seen_key key_hash (sn_slots t) (sn_n t)" by (simp add: seen_inv_def)
  show thesis
    by (rule sn.sparse_walk [OF s assms(2) w]) (use e found free in \<open>auto simp: sn_state_def seen_slot_def split: if_splits\<close>)
qed

lemma seen_find_ok:
  assumes "seen_inv t" and "okind = FACT_OBJ_ID \<or> ostr \<noteq> None" and "k = triple_key subject predicate okind oid ostr"
  shows "seen_find t subject predicate okind oid ostr = Some (seen_slot t k)"
proof (cases "sn_slots t = []")
  case True
  then show ?thesis by (simp add: seen_find_def seen_slot_def slot_map_def)
next
  case False
  then show ?thesis by (cases rule: seen_walk_ok [OF assms(1) _ assms(2,3)]) (auto simp: seen_find_def)
qed

lemma seen_grow_ok:
  assumes "seen_inv t"
  shows "\<exists>t'. seen_grow True t = Some (0, t') \<and> seen_inv t' \<and> sn_slots t' \<noteq> [] \<and> 4 * sn_n t' < 3 * length (sn_slots t') \<and>
    seen_slot t' = seen_slot t"
proof -
  have s: "sparse_ok sn_state seen_key key_hash (sn_slots t) (sn_n t)" using assms by (simp only: seen_inv_def)
  from sn.sparse_grow [OF s] obtain nt where
    "rehash_into sn_state (\<lambda>_ u. \<not> sn_used u) (\<lambda>s. key_hash (seen_key s)) (sn_slots t)
       (replicate (if length (sn_slots t) \<noteq> 0 then length (sn_slots t) * 2 else 64) blank_seen) = Some nt"
    "sparse_ok sn_state seen_key key_hash nt (sn_n t)" "nt \<noteq> []" "4 * sn_n t < 3 * length nt"
    "slot_map sn_state seen_key nt = slot_map sn_state seen_key (sn_slots t)" by blast
  then show ?thesis unfolding seen_grow_def Let_def sn_hash_key by (simp add: seen_inv_def seen_slot_def)
qed

lemma seen_put_ok:
  assumes "seen_inv t" and "okind = FACT_OBJ_ID \<or> ostr \<noteq> None" and k: "k = triple_key subject predicate okind oid ostr"
  shows "\<exists>rv t' al'. seen_put mem al t subject predicate okind oid ostr oi = Some (rv, t', al') \<and>
    (rv < 0 \<and> \<not> mem al \<or>
     0 \<le> rv \<and> seen_inv t' \<and> seen_map t' = (if k \<in> dom (seen_map t) then seen_map t else (seen_map t)(k \<mapsto> oi)))"
proof -
  define full where "full \<longleftrightarrow> length (sn_slots t) * 3 \<le> sn_n t * 4"
  show ?thesis
  proof (cases "full \<and> \<not> mem al")
    case True
    then show ?thesis by (simp add: seen_put_def full_def seen_grow_def Let_def)
  next
    case False
    obtain t1 where t1: "(if full then seen_grow (mem al) t else Some (0, t)) = Some (0, t1)" "seen_inv t1" "sn_slots t1 \<noteq> []"
      "4 * sn_n t1 < 3 * length (sn_slots t1)" "seen_slot t1 = seen_slot t"
    proof (cases full)
      case True
      with False seen_grow_ok [OF assms(1)] that show thesis by auto
    next
      case nf: False
      then have "sn_slots t \<noteq> []" by (auto simp: full_def)
      with nf show thesis using that [of t] assms(1) by (simp add: full_def)
    qed
    have m: "seen_map t1 = seen_map t" using t1(5) by (simp add: seen_map_def fun_eq_iff)
    show ?thesis
    proof (cases rule: seen_walk_ok [OF t1(2,3) assms(2) k, case_names found free])
      case (found j)
      then have "k \<in> dom (seen_map t)" using t1(5) by (simp add: seen_map_def dom_def)
      with found t1 m show ?thesis unfolding seen_put_def full_def [symmetric] Let_def by simp
    next
      case (free j)
      let ?s = "\<lparr>sn_subject = subject, sn_predicate = predicate, sn_okind = okind, sn_oid = oid, sn_ostr = ostr, sn_out_idx = oi, sn_used = True\<rparr>"
      have s: "seen_key ?s = k" "sn_state ?s = SLOT_LIVE" by (simp_all add: seen_key_def k sn_state_def)
      have nk: "k \<notin> dom (seen_map t)" using free(4) t1(5) by (simp add: seen_map_def dom_def)
      note p = sn.sparse_place [of "sn_slots t1" "sn_n t1" j ?s, unfolded s]
      have q: "sparse_ok sn_state seen_key key_hash ((sn_slots t1)[j := ?s]) (sn_n t1 + 1)"
        "slot_map sn_state seen_key ((sn_slots t1)[j := ?s]) = (slot_map sn_state seen_key (sn_slots t1))(k \<mapsto> ?s)"
        using p t1 free by (auto simp: seen_inv_def seen_slot_def sn_state_def)
      have "seen_put mem al t subject predicate okind oid ostr oi =
          Some (1, t1\<lparr>sn_slots := (sn_slots t1)[j := ?s], sn_n := sn_n t1 + 1\<rparr>, if full then al + 1 else al)"
        using t1(1) free unfolding seen_put_def full_def [symmetric] Let_def by simp
      moreover have "seen_map (t1\<lparr>sn_slots := (sn_slots t1)[j := ?s], sn_n := sn_n t1 + 1\<rparr>) = (seen_map t)(k \<mapsto> oi)"
        using q(2) m by (auto simp: seen_map_def seen_slot_def fun_eq_iff)
      ultimately show ?thesis using q(1) nk by (simp add: seen_inv_def)
    qed
  qed
qed

section \<open>What the adjacency stands for\<close>

definition adj_key :: "AdjSlot \<Rightarrow> u64 \<times> cstr" where
  "adj_key s = (aj_subject s, aj_predicate s)"

definition sp_key_hash :: "u64 \<times> cstr \<Rightarrow> u64" where
  "sp_key_hash k = sp_hash (fst k) (snd k)"

interpretation aj: probe_table aj_state adj_key sp_key_hash "\<lambda>k s. adj_key s = k" "\<lambda>_ u. \<not> aj_used u" blank_adj
  by unfold_locales (auto simp: aj_state_def blank_adj_def)

definition adj_inv :: "Adj \<Rightarrow> bool" where
  "adj_inv a \<longleftrightarrow> sparse_ok aj_state adj_key sp_key_hash (aj_slots a) (aj_n a) \<and> (\<forall>s \<in> set (aj_slots a). \<not> aj_used s \<longrightarrow> aj_idx s = [])"

definition adj_list :: "Adj \<Rightarrow> u64 \<times> cstr \<Rightarrow> nat list" where
  "adj_list a k = (case slot_map aj_state adj_key (aj_slots a) k of None \<Rightarrow> [] | Some s \<Rightarrow> aj_idx s)"

lemma adj_walk_ok:
  assumes "adj_inv a" and "aj_slots a \<noteq> []"
  obtains (found) j where "adj_walk a subject predicate = Some j" "j < length (aj_slots a)" "aj_used (aj_slots a ! j)"
      "adj_key (aj_slots a ! j) = (subject, predicate)" "slot_map aj_state adj_key (aj_slots a) (subject, predicate) = Some (aj_slots a ! j)"
  | (free) j where "adj_walk a subject predicate = Some j" "j < length (aj_slots a)" "\<not> aj_used (aj_slots a ! j)"
      "slot_map aj_state adj_key (aj_slots a) (subject, predicate) = None"
      "reach aj_state (aj_slots a) (sp_key_hash (subject, predicate)) j"
proof -
  have w: "\<not> aj_used s \<or> aj_subject s = subject \<and> aj_predicate s = predicate \<longleftrightarrow>
      aj_state s \<noteq> SLOT_LIVE \<or> adj_key s = (subject, predicate)" for s
    by (simp add: aj_state_def adj_key_def)
  have s: "sparse_ok aj_state adj_key sp_key_hash (aj_slots a) (aj_n a)" using assms(1) by (simp add: adj_inv_def)
  have e: "adj_walk a subject predicate = probe_until (\<lambda>s. \<not> aj_used s \<or> aj_subject s = subject \<and> aj_predicate s = predicate) (aj_slots a)
      (unat (sp_key_hash (subject, predicate)) AND (length (aj_slots a) - 1))"
    by (simp add: adj_walk_def sp_key_hash_def)
  show thesis
    by (rule aj.sparse_walk [OF s assms(2) w]) (use e found free in \<open>auto simp: aj_state_def split: if_splits\<close>)
qed

lemma adj_get_ok:
  assumes "adj_inv a"
  shows "\<exists>so. adj_get a subject predicate = Some so \<and> (case so of None \<Rightarrow> [] | Some s \<Rightarrow> aj_idx s) = adj_list a (subject, predicate)"
proof (cases "aj_slots a = []")
  case True
  then show ?thesis by (simp add: adj_get_def adj_list_def slot_map_def)
next
  case False
  then show ?thesis by (cases rule: adj_walk_ok [OF assms]) (auto simp: adj_get_def adj_list_def)
qed

lemma adj_grow_ok:
  assumes "adj_inv a"
  shows "\<exists>a'. adj_grow True a = Some (0, a') \<and> adj_inv a' \<and> aj_slots a' \<noteq> [] \<and> 4 * aj_n a' < 3 * length (aj_slots a') \<and>
    adj_list a' = adj_list a"
proof -
  have s: "sparse_ok aj_state adj_key sp_key_hash (aj_slots a) (aj_n a)" using assms by (simp add: adj_inv_def)
  have h: "(\<lambda>s. sp_hash (aj_subject s) (aj_predicate s)) = (\<lambda>s. sp_key_hash (adj_key s))"
    by (simp add: sp_key_hash_def adj_key_def)
  from aj.sparse_grow [OF s] obtain nt where nt:
    "rehash_into aj_state (\<lambda>_ u. \<not> aj_used u) (\<lambda>s. sp_key_hash (adj_key s)) (aj_slots a)
       (replicate (if length (aj_slots a) \<noteq> 0 then length (aj_slots a) * 2 else 64) blank_adj) = Some nt"
    "sparse_ok aj_state adj_key sp_key_hash nt (aj_n a)" "nt \<noteq> []" "4 * aj_n a < 3 * length nt"
    "slot_map aj_state adj_key nt = slot_map aj_state adj_key (aj_slots a)" by blast
  have "\<not> aj_used s \<longrightarrow> aj_idx s = []" if "s \<in> set nt" for s
    using rehash_into_set [OF nt(1)] that by (auto simp: aj_state_def blank_adj_def split: if_splits)
  then show ?thesis using nt unfolding adj_grow_def Let_def h by (simp add: adj_inv_def adj_list_def fun_eq_iff)
qed

text \<open>The store that ends an addition: the slot with the longer list.\<close>

lemma adj_extend:
  assumes "adj_inv a" and "4 * aj_n a < 3 * length (aj_slots a)" and "adj_walk a subject predicate = Some j"
    and "s0 = aj_slots a ! j" and "s = (if aj_used s0 then s0 else s0\<lparr>aj_used := True, aj_subject := subject, aj_predicate := predicate\<rparr>)"
    and "a' = a\<lparr>aj_slots := (aj_slots a)[j := s\<lparr>aj_cap := c, aj_idx := aj_idx s @ [idx]\<rparr>],
                aj_n := (if aj_used s0 then aj_n a else aj_n a + 1)\<rparr>"
  shows "adj_inv a' \<and> adj_list a' = (adj_list a)((subject, predicate) := adj_list a (subject, predicate) @ [idx])"
proof -
  have ne: "aj_slots a \<noteq> []" using assms(2) by auto
  have sp: "sparse_ok aj_state adj_key sp_key_hash (aj_slots a) (aj_n a)" and un: "\<And>s. s \<in> set (aj_slots a) \<Longrightarrow> \<not> aj_used s \<Longrightarrow> aj_idx s = []"
    using assms(1) by (auto simp: adj_inv_def)
  let ?n = "s\<lparr>aj_cap := c, aj_idx := aj_idx s @ [idx]\<rparr>"
  show ?thesis
  proof (cases rule: adj_walk_ok [OF assms(1) ne, of subject predicate, case_names found free])
    case (found i)
    then have i: "i = j" and s: "s = aj_slots a ! j" using assms(3-5) by auto
    have "adj_key ?n = adj_key (aj_slots a ! j)" "aj_state ?n = SLOT_LIVE" "aj_state (aj_slots a ! j) = SLOT_LIVE"
      using found by (simp_all add: s i adj_key_def aj_state_def)
    note st = aj.sparse_store [OF sp found(2) [unfolded i] this(3,2,1)]
    have "\<not> aj_used t \<longrightarrow> aj_idx t = []" if "t \<in> set ((aj_slots a)[j := ?n])" for t
      using set_update_subset_insert [of "aj_slots a" j ?n] that un found by (auto simp: s i)
    moreover have "adj_key ?n = (subject, predicate)" using found by (simp add: s i adj_key_def)
    ultimately show ?thesis using st found assms(4,6) un by (auto simp: adj_inv_def adj_list_def fun_eq_iff s i)
  next
    case (free i)
    then have i: "i = j" and s: "s = (aj_slots a ! j)\<lparr>aj_used := True, aj_subject := subject, aj_predicate := predicate\<rparr>"
      using assms(3-5) by auto
    have idx: "aj_idx s = []" using un free by (simp add: s i)
    have k: "adj_key ?n = (subject, predicate)" "aj_state ?n = SLOT_LIVE" by (simp_all add: s adj_key_def aj_state_def)
    have "aj_state (aj_slots a ! j) = SLOT_EMPTY" using free by (simp add: aj_state_def i)
    note st = aj.sparse_place [OF sp assms(2) free(2) [unfolded i] this, of ?n, unfolded k, OF free(4) free(5) [unfolded i] refl]
    have "\<not> aj_used t \<longrightarrow> aj_idx t = []" if "t \<in> set ((aj_slots a)[j := ?n])" for t
      using set_update_subset_insert [of "aj_slots a" j ?n] that un by (auto simp: s)
    then show ?thesis using st free assms(4,6) idx by (auto simp: adj_inv_def adj_list_def fun_eq_iff i)
  qed
qed

lemma adj_add_ok:
  assumes "adj_inv a"
  shows "\<exists>rv a' al'. adj_add mem al a subject predicate idx = Some (rv, a', al') \<and>
    (rv < 0 \<and> (\<exists>n. \<not> mem n) \<or>
     rv = 0 \<and> adj_inv a' \<and> adj_list a' = (adj_list a)((subject, predicate) := adj_list a (subject, predicate) @ [idx]))"
proof -
  define full where "full \<longleftrightarrow> length (aj_slots a) * 3 \<le> aj_n a * 4"
  define al1 where "al1 = (if full then al + 1 else al)"
  show ?thesis
  proof (cases "full \<and> \<not> mem al")
    case True
    then show ?thesis by (auto simp: adj_add_def full_def adj_grow_def Let_def)
  next
    case False
    obtain a1 where a1: "(if full then adj_grow (mem al) a else Some (0, a)) = Some (0, a1)" "adj_inv a1" "aj_slots a1 \<noteq> []"
      "4 * aj_n a1 < 3 * length (aj_slots a1)" "adj_list a1 = adj_list a"
    proof (cases full)
      case True
      with False adj_grow_ok [OF assms(1)] that show thesis by auto
    next
      case nf: False
      then have "aj_slots a \<noteq> []" by (auto simp: full_def)
      with nf show thesis using that [of a] assms(1) by (simp add: full_def)
    qed
    obtain j where j: "adj_walk a1 subject predicate = Some j"
      by (cases rule: adj_walk_ok [OF a1(2,3), of subject predicate]) auto
    define s where "s = (if aj_used (aj_slots a1 ! j) then aj_slots a1 ! j
      else (aj_slots a1 ! j)\<lparr>aj_used := True, aj_subject := subject, aj_predicate := predicate\<rparr>)"
    define tight where "tight \<longleftrightarrow> length (aj_idx s) = aj_cap s"
    define c where "c = (if tight then if aj_cap s \<noteq> 0 then aj_cap s * 2 else 2 else aj_cap s)"
    show ?thesis
    proof (cases "tight \<and> \<not> mem al1")
      case True
      then show ?thesis using a1(1) j
        unfolding adj_add_def full_def [symmetric] al1_def [symmetric] Let_def
        by (auto simp flip: s_def tight_def)
    next
      case ok: False
      have "adj_add mem al a subject predicate idx = Some (0, a1\<lparr>aj_slots := (aj_slots a1)[j := s\<lparr>aj_cap := c, aj_idx := aj_idx s @ [idx]\<rparr>],
          aj_n := (if aj_used (aj_slots a1 ! j) then aj_n a1 else aj_n a1 + 1)\<rparr>, if tight then al1 + 1 else al1)"
        unfolding adj_add_def Let_def full_def [symmetric] al1_def [symmetric] a1(1) option.case prod.case j option.map
          s_def [symmetric] tight_def [symmetric] c_def [symmetric] using ok by simp
      then show ?thesis using adj_extend [where c = c and idx = idx, OF a1(2,4) j refl s_def refl] a1(5) by auto
    qed
  qed
qed

end
