(* ===== verification/Json_Tree.thy ===== *)
theory Json_Tree
  imports Aegis_Prelude
begin

text \<open>
  The tree of the vendored JSON library, \<^verbatim>\<open>src/third_party/cjson/cJSON.h\<close>, and the accessors of
  \<^verbatim>\<open>src/third_party/cjson/cJSON.c\<close> that its users call. The chain of the children of a node is a list;
  a number is the 64 bits of its double. A null pointer to a node is \<open>None\<close>.
\<close>

unbundle bit_operations_syntax

datatype cJSON =
  CJSON (cj_type: nat) (cj_valuestring: "cstr option") (cj_valuedouble: u64) (cj_string: "cstr option") (cj_child: "cJSON list")

definition cJSON_Invalid :: nat where "cJSON_Invalid = 0"
definition cJSON_False :: nat where "cJSON_False = 1"
definition cJSON_True :: nat where "cJSON_True = 2"
definition cJSON_NULL :: nat where "cJSON_NULL = 4"
definition cJSON_Number :: nat where "cJSON_Number = 8"
definition cJSON_String :: nat where "cJSON_String = 16"
definition cJSON_Array :: nat where "cJSON_Array = 32"
definition cJSON_Object :: nat where "cJSON_Object = 64"

lemmas cjson_type_defs = cJSON_Invalid_def cJSON_False_def cJSON_True_def cJSON_NULL_def cJSON_Number_def
  cJSON_String_def cJSON_Array_def cJSON_Object_def

definition has_type :: "nat \<Rightarrow> cJSON option \<Rightarrow> bool" where
  "has_type t item = (case item of None \<Rightarrow> False | Some j \<Rightarrow> cj_type j AND 0xFF = t)"

definition cJSON_IsTrue :: "cJSON option \<Rightarrow> bool" where
  "cJSON_IsTrue item = has_type cJSON_True item"

definition cJSON_IsBool :: "cJSON option \<Rightarrow> bool" where
  "cJSON_IsBool item = (case item of None \<Rightarrow> False | Some j \<Rightarrow> cj_type j AND (cJSON_True OR cJSON_False) \<noteq> 0)"

definition cJSON_IsNumber :: "cJSON option \<Rightarrow> bool" where
  "cJSON_IsNumber item = has_type cJSON_Number item"

definition cJSON_IsString :: "cJSON option \<Rightarrow> bool" where
  "cJSON_IsString item = has_type cJSON_String item"

definition cJSON_IsArray :: "cJSON option \<Rightarrow> bool" where
  "cJSON_IsArray item = has_type cJSON_Array item"

definition cJSON_IsObject :: "cJSON option \<Rightarrow> bool" where
  "cJSON_IsObject item = has_type cJSON_Object item"

definition cJSON_GetArraySize :: "cJSON option \<Rightarrow> nat" where
  "cJSON_GetArraySize array = (case array of None \<Rightarrow> 0 | Some j \<Rightarrow> length (cj_child j))"

text \<open>The walk of the chain; it stops at a child without a name.\<close>

fun get_object_item :: "cJSON list \<Rightarrow> cstr \<Rightarrow> cJSON option" where
  "get_object_item [] name = None"
| "get_object_item (c # cs) name =
     (case cj_string c of
        None \<Rightarrow> None
      | Some s \<Rightarrow> if s = name then Some c else get_object_item cs name)"

definition cJSON_GetObjectItemCaseSensitive :: "cJSON option \<Rightarrow> cstr \<Rightarrow> cJSON option" where
  "cJSON_GetObjectItemCaseSensitive object name =
     (case object of None \<Rightarrow> None | Some j \<Rightarrow> get_object_item (cj_child j) name)"

lemma get_object_item_name: "get_object_item cs name = Some c \<Longrightarrow> c \<in> set cs \<and> cj_string c = Some name"
  by (induction cs) (auto split: option.splits if_splits)

end
