(* ===== verification/Predicate_Registry.thy ===== *)
theory Predicate_Registry
  imports Json_Tree Memory_Record
begin

text \<open>
  The declared vocabulary of facts, \<^verbatim>\<open>src/src/util/predicate_registry.c\<close>: reading a registry from the parsed file,
  its validation, and lookups. The message written to \<open>err\<close> is a value of \<open>RegError\<close>. The file operations enter by their
  outcomes, and the text to tree function \<^verbatim>\<open>cJSON_Parse\<close> is an argument.

  Shown: a registry that loads has each declaration of the file once, lookups find exactly those, and
  inverses are mutual, relate records only, and every predicate a declaration refers to is declared.
\<close>

section \<open>Data\<close>

datatype PredObjKind = PRED_OBJ_ID | PRED_OBJ_STRING

record PredicateSpec =
  ps_name :: cstr
  ps_object :: PredObjKind
  ps_single_valued :: bool
  ps_symmetric :: bool
  ps_transitive :: bool
  ps_inverse_of :: "cstr option"
  ps_mutex_with :: "cstr list"

record PredicateRegistry =
  pr_specs :: "PredicateSpec list"

definition FACT_MAX_PREDICATES :: nat where
  "FACT_MAX_PREDICATES = 4096"

definition FACT_MAX_PREDICATE_LEN :: nat where
  "FACT_MAX_PREDICATE_LEN = 64"

definition REGISTRY_MAX_BYTES :: nat where
  "REGISTRY_MAX_BYTES = 1048576"

datatype RegError =
    Cannot_open | Cannot_size | Too_large | Out_of_memory | Not_json | Not_an_object | No_predicates | Too_many nat
  | Bad_name | Name_too_long cstr | Not_a_declaration cstr | Unknown_key cstr "cstr option" | Object_required cstr
  | Bad_object cstr cstr | Cardinality_not_string cstr | Bad_cardinality cstr | Not_bool cstr cstr | Needs_id_object cstr
  | Bad_inverse cstr | Self_inverse cstr | Mutex_not_array cstr | Bad_mutex cstr
  | Undeclared_inverse cstr cstr | Not_mutual cstr cstr | Inverse_needs_id cstr | Undeclared_mutex cstr cstr | Declared_twice cstr

section \<open>Lookups\<close>

definition predicate_registry_count :: "PredicateRegistry option \<Rightarrow> nat" where
  "predicate_registry_count ro = (case ro of None \<Rightarrow> 0 | Some r \<Rightarrow> length (pr_specs r))"

definition predicate_registry_at :: "PredicateRegistry option \<Rightarrow> nat \<Rightarrow> PredicateSpec option" where
  "predicate_registry_at ro i =
     (case ro of None \<Rightarrow> None | Some r \<Rightarrow> if length (pr_specs r) \<le> i then None else Some (pr_specs r ! i))"

text \<open>The comparisons are those of \<^verbatim>\<open>strcmp\<close>: lexicographic on bytes.\<close>

function registry_search :: "PredicateSpec list \<Rightarrow> cstr \<Rightarrow> nat \<Rightarrow> nat \<Rightarrow> PredicateSpec option" where
  "registry_search specs p lo hi =
     (if lo < hi then
        let mid = lo + (hi - lo) div 2
        in if ps_name (specs ! mid) < p then registry_search specs p (mid + 1) hi
           else if p < ps_name (specs ! mid) then registry_search specs p lo mid
           else Some (specs ! mid)
      else None)"
  by pat_completeness auto
termination
  by (relation "measure (\<lambda>(_, _, lo, hi). hi - lo)") auto

declare registry_search.simps [simp del]

definition predicate_registry_get :: "PredicateRegistry option \<Rightarrow> cstr option \<Rightarrow> PredicateSpec option" where
  "predicate_registry_get ro po =
     (case (ro, po) of
        (Some r, Some p) \<Rightarrow> registry_search (pr_specs r) p 0 (length (pr_specs r))
      | _ \<Rightarrow> None)"

definition predicate_registry_check :: "PredicateRegistry option \<Rightarrow> cstr option \<Rightarrow> FactKind \<Rightarrow> int" where
  "predicate_registry_check ro po okind =
     (if ro = None then 0
      else case predicate_registry_get ro po of
             None \<Rightarrow> -1
           | Some spec \<Rightarrow> let want = (if okind = FACT_OBJ_ID then PRED_OBJ_ID else PRED_OBJ_STRING)
                          in if ps_object spec \<noteq> want then -1 else 0)"

section \<open>Parsing a declaration\<close>

definition known_key :: "cstr \<Rightarrow> bool" where
  "known_key k \<longleftrightarrow> k \<in> set [lit ''object'', lit ''cardinality'', lit ''symmetric'', lit ''transitive'', lit ''inverse_of'', lit ''mutex_with'']"

definition parse_bool :: "cJSON option \<Rightarrow> cstr \<Rightarrow> cstr \<Rightarrow> RegError + bool" where
  "parse_bool v pred key =
     (if v = None then Inr False
      else if \<not> cJSON_IsBool v then Inl (Not_bool pred key)
      else Inr (cJSON_IsTrue v))"

text \<open>The string of a node that has to be one.\<close>

definition string_of_node :: "cJSON option \<Rightarrow> cstr option" where
  "string_of_node j = (if cJSON_IsString j then Option.bind j cj_valuestring else None)"

fun unknown_key :: "cJSON list \<Rightarrow> cstr option option" where
  "unknown_key [] = None"
| "unknown_key (k # ks) =
     (case cj_string k of
        None \<Rightarrow> Some None
      | Some s \<Rightarrow> if known_key s then unknown_key ks else Some (Some s))"

definition parse_object :: "cJSON \<Rightarrow> cstr \<Rightarrow> RegError + PredObjKind" where
  "parse_object item pred =
     (case string_of_node (cJSON_GetObjectItemCaseSensitive (Some item) (lit ''object'')) of
        None \<Rightarrow> Inl (Object_required pred)
      | Some s \<Rightarrow> if s = lit ''id'' then Inr PRED_OBJ_ID
                  else if s = lit ''string'' then Inr PRED_OBJ_STRING
                  else Inl (Bad_object pred s))"

definition parse_cardinality :: "cJSON \<Rightarrow> cstr \<Rightarrow> RegError + bool" where
  "parse_cardinality item pred =
     (let j = cJSON_GetObjectItemCaseSensitive (Some item) (lit ''cardinality'')
      in if j = None then Inr False
         else case string_of_node j of
                None \<Rightarrow> Inl (Cardinality_not_string pred)
              | Some s \<Rightarrow> if s = lit ''one'' then Inr True
                          else if s \<noteq> lit ''many'' then Inl (Bad_cardinality pred)
                          else Inr False)"

text \<open>The allocations of a declaration are \<open>mem 0\<close> for the name, \<open>mem 1\<close> for the inverse, and from \<open>mem 2\<close> on for the exclusions.\<close>

definition parse_inverse :: "alloc \<Rightarrow> cJSON \<Rightarrow> cstr \<Rightarrow> RegError + cstr option" where
  "parse_inverse mem item pred =
     (let j = cJSON_GetObjectItemCaseSensitive (Some item) (lit ''inverse_of'')
      in if j = None then Inr None
         else case string_of_node j of
                None \<Rightarrow> Inl (Bad_inverse pred)
              | Some s \<Rightarrow> if s = [] then Inl (Bad_inverse pred)
                          else if s = pred then Inl (Self_inverse pred)
                          else if \<not> mem 1 then Inl Out_of_memory
                          else Inr (Some s))"

fun parse_mutex_loop :: "alloc \<Rightarrow> cstr \<Rightarrow> cJSON list \<Rightarrow> nat \<Rightarrow> cstr list \<Rightarrow> RegError + cstr list" where
  "parse_mutex_loop mem pred [] i acc = Inr acc"
| "parse_mutex_loop mem pred (it # its) i acc =
     (case string_of_node (Some it) of
        None \<Rightarrow> Inl (Bad_mutex pred)
      | Some s \<Rightarrow> if \<not> mem i then Inl Out_of_memory else parse_mutex_loop mem pred its (i + 1) (acc @ [s]))"

definition parse_mutex :: "alloc \<Rightarrow> cJSON \<Rightarrow> cstr \<Rightarrow> RegError + cstr list" where
  "parse_mutex mem item pred =
     (case cJSON_GetObjectItemCaseSensitive (Some item) (lit ''mutex_with'') of
        None \<Rightarrow> Inr []
      | Some j \<Rightarrow> if \<not> cJSON_IsArray (Some j) then Inl (Mutex_not_array pred)
                  else if 0 < cJSON_GetArraySize (Some j) then
                    (if \<not> mem 2 then Inl Out_of_memory else parse_mutex_loop mem pred (cj_child j) 3 [])
                  else Inr [])"

text \<open>Going on after a step that did not fail.\<close>

fun and_then :: "'e + 'x \<Rightarrow> ('x \<Rightarrow> 'e + 'y) \<Rightarrow> 'e + 'y" where
  "and_then (Inl e) f = Inl e"
| "and_then (Inr x) f = f x"

definition parse_spec :: "alloc \<Rightarrow> cJSON \<Rightarrow> RegError + PredicateSpec" where
  "parse_spec mem item =
     (case cj_string item of
        None \<Rightarrow> Inl Bad_name
      | Some pred \<Rightarrow>
          if pred = [] then Inl Bad_name
          else if FACT_MAX_PREDICATE_LEN < length pred then Inl (Name_too_long pred)
          else if \<not> cJSON_IsObject (Some item) then Inl (Not_a_declaration pred)
          else case unknown_key (cj_child item) of
                 Some k \<Rightarrow> Inl (Unknown_key pred k)
               | None \<Rightarrow>
                   and_then (parse_object item pred) (\<lambda>obj.
                   and_then (parse_cardinality item pred) (\<lambda>single.
                   and_then (parse_bool (cJSON_GetObjectItemCaseSensitive (Some item) (lit ''symmetric'')) pred (lit ''symmetric'')) (\<lambda>sym.
                   and_then (parse_bool (cJSON_GetObjectItemCaseSensitive (Some item) (lit ''transitive'')) pred (lit ''transitive'')) (\<lambda>trans.
                     if (sym \<or> trans) \<and> obj \<noteq> PRED_OBJ_ID then Inl (Needs_id_object pred)
                     else and_then (parse_inverse mem item pred) (\<lambda>inv.
                          and_then (parse_mutex mem item pred) (\<lambda>mx.
                            if \<not> mem 0 then Inl Out_of_memory
                            else Inr \<lparr>ps_name = pred, ps_object = obj, ps_single_valued = single, ps_symmetric = sym,
                                      ps_transitive = trans, ps_inverse_of = inv, ps_mutex_with = mx\<rparr>)))))))"

section \<open>Loading\<close>

definition check_inverse :: "PredicateRegistry \<Rightarrow> PredicateSpec \<Rightarrow> RegError option" where
  "check_inverse r e =
     (case ps_inverse_of e of
        None \<Rightarrow> None
      | Some q \<Rightarrow>
          case predicate_registry_get (Some r) (Some q) of
            None \<Rightarrow> Some (Undeclared_inverse (ps_name e) q)
          | Some t \<Rightarrow> if ps_inverse_of t \<noteq> Some (ps_name e) then Some (Not_mutual (ps_name e) q)
                      else if ps_object t \<noteq> PRED_OBJ_ID \<or> ps_object e \<noteq> PRED_OBJ_ID then Some (Inverse_needs_id (ps_name e))
                      else None)"

fun check_mutex :: "PredicateRegistry \<Rightarrow> PredicateSpec \<Rightarrow> cstr list \<Rightarrow> RegError option" where
  "check_mutex r e [] = None"
| "check_mutex r e (m # ms) =
     (if predicate_registry_get (Some r) (Some m) = None then Some (Undeclared_mutex (ps_name e) m) else check_mutex r e ms)"

fun validate_loop :: "PredicateRegistry \<Rightarrow> PredicateSpec list \<Rightarrow> RegError option" where
  "validate_loop r [] = None"
| "validate_loop r (e # es) =
     (case check_inverse r e of
        Some x \<Rightarrow> Some x
      | None \<Rightarrow> case check_mutex r e (ps_mutex_with e) of
                  Some x \<Rightarrow> Some x
                | None \<Rightarrow> validate_loop r es)"

definition validate_refs :: "PredicateRegistry \<Rightarrow> RegError option" where
  "validate_refs r = validate_loop r (pr_specs r)"

text \<open>\<open>mems i\<close> are the allocations of the declaration at \<open>i\<close>.\<close>

fun parse_specs :: "(nat \<Rightarrow> alloc) \<Rightarrow> cJSON list \<Rightarrow> nat \<Rightarrow> PredicateSpec list \<Rightarrow> RegError + PredicateSpec list" where
  "parse_specs mems [] i acc = Inr acc"
| "parse_specs mems (it # its) i acc = and_then (parse_spec (mems i) it) (\<lambda>e. parse_specs mems its (i + 1) (acc @ [e]))"

fun declared_twice :: "PredicateSpec list \<Rightarrow> cstr option" where
  "declared_twice (a # b # es) = (if ps_name a = ps_name b then Some (ps_name b) else declared_twice (b # es))"
| "declared_twice es = None"

definition registry_of_tree :: "alloc \<Rightarrow> (nat \<Rightarrow> alloc) \<Rightarrow> cJSON \<Rightarrow> RegError + PredicateRegistry" where
  "registry_of_tree mem mems root =
     (if \<not> cJSON_IsObject (Some root) then Inl Not_an_object
      else let n = length (cj_child root)
           in if n = 0 then Inl No_predicates
              else if FACT_MAX_PREDICATES < n then Inl (Too_many n)
              else if \<not> mem 1 then Inl Out_of_memory
              else if \<not> mem 2 then Inl Out_of_memory
              else and_then (parse_specs mems (cj_child root) 0 []) (\<lambda>specs.
                     let r = \<lparr>pr_specs = sort_key ps_name specs\<rparr>
                     in case declared_twice (pr_specs r) of
                          Some p \<Rightarrow> Inl (Declared_twice p)
                        | None \<Rightarrow> case validate_refs r of Some x \<Rightarrow> Inl x | None \<Rightarrow> Inr r))"

text \<open>
  \<open>file\<close> is the content when the file opens, \<open>seek_ok\<close> the outcome of \<^verbatim>\<open>fseek\<close>, \<open>sz\<close> the result of \<^verbatim>\<open>ftell\<close> and \<open>got\<close> that of
  \<^verbatim>\<open>fread\<close>, at most \<open>sz\<close>.
\<close>

definition predicate_registry_load ::
  "(cstr \<Rightarrow> cJSON option) \<Rightarrow> bytes option \<Rightarrow> bool \<Rightarrow> int \<Rightarrow> nat \<Rightarrow> alloc \<Rightarrow> (nat \<Rightarrow> alloc) \<Rightarrow> RegError + PredicateRegistry" where
  "predicate_registry_load cJSON_Parse file seek_ok sz got mem mems =
     (case file of
        None \<Rightarrow> Inl Cannot_open
      | Some content \<Rightarrow>
          if \<not> seek_ok then Inl Cannot_size
          else if sz < 0 \<or> int REGISTRY_MAX_BYTES < sz then Inl Too_large
          else if \<not> mem 0 then Inl Out_of_memory
          else case cJSON_Parse (cstr_of (take got content)) of
                 None \<Rightarrow> Inl Not_json
               | Some root \<Rightarrow> registry_of_tree mem mems root)"

section \<open>Sorted registries\<close>

lemma registry_search_found:
  "registry_search specs p lo hi = Some s \<Longrightarrow> hi \<le> length specs \<Longrightarrow> s \<in> set specs \<and> ps_name s = p"
proof (induction specs p lo hi rule: registry_search.induct)
  case (1 specs p lo hi)
  let ?mid = "lo + (hi - lo) div 2"
  have lh: "lo < hi" using "1.prems"(1) by (simp add: registry_search.simps split: if_splits)
  then have m: "?mid < hi" by linarith
  show ?case
    using "1.prems" "1.IH" [OF lh refl] lh m
    by (auto simp: registry_search.simps [of specs p lo hi] Let_def split: if_splits)
qed

lemma registry_search_complete:
  "sorted (map ps_name specs) \<Longrightarrow> lo \<le> i \<Longrightarrow> i < hi \<Longrightarrow> hi \<le> length specs \<Longrightarrow> ps_name (specs ! i) = p \<Longrightarrow>
   registry_search specs p lo hi \<noteq> None"
proof (induction specs p lo hi rule: registry_search.induct)
  case (1 specs p lo hi)
  let ?mid = "lo + (hi - lo) div 2"
  have lh: "lo < hi" using "1.prems" by simp
  then have m: "lo \<le> ?mid" "?mid < hi" by linarith+
  have le: "ps_name (specs ! a) \<le> ps_name (specs ! b)" if "a \<le> b" "b < length specs" for a b
    using sorted_nth_mono [OF "1.prems"(1), of a b] that by simp
  consider "ps_name (specs ! ?mid) < p" | "p < ps_name (specs ! ?mid)" | "ps_name (specs ! ?mid) = p" by fastforce
  then show ?case
  proof cases
    case 1
    then have "?mid < i" using le [of i ?mid] "1.prems" m by (metis leD leI order_less_le_trans)
    then show ?thesis using 1 "1.IH"(1) [OF lh refl 1] "1.prems" lh by (simp add: registry_search.simps [of specs p lo hi] Let_def)
  next
    case 2
    then have "i < ?mid" using le [of ?mid i] "1.prems" m by (metis leD leI order_less_le_trans)
    moreover have "\<not> ps_name (specs ! ?mid) < p" using 2 by auto
    ultimately show ?thesis using 2 "1.IH"(2) [OF lh refl _ 2] "1.prems" lh m by (simp add: registry_search.simps [of specs p lo hi] Let_def)
  next
    case 3
    then show ?thesis using lh by (simp add: registry_search.simps [of specs p lo hi] Let_def)
  qed
qed

lemma registry_get_iff:
  assumes "sorted (map ps_name (pr_specs r))" and "distinct (map ps_name (pr_specs r))"
  shows "predicate_registry_get (Some r) (Some p) = Some s \<longleftrightarrow> s \<in> set (pr_specs r) \<and> ps_name s = p"
proof
  assume "predicate_registry_get (Some r) (Some p) = Some s"
  then show "s \<in> set (pr_specs r) \<and> ps_name s = p" using registry_search_found by (auto simp: predicate_registry_get_def)
next
  assume s: "s \<in> set (pr_specs r) \<and> ps_name s = p"
  then obtain i where "i < length (pr_specs r)" "pr_specs r ! i = s" by (auto simp: in_set_conv_nth)
  then obtain t where t: "predicate_registry_get (Some r) (Some p) = Some t"
    using registry_search_complete [OF assms(1), of 0 i "length (pr_specs r)" p] s by (auto simp: predicate_registry_get_def)
  then have "t \<in> set (pr_specs r) \<and> ps_name t = p" using registry_search_found by (auto simp: predicate_registry_get_def)
  then have "t = s" using assms(2) s by (auto simp: distinct_map inj_on_def)
  with t show "predicate_registry_get (Some r) (Some p) = Some s" by simp
qed

lemma and_then_Inr: "and_then x f = Inr y \<longleftrightarrow> (\<exists>v. x = Inr v \<and> f v = Inr y)"
  by (cases x) auto

lemma parse_inverse_other: "parse_inverse mem item pred = Inr (Some q) \<Longrightarrow> q \<noteq> pred"
  by (auto simp: parse_inverse_def Let_def split: option.splits if_splits)

lemma parse_spec_ok:
  "parse_spec mem item = Inr s \<Longrightarrow>
   cj_string item = Some (ps_name s) \<and> ps_name s \<noteq> [] \<and> length (ps_name s) \<le> FACT_MAX_PREDICATE_LEN \<and>
   ((ps_symmetric s \<or> ps_transitive s) \<longrightarrow> ps_object s = PRED_OBJ_ID) \<and> ps_inverse_of s \<noteq> Some (ps_name s)"
  by (auto simp: parse_spec_def and_then_Inr split: option.splits if_splits dest: parse_inverse_other)

lemma parse_specs_all:
  "parse_specs mems its i acc = Inr specs \<Longrightarrow>
   \<exists>ss. specs = acc @ ss \<and> length ss = length its \<and> (\<forall>k < length its. parse_spec (mems (i + k)) (its ! k) = Inr (ss ! k))"
proof (induction its arbitrary: i acc)
  case (Cons it its)
  then obtain e where e: "parse_spec (mems i) it = Inr e" "parse_specs mems its (i + 1) (acc @ [e]) = Inr specs"
    by (auto simp: and_then_Inr)
  from Cons.IH [OF e(2)] obtain ss where ss: "specs = (acc @ [e]) @ ss" "length ss = length its"
    "\<forall>k < length its. parse_spec (mems (i + 1 + k)) (its ! k) = Inr (ss ! k)" by blast
  then show ?case using e(1) by (intro exI [of _ "e # ss"]) (auto simp: less_Suc_eq_0_disj)
qed simp

lemma declared_once: "sorted (map ps_name es) \<Longrightarrow> declared_twice es = None \<Longrightarrow> distinct (map ps_name es)"
  by (induction es rule: declared_twice.induct) (auto split: if_splits)

lemma validate_loop_ok:
  "validate_loop r es = None \<Longrightarrow> e \<in> set es \<Longrightarrow>
   check_inverse r e = None \<and> (\<forall>m \<in> set (ps_mutex_with e). predicate_registry_get (Some r) (Some m) \<noteq> None)"
proof (induction es)
  case (Cons x es)
  have mx: "check_mutex r x ms = None \<Longrightarrow> m \<in> set ms \<Longrightarrow> predicate_registry_get (Some r) (Some m) \<noteq> None" for ms m
    by (induction ms) (auto split: if_splits)
  from Cons show ?case using mx [of "ps_mutex_with x"] by (auto split: option.splits)
qed simp

text \<open>What a coherent vocabulary is.\<close>

definition coherent :: "PredicateRegistry \<Rightarrow> bool" where
  "coherent r \<longleftrightarrow> (\<forall>s \<in> set (pr_specs r).
     ps_name s \<noteq> [] \<and> length (ps_name s) \<le> FACT_MAX_PREDICATE_LEN \<and>
     ((ps_symmetric s \<or> ps_transitive s) \<longrightarrow> ps_object s = PRED_OBJ_ID) \<and>
     (\<forall>q. ps_inverse_of s = Some q \<longrightarrow> q \<noteq> ps_name s \<and> ps_object s = PRED_OBJ_ID \<and>
        (\<exists>t. predicate_registry_get (Some r) (Some q) = Some t \<and> ps_inverse_of t = Some (ps_name s) \<and> ps_object t = PRED_OBJ_ID)) \<and>
     (\<forall>m \<in> set (ps_mutex_with s). predicate_registry_get (Some r) (Some m) \<noteq> None))"

lemma registry_of_tree_ok:
  assumes "registry_of_tree mem mems root = Inr r"
  shows "sorted (map ps_name (pr_specs r))" and "distinct (map ps_name (pr_specs r))" and "coherent r"
    and "length (pr_specs r) = length (cj_child root)" and "0 < length (pr_specs r)" and "length (pr_specs r) \<le> FACT_MAX_PREDICATES"
    and "s \<in> set (pr_specs r) \<longleftrightarrow> (\<exists>i < length (cj_child root). parse_spec (mems i) (cj_child root ! i) = Inr s)"
proof -
  obtain specs where p: "parse_specs mems (cj_child root) 0 [] = Inr specs" and r: "r = \<lparr>pr_specs = sort_key ps_name specs\<rparr>"
    and d: "declared_twice (pr_specs r) = None" and v: "validate_refs r = None"
    and n: "length (cj_child root) \<noteq> 0" "length (cj_child root) \<le> FACT_MAX_PREDICATES"
    using assms by (auto simp: registry_of_tree_def Let_def and_then_Inr split: if_splits option.splits)
  show so: "sorted (map ps_name (pr_specs r))" by (simp add: r)
  then show di: "distinct (map ps_name (pr_specs r))" using d by (rule declared_once)
  from parse_specs_all [OF p] have len: "length specs = length (cj_child root)"
    and ps: "\<And>k. k < length (cj_child root) \<Longrightarrow> parse_spec (mems k) (cj_child root ! k) = Inr (specs ! k)" by auto
  show "length (pr_specs r) = length (cj_child root)" "0 < length (pr_specs r)" "length (pr_specs r) \<le> FACT_MAX_PREDICATES"
    using len n by (simp_all add: r)
  have mem: "t \<in> set (pr_specs r) \<longleftrightarrow> (\<exists>i < length (cj_child root). parse_spec (mems i) (cj_child root ! i) = Inr t)" for t
    using ps len by (auto simp: r in_set_conv_nth)
  then show "s \<in> set (pr_specs r) \<longleftrightarrow> (\<exists>i < length (cj_child root). parse_spec (mems i) (cj_child root ! i) = Inr s)" .
  show "coherent r" unfolding coherent_def
  proof (intro ballI)
    fix t assume t: "t \<in> set (pr_specs r)"
    then obtain i where i: "parse_spec (mems i) (cj_child root ! i) = Inr t" using mem by blast
    have c: "check_inverse r t = None" "\<forall>m \<in> set (ps_mutex_with t). predicate_registry_get (Some r) (Some m) \<noteq> None"
      using validate_loop_ok [OF v [unfolded validate_refs_def] t] by blast+
    have "q \<noteq> ps_name t \<and> ps_object t = PRED_OBJ_ID \<and>
        (\<exists>u. predicate_registry_get (Some r) (Some q) = Some u \<and> ps_inverse_of u = Some (ps_name t) \<and> ps_object u = PRED_OBJ_ID)"
      if "ps_inverse_of t = Some q" for q
      using c(1) that parse_spec_ok [OF i] by (auto simp: check_inverse_def split: option.splits if_splits)
    then show "ps_name t \<noteq> [] \<and> length (ps_name t) \<le> FACT_MAX_PREDICATE_LEN \<and>
     ((ps_symmetric t \<or> ps_transitive t) \<longrightarrow> ps_object t = PRED_OBJ_ID) \<and>
     (\<forall>q. ps_inverse_of t = Some q \<longrightarrow> q \<noteq> ps_name t \<and> ps_object t = PRED_OBJ_ID \<and>
        (\<exists>u. predicate_registry_get (Some r) (Some q) = Some u \<and> ps_inverse_of u = Some (ps_name t) \<and> ps_object u = PRED_OBJ_ID)) \<and>
     (\<forall>m \<in> set (ps_mutex_with t). predicate_registry_get (Some r) (Some m) \<noteq> None)"
      using parse_spec_ok [OF i] c(2) by blast
  qed
qed

section \<open>Property\<close>

text \<open>
  C21. A registry that loads is coherent: names are not empty and short enough to index, symmetric and transitive predicates
  relate records, inverses are mutual and between different predicates on records, and exclusions name declared
  predicates. A lookup finds a predicate exactly when the file declares it, with that declaration, and every
  declaration of the file is counted.
\<close>

theorem registry_load_coherent:
  assumes "predicate_registry_load cJSON_Parse file seek_ok sz got mem mems = Inr r"
  shows "coherent r \<and> sorted_wrt (<) (map ps_name (pr_specs r)) \<and>
    (\<exists>content root. file = Some content \<and> cJSON_Parse (cstr_of (take got content)) = Some root \<and>
       predicate_registry_count (Some r) = length (cj_child root) \<and> length (cj_child root) \<in> {1..FACT_MAX_PREDICATES} \<and>
       (\<forall>p s. predicate_registry_get (Some r) (Some p) = Some s \<longleftrightarrow>
          (\<exists>i < length (cj_child root). cj_string (cj_child root ! i) = Some p \<and> parse_spec (mems i) (cj_child root ! i) = Inr s)))"
proof -
  obtain content root where f: "file = Some content" "cJSON_Parse (cstr_of (take got content)) = Some root"
    and t: "registry_of_tree mem mems root = Inr r"
    using assms by (auto simp: predicate_registry_load_def split: option.splits if_splits)
  note ok = registry_of_tree_ok [OF t]
  have "predicate_registry_get (Some r) (Some p) = Some s \<longleftrightarrow>
      (\<exists>i < length (cj_child root). cj_string (cj_child root ! i) = Some p \<and> parse_spec (mems i) (cj_child root ! i) = Inr s)" for p s
    unfolding registry_get_iff [OF ok(1,2)] ok(7) by (metis parse_spec_ok option.inject)
  moreover have "sorted_wrt (<) (map ps_name (pr_specs r))" using ok(1,2) by (simp add: strict_sorted_iff)
  ultimately show ?thesis using f ok(3-6) by (auto simp: predicate_registry_count_def Suc_le_eq)
qed

text \<open>A file that declares two mutual inverses.\<close>

definition demo_declaration :: "cstr \<Rightarrow> cstr \<Rightarrow> cJSON" where
  "demo_declaration p q =
     CJSON cJSON_Object None 0 (Some p)
       [CJSON cJSON_String (Some (lit ''id'')) 0 (Some (lit ''object'')) [],
        CJSON cJSON_String (Some q) 0 (Some (lit ''inverse_of'')) []]"

definition demo_tree :: cJSON where
  "demo_tree = CJSON cJSON_Object None 0 None
     [demo_declaration (lit ''part_of'') (lit ''contains''), demo_declaration (lit ''contains'') (lit ''part_of'')]"

definition demo_spec :: "cstr \<Rightarrow> cstr \<Rightarrow> PredicateSpec" where
  "demo_spec p q = \<lparr>ps_name = p, ps_object = PRED_OBJ_ID, ps_single_valued = False, ps_symmetric = False, ps_transitive = False,
                    ps_inverse_of = Some q, ps_mutex_with = []\<rparr>"


lemma demo_parse:
  "p \<noteq> [] \<Longrightarrow> q \<noteq> [] \<Longrightarrow> p \<noteq> q \<Longrightarrow> length p \<le> 64 \<Longrightarrow> parse_spec mem_ok (demo_declaration p q) = Inr (demo_spec p q)"
  by (simp add: demo_declaration_def parse_spec_def demo_spec_def known_key_def parse_object_def parse_cardinality_def parse_bool_def parse_inverse_def parse_mutex_def
      string_of_node_def cJSON_GetObjectItemCaseSensitive_def cJSON_IsString_def cJSON_IsObject_def has_type_def cjson_type_defs lit_def
      FACT_MAX_PREDICATE_LEN_def Let_def)

lemma demo_load:
  "predicate_registry_load (\<lambda>_. Some demo_tree) (Some []) True 0 0 mem_ok (\<lambda>_. mem_ok) =
     Inr \<lparr>pr_specs = [demo_spec (lit ''contains'') (lit ''part_of''), demo_spec (lit ''part_of'') (lit ''contains'')]\<rparr>"
    (is "_ = Inr ?r")
proof -
  have n: "lit ''part_of'' \<noteq> []" "lit ''contains'' \<noteq> []" "lit ''part_of'' \<noteq> lit ''contains''" "lit ''contains'' < lit ''part_of''"
    by (simp_all add: lit_def)
  have l: "length (lit ''part_of'') \<le> 64" "length (lit ''contains'') \<le> 64" by (simp_all add: lit_def)
  have p: "parse_specs (\<lambda>_. mem_ok) (cj_child demo_tree) 0 [] =
      Inr [demo_spec (lit ''part_of'') (lit ''contains''), demo_spec (lit ''contains'') (lit ''part_of'')]"
    using n(3) by (simp add: demo_tree_def demo_parse n l not_sym [OF n(3)])
  have g: "predicate_registry_get (Some ?r) (Some (lit ''contains'')) = Some (demo_spec (lit ''contains'') (lit ''part_of''))"
    "predicate_registry_get (Some ?r) (Some (lit ''part_of'')) = Some (demo_spec (lit ''part_of'') (lit ''contains''))"
    using n(4) by (simp_all add: predicate_registry_get_def registry_search.simps demo_spec_def)
  have v: "validate_refs ?r = None" by (simp add: validate_refs_def check_inverse_def demo_spec_def g [unfolded demo_spec_def])
  have s: "sort_key ps_name [demo_spec (lit ''part_of'') (lit ''contains''), demo_spec (lit ''contains'') (lit ''part_of'')] = pr_specs ?r"
    using n(4) by (auto simp: demo_spec_def)
  have d: "declared_twice (pr_specs ?r) = None" using n(3) by (simp add: demo_spec_def)
  have o: "cJSON_IsObject (Some demo_tree)" "length (cj_child demo_tree) = 2"
    by (simp_all add: demo_tree_def cJSON_IsObject_def has_type_def cjson_type_defs)
  have "registry_of_tree mem_ok (\<lambda>_. mem_ok) demo_tree = Inr ?r"
    unfolding registry_of_tree_def Let_def p and_then.simps o s using d v by (simp add: o FACT_MAX_PREDICATES_def)
  then show ?thesis by (simp add: predicate_registry_load_def)
qed

theorem registry_load_coherent_witness:
  "\<exists>r. predicate_registry_load (\<lambda>_. Some demo_tree) (Some []) True 0 0 mem_ok (\<lambda>_. mem_ok) = Inr r \<and> coherent r \<and>
     predicate_registry_count (Some r) = 2"
proof -
  have "length (cj_child demo_tree) = 2" by (simp add: demo_tree_def)
  then show ?thesis using registry_load_coherent [OF demo_load] demo_load by auto
qed

end
