(* ===== verification/Inference.thy ===== *)
theory Inference
  imports Infer_Tables Ordered_Lists Predicate_Registry
begin

text \<open>
  One pass of deterministic inference, the second half of \<^verbatim>\<open>src/src/query/inference.c\<close>: the three rules, the offer of a
  candidate, the caps, and the pass over all facts. Confidences are the bits of a float; multiplication and comparison of floats
  are arguments, and what is shown holds for every choice of them.

  Shown: a pass returns, concludes exactly what the rules allow from the part of the candidates it examined, all of
  them unless it says truncated, keeps for each conclusion the least four routes, and what it
  concludes does not depend on the order of the facts.
\<close>

section \<open>Data\<close>

record f32_ops =
  f32_mul :: "u32 \<Rightarrow> u32 \<Rightarrow> u32"
  f32_less :: "u32 \<Rightarrow> u32 \<Rightarrow> bool"

record InferFact =
  if_record_id :: u64
  if_subject :: u64
  if_predicate :: cstr
  if_object_kind :: FactKind
  if_object_id :: u64
  if_object_str :: "cstr option"
  if_depth :: u16
  if_confidence :: u32

text \<open>As in a stored route, \<open>ir_premises\<close> has the premises that count.\<close>

record InferRoute =
  ir_rule :: DerivRule
  ir_depth :: u16
  ir_premises :: "u64 list"
  ir_confidence :: u32

record InferConclusion =
  ic_routes :: "InferRoute list"
  ic_confidence :: u32
  ic_subject :: u64
  ic_predicate :: cstr
  ic_object_kind :: FactKind
  ic_object_id :: u64
  ic_object_str :: "cstr option"

record InferOpts =
  io_max_depth :: u16
  io_max_conclusions :: nat
  io_max_candidates :: nat
  io_start_index :: nat
  io_confidence_floor :: u32

record InferResult =
  ires_items :: "InferConclusion list"
  ires_truncated :: bool
  ires_candidates_examined :: nat
  ires_facts_scanned :: nat

definition INFER_DEFAULT_MAX_DEPTH :: u16 where
  "INFER_DEFAULT_MAX_DEPTH = 4"

text \<open>The bits of 0.1F.\<close>

definition INFER_DEFAULT_CONFIDENCE_FLOOR :: u32 where
  "INFER_DEFAULT_CONFIDENCE_FLOOR = 0x3DCCCCCD"

definition INFER_DEFAULT_MAX_CANDIDATES :: nat where
  "INFER_DEFAULT_MAX_CANDIDATES = 1000000"

definition no_result :: InferResult where
  "no_result = \<lparr>ires_items = [], ires_truncated = False, ires_candidates_examined = 0, ires_facts_scanned = 0\<rparr>"

section \<open>Routes\<close>

text \<open>The route, its confidence and the depth of its deepest premise.\<close>

definition route_of :: "f32_ops \<Rightarrow> DerivRule \<Rightarrow> InferFact \<Rightarrow> InferFact option \<Rightarrow> u32 \<Rightarrow> InferRoute \<times> u32 \<times> u16" where
  "route_of fo rule a bo flr =
     (let d = (case bo of None \<Rightarrow> if_depth a | Some b \<Rightarrow> if if_depth a < if_depth b then if_depth b else if_depth a);
          conf = (case bo of None \<Rightarrow> if_confidence a | Some b \<Rightarrow> f32_mul fo (if_confidence a) (if_confidence b));
          prem = (case bo of None \<Rightarrow> [if_record_id a] | Some b \<Rightarrow> [if_record_id a, if_record_id b])
      in (\<lparr>ir_rule = rule, ir_depth = 0, ir_premises = prem, ir_confidence = f32_zero\<rparr>,
          if f32_less fo conf flr then flr else conf, d))"

definition infer_route_cmp :: "InferRoute \<Rightarrow> InferRoute \<Rightarrow> int" where
  "infer_route_cmp a b =
     (let c = premises_cmp (ir_premises a) (ir_premises b)
      in if c \<noteq> 0 then c
         else if length (ir_premises a) \<noteq> length (ir_premises b)
         then if length (ir_premises a) < length (ir_premises b) then -1 else 1
         else if ir_rule a \<noteq> ir_rule b
         then if deriv_rule_code (ir_rule a) < deriv_rule_code (ir_rule b) then -1 else 1
         else 0)"

fun infer_route_pos :: "InferRoute \<Rightarrow> InferRoute list \<Rightarrow> nat \<Rightarrow> nat option" where
  "infer_route_pos rt [] i = Some i"
| "infer_route_pos rt (x # xs) i =
     (let c = infer_route_cmp rt x
      in if c = 0 then None else if c < 0 then Some i else infer_route_pos rt xs (i + 1))"

definition routes_insert :: "InferConclusion \<Rightarrow> InferRoute \<Rightarrow> InferConclusion" where
  "routes_insert c rt =
     (case infer_route_pos rt (ic_routes c) 0 of
        None \<Rightarrow> c
      | Some pos \<Rightarrow>
          if DERIV_MAX_ROUTES \<le> length (ic_routes c) then
            (if DERIV_MAX_ROUTES \<le> pos then c
             else c\<lparr>ic_routes := take DERIV_MAX_ROUTES (insert_at pos rt (ic_routes c))\<rparr>)
          else c\<lparr>ic_routes := insert_at pos rt (ic_routes c)\<rparr>)"

definition best_confidence :: "f32_ops \<Rightarrow> InferRoute list \<Rightarrow> u32" where
  "best_confidence fo rts = fold (\<lambda>rt best. if f32_less fo best (ir_confidence rt) then ir_confidence rt else best) rts f32_zero"

definition conclusion_confidence :: "f32_ops \<Rightarrow> InferConclusion \<Rightarrow> InferConclusion" where
  "conclusion_confidence fo c = c\<lparr>ic_confidence := best_confidence fo (ic_routes c)\<rparr>"

section \<open>The state of a pass\<close>

record OutBuf =
  ob_items :: "InferConclusion list"
  ob_cap :: nat

definition out_push :: "alloc \<Rightarrow> nat \<Rightarrow> OutBuf \<Rightarrow> InferConclusion \<Rightarrow> int \<times> OutBuf \<times> nat" where
  "out_push mem al ob c =
     (if length (ob_items ob) = ob_cap ob then
        (if \<not> mem al then (-1, ob, al + 1)
         else (0, ob\<lparr>ob_cap := (if ob_cap ob \<noteq> 0 then ob_cap ob * 2 else 16), ob_items := ob_items ob @ [c]\<rparr>, al + 1))
      else (0, ob\<lparr>ob_items := ob_items ob @ [c]\<rparr>, al))"

text \<open>\<open>ip_allocs\<close> counts the allocations made so far.\<close>

record InferPass =
  ip_out :: OutBuf
  ip_seen :: Seen
  ip_cands :: nat
  ip_stop :: bool
  ip_truncated :: bool
  ip_allocs :: nat

record InferLimits =
  il_max_depth :: u16
  il_max_conc :: nat
  il_max_cand :: nat
  il_floor :: u32

text \<open>The outer \<open>None\<close> is a lookup that would not end; a negative code abandons the pass.\<close>

definition offer ::
  "f32_ops \<Rightarrow> alloc \<Rightarrow> InferLimits \<Rightarrow> InferPass \<Rightarrow> u64 \<Rightarrow> cstr \<Rightarrow> FactKind \<Rightarrow> u64 \<Rightarrow> cstr option \<Rightarrow> InferRoute \<Rightarrow> u32 \<Rightarrow> u16 \<Rightarrow>
   (int \<times> InferPass) option" where
  "offer fo mem lim st subject predicate okind oid ostr rt conf deepest =
     (if il_max_depth lim \<le> deepest then Some (0, st)
      else let placed = rt\<lparr>ir_depth := deepest + 1, ir_confidence := conf\<rparr>
           in case seen_find (ip_seen st) subject predicate okind oid ostr of
                None \<Rightarrow> None
              | Some (Some slot) \<Rightarrow>
                  (case sn_out_idx slot of
                     None \<Rightarrow> Some (0, st)
                   | Some i \<Rightarrow>
                       let items = ob_items (ip_out st); cur = conclusion_confidence fo (routes_insert (items ! i) placed)
                       in Some (0, st\<lparr>ip_out := (ip_out st)\<lparr>ob_items := items[i := cur]\<rparr>\<rparr>))
              | Some None \<Rightarrow>
                  if il_max_conc lim \<noteq> 0 \<and> il_max_conc lim \<le> length (ob_items (ip_out st))
                  then Some (0, st\<lparr>ip_truncated := True, ip_stop := True\<rparr>)
                  else let rec = conclusion_confidence fo (routes_insert
                             \<lparr>ic_routes = [], ic_confidence = f32_zero, ic_subject = subject, ic_predicate = predicate,
                              ic_object_kind = okind, ic_object_id = oid, ic_object_str = ostr\<rparr> placed);
                           (rv, ob, al) = out_push mem (ip_allocs st) (ip_out st) rec
                       in if rv \<noteq> 0 then Some (-1, st\<lparr>ip_allocs := al\<rparr>)
                          else case seen_put mem al (ip_seen st) subject predicate okind oid ostr (Some (length (ob_items ob) - 1)) of
                                 None \<Rightarrow> None
                               | Some (rv2, seen, al2) \<Rightarrow>
                                   if rv2 < 0 then Some (-1, st\<lparr>ip_out := ob, ip_allocs := al2\<rparr>)
                                   else Some (1, st\<lparr>ip_out := ob, ip_seen := seen, ip_allocs := al2\<rparr>))"

section \<open>The pass\<close>

text \<open>Going on unless the step abandoned the pass.\<close>

definition go_on :: "(int \<times> 's) option \<Rightarrow> ('s \<Rightarrow> (int \<times> 's) option) \<Rightarrow> (int \<times> 's) option" where
  "go_on r f = (case r of None \<Rightarrow> None | Some (rv, st) \<Rightarrow> if rv < 0 then Some (rv, st) else f st)"

text \<open>What the three rules have in common: count the candidate, stop at the cap, build the route and offer it.\<close>

definition candidate ::
  "f32_ops \<Rightarrow> alloc \<Rightarrow> InferLimits \<Rightarrow> DerivRule \<Rightarrow> InferFact \<Rightarrow> InferFact option \<Rightarrow> u64 \<Rightarrow> cstr \<Rightarrow> u64 \<Rightarrow> InferPass \<Rightarrow>
   (int \<times> InferPass) option" where
  "candidate fo mem lim rule f go subject predicate oid st =
     (let st1 = st\<lparr>ip_cands := ip_cands st + 1\<rparr>
      in if il_max_cand lim < ip_cands st1 then Some (0, st1\<lparr>ip_truncated := True, ip_stop := True\<rparr>)
         else let (rt, conf, deepest) = route_of fo rule f go (il_floor lim)
              in offer fo mem lim st1 subject predicate FACT_OBJ_ID oid None rt conf deepest)"

fun infer_join ::
  "f32_ops \<Rightarrow> alloc \<Rightarrow> InferLimits \<Rightarrow> InferFact list \<Rightarrow> InferFact \<Rightarrow> nat list \<Rightarrow> InferPass \<Rightarrow> (int \<times> InferPass) option" where
  "infer_join fo mem lim facts f [] st = Some (0, st)"
| "infer_join fo mem lim facts f (j # js) st =
     (if ip_stop st then Some (0, st)
      else let g = facts ! j
           in go_on (candidate fo mem lim DERIV_TRANSITIVE f (Some g) (if_subject f) (if_predicate f) (if_object_id g) st)
                (infer_join fo mem lim facts f js))"

text \<open>One turn of the outer loop.\<close>

definition infer_fact ::
  "f32_ops \<Rightarrow> alloc \<Rightarrow> InferLimits \<Rightarrow> PredicateRegistry \<Rightarrow> InferFact list \<Rightarrow> Adj \<Rightarrow> InferFact \<Rightarrow> InferPass \<Rightarrow> (int \<times> InferPass) option" where
  "infer_fact fo mem lim reg facts adj f st =
     (if if_object_kind f \<noteq> FACT_OBJ_ID then Some (0, st)
      else case predicate_registry_get (Some reg) (Some (if_predicate f)) of
             None \<Rightarrow> Some (0, st)
           | Some spec \<Rightarrow>
               go_on (if ps_symmetric spec
                      then candidate fo mem lim DERIV_SYMMETRIC f None (if_object_id f) (if_predicate f) (if_subject f) st
                      else Some (0, st)) (\<lambda>st1.
               go_on (case ps_inverse_of spec of
                        None \<Rightarrow> Some (0, st1)
                      | Some q \<Rightarrow> if ip_stop st1 then Some (0, st1)
                                  else candidate fo mem lim DERIV_INVERSE f None (if_object_id f) q (if_subject f) st1) (\<lambda>st2.
                 if ps_transitive spec \<and> \<not> ip_stop st2 then
                   (case adj_get adj (if_object_id f) (if_predicate f) of
                      None \<Rightarrow> None
                    | Some next \<Rightarrow> infer_join fo mem lim facts f (case next of None \<Rightarrow> [] | Some s \<Rightarrow> aj_idx s) st2)
                 else Some (0, st2))))"

text \<open>The scan of the turns \<open>ks\<close>; the last component of the result is \<^verbatim>\<open>scanned\<close>.\<close>

fun infer_scan ::
  "f32_ops \<Rightarrow> alloc \<Rightarrow> InferLimits \<Rightarrow> PredicateRegistry \<Rightarrow> InferFact list \<Rightarrow> Adj \<Rightarrow> nat \<Rightarrow> nat list \<Rightarrow> InferPass \<Rightarrow> nat \<Rightarrow>
   (int \<times> InferPass \<times> nat) option" where
  "infer_scan fo mem lim reg facts adj start [] st scanned = Some (0, st, scanned)"
| "infer_scan fo mem lim reg facts adj start (k # ks) st scanned =
     (if ip_stop st then Some (0, st, scanned)
      else case infer_fact fo mem lim reg facts adj (facts ! ((start + k) mod length facts)) st of
             None \<Rightarrow> None
           | Some (rv, st1) \<Rightarrow>
               if rv < 0 then Some (rv, st1, k + 1)
               else infer_scan fo mem lim reg facts adj start ks st1 (k + 1))"

text \<open>Phase 1: every fact into the triple set, the joinable ones into the adjacency.\<close>

fun infer_index :: "alloc \<Rightarrow> InferFact list \<Rightarrow> nat \<Rightarrow> Seen \<Rightarrow> Adj \<Rightarrow> nat \<Rightarrow> (int \<times> Seen \<times> Adj \<times> nat) option" where
  "infer_index mem [] i seen adj al = Some (0, seen, adj, al)"
| "infer_index mem (f # fs) i seen adj al =
     (case seen_put mem al seen (if_subject f) (if_predicate f) (if_object_kind f) (if_object_id f) (if_object_str f) None of
        None \<Rightarrow> None
      | Some (rv, seen1, al1) \<Rightarrow>
          if rv < 0 then Some (-1, seen1, adj, al1)
          else if if_object_kind f = FACT_OBJ_ID then
            (case adj_add mem al1 adj (if_subject f) (if_predicate f) i of
               None \<Rightarrow> None
             | Some (rv2, adj1, al2) \<Rightarrow>
                 if rv2 \<noteq> 0 then Some (-1, seen1, adj1, al2) else infer_index mem fs (i + 1) seen1 adj1 al2)
          else infer_index mem fs (i + 1) seen1 adj al1)"

definition infer_limits :: "f32_ops \<Rightarrow> InferOpts option \<Rightarrow> InferLimits" where
  "infer_limits fo oo =
     \<lparr>il_max_depth = (case oo of None \<Rightarrow> INFER_DEFAULT_MAX_DEPTH
         | Some opts \<Rightarrow> if io_max_depth opts \<noteq> 0 then io_max_depth opts else INFER_DEFAULT_MAX_DEPTH),
      il_max_conc = (case oo of None \<Rightarrow> 0 | Some opts \<Rightarrow> io_max_conclusions opts),
      il_max_cand = (case oo of None \<Rightarrow> INFER_DEFAULT_MAX_CANDIDATES
         | Some opts \<Rightarrow> if io_max_candidates opts \<noteq> 0 then io_max_candidates opts else INFER_DEFAULT_MAX_CANDIDATES),
      il_floor = (case oo of None \<Rightarrow> INFER_DEFAULT_CONFIDENCE_FLOOR
         | Some opts \<Rightarrow> if f32_less fo f32_zero (io_confidence_floor opts) then io_confidence_floor opts else INFER_DEFAULT_CONFIDENCE_FLOOR)\<rparr>"

definition infer_run ::
  "f32_ops \<Rightarrow> alloc \<Rightarrow> InferFact list \<Rightarrow> PredicateRegistry option \<Rightarrow> InferOpts option \<Rightarrow> (int \<times> InferResult) option" where
  "infer_run fo mem facts ro oo =
     (if ro = None \<or> length facts = 0 then Some (0, no_result)
      else let lim = infer_limits fo oo; start = (case oo of None \<Rightarrow> 0 | Some opts \<Rightarrow> io_start_index opts mod length facts)
           in case infer_index mem facts 0 \<lparr>sn_slots = [], sn_n = 0\<rparr> \<lparr>aj_slots = [], aj_n = 0\<rparr> 0 of
                None \<Rightarrow> None
              | Some (rv, seen, adj, al) \<Rightarrow>
                  if rv \<noteq> 0 then Some (-1, no_result)
                  else let st = \<lparr>ip_out = \<lparr>ob_items = [], ob_cap = 0\<rparr>, ip_seen = seen, ip_cands = 0, ip_stop = False,
                                 ip_truncated = False, ip_allocs = al\<rparr>
                       in case infer_scan fo mem lim (the ro) facts adj start [0..<length facts] st 0 of
                            None \<Rightarrow> None
                          | Some (rv2, st2, scanned) \<Rightarrow>
                              if rv2 < 0 then Some (-1, no_result)
                              else Some (0, \<lparr>ires_items = ob_items (ip_out st2), ires_truncated = ip_truncated st2,
                                             ires_candidates_examined = ip_cands st2, ires_facts_scanned = scanned\<rparr>))"

section \<open>Routes as sorted lists\<close>

definition ir_key :: "InferRoute \<Rightarrow> u64 list \<times> nat" where
  "ir_key rt = (ir_premises rt, deriv_rule_code (ir_rule rt))"

lemma infer_route_cmp_iff:
  "infer_route_cmp a b < 0 \<longleftrightarrow> ir_key a < ir_key b"
  "infer_route_cmp a b = 0 \<longleftrightarrow> ir_key a = ir_key b"
  using premises_cmp_less [of "ir_premises a" "ir_premises b"]
  by (auto simp: infer_route_cmp_def ir_key_def Let_def less_prod_simp deriv_rule_code_inj)

lemma infer_route_pos_sorted:
  assumes "sorted (map ir_key rs)"
  shows "infer_route_pos rt rs i =
    (if ir_key rt \<in> ir_key ` set rs then None else Some (i + length (takeWhile (\<lambda>x. ir_key x < ir_key rt) rs)))"
  using assms
proof (induction rs arbitrary: i)
  case (Cons x xs)
  consider "ir_key rt = ir_key x" | "ir_key rt < ir_key x" | "ir_key x < ir_key rt" by (rule linorder_cases)
  then show ?case
  proof cases
    case 2
    then have "ir_key rt \<notin> ir_key ` set (x # xs)" using Cons.prems by (auto simp: image_iff)
    with 2 show ?thesis by (auto simp: Let_def infer_route_cmp_iff)
  next
    case 3
    then have "\<not> infer_route_cmp rt x < 0" "infer_route_cmp rt x \<noteq> 0" by (auto simp: infer_route_cmp_iff)
    with 3 Cons show ?thesis by (auto simp: Let_def)
  qed (simp add: Let_def infer_route_cmp_iff)
qed simp

definition routes_sorted :: "InferConclusion \<Rightarrow> bool" where
  "routes_sorted c \<longleftrightarrow> sorted (map ir_key (ic_routes c)) \<and> distinct (map ir_key (ic_routes c)) \<and> length (ic_routes c) \<le> DERIV_MAX_ROUTES"

lemma routes_insert_cap:
  assumes "routes_sorted c"
  shows "routes_insert c rt = c\<lparr>ic_routes := cap_insert DERIV_MAX_ROUTES ir_key rt (ic_routes c)\<rparr>"
proof -
  let ?rs = "ic_routes c" and ?at = "length (takeWhile (\<lambda>x. ir_key x < ir_key rt) (ic_routes c))"
  have s: "sorted (map ir_key ?rs)" and len: "length ?rs \<le> DERIV_MAX_ROUTES" using assms by (simp_all add: routes_sorted_def)
  have pos: "infer_route_pos rt ?rs 0 = (if ir_key rt \<in> ir_key ` set ?rs then None else Some ?at)"
    using infer_route_pos_sorted [OF s, of rt 0] by simp
  show ?thesis
  proof (cases "ir_key rt \<in> ir_key ` set ?rs")
    case True
    then show ?thesis using pos by (simp add: routes_insert_def cap_insert_def)
  next
    case False
    note ins = insort_split [OF s False]
    have at: "?at \<le> length ?rs" by (rule length_takeWhile_le)
    have "take DERIV_MAX_ROUTES (insort_key ir_key rt ?rs) = ?rs" if "DERIV_MAX_ROUTES \<le> length ?rs" "DERIV_MAX_ROUTES \<le> ?at"
      unfolding ins [symmetric] using that len at by (simp add: insert_at_def)
    moreover have "length ?rs < DERIV_MAX_ROUTES \<Longrightarrow> take DERIV_MAX_ROUTES (insort_key ir_key rt ?rs) = insort_key ir_key rt ?rs" by simp
    ultimately show ?thesis using False pos ins by (auto simp: routes_insert_def cap_insert_def)
  qed
qed

text \<open>Merging a route into a conclusion.\<close>

definition merge :: "f32_ops \<Rightarrow> InferConclusion \<Rightarrow> InferRoute \<Rightarrow> InferConclusion" where
  "merge fo c rt = conclusion_confidence fo (routes_insert c rt)"

lemma merge_eq:
  "routes_sorted c \<Longrightarrow> merge fo c rt =
     c\<lparr>ic_routes := cap_insert DERIV_MAX_ROUTES ir_key rt (ic_routes c),
       ic_confidence := best_confidence fo (cap_insert DERIV_MAX_ROUTES ir_key rt (ic_routes c))\<rparr>"
  by (simp add: merge_def conclusion_confidence_def routes_insert_cap)

lemma merge_sorted: "routes_sorted c \<Longrightarrow> routes_sorted (merge fo c rt)"
  using cap_insert_sorted [of ir_key "ic_routes c" DERIV_MAX_ROUTES rt] length_cap_insert [of "ic_routes c" DERIV_MAX_ROUTES ir_key rt]
  by (simp add: merge_eq) (simp add: routes_sorted_def)

section \<open>Candidates\<close>

record Cand =
  cd_rule :: DerivRule
  cd_f :: InferFact
  cd_g :: "InferFact option"
  cd_subject :: u64
  cd_predicate :: cstr
  cd_oid :: u64

definition cand_key :: "Cand \<Rightarrow> triple_id" where
  "cand_key c = triple_key (cd_subject c) (cd_predicate c) FACT_OBJ_ID (cd_oid c) None"

definition concl_key :: "InferConclusion \<Rightarrow> triple_id" where
  "concl_key c = triple_key (ic_subject c) (ic_predicate c) (ic_object_kind c) (ic_object_id c) (ic_object_str c)"

definition cand_depth :: "Cand \<Rightarrow> u16" where
  "cand_depth c = (case cd_g c of None \<Rightarrow> if_depth (cd_f c) | Some g \<Rightarrow> max (if_depth (cd_f c)) (if_depth g))"

definition cand_route :: "f32_ops \<Rightarrow> u32 \<Rightarrow> Cand \<Rightarrow> InferRoute" where
  "cand_route fo flr c =
     (let (rt, conf, d) = route_of fo (cd_rule c) (cd_f c) (cd_g c) flr in rt\<lparr>ir_depth := d + 1, ir_confidence := conf\<rparr>)"

lemma route_of_depth: "snd (snd (route_of fo rule f go flr)) = cand_depth \<lparr>cd_rule = rule, cd_f = f, cd_g = go, cd_subject = s, cd_predicate = p, cd_oid = i\<rparr>"
  by (auto simp: route_of_def cand_depth_def Let_def max_def split: option.split)

text \<open>A conclusion before its first route.\<close>

definition bare :: "Cand \<Rightarrow> InferConclusion" where
  "bare c = \<lparr>ic_routes = [], ic_confidence = f32_zero, ic_subject = cd_subject c, ic_predicate = cd_predicate c,
             ic_object_kind = FACT_OBJ_ID, ic_object_id = cd_oid c, ic_object_str = None\<rparr>"

text \<open>A candidate counts when its premises are shallow enough and the triple is not among the facts, whose keys are \<open>I\<close>.\<close>

definition admissible :: "InferLimits \<Rightarrow> triple_id set \<Rightarrow> Cand \<Rightarrow> bool" where
  "admissible lim I c \<longleftrightarrow> cand_depth c < il_max_depth lim \<and> cand_key c \<notin> I"

definition absorb :: "f32_ops \<Rightarrow> InferLimits \<Rightarrow> triple_id set \<Rightarrow> Cand \<Rightarrow> InferConclusion list \<Rightarrow> InferConclusion list" where
  "absorb fo lim I c out =
     (if \<not> admissible lim I c then out
      else if cand_key c \<in> concl_key ` set out
      then map (\<lambda>x. if concl_key x = cand_key c then merge fo x (cand_route fo (il_floor lim) c) else x) out
      else out @ [merge fo (bare c) (cand_route fo (il_floor lim) c)])"

text \<open>The caps: too many candidates, or a new conclusion when there are already enough.\<close>

definition capped :: "InferLimits \<Rightarrow> triple_id set \<Rightarrow> Cand \<Rightarrow> nat \<Rightarrow> InferConclusion list \<Rightarrow> bool" where
  "capped lim I c n out \<longleftrightarrow>
     il_max_cand lim < n + 1 \<or>
     admissible lim I c \<and> cand_key c \<notin> concl_key ` set out \<and> il_max_conc lim \<noteq> 0 \<and> il_max_conc lim \<le> length out"

fun examine :: "f32_ops \<Rightarrow> InferLimits \<Rightarrow> triple_id set \<Rightarrow> Cand list \<Rightarrow> InferConclusion list \<times> nat \<times> bool \<Rightarrow> InferConclusion list \<times> nat \<times> bool" where
  "examine fo lim I [] s = s"
| "examine fo lim I (c # cs) (out, n, halted) =
     (if halted then (out, n, halted)
      else if capped lim I c n out then (out, n + 1, True)
      else examine fo lim I cs (absorb fo lim I c out, n + 1, False))"

lemma examine_halted [simp]: "examine fo lim I cs (out, n, True) = (out, n, True)"
  by (cases cs) simp_all

lemma examine_append: "examine fo lim I (xs @ ys) s = examine fo lim I ys (examine fo lim I xs s)"
  by (induction fo lim I xs s rule: examine.induct) auto

text \<open>The state of a pass that has drawn the conclusions \<open>out\<close> from facts with the keys \<open>I\<close>.\<close>

definition pass_rel :: "triple_id set \<Rightarrow> InferConclusion list \<Rightarrow> InferPass \<Rightarrow> bool" where
  "pass_rel I out st \<longleftrightarrow>
     ob_items (ip_out st) = out \<and> seen_inv (ip_seen st) \<and> list_all routes_sorted out \<and>
     (\<forall>k \<in> I. seen_map (ip_seen st) k = Some None) \<and>
     (\<forall>i < length out. seen_map (ip_seen st) (concl_key (out ! i)) = Some (Some i)) \<and>
     (\<forall>k. k \<notin> I \<longrightarrow> k \<notin> concl_key ` set out \<longrightarrow> seen_map (ip_seen st) k = None)"

fun pass_state :: "triple_id set \<Rightarrow> InferConclusion list \<times> nat \<times> bool \<Rightarrow> InferPass \<Rightarrow> bool" where
  "pass_state I (out, n, halted) st \<longleftrightarrow> pass_rel I out st \<and> ip_cands st = n \<and> ip_stop st = halted \<and> ip_truncated st = halted"

lemma pass_rel_distinct:
  assumes "pass_rel I out st"
  shows "distinct (map concl_key out)" and "concl_key ` set out \<inter> I = {}"
proof -
  have m: "\<And>i. i < length out \<Longrightarrow> seen_map (ip_seen st) (concl_key (out ! i)) = Some (Some i)"
    and I: "\<And>k. k \<in> I \<Longrightarrow> seen_map (ip_seen st) k = Some None" using assms by (auto simp: pass_rel_def)
  show "distinct (map concl_key out)"
    unfolding distinct_conv_nth by (auto simp: m dest!: arg_cong [of _ _ "seen_map (ip_seen st)"])
  show "concl_key ` set out \<inter> I = {}"
  proof (rule ccontr)
    assume "concl_key ` set out \<inter> I \<noteq> {}"
    then obtain i where "i < length out" "concl_key (out ! i) \<in> I" by (auto simp: in_set_conv_nth)
    then show False using m [of i] I [of "concl_key (out ! i)"] by simp
  qed
qed

lemma pass_rel_frame [simp]:
  "pass_rel I out (st\<lparr>ip_cands := n\<rparr>) = pass_rel I out st" "pass_rel I out (st\<lparr>ip_stop := b\<rparr>) = pass_rel I out st"
  "pass_rel I out (st\<lparr>ip_truncated := b\<rparr>) = pass_rel I out st" "pass_rel I out (st\<lparr>ip_allocs := n\<rparr>) = pass_rel I out st"
  by (simp_all add: pass_rel_def)

lemma concl_key_merge [simp]: "routes_sorted c \<Longrightarrow> concl_key (merge fo c rt) = concl_key c"
  by (simp add: merge_eq concl_key_def)

lemma concl_key_bare [simp]: "concl_key (bare c) = cand_key c"
  by (simp add: concl_key_def cand_key_def bare_def)

lemma routes_sorted_bare [simp]: "routes_sorted (bare c)"
  by (simp add: routes_sorted_def bare_def)

lemma update_by_key:
  assumes "distinct (map f out)" and "i < length out"
  shows "map (\<lambda>x. if f x = f (out ! i) then g x else x) out = out[i := g (out ! i)]"
proof (rule nth_equalityI)
  fix j assume j: "j < length (map (\<lambda>x. if f x = f (out ! i) then g x else x) out)"
  have "f (out ! j) = f (out ! i) \<longleftrightarrow> j = i" using assms j nth_eq_iff_index_eq [OF assms(1), of j i] by simp
  then show "map (\<lambda>x. if f x = f (out ! i) then g x else x) out ! j = out[i := g (out ! i)] ! j" using j assms(2) by auto
qed simp

text \<open>Storing a merged conclusion, and appending a new one.\<close>

lemma pass_rel_update:
  assumes "pass_rel I out st" and "i < length out"
  shows "pass_rel I (out[i := merge fo (out ! i) rt]) (st\<lparr>ip_out := (ip_out st)\<lparr>ob_items := out[i := merge fo (out ! i) rt]\<rparr>\<rparr>)"
proof -
  let ?o = "out[i := merge fo (out ! i) rt]"
  have s: "routes_sorted (out ! i)" using assms by (simp add: pass_rel_def list_all_length)
  have k: "concl_key (?o ! j) = concl_key (out ! j)" if "j < length out" for j
    using s that by (cases "j = i") simp_all
  then have "map concl_key ?o = map concl_key out" by (intro nth_equalityI) simp_all
  then have "concl_key ` set ?o = concl_key ` set out" by (metis set_map)
  moreover have "list_all routes_sorted ?o"
    using assms merge_sorted [OF s] by (auto simp: pass_rel_def list_all_iff dest!: set_update_subset_insert [THEN subsetD])
  ultimately show ?thesis using assms k by (simp add: pass_rel_def)
qed

lemma pass_rel_push:
  assumes "pass_rel I out st" and "cand_key c \<notin> I" and "cand_key c \<notin> concl_key ` set out"
    and "seen_inv t" and "seen_map t = (seen_map (ip_seen st))(cand_key c \<mapsto> Some (length out))" and "ob_items ob = out @ [merge fo (bare c) rt]"
  shows "pass_rel I (out @ [merge fo (bare c) rt]) (st\<lparr>ip_out := ob, ip_seen := t, ip_allocs := al\<rparr>)"
proof -
  have "concl_key (out ! i) \<noteq> cand_key c" if "i < length out" for i using assms(3) nth_mem [OF that] by force
  then show ?thesis using assms merge_sorted [OF routes_sorted_bare, of fo c rt]
    by (auto simp: pass_rel_def nth_append less_Suc_eq)
qed

text \<open>The branch of an offer that records a new conclusion.\<close>

lemma offer_new:
  assumes rel: "pass_rel I out st" and new: "cand_key c \<notin> I" "cand_key c \<notin> concl_key ` set out"
    and k: "cand_key c = triple_key (cd_subject c) (cd_predicate c) FACT_OBJ_ID (cd_oid c) None"
    and lim: "\<not> il_max_depth lim \<le> d" "\<not> (il_max_conc lim \<noteq> 0 \<and> il_max_conc lim \<le> length out)"
    and placed: "placed = rt\<lparr>ir_depth := d + 1, ir_confidence := conf\<rparr>"
  shows "\<exists>rv st'. offer fo mem lim st (cd_subject c) (cd_predicate c) FACT_OBJ_ID (cd_oid c) None rt conf d = Some (rv, st') \<and>
    (rv < 0 \<and> (\<exists>n. \<not> mem n) \<or>
     0 \<le> rv \<and> pass_rel I (out @ [merge fo (bare c) placed]) st' \<and> ip_cands st' = ip_cands st \<and> ip_stop st' = ip_stop st \<and>
     ip_truncated st' = ip_truncated st)"
proof -
  let ?rec = "merge fo (bare c) placed"
  have inv: "seen_inv (ip_seen st)" and items: "ob_items (ip_out st) = out" using rel by (simp_all add: pass_rel_def)
  have "seen_map (ip_seen st) (cand_key c) = None" using rel new unfolding pass_rel_def by blast
  then have none: "seen_slot (ip_seen st) (cand_key c) = None" by (simp add: seen_map_def)
  have find: "seen_find (ip_seen st) (cd_subject c) (cd_predicate c) FACT_OBJ_ID (cd_oid c) None = Some None"
    using seen_find_ok [OF inv _ k] none by simp
  obtain rv ob al where push: "out_push mem (ip_allocs st) (ip_out st) ?rec = (rv, ob, al)"
    by (cases "out_push mem (ip_allocs st) (ip_out st) ?rec")
  have offer: "offer fo mem lim st (cd_subject c) (cd_predicate c) FACT_OBJ_ID (cd_oid c) None rt conf d =
      (if rv \<noteq> 0 then Some (-1, st\<lparr>ip_allocs := al\<rparr>)
       else case seen_put mem al (ip_seen st) (cd_subject c) (cd_predicate c) FACT_OBJ_ID (cd_oid c) None (Some (length (ob_items ob) - 1)) of
              None \<Rightarrow> None
            | Some (rv2, seen, al2) \<Rightarrow> if rv2 < 0 then Some (-1, st\<lparr>ip_out := ob, ip_allocs := al2\<rparr>)
                                      else Some (1, st\<lparr>ip_out := ob, ip_seen := seen, ip_allocs := al2\<rparr>))"
    using lim find items push by (auto simp: offer_def Let_def merge_def placed bare_def)
  show ?thesis
  proof (cases "rv = 0")
    case False
    then have "\<not> mem (ip_allocs st)" using push by (auto simp: out_push_def split: if_splits)
    with False offer show ?thesis by auto
  next
    case True
    then have ob: "ob_items ob = out @ [?rec]" using push items by (auto simp: out_push_def split: if_splits)
    obtain rv2 t al2 where put: "seen_put mem al (ip_seen st) (cd_subject c) (cd_predicate c) FACT_OBJ_ID (cd_oid c) None
        (Some (length (ob_items ob) - 1)) = Some (rv2, t, al2)"
      and r: "rv2 < 0 \<and> \<not> mem al \<or> 0 \<le> rv2 \<and> seen_inv t \<and> seen_map t = (if cand_key c \<in> dom (seen_map (ip_seen st)) then seen_map (ip_seen st)
         else (seen_map (ip_seen st))(cand_key c \<mapsto> Some (length (ob_items ob) - 1)))"
      using seen_put_ok [OF inv _ k, of mem al "Some (length (ob_items ob) - 1)"] by auto
    show ?thesis
    proof (cases "rv2 < 0")
      case neg: True
      then have "\<not> mem al" using r by auto
      with neg True put offer show ?thesis by auto
    next
      case False
      have "cand_key c \<notin> dom (seen_map (ip_seen st))" using none by (simp add: seen_map_def dom_def)
      then have "seen_inv t" "seen_map t = (seen_map (ip_seen st))(cand_key c \<mapsto> Some (length out))" using r False by (simp_all add: ob)
      from pass_rel_push [OF rel new this ob, of al2] False True put offer show ?thesis by simp
    qed
  qed
qed

lemma candidate_step:
  assumes rel: "pass_rel I out st" and c: "c = \<lparr>cd_rule = rule, cd_f = f, cd_g = go, cd_subject = subject, cd_predicate = predicate, cd_oid = oid\<rparr>"
  shows "\<exists>rv st'. candidate fo mem lim rule f go subject predicate oid st = Some (rv, st') \<and>
    (rv < 0 \<and> (\<exists>n. \<not> mem n) \<or>
     0 \<le> rv \<and> ip_cands st' = ip_cands st + 1 \<and>
     (if capped lim I c (ip_cands st) out then pass_rel I out st' \<and> ip_stop st' \<and> ip_truncated st'
      else pass_rel I (absorb fo lim I c out) st' \<and> ip_stop st' = ip_stop st \<and> ip_truncated st' = ip_truncated st))"
proof -
  define st1 where "st1 = st\<lparr>ip_cands := ip_cands st + 1\<rparr>"
  obtain rt conf d where ro: "route_of fo rule f go (il_floor lim) = (rt, conf, d)" by (cases "route_of fo rule f go (il_floor lim)")
  define placed where "placed = rt\<lparr>ir_depth := d + 1, ir_confidence := conf\<rparr>"
  have d: "d = cand_depth c" using route_of_depth [of fo rule f go "il_floor lim" subject predicate oid] ro by (simp add: c)
  have pl: "cand_route fo (il_floor lim) c = placed" by (simp add: cand_route_def c ro placed_def)
  have rel1: "pass_rel I out st1" using rel by (simp add: st1_def)
  have k: "cand_key c = triple_key (cd_subject c) (cd_predicate c) FACT_OBJ_ID (cd_oid c) None" by (simp add: cand_key_def)
  have find: "seen_find (ip_seen st1) subject predicate FACT_OBJ_ID oid None = Some (seen_slot (ip_seen st1) (cand_key c))"
    using rel1 k by (intro seen_find_ok) (simp_all add: pass_rel_def c)
  have off: "candidate fo mem lim rule f go subject predicate oid st =
      (if il_max_cand lim < ip_cands st + 1 then Some (0, st1\<lparr>ip_truncated := True, ip_stop := True\<rparr>)
       else offer fo mem lim st1 subject predicate FACT_OBJ_ID oid None rt conf d)"
    by (simp add: candidate_def ro st1_def Let_def)
  consider (cands) "il_max_cand lim < ip_cands st + 1"
    | (deep) "\<not> il_max_cand lim < ip_cands st + 1" "il_max_depth lim \<le> d"
    | (fact) "\<not> il_max_cand lim < ip_cands st + 1" "\<not> il_max_depth lim \<le> d" "cand_key c \<in> I"
    | (known) i where "\<not> il_max_cand lim < ip_cands st + 1" "\<not> il_max_depth lim \<le> d" "cand_key c \<notin> I" "i < length out" "concl_key (out ! i) = cand_key c"
    | (new) "\<not> il_max_cand lim < ip_cands st + 1" "\<not> il_max_depth lim \<le> d" "cand_key c \<notin> I" "cand_key c \<notin> concl_key ` set out"
    by (metis image_iff in_set_conv_nth)
  then show ?thesis
  proof cases
    case cands
    then show ?thesis using off rel1 by (simp add: capped_def st1_def)
  next
    case deep
    then have "\<not> admissible lim I c" by (auto simp: admissible_def d)
    with deep show ?thesis using off rel1 by (simp add: capped_def absorb_def offer_def st1_def)
  next
    case fact
    then have "\<not> admissible lim I c" by (simp add: admissible_def)
    moreover obtain slot where "seen_slot (ip_seen st1) (cand_key c) = Some slot" "sn_out_idx slot = None"
      using rel1 fact(3) by (auto simp: pass_rel_def seen_map_def)
    ultimately show ?thesis using off fact rel1 find by (simp add: capped_def absorb_def offer_def st1_def Let_def)
  next
    case (known i)
    then have ad: "admissible lim I c" by (auto simp: admissible_def d)
    obtain slot where slot: "seen_slot (ip_seen st1) (cand_key c) = Some slot" "sn_out_idx slot = Some i"
      using rel1 known(4,5) by (auto simp: pass_rel_def seen_map_def)
    have items: "ob_items (ip_out st1) = out" using rel1 by (simp add: pass_rel_def)
    have mem: "cand_key c \<in> concl_key ` set out" using known(4,5) nth_mem by (metis image_eqI)
    have ab: "absorb fo lim I c out = out[i := merge fo (out ! i) placed]"
      using update_by_key [OF pass_rel_distinct(1) [OF rel1] known(4), of "\<lambda>x. merge fo x placed"] ad mem
      unfolding absorb_def pl known(5) by simp
    have "offer fo mem lim st1 subject predicate FACT_OBJ_ID oid None rt conf d =
        Some (0, st1\<lparr>ip_out := (ip_out st1)\<lparr>ob_items := out[i := merge fo (out ! i) placed]\<rparr>\<rparr>)"
      using known find slot items by (simp add: offer_def Let_def merge_def placed_def)
    moreover have "\<not> capped lim I c (ip_cands st) out" using known(1) mem by (simp add: capped_def)
    ultimately show ?thesis using off known(1) pass_rel_update [OF rel1 known(4), of fo placed] by (simp add: ab st1_def)
  next
    case new
    then have ad: "admissible lim I c" by (auto simp: admissible_def d)
    have "seen_map (ip_seen st1) (cand_key c) = None" using rel1 new unfolding pass_rel_def by blast
    then have none: "seen_slot (ip_seen st1) (cand_key c) = None" by (simp add: seen_map_def)
    have items: "ob_items (ip_out st1) = out" using rel1 by (simp add: pass_rel_def)
    show ?thesis
    proof (cases "il_max_conc lim \<noteq> 0 \<and> il_max_conc lim \<le> length out")
      case True
      then show ?thesis using off new ad find none items rel1 by (simp add: offer_def capped_def st1_def Let_def)
    next
      case False
      have "absorb fo lim I c out = out @ [merge fo (bare c) placed]" using ad new by (simp add: absorb_def pl)
      moreover have "\<not> capped lim I c (ip_cands st) out" using new False by (auto simp: capped_def)
      ultimately show ?thesis
        using offer_new [OF rel1 new(3,4) k new(2) False placed_def, of fo mem] off new(1) by (auto simp: st1_def c)
    qed
  qed
qed

section \<open>The scan is the examination of the candidates\<close>

text \<open>A piece of the scan that examines the candidates \<open>cs\<close> in order.\<close>

definition performs ::
  "f32_ops \<Rightarrow> alloc \<Rightarrow> InferLimits \<Rightarrow> triple_id set \<Rightarrow> (InferPass \<Rightarrow> (int \<times> InferPass) option) \<Rightarrow> Cand list \<Rightarrow> bool" where
  "performs fo mem lim I F cs \<longleftrightarrow>
     (\<forall>s st. pass_state I s st \<longrightarrow> (\<exists>rv st'. F st = Some (rv, st') \<and>
        (rv < 0 \<and> (\<exists>n. \<not> mem n) \<or> 0 \<le> rv \<and> pass_state I (examine fo lim I cs s) st')))"

lemma performs_none: "performs fo mem lim I (\<lambda>st. Some (0, st)) []"
  by (simp add: performs_def)

lemma performs_seq:
  assumes "performs fo mem lim I F xs" and "performs fo mem lim I G ys"
  shows "performs fo mem lim I (\<lambda>st. go_on (F st) G) (xs @ ys)"
  unfolding performs_def
proof (intro allI impI)
  fix s st assume st: "pass_state I s st"
  from assms(1) st obtain rv st1 where F: "F st = Some (rv, st1)" and r: "rv < 0 \<and> (\<exists>n. \<not> mem n) \<or> 0 \<le> rv \<and> pass_state I (examine fo lim I xs s) st1"
    unfolding performs_def by blast
  show "\<exists>rv st'. go_on (F st) G = Some (rv, st') \<and>
      (rv < 0 \<and> (\<exists>n. \<not> mem n) \<or> 0 \<le> rv \<and> pass_state I (examine fo lim I (xs @ ys) s) st')"
  proof (cases "rv < 0")
    case True
    then show ?thesis using F r by (auto simp: go_on_def)
  next
    case False
    then have "pass_state I (examine fo lim I xs s) st1" using r by simp
    with assms(2) have "\<exists>rv st'. G st1 = Some (rv, st') \<and>
        (rv < 0 \<and> (\<exists>n. \<not> mem n) \<or> 0 \<le> rv \<and> pass_state I (examine fo lim I ys (examine fo lim I xs s)) st')"
      unfolding performs_def by blast
    then show ?thesis using F False by (simp add: go_on_def examine_append)
  qed
qed

text \<open>A guard on \<open>ip_stop\<close> is harmless, and a piece that runs only before the stop needs to be right only then.\<close>

lemma performs_guard:
  assumes "\<And>out n st. pass_state I (out, n, False) st \<Longrightarrow> \<exists>rv st'. F st = Some (rv, st') \<and>
      (rv < 0 \<and> (\<exists>n. \<not> mem n) \<or> 0 \<le> rv \<and> pass_state I (examine fo lim I cs (out, n, False)) st')"
  shows "performs fo mem lim I (\<lambda>st. if ip_stop st then Some (0, st) else F st) cs"
  unfolding performs_def
proof (intro allI impI)
  fix s st assume st: "pass_state I s st"
  obtain out n h where s: "s = (out, n, h)" by (cases s)
  show "\<exists>rv st'. (if ip_stop st then Some (0, st) else F st) = Some (rv, st') \<and>
      (rv < 0 \<and> (\<exists>n. \<not> mem n) \<or> 0 \<le> rv \<and> pass_state I (examine fo lim I cs s) st')"
  proof (cases h)
    case True
    then show ?thesis using st s by simp
  next
    case False
    then show ?thesis using assms [of out n st] st s by simp
  qed
qed

lemma performs_add_guard:
  assumes "performs fo mem lim I F cs"
  shows "performs fo mem lim I (\<lambda>st. if ip_stop st then Some (0, st) else F st) cs"
  using assms by (intro performs_guard) (simp only: performs_def)

lemma performs_unguarded:
  assumes "performs fo mem lim I (\<lambda>st. if ip_stop st then Some (0, st) else F st) cs" and "pass_state I (out, n, False) st"
  shows "\<exists>rv st'. F st = Some (rv, st') \<and> (rv < 0 \<and> (\<exists>n. \<not> mem n) \<or> 0 \<le> rv \<and> pass_state I (examine fo lim I cs (out, n, False)) st')"
proof -
  have "\<not> ip_stop st" using assms(2) by simp
  then show ?thesis using assms unfolding performs_def by fastforce
qed

definition mk_cand :: "DerivRule \<Rightarrow> InferFact \<Rightarrow> InferFact option \<Rightarrow> u64 \<Rightarrow> cstr \<Rightarrow> u64 \<Rightarrow> Cand" where
  "mk_cand rule f go subject predicate oid =
     \<lparr>cd_rule = rule, cd_f = f, cd_g = go, cd_subject = subject, cd_predicate = predicate, cd_oid = oid\<rparr>"

lemma performs_candidate:
  "performs fo mem lim I (\<lambda>st. if ip_stop st then Some (0, st) else candidate fo mem lim rule f go subject predicate oid st)
     [mk_cand rule f go subject predicate oid]"
proof (rule performs_guard)
  fix out n st assume st: "pass_state I (out, n, False) st"
  from st have "pass_rel I out st" by simp
  from candidate_step [OF this mk_cand_def, where fo = fo and mem = mem and lim = lim] st
  show "\<exists>rv st'. candidate fo mem lim rule f go subject predicate oid st = Some (rv, st') \<and>
      (rv < 0 \<and> (\<exists>n. \<not> mem n) \<or> 0 \<le> rv \<and> pass_state I (examine fo lim I [mk_cand rule f go subject predicate oid] (out, n, False)) st')"
    by (fastforce split: if_splits)
qed

lemma performs_join:
  "performs fo mem lim I (infer_join fo mem lim facts f js)
     (map (\<lambda>j. mk_cand DERIV_TRANSITIVE f (Some (facts ! j)) (if_subject f) (if_predicate f) (if_object_id (facts ! j))) js)"
proof (induction js)
  case Nil
  then show ?case by (simp add: performs_def)
next
  case (Cons j js)
  let ?F = "candidate fo mem lim DERIV_TRANSITIVE f (Some (facts ! j)) (if_subject f) (if_predicate f) (if_object_id (facts ! j))"
  let ?c = "mk_cand DERIV_TRANSITIVE f (Some (facts ! j)) (if_subject f) (if_predicate f) (if_object_id (facts ! j))"
  let ?cs = "map (\<lambda>j. mk_cand DERIV_TRANSITIVE f (Some (facts ! j)) (if_subject f) (if_predicate f) (if_object_id (facts ! j))) js"
  have "performs fo mem lim I (\<lambda>st. go_on (if ip_stop st then Some (0, st) else ?F st) (infer_join fo mem lim facts f js)) ([?c] @ ?cs)"
    by (rule performs_seq [OF performs_candidate Cons.IH])
  then have "performs fo mem lim I (\<lambda>st. if ip_stop st then Some (0, st) else go_on (?F st) (infer_join fo mem lim facts f js)) (?c # ?cs)"
    by (intro performs_guard) (fastforce simp: performs_def)
  moreover have "infer_join fo mem lim facts f (j # js) = (\<lambda>st. if ip_stop st then Some (0, st) else go_on (?F st) (infer_join fo mem lim facts f js))"
    by (rule ext) (simp add: Let_def)
  ultimately show ?case by simp
qed

text \<open>The candidates of a fact, and of a scan from \<open>start\<close>.\<close>

definition partners :: "InferFact list \<Rightarrow> u64 \<Rightarrow> cstr \<Rightarrow> nat list" where
  "partners facts subject predicate =
     filter (\<lambda>i. if_object_kind (facts ! i) = FACT_OBJ_ID \<and> if_subject (facts ! i) = subject \<and> if_predicate (facts ! i) = predicate)
       [0..<length facts]"

definition fact_cands :: "PredicateRegistry \<Rightarrow> InferFact list \<Rightarrow> InferFact \<Rightarrow> Cand list" where
  "fact_cands reg facts f =
     (if if_object_kind f \<noteq> FACT_OBJ_ID then []
      else case predicate_registry_get (Some reg) (Some (if_predicate f)) of
             None \<Rightarrow> []
           | Some spec \<Rightarrow>
               (if ps_symmetric spec then [mk_cand DERIV_SYMMETRIC f None (if_object_id f) (if_predicate f) (if_subject f)] else []) @
               (case ps_inverse_of spec of None \<Rightarrow> []
                | Some q \<Rightarrow> [mk_cand DERIV_INVERSE f None (if_object_id f) q (if_subject f)]) @
               (if ps_transitive spec
                then map (\<lambda>j. mk_cand DERIV_TRANSITIVE f (Some (facts ! j)) (if_subject f) (if_predicate f) (if_object_id (facts ! j)))
                       (partners facts (if_object_id f) (if_predicate f)) else []))"

definition all_cands :: "PredicateRegistry \<Rightarrow> InferFact list \<Rightarrow> nat \<Rightarrow> Cand list" where
  "all_cands reg facts start = concat (map (\<lambda>k. fact_cands reg facts (facts ! ((start + k) mod length facts))) [0..<length facts])"

lemma performs_if: "(b \<Longrightarrow> performs fo mem lim I F cs) \<Longrightarrow>
   performs fo mem lim I (\<lambda>st. if b then F st else Some (0, st)) (if b then cs else [])"
  by (cases b) (simp_all add: performs_none)

lemma performs_cong: "(\<And>st. ip_stop st = False \<Longrightarrow> F st = G st) \<Longrightarrow> 
   performs fo mem lim I (\<lambda>st. if ip_stop st then Some (0, st) else F st) cs = performs fo mem lim I (\<lambda>st. if ip_stop st then Some (0, st) else G st) cs"
  by (rule arg_cong [of _ _ "\<lambda>H. performs fo mem lim I H cs"]) auto

lemma performs_fact:
  assumes adj: "adj_inv adj" "\<And>s p. adj_list adj (s, p) = partners facts s p"
  shows "performs fo mem lim I (\<lambda>st. if ip_stop st then Some (0, st) else infer_fact fo mem lim reg facts adj f st) (fact_cands reg facts f)"
proof (cases "if_object_kind f \<noteq> FACT_OBJ_ID \<or> predicate_registry_get (Some reg) (Some (if_predicate f)) = None")
  case True
  then have "infer_fact fo mem lim reg facts adj f = (\<lambda>st. Some (0, st))" "fact_cands reg facts f = []"
    by (auto simp: infer_fact_def fact_cands_def)
  then show ?thesis by (simp add: performs_def)
next
  case False
  then obtain spec where k: "if_object_kind f = FACT_OBJ_ID" and spec: "predicate_registry_get (Some reg) (Some (if_predicate f)) = Some spec" by auto
  let ?g = "\<lambda>F st. if ip_stop st then Some (0, st) else F st"
  let ?S = "?g (candidate fo mem lim DERIV_SYMMETRIC f None (if_object_id f) (if_predicate f) (if_subject f))"
  let ?V = "\<lambda>q. ?g (candidate fo mem lim DERIV_INVERSE f None (if_object_id f) q (if_subject f))"
  let ?J = "\<lambda>st. if ps_transitive spec then infer_join fo mem lim facts f (partners facts (if_object_id f) (if_predicate f)) st else Some (0, st)"
  let ?js = "map (\<lambda>j. mk_cand DERIV_TRANSITIVE f (Some (facts ! j)) (if_subject f) (if_predicate f) (if_object_id (facts ! j)))
    (partners facts (if_object_id f) (if_predicate f))"
  obtain nxt where nx: "adj_get adj (if_object_id f) (if_predicate f) = Some nxt"
    "(case nxt of None \<Rightarrow> [] | Some s \<Rightarrow> aj_idx s) = partners facts (if_object_id f) (if_predicate f)"
    using adj_get_ok [OF adj(1), of "if_object_id f" "if_predicate f"] adj(2) by auto
  have p1: "performs fo mem lim I (\<lambda>st. if ps_symmetric spec then ?S st else Some (0, st))
      (if ps_symmetric spec then [mk_cand DERIV_SYMMETRIC f None (if_object_id f) (if_predicate f) (if_subject f)] else [])"
    by (rule performs_if, rule performs_candidate)
  have p2: "performs fo mem lim I (\<lambda>st. case ps_inverse_of spec of None \<Rightarrow> Some (0, st) | Some q \<Rightarrow> ?V q st)
      (case ps_inverse_of spec of None \<Rightarrow> [] | Some q \<Rightarrow> [mk_cand DERIV_INVERSE f None (if_object_id f) q (if_subject f)])"
    by (cases "ps_inverse_of spec") (simp_all add: performs_none performs_candidate)
  have p3: "performs fo mem lim I ?J (if ps_transitive spec then ?js else [])" by (rule performs_if, rule performs_join)
  have stop: "ip_stop st \<Longrightarrow> infer_join fo mem lim facts f js st = Some (0, st)" for st js by (cases js) simp_all
  have "performs fo mem lim I (\<lambda>st. go_on (if ps_symmetric spec then ?S st else Some (0, st)) (\<lambda>st1.
      go_on (case ps_inverse_of spec of None \<Rightarrow> Some (0, st1) | Some q \<Rightarrow> ?V q st1) ?J)) (fact_cands reg facts f)"
    unfolding fact_cands_def using k spec performs_seq [OF p1 performs_seq [OF p2 p3]] by simp
  then have "performs fo mem lim I (?g (\<lambda>st. go_on (if ps_symmetric spec then ?S st else Some (0, st)) (\<lambda>st1.
      go_on (case ps_inverse_of spec of None \<Rightarrow> Some (0, st1) | Some q \<Rightarrow> ?V q st1) ?J))) (fact_cands reg facts f)"
    by (rule performs_add_guard)
  moreover have "infer_fact fo mem lim reg facts adj f st = go_on (if ps_symmetric spec then ?S st else Some (0, st)) (\<lambda>st1.
      go_on (case ps_inverse_of spec of None \<Rightarrow> Some (0, st1) | Some q \<Rightarrow> ?V q st1) ?J)" if "ip_stop st = False" for st
  proof -
    have e: "(if ps_transitive spec \<and> \<not> ip_stop st2 then infer_join fo mem lim facts f (partners facts (if_object_id f) (if_predicate f)) st2
        else Some (0, st2)) = ?J st2" for st2 using stop by auto
    show ?thesis unfolding infer_fact_def spec nx(1) option.case nx(2) e using k that by simp
  qed
  ultimately show ?thesis using performs_cong [of "infer_fact fo mem lim reg facts adj f"] by simp
qed

lemma infer_scan_performs:
  assumes adj: "adj_inv adj" "\<And>s p. adj_list adj (s, p) = partners facts s p" and "pass_state I s st"
  shows "\<exists>rv st' sc. infer_scan fo mem lim reg facts adj start ks st scanned = Some (rv, st', sc) \<and>
    (rv < 0 \<and> (\<exists>n. \<not> mem n) \<or>
     0 \<le> rv \<and> pass_state I (examine fo lim I (concat (map (\<lambda>k. fact_cands reg facts (facts ! ((start + k) mod length facts))) ks)) s) st')"
  using assms(3)
proof (induction ks arbitrary: s st scanned)
  case (Cons k ks)
  let ?f = "facts ! ((start + k) mod length facts)"
  obtain out n h where s: "s = (out, n, h)" by (cases s)
  show ?case
  proof (cases "ip_stop st")
    case True
    then show ?thesis using Cons.prems s by auto
  next
    case False
    then have h: "h = False" using Cons.prems s by simp
    from performs_unguarded [OF performs_fact [OF adj]] Cons.prems obtain rv st1 where
      f: "infer_fact fo mem lim reg facts adj ?f st = Some (rv, st1)"
      and r: "rv < 0 \<and> (\<exists>n. \<not> mem n) \<or> 0 \<le> rv \<and> pass_state I (examine fo lim I (fact_cands reg facts ?f) s) st1"
      unfolding s h by blast
    show ?thesis
    proof (cases "rv < 0")
      case True
      then show ?thesis using f r False by auto
    next
      case nn: False
      then have "pass_state I (examine fo lim I (fact_cands reg facts ?f) s) st1" using r by simp
      from Cons.IH [OF this, of "k + 1"] show ?thesis using f nn False by (simp add: examine_append)
    qed
  qed
qed simp

section \<open>Phase 1\<close>

definition fact_key :: "InferFact \<Rightarrow> triple_id" where
  "fact_key f = triple_key (if_subject f) (if_predicate f) (if_object_kind f) (if_object_id f) (if_object_str f)"

text \<open>A fact whose object is not a record has the object's text.\<close>

definition facts_ok :: "InferFact list \<Rightarrow> bool" where
  "facts_ok facts \<longleftrightarrow> (\<forall>f \<in> set facts. if_object_kind f = FACT_OBJ_ID \<or> if_object_str f \<noteq> None)"

lemma infer_index_ok:
  assumes "facts_ok fs" and "seen_inv seen" and "adj_inv adj" and "\<And>k. seen_map seen k = (if k \<in> fact_key ` set pre then Some None else None)"
    and "\<And>s p. adj_list adj (s, p) = partners pre s p" and "i = length pre"
  shows "\<exists>rv seen' adj' al'. infer_index mem fs i seen adj al = Some (rv, seen', adj', al') \<and>
    (rv \<noteq> 0 \<and> (\<exists>n. \<not> mem n) \<or>
     rv = 0 \<and> seen_inv seen' \<and> adj_inv adj' \<and> (\<forall>k. seen_map seen' k = (if k \<in> fact_key ` set (pre @ fs) then Some None else None)) \<and>
     (\<forall>s p. adj_list adj' (s, p) = partners (pre @ fs) s p))"
  using assms
proof (induction fs arbitrary: pre i seen adj al)
  case Nil
  then show ?case by auto
next
  case (Cons f fs)
  have ok: "if_object_kind f = FACT_OBJ_ID \<or> if_object_str f \<noteq> None" "facts_ok fs" using Cons.prems(1) by (auto simp: facts_ok_def)
  obtain rv seen1 al1 where put: "seen_put mem al seen (if_subject f) (if_predicate f) (if_object_kind f) (if_object_id f) (if_object_str f) None =
      Some (rv, seen1, al1)"
    and r: "rv < 0 \<and> \<not> mem al \<or> 0 \<le> rv \<and> seen_inv seen1 \<and> seen_map seen1 =
      (if fact_key f \<in> dom (seen_map seen) then seen_map seen else (seen_map seen)(fact_key f \<mapsto> None))"
    using seen_put_ok [OF Cons.prems(2) ok(1) fact_key_def, of mem al None] by blast
  show ?case
  proof (cases "rv < 0")
    case True
    then show ?thesis using put r by auto
  next
    case False
    then have s1: "seen_inv seen1" "\<And>k. seen_map seen1 k = (if k \<in> fact_key ` set (pre @ [f]) then Some None else None)"
      using r Cons.prems(4) by (auto simp: dom_def)
    have part: "partners (pre @ [f]) s p = partners pre s p @ (if if_object_kind f = FACT_OBJ_ID \<and> if_subject f = s \<and> if_predicate f = p then [i] else [])" for s p
    proof -
      have "filter (\<lambda>j. if_object_kind ((pre @ [f]) ! j) = FACT_OBJ_ID \<and> if_subject ((pre @ [f]) ! j) = s \<and> if_predicate ((pre @ [f]) ! j) = p) [0..<length pre] =
          partners pre s p" unfolding partners_def by (rule filter_cong) (auto simp: nth_append)
      then show ?thesis using Cons.prems(6) by (simp add: partners_def)
    qed
    show ?thesis
    proof (cases "if_object_kind f = FACT_OBJ_ID")
      case no: False
      then have "\<And>s p. adj_list adj (s, p) = partners (pre @ [f]) s p" using Cons.prems(5) part by simp
      from Cons.IH [OF ok(2) s1(1) Cons.prems(3) s1(2) this, of "i + 1" al1] show ?thesis using put False no Cons.prems(6) by simp
    next
      case yes: True
      obtain rv2 adj1 al2 where add: "adj_add mem al1 adj (if_subject f) (if_predicate f) i = Some (rv2, adj1, al2)"
        and r2: "rv2 < 0 \<and> (\<exists>n. \<not> mem n) \<or> rv2 = 0 \<and> adj_inv adj1 \<and>
          adj_list adj1 = (adj_list adj)((if_subject f, if_predicate f) := adj_list adj (if_subject f, if_predicate f) @ [i])"
        using adj_add_ok [OF Cons.prems(3), of mem al1 "if_subject f" "if_predicate f" i] by blast
      show ?thesis
      proof (cases "rv2 = 0")
        case bad: False
        then show ?thesis using put add r2 False yes by auto
      next
        case z: True
        then have a1: "adj_inv adj1" "\<And>s p. adj_list adj1 (s, p) = partners (pre @ [f]) s p"
          using r2 Cons.prems(5) part yes by auto
        from Cons.IH [OF ok(2) s1(1) a1(1) s1(2) a1(2), of "i + 1" al2] show ?thesis
          using put False yes add z Cons.prems(6) by simp
      qed
    qed
  qed
qed

section \<open>The pass as a whole\<close>

definition infer_start :: "InferFact list \<Rightarrow> InferOpts option \<Rightarrow> nat" where
  "infer_start facts oo = (case oo of None \<Rightarrow> 0 | Some opts \<Rightarrow> io_start_index opts mod length facts)"

lemma infer_run_examines:
  assumes "facts_ok facts" and "facts \<noteq> []"
  shows "\<exists>rv res. infer_run fo mem facts (Some reg) oo = Some (rv, res) \<and>
    (rv = -1 \<and> res = no_result \<and> (\<exists>n. \<not> mem n) \<or>
     rv = 0 \<and> examine fo (infer_limits fo oo) (fact_key ` set facts) (all_cands reg facts (infer_start facts oo)) ([], 0, False) =
       (ires_items res, ires_candidates_examined res, ires_truncated res))"
proof -
  let ?e = "\<lparr>sn_slots = [], sn_n = 0\<rparr>" and ?a = "\<lparr>aj_slots = [], aj_n = 0\<rparr>" and ?I = "fact_key ` set facts" and ?lim = "infer_limits fo oo"
  have empty: "seen_inv ?e" "adj_inv ?a" "\<And>k. seen_map ?e k = (if k \<in> fact_key ` set [] then Some None else None)" "\<And>s p. adj_list ?a (s, p) = partners [] s p"
    by (simp_all add: seen_inv_def adj_inv_def sparse_ok_def seen_map_def seen_slot_def slot_map_def adj_list_def partners_def)
  have len0: "0 = length ([] :: InferFact list)" by simp
  obtain rv seen adj al where ix: "infer_index mem facts 0 ?e ?a 0 = Some (rv, seen, adj, al)"
    and r: "rv \<noteq> 0 \<and> (\<exists>n. \<not> mem n) \<or> rv = 0 \<and> seen_inv seen \<and> adj_inv adj \<and> (\<forall>k. seen_map seen k = (if k \<in> ?I then Some None else None)) \<and>
      (\<forall>s p. adj_list adj (s, p) = partners facts s p)"
    using infer_index_ok [OF assms(1) empty len0, where mem = mem and al = 0, unfolded append_Nil] by blast
  show ?thesis
  proof (cases "rv = 0")
    case False
    then show ?thesis using ix r assms(2) by (auto simp: infer_run_def Let_def)
  next
    case True
    let ?st = "\<lparr>ip_out = \<lparr>ob_items = [], ob_cap = 0\<rparr>, ip_seen = seen, ip_cands = 0, ip_stop = False, ip_truncated = False, ip_allocs = al\<rparr>"
    have adj: "adj_inv adj" "\<And>s p. adj_list adj (s, p) = partners facts s p" using r True by auto
    have sm: "seen_map seen k = (if k \<in> ?I then Some None else None)" for k using r True by blast
    have "pass_rel ?I [] ?st" using r True by (simp add: pass_rel_def sm)
    then have "pass_state ?I ([], 0, False) ?st" by simp
    from infer_scan_performs [OF adj this, where start = "infer_start facts oo" and ks = "[0..<length facts]" and scanned = 0
        and fo = fo and mem = mem and lim = ?lim and reg = reg] obtain rv2 st2 sc where
      sc: "infer_scan fo mem ?lim reg facts adj (infer_start facts oo) [0..<length facts] ?st 0 = Some (rv2, st2, sc)"
      and r2: "rv2 < 0 \<and> (\<exists>n. \<not> mem n) \<or> 0 \<le> rv2 \<and>
        pass_state ?I (examine fo ?lim ?I (all_cands reg facts (infer_start facts oo)) ([], 0, False)) st2"
      unfolding all_cands_def by blast
    have run: "infer_run fo mem facts (Some reg) oo = (if rv2 < 0 then Some (-1, no_result)
        else Some (0, \<lparr>ires_items = ob_items (ip_out st2), ires_truncated = ip_truncated st2, ires_candidates_examined = ip_cands st2, ires_facts_scanned = sc\<rparr>))"
      using ix True sc assms(2) by (simp add: infer_run_def Let_def infer_start_def)
    show ?thesis
    proof (cases "rv2 < 0")
      case True
      then show ?thesis using run r2 by auto
    next
      case False
      then have "pass_state ?I (examine fo ?lim ?I (all_cands reg facts (infer_start facts oo)) ([], 0, False)) st2" using r2 by simp
      then show ?thesis using run False
        by (cases "examine fo ?lim ?I (all_cands reg facts (infer_start facts oo)) ([], 0, False)") (simp add: pass_rel_def)
    qed
  qed
qed

lemma examine_prefix:
  assumes "examine fo lim I cs (out, n, False) = (out', n', h)"
  shows "\<exists>m \<le> length cs. out' = fold (absorb fo lim I) (take m cs) out \<and> (if h then m < length cs \<and> n' = n + m + 1 else m = length cs \<and> n' = n + m)"
  using assms
proof (induction cs arbitrary: out n)
  case (Cons c cs)
  show ?case
  proof (cases "capped lim I c n out")
    case True
    then show ?thesis using Cons.prems by (intro exI [of _ 0]) auto
  next
    case False
    then have "examine fo lim I cs (absorb fo lim I c out, n + 1, False) = (out', n', h)" using Cons.prems by simp
    from Cons.IH [OF this] obtain m where "m \<le> length cs" "out' = fold (absorb fo lim I) (take m cs) (absorb fo lim I c out)"
      "if h then m < length cs \<and> n' = n + 1 + m + 1 else m = length cs \<and> n' = n + 1 + m" by blast
    then show ?thesis by (intro exI [of _ "Suc m"]) (auto split: if_splits)
  qed
qed simp

lemma examine_bounds:
  assumes "examine fo lim I cs (out, n, False) = (out', n', h)" and "n \<le> il_max_cand lim"
    and "il_max_conc lim \<noteq> 0 \<Longrightarrow> length out \<le> il_max_conc lim"
  shows "n' \<le> il_max_cand lim + 1 \<and> (il_max_conc lim \<noteq> 0 \<longrightarrow> length out' \<le> il_max_conc lim)"
  using assms
proof (induction cs arbitrary: out n)
  case (Cons c cs)
  show ?case
  proof (cases "capped lim I c n out")
    case True
    then show ?thesis using Cons.prems by (auto simp: capped_def split: if_splits)
  next
    case False
    then have e: "examine fo lim I cs (absorb fo lim I c out, n + 1, False) = (out', n', h)" "n + 1 \<le> il_max_cand lim" using Cons.prems by (auto simp: capped_def)
    moreover have "length (absorb fo lim I c out) \<le> il_max_conc lim" if "il_max_conc lim \<noteq> 0"
      using False Cons.prems(3) that by (auto simp: capped_def absorb_def)
    ultimately show ?thesis by (intro Cons.IH) auto
  qed
qed auto

section \<open>The conclusions of a list of candidates\<close>

definition routes_for :: "f32_ops \<Rightarrow> InferLimits \<Rightarrow> triple_id set \<Rightarrow> Cand list \<Rightarrow> triple_id \<Rightarrow> InferRoute list" where
  "routes_for fo lim I cs k =
     fold (cap_insert DERIV_MAX_ROUTES ir_key) (map (cand_route fo (il_floor lim)) (filter (\<lambda>c. admissible lim I c \<and> cand_key c = k) cs)) []"

definition conclusion_of :: "f32_ops \<Rightarrow> triple_id \<Rightarrow> InferRoute list \<Rightarrow> InferConclusion" where
  "conclusion_of fo k rts =
     (case k of (s, p, kind, obj) \<Rightarrow>
        \<lparr>ic_routes = rts, ic_confidence = best_confidence fo rts, ic_subject = s, ic_predicate = p, ic_object_kind = kind,
         ic_object_id = (case obj of Inl i \<Rightarrow> i | Inr _ \<Rightarrow> 0), ic_object_str = None\<rparr>)"

definition conclusions :: "f32_ops \<Rightarrow> InferLimits \<Rightarrow> triple_id set \<Rightarrow> Cand list \<Rightarrow> InferConclusion list" where
  "conclusions fo lim I cs =
     map (\<lambda>k. conclusion_of fo k (routes_for fo lim I cs k)) (firsts (map cand_key (filter (admissible lim I) cs)))"

lemma conclusion_of_simps [simp]:
  "ic_routes (conclusion_of fo k rts) = rts" "ic_confidence (conclusion_of fo k rts) = best_confidence fo rts"
  by (simp_all add: conclusion_of_def split: prod.split)

lemma concl_key_conclusion_of [simp]: "concl_key (conclusion_of fo (cand_key c) rts) = cand_key c"
  by (simp add: concl_key_def conclusion_of_def cand_key_def triple_key_def)

lemma routes_for_sorted:
  "sorted (map ir_key (routes_for fo lim I cs k)) \<and> distinct (map ir_key (routes_for fo lim I cs k)) \<and>
   length (routes_for fo lim I cs k) \<le> DERIV_MAX_ROUTES"
proof -
  have "sorted (map ir_key (fold (cap_insert DERIV_MAX_ROUTES ir_key) rts [])) \<and> distinct (map ir_key (fold (cap_insert DERIV_MAX_ROUTES ir_key) rts [])) \<and>
      length (fold (cap_insert DERIV_MAX_ROUTES ir_key) rts []) \<le> DERIV_MAX_ROUTES" for rts
    by (induction rts rule: rev_induct) (auto simp: cap_insert_sorted length_cap_insert)
  then show ?thesis by (simp add: routes_for_def)
qed

lemma routes_for_snoc:
  "routes_for fo lim I (cs @ [c]) k =
     (if admissible lim I c \<and> cand_key c = k then cap_insert DERIV_MAX_ROUTES ir_key (cand_route fo (il_floor lim) c) (routes_for fo lim I cs k)
      else routes_for fo lim I cs k)"
  by (simp add: routes_for_def)

lemma absorb_conclusions: "absorb fo lim I c (conclusions fo lim I cs) = conclusions fo lim I (cs @ [c])"
proof (cases "admissible lim I c")
  case False
  then show ?thesis by (simp add: absorb_def conclusions_def routes_for_snoc)
next
  case ad: True
  let ?ks = "map cand_key (filter (admissible lim I) cs)" and ?rt = "cand_route fo (il_floor lim) c"
  have key: "concl_key (conclusion_of fo k rts) = k" if "k \<in> set ?ks" for k rts using that by auto
  have keys: "concl_key ` set (conclusions fo lim I cs) = set ?ks"
  proof -
    have "concl_key ` set (conclusions fo lim I cs) = (\<lambda>k. concl_key (conclusion_of fo k (routes_for fo lim I cs k))) ` set ?ks"
      unfolding conclusions_def by (simp add: image_image)
    also have "\<dots> = (\<lambda>k. k) ` set ?ks" by (rule image_cong) (simp_all add: key)
    finally show ?thesis by simp
  qed
  have merged: "merge fo (conclusion_of fo k (routes_for fo lim I cs k)) ?rt = conclusion_of fo k (routes_for fo lim I (cs @ [c]) k)" if "k = cand_key c" for k
    using routes_for_sorted [of fo lim I cs k] ad that
    by (subst merge_eq) (auto simp: routes_sorted_def routes_for_snoc conclusion_of_def split: prod.split)
  have same: "routes_for fo lim I (cs @ [c]) k = routes_for fo lim I cs k" if "k \<noteq> cand_key c" for k using that by (simp add: routes_for_snoc)
  show ?thesis
  proof (cases "cand_key c \<in> set ?ks")
    case True
    have "absorb fo lim I c (conclusions fo lim I cs) =
        map (\<lambda>x. if concl_key x = cand_key c then merge fo x ?rt else x) (conclusions fo lim I cs)"
      using ad True keys by (simp add: absorb_def)
    also have "\<dots> = map (\<lambda>k. conclusion_of fo k (routes_for fo lim I (cs @ [c]) k)) (firsts ?ks)"
      unfolding conclusions_def map_map
    proof (rule map_cong [OF refl])
      fix k assume "k \<in> set (firsts ?ks)"
      then have "concl_key (conclusion_of fo k (routes_for fo lim I cs k)) = k" using key by simp
      then show "((\<lambda>x. if concl_key x = cand_key c then merge fo x ?rt else x) \<circ> (\<lambda>k. conclusion_of fo k (routes_for fo lim I cs k))) k =
          conclusion_of fo k (routes_for fo lim I (cs @ [c]) k)"
        using merged same by (cases "k = cand_key c") simp_all
    qed
    also have "\<dots> = conclusions fo lim I (cs @ [c])"
      using True ad by (simp add: conclusions_def firsts_snoc)
    finally show ?thesis .
  next
    case False
    have "\<not> (admissible lim I x \<and> cand_key x = cand_key c)" if "x \<in> set cs" for x
    proof
      assume x: "admissible lim I x \<and> cand_key x = cand_key c"
      have "cand_key x \<in> set ?ks" unfolding set_map by (rule imageI) (use that x in simp)
      with x False show False by simp
    qed
    then have "filter (\<lambda>x. admissible lim I x \<and> cand_key x = cand_key c) cs = []" by (simp add: filter_empty_conv)
    then have none: "routes_for fo lim I cs (cand_key c) = []" by (simp add: routes_for_def)
    have "bare c = conclusion_of fo (cand_key c) []"
      by (simp add: bare_def conclusion_of_def cand_key_def triple_key_def best_confidence_def)
    then have "merge fo (bare c) ?rt = conclusion_of fo (cand_key c) (routes_for fo lim I (cs @ [c]) (cand_key c))"
      using merged [OF refl] none by simp
    moreover have "map (\<lambda>k. conclusion_of fo k (routes_for fo lim I (cs @ [c]) k)) (firsts ?ks) = conclusions fo lim I cs"
      unfolding conclusions_def
    proof (rule map_cong [OF refl])
      fix k assume "k \<in> set (firsts ?ks)"
      then have "k \<noteq> cand_key c" using False unfolding set_firsts by blast
      from same [OF this] show "conclusion_of fo k (routes_for fo lim I (cs @ [c]) k) = conclusion_of fo k (routes_for fo lim I cs k)" by simp
    qed
    ultimately show ?thesis using ad False keys by (simp add: absorb_def conclusions_def firsts_snoc)
  qed
qed

lemma fold_absorb: "fold (absorb fo lim I) cs [] = conclusions fo lim I cs"
  by (induction cs rule: rev_induct) (simp_all add: absorb_conclusions, simp add: conclusions_def)

section \<open>The rules\<close>

text \<open>
  The applications of the three rules to facts with the declarations of \<open>reg\<close>, as the header states them: which facts
  are the premises and which triple is concluded.
\<close>

inductive rule_app :: "PredicateRegistry \<Rightarrow> InferFact set \<Rightarrow> Cand \<Rightarrow> bool" for reg F where
  symmetric: "f \<in> F \<Longrightarrow> if_object_kind f = FACT_OBJ_ID \<Longrightarrow>
    predicate_registry_get (Some reg) (Some (if_predicate f)) = Some spec \<Longrightarrow> ps_symmetric spec \<Longrightarrow>
    rule_app reg F (mk_cand DERIV_SYMMETRIC f None (if_object_id f) (if_predicate f) (if_subject f))"
| inverse: "f \<in> F \<Longrightarrow> if_object_kind f = FACT_OBJ_ID \<Longrightarrow>
    predicate_registry_get (Some reg) (Some (if_predicate f)) = Some spec \<Longrightarrow> ps_inverse_of spec = Some q \<Longrightarrow>
    rule_app reg F (mk_cand DERIV_INVERSE f None (if_object_id f) q (if_subject f))"
| transitive: "f \<in> F \<Longrightarrow> g \<in> F \<Longrightarrow> if_object_kind f = FACT_OBJ_ID \<Longrightarrow> if_object_kind g = FACT_OBJ_ID \<Longrightarrow>
    if_subject g = if_object_id f \<Longrightarrow> if_predicate g = if_predicate f \<Longrightarrow>
    predicate_registry_get (Some reg) (Some (if_predicate f)) = Some spec \<Longrightarrow> ps_transitive spec \<Longrightarrow>
    rule_app reg F (mk_cand DERIV_TRANSITIVE f (Some g) (if_subject f) (if_predicate f) (if_object_id g))"

inductive_cases rule_appE: "rule_app reg F c"

lemma rotate_all:
  assumes "i < n"
  shows "\<exists>k < n. (start + k) mod n = (i :: nat)"
  using cyc_offset [OF assms, of start] by auto

lemma fact_cands_rule:
  assumes "c \<in> set (fact_cands reg facts f)" and "f \<in> set facts"
  shows "rule_app reg (set facts) c"
proof -
  obtain spec where k: "if_object_kind f = FACT_OBJ_ID" and g: "predicate_registry_get (Some reg) (Some (if_predicate f)) = Some spec"
    using assms(1) by (cases "predicate_registry_get (Some reg) (Some (if_predicate f))") (auto simp: fact_cands_def split: if_splits)
  note r = rule_app.symmetric [OF assms(2) k g] rule_app.inverse [OF assms(2) k g] rule_app.transitive [OF assms(2) _ k _ _ _ g]
  show ?thesis using assms(1) k unfolding fact_cands_def g
    by (cases "ps_inverse_of spec") (auto simp: partners_def split: if_splits intro: r)
qed

lemma rule_fact_cands: "rule_app reg (set facts) c \<Longrightarrow> \<exists>f \<in> set facts. c \<in> set (fact_cands reg facts f)"
proof (induction rule: rule_app.induct)
  case (symmetric f spec)
  then show ?case by (intro bexI [of _ f]) (auto simp: fact_cands_def)
next
  case (inverse f spec q)
  then show ?case by (intro bexI [of _ f]) (auto simp: fact_cands_def)
next
  case (transitive f g spec)
  then obtain j where "j < length facts" "facts ! j = g" by (auto simp: in_set_conv_nth)
  with transitive show ?case by (intro bexI [of _ f]) (auto simp: fact_cands_def partners_def)
qed

lemma set_all_cands: "set (all_cands reg facts start) = {c. rule_app reg (set facts) c}"
proof (intro set_eqI iffI; unfold mem_Collect_eq)
  fix c assume "c \<in> set (all_cands reg facts start)"
  then obtain k where "k < length facts" "c \<in> set (fact_cands reg facts (facts ! ((start + k) mod length facts)))" by (auto simp: all_cands_def)
  moreover from this(1) have "facts ! ((start + k) mod length facts) \<in> set facts" by (intro nth_mem mod_less_divisor) linarith
  ultimately show "rule_app reg (set facts) c" by (intro fact_cands_rule)
next
  fix c assume "rule_app reg (set facts) c"
  then obtain i where i: "i < length facts" "c \<in> set (fact_cands reg facts (facts ! i))"
    using rule_fact_cands by (metis in_set_conv_nth)
  then obtain k where "k < length facts" "(start + k) mod length facts = i" using rotate_all by blast
  with i show "c \<in> set (all_cands reg facts start)" by (auto simp: all_cands_def intro!: bexI [of _ k])
qed

text \<open>With different record ids a route determines its rule application.\<close>

lemma route_premises: "ir_key (cand_route fo flr c) = (if_record_id (cd_f c) # (case cd_g c of None \<Rightarrow> [] | Some g \<Rightarrow> [if_record_id g]), deriv_rule_code (cd_rule c))"
  by (auto simp: ir_key_def cand_route_def route_of_def Let_def split: option.split)

lemma cand_route_inj:
  assumes "inj_on if_record_id F" and "rule_app reg F a" and "rule_app reg F b" and "ir_key (cand_route fo flr a) = ir_key (cand_route fo flr b)"
  shows "cand_route fo flr a = cand_route fo flr b"
proof -
  have F: "cd_f a \<in> F" "cd_f b \<in> F" "\<And>g. cd_g a = Some g \<Longrightarrow> g \<in> F" "\<And>g. cd_g b = Some g \<Longrightarrow> g \<in> F"
    using assms(2,3) by (auto elim!: rule_appE simp: mk_cand_def)
  have "cd_rule a = cd_rule b" using assms(4) by (simp add: route_premises deriv_rule_code_inj)
  moreover have "cd_f a = cd_f b" using assms(1,4) F by (auto simp: route_premises dest: inj_onD)
  moreover have "cd_g a = cd_g b" using assms(1,4) F by (auto simp: route_premises dest: inj_onD split: option.splits)
  ultimately show ?thesis by (simp add: cand_route_def)
qed

section \<open>A pass as its conclusions\<close>

text \<open>A pass that succeeds delivers the conclusions of a prefix of the candidates, of all of them unless it says truncated.\<close>

lemma infer_run_conclusions:
  assumes "facts_ok facts"
  shows "\<exists>rv res. infer_run fo mem facts (Some reg) oo = Some (rv, res) \<and>
    (rv = -1 \<and> res = no_result \<and> (\<exists>n. \<not> mem n) \<or>
     rv = 0 \<and> (\<exists>m. ires_items res = conclusions fo (infer_limits fo oo) (fact_key ` set facts) (take m (all_cands reg facts (infer_start facts oo))) \<and>
       (\<not> ires_truncated res \<longrightarrow> length (all_cands reg facts (infer_start facts oo)) \<le> m)))"
proof (cases "facts = []")
  case True
  then show ?thesis by (simp add: infer_run_def all_cands_def no_result_def conclusions_def)
next
  case False
  let ?cs = "all_cands reg facts (infer_start facts oo)"
  from infer_run_examines [OF assms False, where fo = fo and mem = mem and reg = reg and oo = oo] obtain rv res where
    run: "infer_run fo mem facts (Some reg) oo = Some (rv, res)" and
    r: "rv = -1 \<and> res = no_result \<and> (\<exists>n. \<not> mem n) \<or> rv = 0 \<and>
      examine fo (infer_limits fo oo) (fact_key ` set facts) ?cs ([], 0, False) = (ires_items res, ires_candidates_examined res, ires_truncated res)"
    by blast
  from r show ?thesis
  proof
    assume "rv = 0 \<and> examine fo (infer_limits fo oo) (fact_key ` set facts) ?cs ([], 0, False) =
      (ires_items res, ires_candidates_examined res, ires_truncated res)"
    then have rv: "rv = 0" and e: "examine fo (infer_limits fo oo) (fact_key ` set facts) ?cs ([], 0, False) =
      (ires_items res, ires_candidates_examined res, ires_truncated res)" by simp_all
    from examine_prefix [OF e] obtain m where "ires_items res = fold (absorb fo (infer_limits fo oo) (fact_key ` set facts)) (take m ?cs) []"
      and "if ires_truncated res then m < length ?cs \<and> ires_candidates_examined res = 0 + m + 1 else m = length ?cs \<and> ires_candidates_examined res = 0 + m"
      by blast
    then have "ires_items res = fold (absorb fo (infer_limits fo oo) (fact_key ` set facts)) (take m ?cs) []"
      and "\<not> ires_truncated res \<longrightarrow> length ?cs \<le> m" by simp_all
    then show ?thesis using run rv unfolding fold_absorb by blast
  qed (use run in blast)
qed

lemma routes_for_mem:
  "rt \<in> set (routes_for fo lim I cs k) \<Longrightarrow> \<exists>a \<in> set cs. admissible lim I a \<and> cand_key a = k \<and> rt = cand_route fo (il_floor lim) a"
  unfolding routes_for_def
  using cap_inserts_subset [of DERIV_MAX_ROUTES ir_key "map (cand_route fo (il_floor lim)) (filter (\<lambda>c. admissible lim I c \<and> cand_key c = k) cs)" "[]"]
  by auto

lemma routes_for_nonempty:
  assumes "a \<in> set cs" and "admissible lim I a"
  shows "routes_for fo lim I cs (cand_key a) \<noteq> []"
  unfolding routes_for_def
proof (rule cap_inserts_keep)
  show "map (cand_route fo (il_floor lim)) (filter (\<lambda>c. admissible lim I c \<and> cand_key c = cand_key a) cs) \<noteq> []"
    using assms by (auto simp: filter_empty_conv)
qed (simp add: DERIV_MAX_ROUTES_def)

lemma conclusion_cases:
  assumes "x \<in> set (conclusions fo lim I cs)"
  obtains a where "a \<in> set cs" and "admissible lim I a" and "x = conclusion_of fo (cand_key a) (routes_for fo lim I cs (cand_key a))"
  using assms by (auto simp: conclusions_def)

text \<open>What is true of every conclusion drawn from the candidates \<open>cs\<close>.\<close>

lemma conclusion_sound:
  assumes "x \<in> set (conclusions fo lim I cs)"
  shows "concl_key x \<notin> I \<and> routes_sorted x \<and> ic_routes x \<noteq> [] \<and> ic_confidence x = best_confidence fo (ic_routes x) \<and>
    (\<forall>rt \<in> set (ic_routes x). \<exists>a \<in> set cs. admissible lim I a \<and> cand_key a = concl_key x \<and> rt = cand_route fo (il_floor lim) a)"
proof -
  obtain a where a: "a \<in> set cs" "admissible lim I a" and x: "x = conclusion_of fo (cand_key a) (routes_for fo lim I cs (cand_key a))"
    using assms by (rule conclusion_cases)
  show ?thesis
    using a routes_for_nonempty [OF a, of fo] routes_for_sorted [of fo lim I cs "cand_key a"] routes_for_mem [of _ fo lim I cs "cand_key a"]
    unfolding x by (simp add: routes_sorted_def admissible_def)
qed

lemma conclusions_keys:
  "distinct (map concl_key (conclusions fo lim I cs))"
  "concl_key ` set (conclusions fo lim I cs) = cand_key ` {a \<in> set cs. admissible lim I a}"
proof -
  let ?ks = "map cand_key (filter (admissible lim I) cs)"
  have key: "concl_key (conclusion_of fo k (routes_for fo lim I cs k)) = k" if "k \<in> set (firsts ?ks)" for k
  proof -
    from that obtain a where "k = cand_key a" unfolding set_firsts set_map by (rule imageE)
    then show ?thesis by simp
  qed
  have "map concl_key (conclusions fo lim I cs) = map (\<lambda>k. k) (firsts ?ks)"
    unfolding conclusions_def map_map by (rule map_cong [OF refl]) (use key in \<open>simp only: o_apply\<close>)
  then have m: "map concl_key (conclusions fo lim I cs) = firsts ?ks" by simp
  show "distinct (map concl_key (conclusions fo lim I cs))" unfolding m by (rule distinct_firsts)
  have "set (map concl_key (conclusions fo lim I cs)) = set ?ks" unfolding m by (rule set_firsts)
  then show "concl_key ` set (conclusions fo lim I cs) = cand_key ` {a \<in> set cs. admissible lim I a}" by simp
qed

text \<open>The candidates that count, from the rules alone.\<close>

definition derivable :: "PredicateRegistry \<Rightarrow> InferLimits \<Rightarrow> InferFact list \<Rightarrow> Cand set" where
  "derivable reg lim facts = {a. rule_app reg (set facts) a \<and> admissible lim (fact_key ` set facts) a}"

lemma conclusions_all_keys:
  "length (all_cands reg facts start) \<le> m \<Longrightarrow>
   concl_key ` set (conclusions fo lim (fact_key ` set facts) (take m (all_cands reg facts start))) = cand_key ` derivable reg lim facts"
  by (simp add: conclusions_keys set_all_cands derivable_def)

lemma conclusion_derivable:
  assumes "x \<in> set (conclusions fo lim (fact_key ` set facts) (take m (all_cands reg facts start)))"
  shows "concl_key x \<notin> fact_key ` set facts \<and> routes_sorted x \<and> ic_routes x \<noteq> [] \<and> ic_confidence x = best_confidence fo (ic_routes x) \<and>
    (\<forall>rt \<in> set (ic_routes x). \<exists>a \<in> derivable reg lim facts. cand_key a = concl_key x \<and> rt = cand_route fo (il_floor lim) a)"
proof -
  have "a \<in> derivable reg lim facts" if "a \<in> set (take m (all_cands reg facts start))" "admissible lim (fact_key ` set facts) a" for a
    using that in_set_takeD [of a m "all_cands reg facts start"] by (simp add: derivable_def set_all_cands)
  with conclusion_sound [OF assms] show ?thesis by blast
qed

text \<open>
  C10. A pass of inference always returns. It fails only when an allocation did, delivering nothing. Otherwise every
  conclusion is new, appears once, carries between one and four routes in ascending order and the best of their confidences,
  and each of its routes is an application of one of the three rules to facts of the input within the depth limit. When
  the pass does not say truncated, every triple the rules give is among its conclusions.
\<close>

theorem infer_run_exact:
  assumes "facts_ok facts"
  shows "\<exists>rv res. infer_run fo mem facts (Some reg) oo = Some (rv, res) \<and>
    (rv = -1 \<and> res = no_result \<and> (\<exists>n. \<not> mem n) \<or>
     rv = 0 \<and> distinct (map concl_key (ires_items res)) \<and>
     (\<forall>x \<in> set (ires_items res). concl_key x \<notin> fact_key ` set facts \<and> routes_sorted x \<and> ic_routes x \<noteq> [] \<and>
        ic_confidence x = best_confidence fo (ic_routes x) \<and>
        (\<forall>rt \<in> set (ic_routes x). \<exists>a \<in> derivable reg (infer_limits fo oo) facts.
           cand_key a = concl_key x \<and> rt = cand_route fo (il_floor (infer_limits fo oo)) a)) \<and>
     (\<not> ires_truncated res \<longrightarrow> concl_key ` set (ires_items res) = cand_key ` derivable reg (infer_limits fo oo) facts))"
proof -
  let ?lim = "infer_limits fo oo" and ?I = "fact_key ` set facts" and ?cs = "all_cands reg facts (infer_start facts oo)"
  obtain rv res where run: "infer_run fo mem facts (Some reg) oo = Some (rv, res)" and
    r: "rv = -1 \<and> res = no_result \<and> (\<exists>n. \<not> mem n) \<or>
      rv = 0 \<and> (\<exists>m. ires_items res = conclusions fo ?lim ?I (take m ?cs) \<and> (\<not> ires_truncated res \<longrightarrow> length ?cs \<le> m))"
    using infer_run_conclusions [OF assms, where fo = fo and mem = mem and reg = reg and oo = oo] by blast
  from r show ?thesis
  proof
    assume "rv = 0 \<and> (\<exists>m. ires_items res = conclusions fo ?lim ?I (take m ?cs) \<and> (\<not> ires_truncated res \<longrightarrow> length ?cs \<le> m))"
    then obtain m where rv: "rv = 0" and it: "ires_items res = conclusions fo ?lim ?I (take m ?cs)"
      and all: "\<not> ires_truncated res \<Longrightarrow> length ?cs \<le> m" by blast
    note sound = conclusion_derivable [of _ fo ?lim facts m reg "infer_start facts oo", folded it]
    have dist: "distinct (map concl_key (ires_items res))" unfolding it by (rule conclusions_keys)
    have complete: "\<not> ires_truncated res \<longrightarrow> concl_key ` set (ires_items res) = cand_key ` derivable reg ?lim facts"
      unfolding it using conclusions_all_keys [OF all] by blast
    have "\<forall>x \<in> set (ires_items res). concl_key x \<notin> fact_key ` set facts \<and> routes_sorted x \<and> ic_routes x \<noteq> [] \<and>
        ic_confidence x = best_confidence fo (ic_routes x) \<and>
        (\<forall>rt \<in> set (ic_routes x). \<exists>a \<in> derivable reg ?lim facts. cand_key a = concl_key x \<and> rt = cand_route fo (il_floor ?lim) a)"
      by (rule ballI) (rule sound)
    with run rv dist complete show ?thesis by (intro exI [of _ rv] exI [of _ res] conjI disjI2)
  qed (use run in blast)
qed

definition demo_rules :: PredicateRegistry where
  "demo_rules = \<lparr>pr_specs = [\<lparr>ps_name = lit ''in'', ps_object = PRED_OBJ_ID, ps_single_valued = False, ps_symmetric = False,
     ps_transitive = True, ps_inverse_of = None, ps_mutex_with = []\<rparr>]\<rparr>"

definition demo_fact :: "u64 \<Rightarrow> u64 \<Rightarrow> u64 \<Rightarrow> InferFact" where
  "demo_fact i s x = \<lparr>if_record_id = i, if_subject = s, if_predicate = lit ''in'', if_object_kind = FACT_OBJ_ID, if_object_id = x,
     if_object_str = None, if_depth = 0, if_confidence = f32_zero\<rparr>"

definition demo_floats :: f32_ops where
  "demo_floats = \<lparr>f32_mul = min, f32_less = (\<lambda>x y. x < y)\<rparr>"

theorem infer_run_exact_witness:
  "facts_ok [demo_fact 10 1 2, demo_fact 11 2 3] \<and>
   (\<exists>res. infer_run demo_floats mem_ok [demo_fact 10 1 2, demo_fact 11 2 3] (Some demo_rules) None = Some (0, res) \<and> distinct (map concl_key (ires_items res)))"
proof -
  have ok: "facts_ok [demo_fact 10 1 2, demo_fact 11 2 3]" by (simp add: facts_ok_def demo_fact_def)
  from infer_run_exact [OF this, where fo = demo_floats and mem = mem_ok and reg = demo_rules and oo = None] ok show ?thesis by auto
qed

lemma routes_for_set:
  assumes "set cs = set ds" and "inj_on if_record_id F" and "\<And>c. c \<in> set cs \<Longrightarrow> rule_app reg F c"
  shows "routes_for fo lim I cs k = routes_for fo lim I ds k"
  unfolding routes_for_def
proof (rule cap_inserts_set)
  show "inj_on ir_key (set (map (cand_route fo (il_floor lim)) (filter (\<lambda>c. admissible lim I c \<and> cand_key c = k) cs)))"
  proof (rule inj_onI)
    fix x y assume "x \<in> set (map (cand_route fo (il_floor lim)) (filter (\<lambda>c. admissible lim I c \<and> cand_key c = k) cs))"
      and "y \<in> set (map (cand_route fo (il_floor lim)) (filter (\<lambda>c. admissible lim I c \<and> cand_key c = k) cs))" and eq: "ir_key x = ir_key y"
    then obtain a b where "a \<in> set cs" "b \<in> set cs" "x = cand_route fo (il_floor lim) a" "y = cand_route fo (il_floor lim) b" by auto
    then show "x = y" using cand_route_inj [OF assms(2), of reg a b fo "il_floor lim"] assms(3) eq by simp
  qed
qed (simp add: assms(1))

lemma conclusions_set:
  assumes "set cs = set ds" and "inj_on if_record_id F" and "\<And>c. c \<in> set cs \<Longrightarrow> rule_app reg F c"
  shows "set (conclusions fo lim I cs) = set (conclusions fo lim I ds)"
proof -
  have r: "routes_for fo lim I cs k = routes_for fo lim I ds k" for k using assms by (rule routes_for_set)
  show ?thesis unfolding conclusions_def r by (simp add: assms(1))
qed

lemma infer_run_items:
  assumes "facts_ok facts" and "infer_run fo mem facts (Some reg) oo = Some (0, res)" and "\<not> ires_truncated res"
  shows "ires_items res = conclusions fo (infer_limits fo oo) (fact_key ` set facts) (all_cands reg facts (infer_start facts oo))"
  using infer_run_conclusions [OF assms(1), where fo = fo and mem = mem and reg = reg and oo = oo] assms(2,3) by auto

text \<open>
  C11. What a complete pass concludes depends on the set of its facts alone: the order the facts come in, the index the pass starts
  at and the outcomes of allocations change neither the conclusions nor the routes kept for them, provided the facts
  are told apart by their record ids.
\<close>

theorem infer_run_order_independent:
  assumes "facts_ok facts" and "inj_on if_record_id (set facts)" and "set facts' = set facts"
    and "infer_limits fo oo' = infer_limits fo oo"
    and "infer_run fo mem facts (Some reg) oo = Some (0, res)" and "\<not> ires_truncated res"
    and "infer_run fo mem' facts' (Some reg) oo' = Some (0, res')" and "\<not> ires_truncated res'"
  shows "set (ires_items res') = set (ires_items res)"
proof -
  have ok: "facts_ok facts'" using assms(1,3) by (simp add: facts_ok_def)
  have "set (all_cands reg facts' (infer_start facts' oo')) = set (all_cands reg facts (infer_start facts oo))"
    by (simp add: set_all_cands assms(3))
  from conclusions_set [OF this assms(2), of reg fo "infer_limits fo oo" "fact_key ` set facts"] show ?thesis
    by (simp add: infer_run_items [OF assms(1,5,6)] infer_run_items [OF ok assms(7,8)] assms(3,4) set_all_cands)
qed

text \<open>The caps that a pass can meet.\<close>

lemma examine_uncapped:
  "il_max_conc lim = 0 \<Longrightarrow> n + length cs \<le> il_max_cand lim \<Longrightarrow> \<exists>out' n'. examine fo lim I cs (out, n, False) = (out', n', False)"
  by (induction cs arbitrary: out n) (auto simp: capped_def)

lemma infer_run_uncapped:
  assumes "facts_ok facts" and "il_max_conc (infer_limits fo oo) = 0"
    and "length (all_cands reg facts (infer_start facts oo)) \<le> il_max_cand (infer_limits fo oo)"
    and "infer_run fo mem facts (Some reg) oo = Some (0, res)"
  shows "\<not> ires_truncated res"
proof (cases "facts = []")
  case True
  then show ?thesis using assms(4) by (auto simp: infer_run_def no_result_def)
next
  case False
  from infer_run_examines [OF assms(1) False, where fo = fo and mem = mem and reg = reg and oo = oo] assms(4)
    examine_uncapped [OF assms(2), of 0 "all_cands reg facts (infer_start facts oo)" fo "fact_key ` set facts" "[]"] assms(3)
  show ?thesis by auto
qed

lemma infer_run_caps:
  assumes "facts_ok facts" and "infer_run fo mem facts (Some reg) oo = Some (0, res)"
  shows "ires_candidates_examined res \<le> il_max_cand (infer_limits fo oo) + 1 \<and>
    (il_max_conc (infer_limits fo oo) \<noteq> 0 \<longrightarrow> length (ires_items res) \<le> il_max_conc (infer_limits fo oo))"
proof (cases "facts = []")
  case True
  then show ?thesis using assms(2) by (auto simp: infer_run_def no_result_def)
next
  case False
  have "examine fo (infer_limits fo oo) (fact_key ` set facts) (all_cands reg facts (infer_start facts oo)) ([], 0, False) =
      (ires_items res, ires_candidates_examined res, ires_truncated res)"
    using infer_run_examines [OF assms(1) False, where fo = fo and mem = mem and reg = reg and oo = oo] assms(2) by simp
  from examine_bounds [OF this] show ?thesis by simp
qed

lemma cand_route_bounds:
  assumes "admissible lim I a"
  shows "1 \<le> unat (ir_depth (cand_route fo (il_floor lim) a)) \<and> unat (ir_depth (cand_route fo (il_floor lim) a)) \<le> unat (il_max_depth lim) \<and>
    (ir_confidence (cand_route fo (il_floor lim) a) = il_floor lim \<or> \<not> f32_less fo (ir_confidence (cand_route fo (il_floor lim) a)) (il_floor lim))"
proof -
  have d: "ir_depth (cand_route fo (il_floor lim) a) = cand_depth a + 1"
    by (auto simp: cand_route_def route_of_def cand_depth_def Let_def max_def split: option.split)
  have lt: "unat (cand_depth a) < unat (il_max_depth lim)" using assms by (simp add: admissible_def word_less_nat_alt)
  have "unat (il_max_depth lim) < 2 ^ 16" using unsigned_less [of "il_max_depth lim"] by simp
  then have "unat (cand_depth a + 1) = unat (cand_depth a) + 1" using lt by (simp add: unat_word_ariths)
  moreover have "ir_confidence (cand_route fo (il_floor lim) a) = il_floor lim \<or> \<not> f32_less fo (ir_confidence (cand_route fo (il_floor lim) a)) (il_floor lim)"
    by (simp add: cand_route_def route_of_def Let_def)
  ultimately show ?thesis using d lt by simp
qed

lemma demo_runs:
  assumes "set facts = {demo_fact 10 1 2, demo_fact 11 2 3}" and "length facts = 2"
  shows "\<exists>res. infer_run demo_floats mem_ok facts (Some demo_rules) None = Some (0, res) \<and> \<not> ires_truncated res"
proof -
  have ok: "facts_ok facts" using assms(1) by (simp add: facts_ok_def demo_fact_def)
  have l: "length (fact_cands demo_rules facts f) \<le> 2" for f
    using length_filter_le [of _ "[0..<length facts]"] assms(2)
    by (auto simp: fact_cands_def partners_def demo_rules_def predicate_registry_get_def registry_search.simps split: option.split if_split)
  then have "length (all_cands demo_rules facts (infer_start facts None)) \<le> 4"
    using assms(2) add_mono [OF l l] by (simp add: all_cands_def upt_rec)
  then have c: "length (all_cands demo_rules facts (infer_start facts None)) \<le> il_max_cand (infer_limits demo_floats None)"
    by (simp add: infer_limits_def INFER_DEFAULT_MAX_CANDIDATES_def)
  obtain res where "infer_run demo_floats mem_ok facts (Some demo_rules) None = Some (0, res)"
    using infer_run_conclusions [OF ok, where fo = demo_floats and mem = mem_ok and reg = demo_rules and oo = None] by auto
  then show ?thesis using infer_run_uncapped [OF ok _ c] by (auto simp: infer_limits_def)
qed

theorem infer_run_order_independent_witness:
  "\<exists>res res'. infer_run demo_floats mem_ok [demo_fact 10 1 2, demo_fact 11 2 3] (Some demo_rules) None = Some (0, res) \<and>
     infer_run demo_floats mem_ok [demo_fact 11 2 3, demo_fact 10 1 2] (Some demo_rules) None = Some (0, res') \<and>
     set (ires_items res') = set (ires_items res)"
proof -
  let ?fs = "[demo_fact 10 1 2, demo_fact 11 2 3]" and ?gs = "[demo_fact 11 2 3, demo_fact 10 1 2]"
  obtain res where r: "infer_run demo_floats mem_ok ?fs (Some demo_rules) None = Some (0, res)" "\<not> ires_truncated res"
    using demo_runs [of ?fs] by auto
  obtain res' where r': "infer_run demo_floats mem_ok ?gs (Some demo_rules) None = Some (0, res')" "\<not> ires_truncated res'"
    using demo_runs [of ?gs] by auto
  have "facts_ok ?fs" "inj_on if_record_id (set ?fs)" "set ?gs = set ?fs" by (auto simp: facts_ok_def demo_fact_def)
  from infer_run_order_independent [OF this refl r r'] r r' show ?thesis by blast
qed

text \<open>
  C12. The limits of a pass hold: at most one candidate more than the cap is counted, no more conclusions than asked for are delivered,
  every route is between 1 and the depth limit deep, so that the 16-bit depth never wraps, and its confidence is the
  floor or not below it. With no cap on conclusions and room for all the candidates the pass does not stop early.
\<close>

theorem infer_run_bounds:
  assumes "facts_ok facts" and "infer_run fo mem facts (Some reg) oo = Some (0, res)"
  shows "ires_candidates_examined res \<le> il_max_cand (infer_limits fo oo) + 1 \<and>
    (il_max_conc (infer_limits fo oo) \<noteq> 0 \<longrightarrow> length (ires_items res) \<le> il_max_conc (infer_limits fo oo)) \<and>
    (\<forall>x \<in> set (ires_items res). \<forall>rt \<in> set (ic_routes x).
       1 \<le> unat (ir_depth rt) \<and> unat (ir_depth rt) \<le> unat (il_max_depth (infer_limits fo oo)) \<and>
       (ir_confidence rt = il_floor (infer_limits fo oo) \<or> \<not> f32_less fo (ir_confidence rt) (il_floor (infer_limits fo oo)))) \<and>
    (il_max_conc (infer_limits fo oo) = 0 \<and> length (all_cands reg facts (infer_start facts oo)) \<le> il_max_cand (infer_limits fo oo) \<longrightarrow>
       \<not> ires_truncated res)"
proof -
  let ?lim = "infer_limits fo oo"
  have "ires_candidates_examined res \<le> il_max_cand ?lim + 1 \<and> (il_max_conc ?lim \<noteq> 0 \<longrightarrow> length (ires_items res) \<le> il_max_conc ?lim)"
    by (rule infer_run_caps [OF assms])
  moreover have "1 \<le> unat (ir_depth rt) \<and> unat (ir_depth rt) \<le> unat (il_max_depth ?lim) \<and>
      (ir_confidence rt = il_floor ?lim \<or> \<not> f32_less fo (ir_confidence rt) (il_floor ?lim))"
    if "x \<in> set (ires_items res)" "rt \<in> set (ic_routes x)" for x rt
  proof -
    from infer_run_conclusions [OF assms(1), where fo = fo and mem = mem and reg = reg and oo = oo] assms(2) obtain m where
      it: "ires_items res = conclusions fo ?lim (fact_key ` set facts) (take m (all_cands reg facts (infer_start facts oo)))" by auto
    from conclusion_derivable [OF that(1) [unfolded it]] that(2) have "\<exists>a \<in> derivable reg ?lim facts. cand_key a = concl_key x \<and> rt = cand_route fo (il_floor ?lim) a"
      by (elim conjE) (erule bspec)
    then obtain a where "admissible ?lim (fact_key ` set facts) a" "rt = cand_route fo (il_floor ?lim) a"
      unfolding derivable_def by blast
    then show ?thesis using cand_route_bounds by blast
  qed
  ultimately show ?thesis using infer_run_uncapped [OF assms(1) _ _ assms(2)] by blast
qed

theorem infer_run_bounds_witness:
  "\<exists>res. infer_run demo_floats mem_ok [demo_fact 10 1 2, demo_fact 11 2 3] (Some demo_rules) None = Some (0, res) \<and>
     ires_candidates_examined res \<le> 1000001"
proof -
  let ?fs = "[demo_fact 10 1 2, demo_fact 11 2 3]"
  obtain res where r: "infer_run demo_floats mem_ok ?fs (Some demo_rules) None = Some (0, res)" using demo_runs [of ?fs] by auto
  have "facts_ok ?fs" by (simp add: facts_ok_def demo_fact_def)
  from infer_run_bounds [OF this r] r show ?thesis by (simp add: infer_limits_def INFER_DEFAULT_MAX_CANDIDATES_def)
qed

end
