(* ===== verification/Fact_Table.thy ===== *)
theory Fact_Table
  imports Counted_Table Tag_Index
begin

text \<open>
  The tables under the fact index, the middle of \<^verbatim>\<open>src/src/storage/fact_index.c\<close>: sorted lists of record ids, and the open
  addressing table from a subject or an object to its sorted postings (predicate, record). An object that is a string is filed
  under its hash together with its text. A pointer to a slot is its position.

  Shown: the operations act on a function from keys to sets of postings, also when an allocation fails.
\<close>

section \<open>Sorted id lists\<close>

definition fact_id_lower_bound :: "u64 list \<Rightarrow> u64 \<Rightarrow> nat" where
  "fact_id_lower_bound v rid = bsearch (\<lambda>mid. v ! mid < rid) 0 (length v)"

text \<open>The list, its capacity and the outcome of the allocation; the result has the return value first.\<close>

definition idlist_add :: "bool \<Rightarrow> u64 list \<Rightarrow> nat \<Rightarrow> u64 \<Rightarrow> int \<times> u64 list \<times> nat" where
  "idlist_add m v cap rid =
     (let pos = fact_id_lower_bound v rid
      in if pos < length v \<and> v ! pos = rid then (0, v, cap)
         else if length v = cap \<and> \<not> m then (-1, v, cap)
         else (0, insert_at pos rid v, if length v = cap then if cap \<noteq> 0 then cap * 2 else 4 else cap))"

definition idlist_remove :: "u64 list \<Rightarrow> u64 \<Rightarrow> u64 list" where
  "idlist_remove v rid =
     (let pos = fact_id_lower_bound v rid
      in if pos < length v \<and> v ! pos = rid then remove_at pos v else v)"

lemma fact_id_lower_bound_eq [simp]: "fact_id_lower_bound v rid = id_lower_bound v rid"
  by (simp add: fact_id_lower_bound_def id_lower_bound_def)

definition ids_ok :: "u64 list \<Rightarrow> nat \<Rightarrow> bool" where
  "ids_ok v cap \<longleftrightarrow> sorted v \<and> distinct v \<and> length v \<le> cap"

lemma idlist_add_ok:
  assumes "ids_ok v cap"
  shows "\<exists>rv v' cap'. idlist_add m v cap rid = (rv, v', cap') \<and> ids_ok v' cap' \<and>
    (rv = 0 \<and> set v' = insert rid (set v) \<or> rv = -1 \<and> v' = v \<and> cap' = cap \<and> \<not> m \<and> length v = cap \<and> rid \<notin> set v)"
proof -
  have at: "(id_lower_bound v rid < length v \<and> v ! id_lower_bound v rid = rid) = (rid \<in> set v)"
    using id_at_iff [of v rid] assms by (simp add: ids_ok_def id_at_def)
  show ?thesis
    using ids_insert [of v rid, OF _ _ _ refl] assms
    by (cases "rid \<in> set v") (auto simp: idlist_add_def Let_def at ids_ok_def length_insert_at)
qed

lemma idlist_remove_ok:
  assumes "ids_ok v cap"
  shows "ids_ok (idlist_remove v rid) cap" and "set (idlist_remove v rid) = set v - {rid}"
proof -
  have at: "(id_lower_bound v rid < length v \<and> v ! id_lower_bound v rid = rid) = (rid \<in> set v)"
    using id_at_iff [of v rid] assms by (simp add: ids_ok_def id_at_def)
  show "ids_ok (idlist_remove v rid) cap" "set (idlist_remove v rid) = set v - {rid}"
    using ids_remove [of v "id_lower_bound v rid" rid] assms at
    by (cases "rid \<in> set v"; auto simp: idlist_remove_def Let_def ids_ok_def id_at_def)+
qed

section \<open>The table\<close>

record Post =
  po_record_id :: u64
  po_pred :: u16

record Slot =
  sl_key :: u64
  sl_obj_str :: "cstr option"
  sl_posts :: "Post list"
  sl_cap :: nat
  sl_state :: slot_state

record Table =
  tb_slots :: "Slot list"
  tb_live :: nat
  tb_used :: nat

definition blank_slot :: Slot where
  "blank_slot = \<lparr>sl_key = 0, sl_obj_str = None, sl_posts = [], sl_cap = 0, sl_state = SLOT_EMPTY\<rparr>"

definition fact_post_cmp :: "u16 \<Rightarrow> u64 \<Rightarrow> u16 \<Rightarrow> u64 \<Rightarrow> int" where
  "fact_post_cmp ap ar bp br =
     (if ap \<noteq> bp then if ap < bp then -1 else 1
      else if ar \<noteq> br then if ar < br then -1 else 1
      else 0)"

definition fact_post_lower_bound :: "Post list \<Rightarrow> u16 \<Rightarrow> u64 \<Rightarrow> nat" where
  "fact_post_lower_bound p pred rec =
     bsearch (\<lambda>mid. fact_post_cmp (po_pred (p ! mid)) (po_record_id (p ! mid)) pred rec < 0) 0 (length p)"

definition slot_matches :: "Slot \<Rightarrow> u64 \<Rightarrow> cstr option \<Rightarrow> bool" where
  "slot_matches s key str \<longleftrightarrow>
     (if sl_key s \<noteq> key then False
      else case str of
             Some x \<Rightarrow> (case sl_obj_str s of None \<Rightarrow> False | Some y \<Rightarrow> y = x)
           | None \<Rightarrow> sl_obj_str s = None)"

definition tbl_find :: "Table \<Rightarrow> u64 \<Rightarrow> cstr option \<Rightarrow> nat option" where
  "tbl_find t key str =
     (let sl = tb_slots t
      in if length sl = 0 then None
         else probe_find sl_state (\<lambda>s. slot_matches s key str) sl (unat (mix64 key) AND (length sl - 1)) 0 (length sl))"

text \<open>\<open>None\<close> is a copy loop that would not end.\<close>

definition tbl_grow :: "bool \<Rightarrow> Table \<Rightarrow> (int \<times> Table) option" where
  "tbl_grow m t =
     (let ncap = (if length (tb_slots t) \<noteq> 0 then length (tb_slots t) * 2 else 64)
      in if \<not> m then Some (-1, t)
         else map_option (\<lambda>ns. (0, t\<lparr>tb_slots := ns, tb_used := tb_live t\<rparr>))
                (rehash_into sl_state (\<lambda>_ s. sl_state s \<noteq> SLOT_LIVE) (\<lambda>s. mix64 (sl_key s))
                   (tb_slots t) (replicate ncap blank_slot)))"

definition new_slot :: "u64 \<Rightarrow> cstr option \<Rightarrow> Slot" where
  "new_slot key str = \<lparr>sl_key = key, sl_obj_str = str, sl_posts = [], sl_cap = 0, sl_state = SLOT_LIVE\<rparr>"

text \<open>The probe of \<^verbatim>\<open>tbl_put\<close>; \<open>m\<close> is the outcome of copying the string.\<close>

definition tbl_claim :: "bool \<Rightarrow> Table \<Rightarrow> u64 \<Rightarrow> cstr option \<Rightarrow> nat option \<times> Table" where
  "tbl_claim m t key str =
     (let sl = tb_slots t
      in case probe_claim sl_state (\<lambda>s. slot_matches s key str) sl (unat (mix64 key) AND (length sl - 1)) 0 None (length sl) of
           None \<Rightarrow> (None, t)
         | Some (Inl j) \<Rightarrow> (Some j, t)
         | Some (Inr j) \<Rightarrow>
             if str \<noteq> None \<and> \<not> m then (None, t)
             else (Some j, t\<lparr>tb_slots := sl[j := new_slot key str],
                             tb_used := (if sl_state (sl ! j) = SLOT_EMPTY then tb_used t + 1 else tb_used t),
                             tb_live := tb_live t + 1\<rparr>))"

definition tbl_put :: "bool \<Rightarrow> bool \<Rightarrow> Table \<Rightarrow> u64 \<Rightarrow> cstr option \<Rightarrow> (nat option \<times> Table) option" where
  "tbl_put gm cm t key str =
     (case (if length (tb_slots t) = 0 \<or> length (tb_slots t) * 3 \<le> (tb_used t + 1) * 4 then tbl_grow gm t else Some (0, t)) of
        None \<Rightarrow> None
      | Some (rv, t1) \<Rightarrow> if rv \<noteq> 0 then Some (None, t1) else Some (tbl_claim cm t1 key str))"

definition tbl_retire :: "Table \<Rightarrow> nat \<Rightarrow> Table" where
  "tbl_retire t j =
     t\<lparr>tb_slots := (tb_slots t)[j := (tb_slots t ! j)\<lparr>sl_posts := [], sl_obj_str := None, sl_cap := 0, sl_state := SLOT_DEAD\<rparr>],
       tb_live := tb_live t - 1\<rparr>"

definition fact_post_at :: "Post list \<Rightarrow> nat \<Rightarrow> u16 \<Rightarrow> u64 \<Rightarrow> bool" where
  "fact_post_at p pos pred rec \<longleftrightarrow> pos < length p \<and> po_pred (p ! pos) = pred \<and> po_record_id (p ! pos) = rec"

text \<open>The return value, whether a posting was added, and the slot.\<close>

definition slot_add_post :: "bool \<Rightarrow> Slot \<Rightarrow> u16 \<Rightarrow> u64 \<Rightarrow> int \<times> bool \<times> Slot" where
  "slot_add_post m s pred rec =
     (let pos = fact_post_lower_bound (sl_posts s) pred rec;
          full = (length (sl_posts s) = sl_cap s)
      in if fact_post_at (sl_posts s) pos pred rec then (0, False, s)
         else if full \<and> \<not> m then (-1, False, s)
         else (0, True, s\<lparr>sl_posts := insert_at pos \<lparr>po_record_id = rec, po_pred = pred\<rparr> (sl_posts s),
                          sl_cap := (if full then if sl_cap s \<noteq> 0 then sl_cap s * 2 else 1 else sl_cap s)\<rparr>))"

text \<open>Adding to the slot at a position of the table.\<close>

definition tbl_add_post :: "bool \<Rightarrow> Table \<Rightarrow> nat \<Rightarrow> u16 \<Rightarrow> u64 \<Rightarrow> int \<times> bool \<times> Table" where
  "tbl_add_post m t j pred rec =
     (let (rv, added, s) = slot_add_post m (tb_slots t ! j) pred rec in (rv, added, t\<lparr>tb_slots := (tb_slots t)[j := s]\<rparr>))"

definition slot_del_post :: "Table \<Rightarrow> nat \<Rightarrow> u16 \<Rightarrow> u64 \<Rightarrow> bool \<times> Table" where
  "slot_del_post t j pred rec =
     (let s = tb_slots t ! j; pos = fact_post_lower_bound (sl_posts s) pred rec
      in if \<not> fact_post_at (sl_posts s) pos pred rec then (False, t)
         else let ps = remove_at pos (sl_posts s); t1 = t\<lparr>tb_slots := (tb_slots t)[j := s\<lparr>sl_posts := ps\<rparr>]\<rparr>
              in (True, if length ps = 0 then tbl_retire t1 j else t1))"

section \<open>Invariant and abstraction\<close>

type_synonym slot_key = "u64 \<times> cstr option"

abbreviation skey :: "Slot \<Rightarrow> slot_key" where
  "skey s \<equiv> (sl_key s, sl_obj_str s)"

abbreviation shash :: "slot_key \<Rightarrow> u64" where
  "shash k \<equiv> mix64 (fst k)"

abbreviation fpost_key :: "Post \<Rightarrow> u16 \<times> u64" where
  "fpost_key p \<equiv> (po_pred p, po_record_id p)"

definition slots_of :: "Table \<Rightarrow> slot_key \<rightharpoonup> Slot" where
  "slots_of t = slot_map sl_state skey (tb_slots t)"

definition slot_ok :: "Slot \<Rightarrow> bool" where
  "slot_ok s \<longleftrightarrow> sorted (map fpost_key (sl_posts s)) \<and> distinct (map fpost_key (sl_posts s)) \<and> length (sl_posts s) \<le> sl_cap s"

definition tab_ok :: "Table \<Rightarrow> bool" where
  "tab_ok t \<longleftrightarrow> counted_ok sl_state skey shash 64 (tb_slots t) (tb_live t) (tb_used t) \<and> (\<forall>s \<in> ran (slots_of t). slot_ok s)"

text \<open>Between the claim of a slot and its first posting the slot is empty; at all other times no slot is.\<close>

definition filled_but :: "slot_key set \<Rightarrow> Table \<Rightarrow> bool" where
  "filled_but K t \<longleftrightarrow> (\<forall>k s. slots_of t k = Some s \<longrightarrow> k \<notin> K \<longrightarrow> sl_posts s \<noteq> [])"

definition posts_of :: "Table \<Rightarrow> slot_key \<Rightarrow> (u16 \<times> u64) set" where
  "posts_of t k = (case slots_of t k of None \<Rightarrow> {} | Some s \<Rightarrow> fpost_key ` set (sl_posts s))"

text \<open>The position \<open>j\<close> holds the slot of the key.\<close>

definition slot_at :: "Table \<Rightarrow> nat \<Rightarrow> slot_key \<Rightarrow> bool" where
  "slot_at t j k \<longleftrightarrow> j < length (tb_slots t) \<and> sl_state (tb_slots t ! j) = SLOT_LIVE \<and> skey (tb_slots t ! j) = k \<and>
     slots_of t k = Some (tb_slots t ! j)"

lemma slot_matches_key: "slot_matches s key str \<longleftrightarrow> skey s = (key, str)"
  by (auto simp: slot_matches_def split: option.split)

interpretation fs: probe_table sl_state skey shash "\<lambda>k s. slot_matches s (fst k) (snd k)" "\<lambda>_ s. sl_state s \<noteq> SLOT_LIVE" blank_slot
  by unfold_locales (auto simp: blank_slot_def slot_matches_key)

interpretation fp: sorted_array fpost_key "\<lambda>p k. fact_post_cmp (po_pred p) (po_record_id p) (fst k) (snd k) < 0"
  by unfold_locales (auto simp: fact_post_cmp_def less_prod_simp split: prod.splits)

section \<open>The operations of the table\<close>

lemma tbl_find_ok:
  assumes "tab_ok t"
  shows "tbl_find t key str = Some j \<Longrightarrow> slot_at t j (key, str)"
    and "tbl_find t key str = None \<longleftrightarrow> slots_of t (key, str) = None"
proof -
  have c: "counted_ok sl_state skey shash 64 (tb_slots t) (tb_live t) (tb_used t)" using assms by (simp add: tab_ok_def)
  show "tbl_find t key str = None \<longleftrightarrow> slots_of t (key, str) = None"
    using fs.counted_find(2) [OF c, of "(key, str)"]
    by (cases "tb_slots t = []") (simp_all add: tbl_find_def Let_def slots_of_def slot_map_def)
  assume "tbl_find t key str = Some j"
  then show "slot_at t j (key, str)"
    using fs.counted_find(1) [OF c, of "(key, str)" j]
    by (cases "tb_slots t = []") (simp_all add: tbl_find_def Let_def slot_at_def slots_of_def)
qed

lemma tbl_grow_ok:
  assumes "tab_ok t"
  shows "\<exists>t'. tbl_grow True t = Some (0, t') \<and> tab_ok t' \<and> slots_of t' = slots_of t \<and> tb_slots t' \<noteq> [] \<and>
    4 * (tb_used t' + 1) < 3 * length (tb_slots t')"
proof -
  have "counted_ok sl_state skey shash 64 (tb_slots t) (tb_live t) (tb_used t)" using assms by (simp add: tab_ok_def)
  from fs.counted_grow [OF this, of 6] obtain nt
    where nt: "rehash_into sl_state (\<lambda>_ s. sl_state s \<noteq> SLOT_LIVE) (\<lambda>s. mix64 (sl_key s)) (tb_slots t)
      (replicate (grown 64 (tb_slots t)) blank_slot) = Some nt"
    "counted_ok sl_state skey shash 64 nt (tb_live t) (tb_live t)" "nt \<noteq> []"
    "slot_map sl_state skey nt = slot_map sl_state skey (tb_slots t)" "4 * (tb_live t + 1) < 3 * length nt"
    by (simp, blast)
  have "tbl_grow True t = Some (0, t\<lparr>tb_slots := nt, tb_used := tb_live t\<rparr>)"
    using nt(1) unfolding grown_def tbl_grow_def Let_def by simp
  with nt(2-5) assms show ?thesis by (simp add: tab_ok_def slots_of_def)
qed

lemma posts_of_upd: "slots_of t' = (slots_of t)(k \<mapsto> s) \<Longrightarrow> posts_of t' = (posts_of t)(k := fpost_key ` set (sl_posts s))"
  by (simp add: fun_eq_iff posts_of_def)

lemma posts_of_del: "slots_of t' = (slots_of t)(k := None) \<Longrightarrow> posts_of t' = (posts_of t)(k := {})"
  by (simp add: fun_eq_iff posts_of_def)

lemma tbl_claim_ok:
  assumes "tab_ok t" and "tb_slots t \<noteq> []" and "4 * (tb_used t + 1) < 3 * length (tb_slots t)"
  shows "\<exists>r t'. tbl_claim m t key str = (r, t') \<and> tab_ok t' \<and> posts_of t' = posts_of t \<and>
    (r = None \<and> t' = t \<and> \<not> m \<or>
     (\<exists>j. r = Some j \<and> slot_at t' j (key, str) \<and>
       (slots_of t' = slots_of t \<or> slots_of t' = (slots_of t)((key, str) \<mapsto> new_slot key str))))"
proof -
  let ?n = "new_slot key str" and ?sl = "tb_slots t"
  have c: "counted_ok sl_state skey shash 64 ?sl (tb_live t) (tb_used t)" using assms(1) by (simp add: tab_ok_def)
  have n: "sl_state ?n = SLOT_LIVE" "skey ?n = (key, str)" "sl_posts ?n = []" by (simp_all add: new_slot_def)
  show ?thesis
  proof (cases rule: fs.counted_claim [OF c assms(2,3) n(1,2), case_names old new])
    case (old j)
    then have "tbl_claim m t key str = (Some j, t)" by (simp add: tbl_claim_def Let_def)
    moreover have "slot_at t j (key, str)" using old by (simp add: slot_at_def slots_of_def)
    ultimately show ?thesis using assms(1) by blast
  next
    case (new j)
    let ?t = "t\<lparr>tb_slots := ?sl[j := ?n], tb_used := (if sl_state (?sl ! j) = SLOT_EMPTY then tb_used t + 1 else tb_used t), tb_live := tb_live t + 1\<rparr>"
    have sl: "slots_of ?t = (slots_of t)((key, str) \<mapsto> ?n)" using new(6) by (simp add: slots_of_def)
    have "posts_of ?t = (posts_of t)((key, str) := {})" using posts_of_upd [OF sl] n(3) by simp
    then have p: "posts_of ?t = posts_of t" using new(3) by (simp add: fun_upd_idem posts_of_def slots_of_def)
    have "tab_ok ?t" unfolding tab_ok_def sl using new(5) assms(1) n(3)
      by (auto simp: tab_ok_def slot_ok_def ran_def split: if_splits)
    moreover have "slot_at ?t j (key, str)" using new(2) n sl by (simp add: slot_at_def)
    moreover have "tbl_claim m t key str = (if str \<noteq> None \<and> \<not> m then (None, t) else (Some j, ?t))"
      using new(1) by (simp add: tbl_claim_def Let_def)
    ultimately show ?thesis using p sl assms(1) by auto
  qed
qed

lemma tbl_put_ok:
  assumes "tab_ok t" and "filled_but {} t"
  shows "\<exists>r t'. tbl_put gm cm t key str = Some (r, t') \<and> tab_ok t' \<and> posts_of t' = posts_of t \<and>
    (r = None \<and> filled_but {} t' \<and> \<not> (gm \<and> cm) \<or> (\<exists>j. r = Some j \<and> slot_at t' j (key, str) \<and> filled_but {(key, str)} t'))"
proof -
  have claim: "\<exists>r t'. tbl_claim cm u key str = (r, t') \<and> tab_ok t' \<and> posts_of t' = posts_of u \<and>
      (r = None \<and> filled_but {} t' \<and> \<not> cm \<or> (\<exists>j. r = Some j \<and> slot_at t' j (key, str) \<and> filled_but {(key, str)} t'))"
    if "tab_ok u" "tb_slots u \<noteq> []" "4 * (tb_used u + 1) < 3 * length (tb_slots u)" "filled_but {} u" for u
    using tbl_claim_ok [OF that(1-3), of cm key str] that(4) by (auto simp: filled_but_def)
  show ?thesis
  proof (cases "length (tb_slots t) = 0 \<or> length (tb_slots t) * 3 \<le> (tb_used t + 1) * 4")
    case False
    then have "tb_slots t \<noteq> []" "4 * (tb_used t + 1) < 3 * length (tb_slots t)" by auto
    from claim [OF assms(1) this assms(2)] False show ?thesis by (auto simp: tbl_put_def)
  next
    case grow: True
    show ?thesis
    proof (cases gm)
      case True
      obtain u where u: "tbl_grow True t = Some (0, u)" "tab_ok u" "slots_of u = slots_of t" "tb_slots u \<noteq> []"
        "4 * (tb_used u + 1) < 3 * length (tb_slots u)" using tbl_grow_ok [OF assms(1)] by blast
      have f: "filled_but {} u" and p: "posts_of u = posts_of t" using assms(2) u(3) by (simp_all add: filled_but_def posts_of_def fun_eq_iff)
      from claim [OF u(2,4,5) f] u(1) p grow True show ?thesis by (auto simp: tbl_put_def)
    qed (use grow assms in \<open>auto simp: tbl_put_def tbl_grow_def Let_def\<close>)
  qed
qed

lemma filled_but_fill: "filled_but {k} t \<Longrightarrow> slots_of t k = Some s \<Longrightarrow> sl_posts s \<noteq> [] \<Longrightarrow> filled_but {} t"
  unfolding filled_but_def by (metis empty_iff option.inject singletonD)

lemma slot_store_ok:
  assumes "tab_ok t" and "slot_at t j k" and "slot_ok s" and "sl_state s = SLOT_LIVE" and "skey s = k"
  shows "tab_ok (t\<lparr>tb_slots := (tb_slots t)[j := s]\<rparr>)" and "slots_of (t\<lparr>tb_slots := (tb_slots t)[j := s]\<rparr>) = (slots_of t)(k \<mapsto> s)"
    and "slot_at (t\<lparr>tb_slots := (tb_slots t)[j := s]\<rparr>) j k"
proof -
  have c: "counted_ok sl_state skey shash 64 (tb_slots t) (tb_live t) (tb_used t)" using assms(1) by (simp add: tab_ok_def)
  have at: "j < length (tb_slots t)" "sl_state (tb_slots t ! j) = SLOT_LIVE" "skey (tb_slots t ! j) = k" using assms(2) by (simp_all add: slot_at_def)
  note st = fs.counted_store [OF c at(1,2) assms(4) assms(5) [folded at(3)]]
  show sl: "slots_of (t\<lparr>tb_slots := (tb_slots t)[j := s]\<rparr>) = (slots_of t)(k \<mapsto> s)" using st(2) assms(5) by (simp add: slots_of_def)
  show "tab_ok (t\<lparr>tb_slots := (tb_slots t)[j := s]\<rparr>)" unfolding tab_ok_def sl using st(1) assms(1,3) by (auto simp: tab_ok_def ran_def split: if_splits)
  show "slot_at (t\<lparr>tb_slots := (tb_slots t)[j := s]\<rparr>) j k" unfolding slot_at_def sl using at assms(4,5) by simp
qed

lemma tbl_retire_ok:
  assumes "tab_ok t" and "slot_at t j k" and "sl_posts (tb_slots t ! j) = []" and "filled_but {k} t"
  shows "tab_ok (tbl_retire t j)" and "posts_of (tbl_retire t j) = posts_of t" and "filled_but {} (tbl_retire t j)"
proof -
  let ?s = "(tb_slots t ! j)\<lparr>sl_posts := [], sl_obj_str := None, sl_cap := 0, sl_state := SLOT_DEAD\<rparr>"
  have c: "counted_ok sl_state skey shash 64 (tb_slots t) (tb_live t) (tb_used t)" using assms(1) by (simp add: tab_ok_def)
  have at: "j < length (tb_slots t)" "sl_state (tb_slots t ! j) = SLOT_LIVE" "skey (tb_slots t ! j) = k" "slots_of t k = Some (tb_slots t ! j)"
    using assms(2) by (simp_all add: slot_at_def)
  have "sl_state ?s = SLOT_DEAD" by simp
  note kl = fs.counted_kill [OF c at(1,2) this]
  have sl: "slots_of (tbl_retire t j) = (slots_of t)(k := None)" using kl(2) at(3) by (simp add: slots_of_def tbl_retire_def)
  show "tab_ok (tbl_retire t j)" unfolding tab_ok_def sl using kl(1) assms(1)
    by (auto simp: tab_ok_def tbl_retire_def ran_def split: if_splits)
  show "posts_of (tbl_retire t j) = posts_of t" using posts_of_del [OF sl] at(4) assms(3) by (simp add: fun_upd_idem posts_of_def)
  show "filled_but {} (tbl_retire t j)" unfolding filled_but_def sl using assms(4) by (auto simp: filled_but_def split: if_splits)
qed

section \<open>Postings\<close>

lemma fact_post_at_iff:
  "sorted (map fpost_key ps) \<Longrightarrow> fact_post_at ps (fact_post_lower_bound ps p r) p r \<longleftrightarrow> (p, r) \<in> fpost_key ` set ps"
  using fp.found_iff [of ps "fact_post_lower_bound ps p r" "(p, r)"]
  by (auto simp: fact_post_at_def fact_post_lower_bound_def)

lemma slot_add_post_ok:
  assumes "slot_ok s"
  shows "\<exists>rv added s'. slot_add_post m s p r = (rv, added, s') \<and> slot_ok s' \<and> sl_state s' = sl_state s \<and> skey s' = skey s \<and>
    (rv = 0 \<and> fpost_key ` set (sl_posts s') = insert (p, r) (fpost_key ` set (sl_posts s)) \<and> (added \<longleftrightarrow> (p, r) \<notin> fpost_key ` set (sl_posts s)) \<or>
     rv = -1 \<and> \<not> added \<and> s' = s \<and> \<not> m)"
proof -
  have so: "sorted (map fpost_key (sl_posts s))" and di: "distinct (map fpost_key (sl_posts s))" and le: "length (sl_posts s) \<le> sl_cap s"
    using assms by (simp_all add: slot_ok_def)
  let ?pos = "fact_post_lower_bound (sl_posts s) p r" and ?x = "\<lparr>po_record_id = r, po_pred = p\<rparr>"
  note at = fact_post_at_iff [OF so, of p r]
  show ?thesis
  proof (cases "(p, r) \<in> fpost_key ` set (sl_posts s)")
    case True
    then show ?thesis using at assms by (auto simp: slot_add_post_def Let_def)
  next
    case False
    have pos: "?pos = bsearch (\<lambda>i. fact_post_cmp (po_pred (sl_posts s ! i)) (po_record_id (sl_posts s ! i)) (fst (fpost_key ?x)) (snd (fpost_key ?x)) < 0) 0 (length (sl_posts s))"
      by (simp add: fact_post_lower_bound_def)
    have "fpost_key ?x \<notin> fpost_key ` set (sl_posts s)" using False by simp
    note ins = fp.sorted_insert [OF so pos] fp.distinct_insert [OF so di this pos]
    have "slot_ok (s\<lparr>sl_posts := insert_at ?pos ?x (sl_posts s), sl_cap := nc\<rparr>)" if "length (sl_posts s) < nc" for nc
      using ins that by (simp add: slot_ok_def length_insert_at)
    then show ?thesis using at False assms le by (auto simp: slot_add_post_def Let_def set_insert_at)
  qed
qed

lemma tbl_add_post_ok:
  assumes "tab_ok t" and "slot_at t j k" and "filled_but {k} t"
  shows "\<exists>rv added t'. tbl_add_post m t j p r = (rv, added, t') \<and> tab_ok t' \<and> slot_at t' j k \<and>
    (rv = 0 \<and> filled_but {} t' \<and> posts_of t' = (posts_of t)(k := insert (p, r) (posts_of t k)) \<and> (added \<longleftrightarrow> (p, r) \<notin> posts_of t k) \<or>
     rv = -1 \<and> \<not> added \<and> t' = t \<and> \<not> m)"
proof -
  let ?s = "tb_slots t ! j"
  have at: "slots_of t k = Some ?s" "sl_state ?s = SLOT_LIVE" "skey ?s = k" using assms(2) by (simp_all add: slot_at_def)
  have "slot_ok ?s" using assms(1) at(1) by (auto simp: tab_ok_def intro: ranI)
  from slot_add_post_ok [OF this, of m p r] obtain rv added s' where
    a: "slot_add_post m ?s p r = (rv, added, s')" "slot_ok s'" "sl_state s' = SLOT_LIVE" "skey s' = k" and
    c: "rv = 0 \<and> fpost_key ` set (sl_posts s') = insert (p, r) (fpost_key ` set (sl_posts ?s)) \<and> (added \<longleftrightarrow> (p, r) \<notin> fpost_key ` set (sl_posts ?s)) \<or>
     rv = -1 \<and> \<not> added \<and> s' = ?s \<and> \<not> m" using at by auto
  note st = slot_store_ok [OF assms(1,2) a(2-4)]
  have run: "tbl_add_post m t j p r = (rv, added, t\<lparr>tb_slots := (tb_slots t)[j := s']\<rparr>)" using a(1) by (simp add: tbl_add_post_def)
  have P: "posts_of t k = fpost_key ` set (sl_posts ?s)" using at(1) by (simp add: posts_of_def)
  from c show ?thesis
  proof
    assume c: "rv = 0 \<and> fpost_key ` set (sl_posts s') = insert (p, r) (fpost_key ` set (sl_posts ?s)) \<and> (added \<longleftrightarrow> (p, r) \<notin> fpost_key ` set (sl_posts ?s))"
    then have "sl_posts s' \<noteq> []" by auto
    then have "filled_but {} (t\<lparr>tb_slots := (tb_slots t)[j := s']\<rparr>)"
      unfolding filled_but_def st(2) using assms(3) by (auto simp: filled_but_def)
    then show ?thesis using run st(1,3) posts_of_upd [OF st(2)] c P by auto
  next
    assume c: "rv = -1 \<and> \<not> added \<and> s' = ?s \<and> \<not> m"
    then have "t\<lparr>tb_slots := (tb_slots t)[j := s']\<rparr> = t" by simp
    then show ?thesis using run c assms(1,2) by auto
  qed
qed

lemma slot_del_post_ok:
  assumes "tab_ok t" and "slot_at t j k" and "filled_but {} t"
  shows "\<exists>t'. slot_del_post t j p r = ((p, r) \<in> posts_of t k, t') \<and> tab_ok t' \<and> filled_but {} t' \<and>
    posts_of t' = (posts_of t)(k := posts_of t k - {(p, r)})"
proof -
  let ?s = "tb_slots t ! j"
  let ?pos = "fact_post_lower_bound (sl_posts ?s) p r"
  let ?ps = "remove_at ?pos (sl_posts ?s)"
  have at: "slots_of t k = Some ?s" "sl_state ?s = SLOT_LIVE" "skey ?s = k" "j < length (tb_slots t)" using assms(2) by (simp_all add: slot_at_def)
  have ok: "slot_ok ?s" using assms(1) at(1) by (auto simp: tab_ok_def intro: ranI)
  then have so: "sorted (map fpost_key (sl_posts ?s))" and di: "distinct (map fpost_key (sl_posts ?s))" by (simp_all add: slot_ok_def)
  have P: "posts_of t k = fpost_key ` set (sl_posts ?s)" using at(1) by (simp add: posts_of_def)
  note iff = fact_post_at_iff [OF so, of p r]
  show ?thesis
  proof (cases "(p, r) \<in> posts_of t k")
    case False
    then have "(posts_of t)(k := posts_of t k - {(p, r)}) = posts_of t" by simp
    then show ?thesis using False iff assms(1,3) unfolding P [symmetric] by (simp add: slot_del_post_def Let_def)
  next
    case True
    then have pos: "?pos < length (sl_posts ?s)" "fpost_key (sl_posts ?s ! ?pos) = (p, r)" using iff P by (auto simp: fact_post_at_def)
    have "set (remove_at ?pos (map fpost_key (sl_posts ?s))) = set (map fpost_key (sl_posts ?s)) - {map fpost_key (sl_posts ?s) ! ?pos}"
      using set_remove_at_distinct [OF di] pos(1) by simp
    then have rm: "fpost_key ` set ?ps = posts_of t k - {(p, r)}" using pos P by (simp add: map_remove_at [symmetric])
    have "slot_ok (?s\<lparr>sl_posts := ?ps\<rparr>)" using ok fp.sorted_remove [OF so, of ?pos] fp.distinct_remove [OF di, of ?pos] length_remove_at [OF pos(1)]
      by (auto simp: slot_ok_def)
    note st = slot_store_ok [OF assms(1,2) this]
    let ?t = "t\<lparr>tb_slots := (tb_slots t)[j := ?s\<lparr>sl_posts := ?ps\<rparr>]\<rparr>"
    have t1: "tab_ok ?t" "slot_at ?t j k" "posts_of ?t = (posts_of t)(k := posts_of t k - {(p, r)})"
      using st at posts_of_upd [of ?t t k "?s\<lparr>sl_posts := ?ps\<rparr>"] rm by simp_all
    have fb: "filled_but {k} ?t" unfolding filled_but_def using st(2) at assms(3) by (auto simp: filled_but_def)
    have run: "slot_del_post t j p r = (True, if length ?ps = 0 then tbl_retire ?t j else ?t)"
      using iff P True by (simp add: slot_del_post_def Let_def)
    show ?thesis
    proof (cases "?ps = []")
      case e: True
      have "sl_posts (tb_slots ?t ! j) = []" using e at(4) by simp
      from tbl_retire_ok [OF t1(1,2) this fb] t1(3) run True e show ?thesis by auto
    next
      case e: False
      have "slots_of ?t k = Some (?s\<lparr>sl_posts := ?ps\<rparr>)" using st(2) at by simp
      from filled_but_fill [OF fb this] e have "filled_but {} ?t" by simp
      with t1 run True e show ?thesis by auto
    qed
  qed
qed

end
