(* ===== verification/Fact_Index.thy ===== *)
theory Fact_Index
  imports Fact_Table Predicate_Registry
begin

text \<open>
  The fact index, \<^verbatim>\<open>src/src/storage/fact_index.c\<close>: the record ids of the stored facts by subject, by object and by
  predicate. Predicates are interned in a chained table; a node is shared in C between its chain and \<^verbatim>\<open>pred_by_id\<close>, and as
  its name and id never change both places hold them, while its use counter is kept once, in \<open>fi_uses\<close>.
  The three structures must agree, so a failed addition is undone step by step.

  Shown: the index represents a finite map from record ids to facts; add and remove act on that map, also when allocations
  fail; every query returns exactly the matching ids in ascending order; the counters are exact. A record has at most
  one fact, which the callers guarantee, so that this is a map and not a relation.
\<close>

section \<open>State\<close>

definition PRED_NBUCKETS :: nat where
  "PRED_NBUCKETS = 1024"

definition PRED_NONE :: u16 where
  "PRED_NONE = 0"

record PredNode =
  pn_name :: cstr
  pn_id :: u16

text \<open>The arrays \<^verbatim>\<open>pred_recs\<close>, \<^verbatim>\<open>pred_n\<close> and \<^verbatim>\<open>pred_cap\<close> are functions of the position; the number of ids is the length of the list.\<close>

record FactIndex =
  fi_subj :: Table
  fi_obj :: Table
  fi_pred_recs :: "nat \<Rightarrow> u64 list"
  fi_pred_cap :: "nat \<Rightarrow> nat"
  fi_pred_buckets :: "nat \<Rightarrow> PredNode list"
  fi_pred_by_id :: "PredNode list"
  fi_uses :: "nat list"
  fi_preds_live :: nat
  fi_pred_by_id_cap :: nat
  fi_facts :: nat

section \<open>Predicate interning\<close>

definition pred_hash :: "cstr \<Rightarrow> nat" where
  "pred_hash s = hash_bucket PRED_NBUCKETS s"

definition pred_find :: "FactIndex \<Rightarrow> cstr \<Rightarrow> PredNode option" where
  "pred_find f p = table_find pn_name PRED_NBUCKETS (fi_pred_buckets f) p"

definition pred_intern :: "alloc \<Rightarrow> FactIndex \<Rightarrow> cstr \<Rightarrow> u16 \<times> FactIndex" where
  "pred_intern mem f p =
     (if length p = 0 \<or> FACT_MAX_PREDICATE_LEN < length p then (PRED_NONE, f)
      else case pred_find f p of
             Some n \<Rightarrow> (pn_id n, f)
           | None \<Rightarrow>
               let count = length (fi_pred_by_id f); full = (count = fi_pred_by_id_cap f)
               in if FACT_MAX_PREDICATES \<le> count then (PRED_NONE, f)
                  else if full \<and> \<not> mem 0 then (PRED_NONE, f)
                  else let nc = (if full then if fi_pred_by_id_cap f \<noteq> 0 then fi_pred_by_id_cap f * 2 else 16
                                 else fi_pred_by_id_cap f);
                           f1 = f\<lparr>fi_pred_by_id_cap := nc\<rparr>
                       in if \<not> mem 1 then (PRED_NONE, f1)
                          else if \<not> mem 2 then (PRED_NONE, f1)
                          else let n = \<lparr>pn_name = p, pn_id = of_nat (count + 1)\<rparr>
                               in (pn_id n,
                                   f1\<lparr>fi_pred_buckets := table_push pn_name PRED_NBUCKETS (fi_pred_buckets f) n,
                                      fi_pred_by_id := fi_pred_by_id f @ [n], fi_uses := fi_uses f @ [0]\<rparr>))"

definition pred_lookup :: "FactIndex \<Rightarrow> cstr option \<Rightarrow> u16" where
  "pred_lookup f po =
     (case po of
        None \<Rightarrow> PRED_NONE
      | Some p \<Rightarrow> if p = [] then PRED_NONE else case pred_find f p of None \<Rightarrow> PRED_NONE | Some n \<Rightarrow> pn_id n)"

definition pred_use :: "FactIndex \<Rightarrow> u16 \<Rightarrow> int \<Rightarrow> FactIndex" where
  "pred_use f p delta =
     (if p = PRED_NONE \<or> length (fi_pred_by_id f) < unat p then f
      else let j = unat p - 1; u = fi_uses f ! j
           in if 0 < delta
              then f\<lparr>fi_uses := (fi_uses f)[j := u + 1], fi_preds_live := (if u = 0 then fi_preds_live f + 1 else fi_preds_live f)\<rparr>
              else if u \<noteq> 0
              then f\<lparr>fi_uses := (fi_uses f)[j := u - 1], fi_preds_live := (if u - 1 = 0 then fi_preds_live f - 1 else fi_preds_live f)\<rparr>
              else f)"

section \<open>Mutation\<close>

definition fact_index_create :: "alloc \<Rightarrow> FactIndex option" where
  "fact_index_create mem =
     (if \<not> mem 0 then None
      else Some \<lparr>fi_subj = \<lparr>tb_slots = [], tb_live = 0, tb_used = 0\<rparr>, fi_obj = \<lparr>tb_slots = [], tb_live = 0, tb_used = 0\<rparr>,
                 fi_pred_recs = (\<lambda>_. []), fi_pred_cap = (\<lambda>_. 0), fi_pred_buckets = (\<lambda>_. []), fi_pred_by_id = [], fi_uses = [],
                 fi_preds_live = 0, fi_pred_by_id_cap = 0, fi_facts = 0\<rparr>)"

definition fact_str_hash64 :: "cstr \<Rightarrow> u64" where
  "fact_str_hash64 s = (if fnv1a s \<noteq> 0 then fnv1a s else 1)"

definition object_key :: "FactKind \<Rightarrow> u64 \<Rightarrow> cstr option \<Rightarrow> slot_key option" where
  "object_key okind oid ostr =
     (if okind = FACT_OBJ_ID then Some (oid, None)
      else if okind = FACT_OBJ_STRING then map_option (\<lambda>s. (fact_str_hash64 s, Some s)) ostr
      else None)"

text \<open>Taking back the subject posting.\<close>

definition undo_subject :: "FactIndex \<Rightarrow> nat \<Rightarrow> bool \<Rightarrow> u16 \<Rightarrow> u64 \<Rightarrow> FactIndex" where
  "undo_subject f sj s_added pred rid =
     (if s_added then f\<lparr>fi_subj := snd (slot_del_post (fi_subj f) sj pred rid)\<rparr> else f)"

text \<open>The last part of \<^verbatim>\<open>fact_index_add\<close>, with both postings in place at \<open>sj\<close> and \<open>oj\<close>.\<close>

definition fact_add_pred :: "alloc \<Rightarrow> FactIndex \<Rightarrow> nat \<Rightarrow> bool \<Rightarrow> nat \<Rightarrow> bool \<Rightarrow> u16 \<Rightarrow> u64 \<Rightarrow> int \<times> FactIndex" where
  "fact_add_pred mem f sj s_added oj o_added pred rid =
     (let j = unat pred - 1; (rv, v, cap) = idlist_add (mem 8) (fi_pred_recs f j) (fi_pred_cap f j) rid
      in if rv \<noteq> 0
         then (-1, undo_subject (if o_added then f\<lparr>fi_obj := snd (slot_del_post (fi_obj f) oj pred rid)\<rparr> else f) sj s_added pred rid)
         else let f1 = f\<lparr>fi_pred_recs := (fi_pred_recs f)(j := v), fi_pred_cap := (fi_pred_cap f)(j := cap)\<rparr>
              in (0, if s_added then (pred_use f1 pred 1)\<lparr>fi_facts := fi_facts f1 + 1\<rparr> else f1))"

text \<open>The part from the object table on.\<close>

definition fact_add_object :: "alloc \<Rightarrow> FactIndex \<Rightarrow> nat \<Rightarrow> bool \<Rightarrow> slot_key \<Rightarrow> u16 \<Rightarrow> u64 \<Rightarrow> (int \<times> FactIndex) option" where
  "fact_add_object mem f sj s_added ok pred rid =
     (case tbl_put (mem 5) (mem 6) (fi_obj f) (fst ok) (snd ok) of
        None \<Rightarrow> None
      | Some (None, t) \<Rightarrow> Some (-1, undo_subject (f\<lparr>fi_obj := t\<rparr>) sj s_added pred rid)
      | Some (Some oj, t) \<Rightarrow>
          let (rv, o_added, t1) = tbl_add_post (mem 7) t oj pred rid
          in if rv \<noteq> 0
             then Some (-1, undo_subject (f\<lparr>fi_obj := (if length (sl_posts (tb_slots t1 ! oj)) = 0 then tbl_retire t1 oj else t1)\<rparr>) sj s_added pred rid)
             else Some (fact_add_pred mem (f\<lparr>fi_obj := t1\<rparr>) sj s_added oj o_added pred rid))"

text \<open>The part from the subject table on.\<close>

definition fact_add_subject :: "alloc \<Rightarrow> FactIndex \<Rightarrow> u64 \<Rightarrow> slot_key \<Rightarrow> u16 \<Rightarrow> u64 \<Rightarrow> (int \<times> FactIndex) option" where
  "fact_add_subject mem f subject ok pred rid =
     (case tbl_put (mem 3) True (fi_subj f) subject None of
        None \<Rightarrow> None
      | Some (None, t) \<Rightarrow> Some (-1, f\<lparr>fi_subj := t\<rparr>)
      | Some (Some sj, t) \<Rightarrow>
          let (rv, s_added, t1) = tbl_add_post (mem 4) t sj pred rid
          in if rv \<noteq> 0 then Some (-1, f\<lparr>fi_subj := (if length (sl_posts (tb_slots t1 ! sj)) = 0 then tbl_retire t1 sj else t1)\<rparr>)
             else fact_add_object mem (f\<lparr>fi_subj := t1\<rparr>) sj s_added ok pred rid)"

text \<open>Allocations 0 to 2 belong to the interning, 3 and 4 to the subject, 5 to 7 to the object, 8 to the predicate list.\<close>

definition fact_index_add ::
  "alloc \<Rightarrow> FactIndex option \<Rightarrow> u64 \<Rightarrow> u64 \<Rightarrow> cstr option \<Rightarrow> FactKind \<Rightarrow> u64 \<Rightarrow> cstr option \<Rightarrow> (int \<times> FactIndex option) option" where
  "fact_index_add mem fo rid subject predicate okind oid ostr =
     (case fo of
        None \<Rightarrow> Some (0, None)
      | Some f \<Rightarrow>
          (case predicate of
             None \<Rightarrow> Some (-1, Some f)
           | Some p \<Rightarrow>
               (case object_key okind oid ostr of
                  None \<Rightarrow> Some (-1, Some f)
                | Some ok \<Rightarrow>
                    let (pred, f1) = pred_intern mem f p
                    in if pred = PRED_NONE then Some (-1, Some f1)
                       else map_option (\<lambda>(rv, f2). (rv, Some f2)) (fact_add_subject mem f1 subject ok pred rid))))"

text \<open>Deleting a posting where the table has a slot for the key.\<close>

definition tbl_drop_post :: "Table \<Rightarrow> slot_key \<Rightarrow> u16 \<Rightarrow> u64 \<Rightarrow> bool \<times> Table" where
  "tbl_drop_post t k pred rid =
     (case tbl_find t (fst k) (snd k) of None \<Rightarrow> (False, t) | Some j \<Rightarrow> slot_del_post t j pred rid)"

definition fact_index_remove ::
  "FactIndex option \<Rightarrow> u64 \<Rightarrow> u64 \<Rightarrow> cstr option \<Rightarrow> FactKind \<Rightarrow> u64 \<Rightarrow> cstr option \<Rightarrow> FactIndex option" where
  "fact_index_remove fo rid subject predicate okind oid ostr =
     (case fo of
        None \<Rightarrow> None
      | Some f \<Rightarrow>
          if predicate = None then Some f
          else case object_key okind oid ostr of
                 None \<Rightarrow> Some f
               | Some ok \<Rightarrow>
                   let pred = pred_lookup f predicate
                   in if pred = PRED_NONE then Some f
                      else let (s_removed, ts) = tbl_drop_post (fi_subj f) (subject, None) pred rid;
                               (o_removed, t) = tbl_drop_post (fi_obj f) ok pred rid;
                               f1 = f\<lparr>fi_subj := ts, fi_obj := t\<rparr>; j = unat pred - 1
                           in Some (if s_removed
                                    then (pred_use (f1\<lparr>fi_pred_recs := (fi_pred_recs f1)(j := idlist_remove (fi_pred_recs f1 j) rid)\<rparr>) pred (-1))
                                           \<lparr>fi_facts := fi_facts f1 - 1\<rparr>
                                    else f1))"

section \<open>Lookups\<close>

text \<open>The loop of \<^verbatim>\<open>collect\<close>; a capacity of the number of postings is never exceeded.\<close>

fun collect_loop :: "(nat \<Rightarrow> bool) \<Rightarrow> u16 \<Rightarrow> Post list \<Rightarrow> nat \<Rightarrow> u64 list \<Rightarrow> nat \<Rightarrow> u64 list option" where
  "collect_loop mem pred [] i res cap = Some res"
| "collect_loop mem pred (p # ps) i res cap =
     (if pred \<noteq> PRED_NONE \<and> po_pred p \<noteq> pred then collect_loop mem pred ps (i + 1) res cap
      else let (rv, res1, cap1) = idlist_add (mem i) res cap (po_record_id p)
           in if rv \<noteq> 0 then None else collect_loop mem pred ps (i + 1) res1 cap1)"

text \<open>\<open>None\<close> is the return value -1; an empty result and a null one are the same.\<close>

definition collect :: "alloc \<Rightarrow> Slot option \<Rightarrow> u16 \<Rightarrow> u64 list option" where
  "collect mem so pred =
     (case so of
        None \<Rightarrow> Some []
      | Some s \<Rightarrow>
          if length (sl_posts s) = 0 then Some []
          else if \<not> mem 0 then None
          else collect_loop mem pred (sl_posts s) 1 [] (length (sl_posts s)))"

definition slot_ptr :: "Table \<Rightarrow> slot_key \<Rightarrow> Slot option" where
  "slot_ptr t k = map_option (\<lambda>j. tb_slots t ! j) (tbl_find t (fst k) (snd k))"

definition fact_index_by_subject :: "alloc \<Rightarrow> FactIndex option \<Rightarrow> u64 \<Rightarrow> cstr option \<Rightarrow> u64 list option" where
  "fact_index_by_subject mem fo subject predicate =
     (case fo of
        None \<Rightarrow> Some []
      | Some f \<Rightarrow>
          let pred = (if predicate = None then PRED_NONE else pred_lookup f predicate)
          in if predicate \<noteq> None \<and> pred = PRED_NONE then Some []
             else collect mem (slot_ptr (fi_subj f) (subject, None)) pred)"

definition fact_index_by_object ::
  "alloc \<Rightarrow> FactIndex option \<Rightarrow> FactKind \<Rightarrow> u64 \<Rightarrow> cstr option \<Rightarrow> cstr option \<Rightarrow> u64 list option" where
  "fact_index_by_object mem fo okind oid ostr predicate =
     (case fo of
        None \<Rightarrow> Some []
      | Some f \<Rightarrow>
          (case object_key okind oid ostr of
             None \<Rightarrow> None
           | Some ok \<Rightarrow>
               let pred = (if predicate = None then PRED_NONE else pred_lookup f predicate)
               in if predicate \<noteq> None \<and> pred = PRED_NONE then Some []
                  else collect mem (slot_ptr (fi_obj f) ok) pred))"

definition fact_index_predicate_facts :: "FactIndex option \<Rightarrow> cstr option \<Rightarrow> nat" where
  "fact_index_predicate_facts fo predicate =
     (case fo of
        None \<Rightarrow> 0
      | Some f \<Rightarrow> if predicate = None then 0
                  else let pred = pred_lookup f predicate
                       in if pred = PRED_NONE then 0 else length (fi_pred_recs f (unat pred - 1)))"

definition fact_index_by_predicate :: "alloc \<Rightarrow> FactIndex option \<Rightarrow> cstr option \<Rightarrow> u64 list option" where
  "fact_index_by_predicate mem fo predicate =
     (case fo of
        None \<Rightarrow> Some []
      | Some f \<Rightarrow>
          if predicate = None then Some []
          else let pred = pred_lookup f predicate
               in if pred = PRED_NONE \<or> length (fi_pred_recs f (unat pred - 1)) = 0 then Some []
                  else if \<not> mem 0 then None
                  else Some (fi_pred_recs f (unat pred - 1)))"

text \<open>The two loops, over the lists in order of the predicate, refuse to run over the allocated length.\<close>

definition fact_index_all_records :: "alloc \<Rightarrow> FactIndex option \<Rightarrow> u64 list option" where
  "fact_index_all_records mem fo =
     (case fo of
        None \<Rightarrow> Some []
      | Some f \<Rightarrow>
          if fi_facts f = 0 then Some []
          else if \<not> mem 0 then None
          else let ids = concat (map (fi_pred_recs f) [0..<FACT_MAX_PREDICATES])
               in if fi_facts f < length ids then None else Some (sort ids))"

definition fact_index_facts :: "FactIndex option \<Rightarrow> nat" where
  "fact_index_facts fo = (case fo of None \<Rightarrow> 0 | Some f \<Rightarrow> fi_facts f)"

definition fact_index_predicates :: "FactIndex option \<Rightarrow> nat" where
  "fact_index_predicates fo = (case fo of None \<Rightarrow> 0 | Some f \<Rightarrow> fi_preds_live f)"

section \<open>Invariant and abstraction\<close>

type_synonym fact_obj = "u64 + cstr"

type_synonym fact_map = "u64 \<rightharpoonup> u64 \<times> cstr \<times> fact_obj"

definition obj_slot :: "fact_obj \<Rightarrow> slot_key" where
  "obj_slot x = (case x of Inl i \<Rightarrow> (i, None) | Inr s \<Rightarrow> (fact_str_hash64 s, Some s))"

definition fact_object :: "FactKind \<Rightarrow> u64 \<Rightarrow> cstr option \<Rightarrow> fact_obj option" where
  "fact_object okind oid ostr =
     (case okind of FACT_NONE \<Rightarrow> None | FACT_OBJ_ID \<Rightarrow> Some (Inl oid) | FACT_OBJ_STRING \<Rightarrow> map_option Inr ostr)"

lemma object_key_slot: "object_key okind oid ostr = map_option obj_slot (fact_object okind oid ostr)"
  by (cases okind; cases ostr) (simp_all add: object_key_def fact_object_def obj_slot_def)

lemma obj_slot_inj [simp]: "obj_slot x = obj_slot y \<longleftrightarrow> x = y"
  by (auto simp: obj_slot_def split: sum.splits)

abbreviation pid :: "FactIndex \<Rightarrow> cstr \<Rightarrow> u16" where
  "pid f n \<equiv> pred_lookup f (Some n)"

text \<open>The postings of the facts \<open>M\<close> when a fact is filed under the key \<open>g\<close> of its subject and object.\<close>

definition filed :: "(u64 \<Rightarrow> fact_obj \<Rightarrow> slot_key) \<Rightarrow> (cstr \<Rightarrow> u16) \<Rightarrow> fact_map \<Rightarrow> slot_key \<Rightarrow> (u16 \<times> u64) set" where
  "filed g L M k = {(p, r). \<exists>s n x. M r = Some (s, n, x) \<and> g s x = k \<and> p = L n}"

definition rec_ids :: "(cstr \<Rightarrow> u16) \<Rightarrow> fact_map \<Rightarrow> nat \<Rightarrow> u64 set" where
  "rec_ids L M j = {r. \<exists>s n x. M r = Some (s, n, x) \<and> unat (L n) = j + 1}"

abbreviation subj_key :: "u64 \<Rightarrow> fact_obj \<Rightarrow> slot_key" where
  "subj_key s x \<equiv> (s, None)"

abbreviation obj_key :: "u64 \<Rightarrow> fact_obj \<Rightarrow> slot_key" where
  "obj_key s x \<equiv> obj_slot x"

definition preds_ok :: "FactIndex \<Rightarrow> bool" where
  "preds_ok f \<longleftrightarrow>
     table_ok pn_name PRED_NBUCKETS (fi_pred_buckets f) \<and>
     (\<forall>s n. pred_find f s = Some n \<longleftrightarrow> n \<in> set (fi_pred_by_id f) \<and> pn_name n = s) \<and>
     (\<forall>j < length (fi_pred_by_id f). pn_id (fi_pred_by_id f ! j) = of_nat (j + 1) \<and> pn_name (fi_pred_by_id f ! j) \<noteq> []) \<and>
     length (fi_pred_by_id f) \<le> FACT_MAX_PREDICATES \<and> length (fi_uses f) = length (fi_pred_by_id f) \<and>
     fi_preds_live f = length (filter (\<lambda>u. u \<noteq> 0) (fi_uses f))"

definition recs_ok :: "FactIndex \<Rightarrow> fact_map \<Rightarrow> bool" where
  "recs_ok f M \<longleftrightarrow>
     (\<forall>j. ids_ok (fi_pred_recs f j) (fi_pred_cap f j) \<and> set (fi_pred_recs f j) = rec_ids (pid f) M j) \<and>
     (\<forall>j < length (fi_uses f). fi_uses f ! j = length (fi_pred_recs f j)) \<and>
     fi_facts f = card (dom M) \<and> (\<forall>r s n x. M r = Some (s, n, x) \<longrightarrow> pid f n \<noteq> PRED_NONE)"

definition tab_holds :: "Table \<Rightarrow> (slot_key \<Rightarrow> (u16 \<times> u64) set) \<Rightarrow> bool" where
  "tab_holds t P \<longleftrightarrow> tab_ok t \<and> filled_but {} t \<and> posts_of t = P"

text \<open>The index represents the facts \<open>M\<close>.\<close>

definition fact_rep :: "FactIndex \<Rightarrow> fact_map \<Rightarrow> bool" where
  "fact_rep f M \<longleftrightarrow>
     preds_ok f \<and> recs_ok f M \<and> tab_holds (fi_subj f) (filed subj_key (pid f) M) \<and> tab_holds (fi_obj f) (filed obj_key (pid f) M)"

section \<open>The sets of postings\<close>

lemma filed_upd:
  "M r = None \<Longrightarrow> filed g L (M(r \<mapsto> (s, n, x))) = (filed g L M)(g s x := insert (L n, r) (filed g L M (g s x)))"
  by (auto simp: filed_def fun_eq_iff split: if_splits)

lemma filed_del:
  "M r = Some (s, n, x) \<Longrightarrow> filed g L (M(r := None)) = (filed g L M)(g s x := filed g L M (g s x) - {(L n, r)})"
  by (auto simp: filed_def fun_eq_iff)

lemma filed_mem: "(p, r) \<in> filed g L M k \<longleftrightarrow> (\<exists>s n x. M r = Some (s, n, x) \<and> g s x = k \<and> p = L n)"
  by (simp add: filed_def)

lemma filed_cong: "(\<And>r s n x. M r = Some (s, n, x) \<Longrightarrow> L n = L' n) \<Longrightarrow> filed g L M = filed g L' M"
  by (auto simp: filed_def fun_eq_iff)

lemma rec_ids_cong: "(\<And>r s n x. M r = Some (s, n, x) \<Longrightarrow> L n = L' n) \<Longrightarrow> rec_ids L M = rec_ids L' M"
  by (auto simp: rec_ids_def fun_eq_iff)

lemma rec_ids_upd: "M r = None \<Longrightarrow> rec_ids L (M(r \<mapsto> (s, n, x))) j = (if unat (L n) = j + 1 then insert r (rec_ids L M j) else rec_ids L M j)"
  by (auto simp: rec_ids_def)

lemma rec_ids_del: "M r = Some (s, n, x) \<Longrightarrow> rec_ids L (M(r := None)) j = (if unat (L n) = j + 1 then rec_ids L M j - {r} else rec_ids L M j)"
  by (auto simp: rec_ids_def)

section \<open>Interned predicates\<close>

lemma pred_pos:
  assumes "preds_ok f" and "pid f n \<noteq> PRED_NONE"
  obtains j where "j < length (fi_pred_by_id f)" "pid f n = of_nat (j + 1)" "unat (pid f n) = j + 1" "pn_name (fi_pred_by_id f ! j) = n"
proof -
  obtain m where m: "pred_find f n = Some m" "pid f n = pn_id m" using assms(2) by (auto simp: pred_lookup_def split: if_splits option.splits)
  then obtain j where j: "j < length (fi_pred_by_id f)" "m = fi_pred_by_id f ! j" "pn_name m = n"
    using assms(1) by (auto simp: preds_ok_def in_set_conv_nth)
  then have i: "pid f n = of_nat (j + 1)" using m(2) assms(1) by (simp add: preds_ok_def)
  moreover have "unat (of_nat (j + 1) :: u16) = j + 1"
    using j(1) assms(1) by (simp only: unat_of_nat) (simp add: preds_ok_def FACT_MAX_PREDICATES_def)
  ultimately show thesis using that j by simp
qed

lemma pred_name_pos:
  assumes "preds_ok f" and "j < length (fi_pred_by_id f)"
  shows "pid f (pn_name (fi_pred_by_id f ! j)) = of_nat (j + 1)"
proof -
  have "pred_find f (pn_name (fi_pred_by_id f ! j)) = Some (fi_pred_by_id f ! j)" using assms by (simp add: preds_ok_def)
  moreover have "pn_name (fi_pred_by_id f ! j) \<noteq> []" "pn_id (fi_pred_by_id f ! j) = of_nat (j + 1)" using assms by (simp_all add: preds_ok_def)
  ultimately show ?thesis by (simp add: pred_lookup_def)
qed

lemma pid_inj: "preds_ok f \<Longrightarrow> pid f n \<noteq> PRED_NONE \<Longrightarrow> pid f n = pid f m \<Longrightarrow> n = m"
  using pred_pos [of f n] pred_pos [of f m] by (metis add_right_cancel)

lemma pid_frame [simp]:
  "pred_lookup (f\<lparr>fi_subj := t\<rparr>) = pred_lookup f" "pred_lookup (f\<lparr>fi_obj := t\<rparr>) = pred_lookup f" "pred_lookup (f\<lparr>fi_pred_by_id_cap := c\<rparr>) = pred_lookup f"
  "pred_lookup (f\<lparr>fi_pred_recs := rs\<rparr>) = pred_lookup f" "pred_lookup (f\<lparr>fi_pred_cap := cs\<rparr>) = pred_lookup f" "pred_lookup (f\<lparr>fi_facts := m\<rparr>) = pred_lookup f"
  "pred_lookup (f\<lparr>fi_uses := u\<rparr>) = pred_lookup f" "pred_lookup (f\<lparr>fi_preds_live := l\<rparr>) = pred_lookup f"
  "preds_ok (f\<lparr>fi_subj := t\<rparr>) = preds_ok f" "preds_ok (f\<lparr>fi_obj := t\<rparr>) = preds_ok f" "preds_ok (f\<lparr>fi_pred_by_id_cap := c\<rparr>) = preds_ok f"
  "preds_ok (f\<lparr>fi_pred_recs := rs\<rparr>) = preds_ok f" "preds_ok (f\<lparr>fi_pred_cap := cs\<rparr>) = preds_ok f" "preds_ok (f\<lparr>fi_facts := m\<rparr>) = preds_ok f"
  by (simp_all add: pred_lookup_def pred_find_def preds_ok_def fun_eq_iff split: option.split)

lemma recs_frame [simp]:
  "recs_ok (f\<lparr>fi_subj := t\<rparr>) M = recs_ok f M" "recs_ok (f\<lparr>fi_obj := t\<rparr>) M = recs_ok f M" "recs_ok (f\<lparr>fi_pred_by_id_cap := c\<rparr>) M = recs_ok f M"
  by (simp_all add: recs_ok_def)

lemma pred_mint:
  assumes ok: "preds_ok f" and room: "length (fi_pred_by_id f) < FACT_MAX_PREDICATES" and p: "p \<noteq> []" "pred_find f p = None"
    and n: "n = \<lparr>pn_name = p, pn_id = of_nat (length (fi_pred_by_id f) + 1)\<rparr>"
    and f': "f' = f\<lparr>fi_pred_by_id_cap := nc, fi_pred_buckets := table_push pn_name PRED_NBUCKETS (fi_pred_buckets f) n,
      fi_pred_by_id := fi_pred_by_id f @ [n], fi_uses := fi_uses f @ [0]\<rparr>"
  shows "preds_ok f'" and "pid f' p = pn_id n" and "pn_id n \<noteq> PRED_NONE" and "\<And>q. q \<noteq> p \<Longrightarrow> pid f' q = pid f q"
proof -
  have find: "pred_find f' q = (if q = p then Some n else pred_find f q)" for q by (simp add: pred_find_def f' table_find_push n)
  have all: "\<And>q m. pred_find f q = Some m \<longleftrightarrow> m \<in> set (fi_pred_by_id f) \<and> pn_name m = q" using ok by (simp add: preds_ok_def)
  have none: "m \<in> set (fi_pred_by_id f) \<Longrightarrow> pn_name m \<noteq> p" for m using all [of p m] p(2) by auto
  have "table_ok pn_name PRED_NBUCKETS (fi_pred_buckets f')" using ok p(2) by (simp add: f' preds_ok_def table_ok_push pred_find_def n)
  moreover have "(pred_find f' q = Some m) = (m \<in> set (fi_pred_by_id f') \<and> pn_name m = q)" for q m
    using all none unfolding find by (auto simp: f' n)
  ultimately show "preds_ok f'" using ok room p(1) by (auto simp: preds_ok_def f' n nth_append less_Suc_eq)
  show "pid f' p = pn_id n" using p(1) by (simp add: pred_lookup_def find)
  show "\<And>q. q \<noteq> p \<Longrightarrow> pid f' q = pid f q" by (simp add: pred_lookup_def find)
  have "unat (of_nat (length (fi_pred_by_id f) + 1) :: u16) = length (fi_pred_by_id f) + 1"
    using room by (simp only: unat_of_nat) (simp add: FACT_MAX_PREDICATES_def)
  then show "pn_id n \<noteq> PRED_NONE" by (auto simp: n PRED_NONE_def simp del: of_nat_add of_nat_Suc)
qed

lemma recs_set: "recs_ok f M \<Longrightarrow> set (fi_pred_recs f j) = rec_ids (pid f) M j"
  and recs_ids: "recs_ok f M \<Longrightarrow> ids_ok (fi_pred_recs f j) (fi_pred_cap f j)"
  and recs_named: "recs_ok f M \<Longrightarrow> M r = Some (s, n, x) \<Longrightarrow> pid f n \<noteq> PRED_NONE"
  unfolding recs_ok_def by blast+

text \<open>Interning keeps what the index represents; it fails for the reasons the header names.\<close>

definition unnameable :: "FactIndex \<Rightarrow> cstr \<Rightarrow> bool" where
  "unnameable f p \<longleftrightarrow> p = [] \<or> FACT_MAX_PREDICATE_LEN < length p \<or> pid f p = PRED_NONE \<and> FACT_MAX_PREDICATES \<le> length (fi_pred_by_id f)"

lemma fact_rep_mint:
  assumes rep: "fact_rep f M" and p: "pred_find f p = None"
    and f': "preds_ok f'" "\<And>q. q \<noteq> p \<Longrightarrow> pid f' q = pid f q" "fi_uses f' = fi_uses f @ [0]" "fi_subj f' = fi_subj f" "fi_obj f' = fi_obj f"
      "fi_pred_recs f' = fi_pred_recs f" "fi_pred_cap f' = fi_pred_cap f" "fi_facts f' = fi_facts f"
  shows "fact_rep f' M"
proof -
  have po: "preds_ok f" and ro: "recs_ok f M" using rep by (simp_all add: fact_rep_def)
  have named: "pid f n \<noteq> PRED_NONE" if "M r = Some (s, n, x)" for r s n x using recs_named [OF ro that] .
  have same: "pid f' n = pid f n" if "M r = Some (s, n, x)" for r s n x
  proof (rule f'(2))
    have "pid f p = PRED_NONE" using p by (simp add: pred_lookup_def)
    then show "n \<noteq> p" using named [OF that] by auto
  qed
  have eq: "filed g (pid f') M = filed g (pid f) M" "rec_ids (pid f') M = rec_ids (pid f) M" for g
    using same by (auto intro!: filed_cong rec_ids_cong)
  have "rec_ids (pid f) M (length (fi_uses f)) = {}"
  proof (rule equals0I)
    fix r assume "r \<in> rec_ids (pid f) M (length (fi_uses f))"
    then obtain s n x where "M r = Some (s, n, x)" "unat (pid f n) = length (fi_uses f) + 1" by (auto simp: rec_ids_def)
    moreover from this(1) obtain j where "j < length (fi_pred_by_id f)" "unat (pid f n) = j + 1" using pred_pos [OF po named] by metis
    ultimately show False using po by (simp add: preds_ok_def)
  qed
  then have "fi_pred_recs f (length (fi_uses f)) = []" using recs_set [OF ro] by (metis set_empty)
  then have "fi_uses f' ! j = length (fi_pred_recs f' j)" if "j < length (fi_uses f')" for j
    using ro that by (cases "j = length (fi_uses f)") (simp_all add: recs_ok_def f' nth_append)
  moreover have "pid f' n \<noteq> PRED_NONE" if "M r = Some (s, n, x)" for r s n x using named [OF that] same [OF that] by simp
  ultimately have "recs_ok f' M" using ro unfolding recs_ok_def eq f'(6,7,8) by blast
  then show ?thesis using rep f' by (simp add: fact_rep_def eq)
qed

lemma fact_rep_cap [simp]: "fact_rep (f\<lparr>fi_pred_by_id_cap := nc\<rparr>) M = fact_rep f M"
  by (simp add: fact_rep_def)

lemma pred_intern_ok:
  assumes rep: "fact_rep f M" and r: "pred_intern mem f p = (pr, f1)"
  shows "fact_rep f1 M" and "pr \<noteq> PRED_NONE \<Longrightarrow> pr = pid f1 p" and "pr = PRED_NONE \<Longrightarrow> unnameable f p \<or> (\<exists>n. \<not> mem n)"
proof -
  have po: "preds_ok f" using rep by (simp add: fact_rep_def)
  have "fact_rep f1 M \<and> (pr \<noteq> PRED_NONE \<longrightarrow> pr = pid f1 p) \<and> (pr = PRED_NONE \<longrightarrow> unnameable f p \<or> (\<exists>n. \<not> mem n))"
  proof (cases "p = [] \<or> FACT_MAX_PREDICATE_LEN < length p")
    case True
    then show ?thesis using r rep by (auto simp: pred_intern_def unnameable_def)
  next
    case short: False
    show ?thesis
    proof (cases "pred_find f p")
      case (Some n)
      then have e: "pr = pn_id n" "f1 = f" using r short by (auto simp: pred_intern_def)
      obtain j where j: "j < length (fi_pred_by_id f)" "n = fi_pred_by_id f ! j" "pn_name n = p" using po Some by (auto simp: preds_ok_def in_set_conv_nth)
      have "pid f p = of_nat (j + 1)" using pred_name_pos [OF po j(1)] j by simp
      moreover have "pn_id n = of_nat (j + 1)" using po j by (simp add: preds_ok_def)
      moreover have "unat (of_nat (j + 1) :: u16) = j + 1"
        using j(1) po by (simp only: unat_of_nat) (simp add: preds_ok_def FACT_MAX_PREDICATES_def)
      ultimately show ?thesis using e rep by (auto simp: PRED_NONE_def simp del: of_nat_add of_nat_Suc)
    next
      case none: None
      let ?n = "\<lparr>pn_name = p, pn_id = of_nat (length (fi_pred_by_id f) + 1)\<rparr> :: PredNode"
      define nc where "nc = (if length (fi_pred_by_id f) = fi_pred_by_id_cap f
        then if fi_pred_by_id_cap f \<noteq> 0 then fi_pred_by_id_cap f * 2 else 16 else fi_pred_by_id_cap f)"
      define f2 where "f2 = f\<lparr>fi_pred_by_id_cap := nc, fi_pred_buckets := table_push pn_name PRED_NBUCKETS (fi_pred_buckets f) ?n,
        fi_pred_by_id := fi_pred_by_id f @ [?n], fi_uses := fi_uses f @ [0]\<rparr>"
      have z: "pid f p = PRED_NONE" using none by (simp add: pred_lookup_def)
      have c: "pred_intern mem f p =
          (if FACT_MAX_PREDICATES \<le> length (fi_pred_by_id f) then (PRED_NONE, f)
           else if length (fi_pred_by_id f) = fi_pred_by_id_cap f \<and> \<not> mem 0 then (PRED_NONE, f)
           else if \<not> mem 1 \<or> \<not> mem 2 then (PRED_NONE, f\<lparr>fi_pred_by_id_cap := nc\<rparr>) else (pn_id ?n, f2))"
        using short none by (simp add: pred_intern_def Let_def nc_def f2_def)
      show ?thesis
      proof (cases "FACT_MAX_PREDICATES \<le> length (fi_pred_by_id f) \<or> (length (fi_pred_by_id f) = fi_pred_by_id_cap f \<and> \<not> mem 0) \<or> \<not> mem 1 \<or> \<not> mem 2")
        case True
        then show ?thesis using r rep z unfolding c by (auto simp: unnameable_def split: if_splits)
      next
        case False
        then have room: "length (fi_pred_by_id f) < FACT_MAX_PREDICATES" and e: "pr = pn_id ?n" "f1 = f2" using r unfolding c by (auto split: if_splits)
        from short have "p \<noteq> []" by simp
        note m = pred_mint [OF po room this none refl f2_def]
        have "fact_rep f2 M" using m(4) by (intro fact_rep_mint [OF rep none m(1)]) (simp_all add: f2_def)
        then show ?thesis using e m by simp
      qed
    qed
  qed
  then show "fact_rep f1 M" and "pr \<noteq> PRED_NONE \<Longrightarrow> pr = pid f1 p" and "pr = PRED_NONE \<Longrightarrow> unnameable f p \<or> (\<exists>n. \<not> mem n)" by blast+
qed

lemma filter_update_length:
  "j < length xs \<Longrightarrow> length (filter P (xs[j := v])) + (if P (xs ! j) then 1 else 0) = length (filter P xs) + (if P v then 1 else 0)"
  using count_state_update [of j xs "\<lambda>u. if P u then SLOT_LIVE else SLOT_EMPTY" SLOT_LIVE v] by (simp add: count_state_def if_split_eq1)

lemma pred_use_ok:
  assumes "preds_ok f" and "j < length (fi_pred_by_id f)" and "unat p = j + 1" and "d = 1 \<or> d = -1 \<and> fi_uses f ! j \<noteq> 0"
  shows "\<exists>l. pred_use f p d = f\<lparr>fi_uses := (fi_uses f)[j := (if 0 < d then fi_uses f ! j + 1 else fi_uses f ! j - 1)], fi_preds_live := l\<rparr> \<and>
    preds_ok (f\<lparr>fi_uses := (fi_uses f)[j := (if 0 < d then fi_uses f ! j + 1 else fi_uses f ! j - 1)], fi_preds_live := l\<rparr>)"
proof -
  let ?u = "fi_uses f ! j"
  have j: "j < length (fi_uses f)" using assms(1,2) by (simp add: preds_ok_def)
  have p: "p \<noteq> PRED_NONE" using assms(3) by (auto simp: PRED_NONE_def)
  have len: "fi_preds_live f = length (filter (\<lambda>u. u \<noteq> 0) (fi_uses f))" using assms(1) by (simp add: preds_ok_def)
  note c = filter_update_length [OF j, of "\<lambda>u. u \<noteq> 0"]
  define v where "v = (if 0 < d then ?u + 1 else ?u - 1)"
  define l where "l = length (filter (\<lambda>u. u \<noteq> 0) ((fi_uses f)[j := v]))"
  have "pred_use f p d = f\<lparr>fi_uses := (fi_uses f)[j := v], fi_preds_live := l\<rparr>"
  proof (cases "d = 1")
    case True
    have "l = (if ?u = 0 then fi_preds_live f + 1 else fi_preds_live f)" using c [of v] len True by (auto simp: l_def v_def)
    then show ?thesis using assms(2,3) p True by (simp add: pred_use_def v_def)
  next
    case False
    then have d: "d = -1" "?u \<noteq> 0" using assms(4) by auto
    then have "l = (if ?u - 1 = 0 then fi_preds_live f - 1 else fi_preds_live f)" using c [of v] len by (auto simp: l_def v_def)
    then show ?thesis using assms(2,3) p d by (simp add: pred_use_def v_def)
  qed
  moreover have "preds_ok (f\<lparr>fi_uses := (fi_uses f)[j := v], fi_preds_live := l\<rparr>)"
    using assms(1) by (simp add: preds_ok_def pred_find_def l_def)
  ultimately show ?thesis unfolding v_def by blast
qed

section \<open>Adding a fact\<close>

text \<open>A table with the posting added on top of \<open>P\<close>, and its undoing.\<close>

definition posted :: "Table \<Rightarrow> nat \<Rightarrow> slot_key \<Rightarrow> (slot_key \<Rightarrow> (u16 \<times> u64) set) \<Rightarrow> u16 \<Rightarrow> u64 \<Rightarrow> bool \<Rightarrow> bool" where
  "posted t j k P pr r added \<longleftrightarrow> tab_holds t (P(k := insert (pr, r) (P k))) \<and> slot_at t j k \<and> (added \<longleftrightarrow> (pr, r) \<notin> P k)"

lemma posted_undo:
  assumes "posted t j k P pr r added"
  shows "tab_holds (if added then snd (slot_del_post t j pr r) else t) P"
proof (cases added)
  case True
  have h: "tab_ok t" "filled_but {} t" "posts_of t = P(k := insert (pr, r) (P k))" "slot_at t j k" and n: "(pr, r) \<notin> P k"
    using assms True by (simp_all add: posted_def tab_holds_def)
  from slot_del_post_ok [OF h(1,4,2), of pr r] obtain t' where t': "slot_del_post t j pr r = ((pr, r) \<in> posts_of t k, t')" "tab_ok t'" "filled_but {} t'"
    "posts_of t' = (posts_of t)(k := posts_of t k - {(pr, r)})" by blast
  have "posts_of t' = P" using t'(4) h(3) n by (simp add: fun_eq_iff)
  then show ?thesis using t'(1-3) True by (simp add: tab_holds_def)
next
  case False
  then have "P(k := insert (pr, r) (P k)) = P" using assms by (simp add: posted_def insert_absorb)
  then show ?thesis using False assms by (simp add: posted_def)
qed

lemma put_then_add:
  assumes "tab_holds t P"
  obtains (full) u where "tbl_put gm cm t (fst k) (snd k) = Some (None, u)" "tab_holds u P" "\<not> (gm \<and> cm)"
  | (failed) j u u' where "tbl_put gm cm t (fst k) (snd k) = Some (Some j, u)" "tbl_add_post m u j pr r = (-1, False, u')" "\<not> m"
      "tab_holds (if length (sl_posts (tb_slots u' ! j)) = 0 then tbl_retire u' j else u') P"
  | (added) j u a u' where "tbl_put gm cm t (fst k) (snd k) = Some (Some j, u)" "tbl_add_post m u j pr r = (0, a, u')" "posted u' j k P pr r a"
proof -
  have h: "tab_ok t" "filled_but {} t" "posts_of t = P" using assms by (simp_all add: tab_holds_def)
  from tbl_put_ok [OF h(1,2), of gm cm "fst k" "snd k"] obtain x u where
    p: "tbl_put gm cm t (fst k) (snd k) = Some (x, u)" "tab_ok u" "posts_of u = P" and
    c: "x = None \<and> filled_but {} u \<and> \<not> (gm \<and> cm) \<or> (\<exists>j. x = Some j \<and> slot_at u j k \<and> filled_but {k} u)" using h(3) by auto
  from c show thesis
  proof
    assume "x = None \<and> filled_but {} u \<and> \<not> (gm \<and> cm)"
    then show thesis using full [of u] p by (simp add: tab_holds_def)
  next
    assume "\<exists>j. x = Some j \<and> slot_at u j k \<and> filled_but {k} u"
    then obtain j where j: "x = Some j" "slot_at u j k" "filled_but {k} u" by blast
    from tbl_add_post_ok [OF p(2) j(2,3), of m pr r] obtain rv a u' where
      a: "tbl_add_post m u j pr r = (rv, a, u')" "tab_ok u'" "slot_at u' j k" and
      c: "rv = 0 \<and> filled_but {} u' \<and> posts_of u' = (posts_of u)(k := insert (pr, r) (posts_of u k)) \<and> (a \<longleftrightarrow> (pr, r) \<notin> posts_of u k) \<or>
        rv = -1 \<and> \<not> a \<and> u' = u \<and> \<not> m" by blast
    from c show thesis
    proof
      assume "rv = 0 \<and> filled_but {} u' \<and> posts_of u' = (posts_of u)(k := insert (pr, r) (posts_of u k)) \<and> (a \<longleftrightarrow> (pr, r) \<notin> posts_of u k)"
      then show thesis using p a j by (intro added [of j u a u']) (simp_all add: posted_def tab_holds_def)
    next
      assume f: "rv = -1 \<and> \<not> a \<and> u' = u \<and> \<not> m"
      have "tab_holds (if length (sl_posts (tb_slots u' ! j)) = 0 then tbl_retire u' j else u') P"
      proof (cases "sl_posts (tb_slots u ! j) = []")
        case True
        then show ?thesis using tbl_retire_ok [OF p(2) j(2) True j(3)] p(3) f by (simp add: tab_holds_def)
      next
        case False
        have "slots_of u k = Some (tb_slots u ! j)" using j(2) by (simp add: slot_at_def)
        from filled_but_fill [OF j(3) this False] False f p show ?thesis by (simp add: tab_holds_def)
      qed
      then show thesis using p a j f by (intro failed [of j u u']) simp_all
    qed
  qed
qed

lemma fact_add_pred_ok:
  assumes ok: "preds_ok f" "recs_ok f M" and pr: "pr = pid f n" "pr \<noteq> PRED_NONE" and one: "M rid = None \<or> M rid = Some (s, n, x)"
    and sub: "posted (fi_subj f) sj (s, None) (filed subj_key (pid f) M) pr rid s_added"
    and obj: "posted (fi_obj f) oj (obj_slot x) (filed obj_key (pid f) M) pr rid o_added"
  shows "\<exists>rv f'. fact_add_pred mem f sj s_added oj o_added pr rid = (rv, f') \<and>
    (rv = 0 \<and> fact_rep f' (M(rid \<mapsto> (s, n, x))) \<or> rv = -1 \<and> fact_rep f' M \<and> \<not> mem 8)"
proof -
  obtain j where j: "j < length (fi_pred_by_id f)" "unat pr = j + 1" using pred_pos [OF ok(1)] pr by metis
  from idlist_add_ok [OF recs_ids [OF ok(2)], of "mem 8" j rid] obtain rv v cap where
    a: "idlist_add (mem 8) (fi_pred_recs f j) (fi_pred_cap f j) rid = (rv, v, cap)" "ids_ok v cap" and
    c: "rv = 0 \<and> set v = insert rid (set (fi_pred_recs f j)) \<or> rv = -1 \<and> v = fi_pred_recs f j \<and> \<not> mem 8" by blast
  from c show ?thesis
  proof
    assume c: "rv = -1 \<and> v = fi_pred_recs f j \<and> \<not> mem 8"
    let ?f = "undo_subject (if o_added then f\<lparr>fi_obj := snd (slot_del_post (fi_obj f) oj pr rid)\<rparr> else f) sj s_added pr rid"
    have "fact_add_pred mem f sj s_added oj o_added pr rid = (-1, ?f)" using a(1) c j by (simp add: fact_add_pred_def)
    moreover have "fact_rep ?f M" using posted_undo [OF sub] posted_undo [OF obj] ok by (auto simp: fact_rep_def undo_subject_def)
    ultimately show ?thesis using c by blast
  next
    assume c: "rv = 0 \<and> set v = insert rid (set (fi_pred_recs f j))"
    let ?f1 = "f\<lparr>fi_pred_recs := (fi_pred_recs f)(j := v), fi_pred_cap := (fi_pred_cap f)(j := cap)\<rparr>"
    show ?thesis
    proof (cases "M rid")
      case None
      then have new: "s_added" using sub by (auto simp: posted_def filed_mem)
      have "rid \<notin> set (fi_pred_recs f j)" using None recs_set [OF ok(2), of j] by (simp add: rec_ids_def)
      then have len: "length v = length (fi_pred_recs f j) + 1"
        using c a(2) recs_ids [OF ok(2), of j] by (simp add: ids_ok_def distinct_card [symmetric])
      from pred_use_ok [of ?f1 j pr 1] ok(1) j obtain l where
        u: "pred_use ?f1 pr 1 = ?f1\<lparr>fi_uses := (fi_uses f)[j := fi_uses f ! j + 1], fi_preds_live := l\<rparr>"
        "preds_ok (?f1\<lparr>fi_uses := (fi_uses f)[j := fi_uses f ! j + 1], fi_preds_live := l\<rparr>)" by auto
      let ?f2 = "?f1\<lparr>fi_uses := (fi_uses f)[j := fi_uses f ! j + 1], fi_preds_live := l\<rparr>"
      have pidf: "pred_lookup (?f2\<lparr>fi_facts := k\<rparr>) = pred_lookup f" for k by simp
      let ?f3 = "?f2\<lparr>fi_facts := fi_facts f + 1\<rparr>" and ?M = "M(rid \<mapsto> (s, n, x))"
      have "fi_facts ?f3 = card (dom ?M)" using ok(2) None by (simp add: recs_ok_def card_insert_if domIff)
      moreover have "fi_uses ?f3 ! i = length (fi_pred_recs ?f3 i)" if "i < length (fi_uses ?f3)" for i
        using ok(2) that len by (cases "i = j") (simp_all add: recs_ok_def)
      moreover have "ids_ok (fi_pred_recs ?f3 i) (fi_pred_cap ?f3 i) \<and> set (fi_pred_recs ?f3 i) = rec_ids (pid f) ?M i" for i
        unfolding rec_ids_upd [of M rid, OF None] using a(2) c recs_set [OF ok(2), of i] recs_ids [OF ok(2), of i] pr(1) j(2) by (cases "i = j") auto
      moreover have "pid f m \<noteq> PRED_NONE" if "?M r = Some (t, m, y)" for r t m y
        using that recs_named [OF ok(2), of r t m y] pr by (auto split: if_splits)
      ultimately have "recs_ok ?f3 ?M" unfolding recs_ok_def pidf by blast
      moreover have "tab_holds (fi_subj ?f3) (filed subj_key (pid f) ?M)" "tab_holds (fi_obj ?f3) (filed obj_key (pid f) ?M)"
        unfolding filed_upd [of M rid, OF None] using sub obj pr(1) by (simp_all add: posted_def)
      moreover have "preds_ok ?f3" using u(2) by simp
      ultimately have "fact_rep ?f3 ?M" unfolding fact_rep_def pidf by blast
      moreover have "fact_add_pred mem f sj s_added oj o_added pr rid = (0, ?f3)" using a(1) c j u(1) new by (simp add: fact_add_pred_def Let_def)
      ultimately show ?thesis by blast
    next
      case (Some y)
      then have y: "M rid = Some (s, n, x)" using one by auto
      have old: "\<not> s_added" "(pr, rid) \<in> filed subj_key (pid f) M (s, None)" "(pr, rid) \<in> filed obj_key (pid f) M (obj_slot x)"
        using sub y pr(1) by (auto simp: posted_def filed_mem)
      have "rid \<in> rec_ids (pid f) M j" using y pr(1) j(2) by (auto simp: rec_ids_def)
      then have "set v = set (fi_pred_recs f j)" using c recs_set [OF ok(2), of j] by auto
      then have "v = fi_pred_recs f j" using a(2) recs_ids [OF ok(2), of j] by (auto simp: ids_ok_def intro: sorted_distinct_set_unique)
      then have "recs_ok ?f1 M" using ok(2) a(2) by (simp add: recs_ok_def)
      moreover have "tab_holds (fi_subj f) (filed subj_key (pid f) M)" "tab_holds (fi_obj f) (filed obj_key (pid f) M)"
        using sub obj old(2,3) by (simp_all add: posted_def insert_absorb fun_upd_idem)
      ultimately have "fact_rep ?f1 M" using ok(1) by (simp add: fact_rep_def)
      moreover have "M(rid \<mapsto> (s, n, x)) = M" using y by (simp add: fun_upd_idem)
      moreover have "fact_add_pred mem f sj s_added oj o_added pr rid = (0, ?f1)" using a(1) c j old(1) by (simp add: fact_add_pred_def Let_def)
      ultimately show ?thesis by simp
    qed
  qed
qed

lemma fact_add_object_ok:
  assumes ok: "preds_ok f" "recs_ok f M" and pr: "pr = pid f n" "pr \<noteq> PRED_NONE" and one: "M rid = None \<or> M rid = Some (s, n, x)"
    and sub: "posted (fi_subj f) sj (s, None) (filed subj_key (pid f) M) pr rid s_added"
    and obj: "tab_holds (fi_obj f) (filed obj_key (pid f) M)"
  shows "\<exists>rv f'. fact_add_object mem f sj s_added (obj_slot x) pr rid = Some (rv, f') \<and>
    (rv = 0 \<and> fact_rep f' (M(rid \<mapsto> (s, n, x))) \<or> rv = -1 \<and> fact_rep f' M \<and> (\<exists>n. \<not> mem n))"
proof -
  have undo: "fact_rep (undo_subject (f\<lparr>fi_obj := t\<rparr>) sj s_added pr rid) M" if "tab_holds t (filed obj_key (pid f) M)" for t
    using posted_undo [OF sub] that ok by (auto simp: fact_rep_def undo_subject_def)
  show ?thesis
  proof (cases rule: put_then_add [OF obj, where gm = "mem 5" and cm = "mem 6" and k = "obj_slot x" and m = "mem 7" and pr = pr and r = rid, case_names full failed added])
    case (full u)
    then show ?thesis using undo [OF full(2)] by (auto simp: fact_add_object_def)
  next
    case (failed j u u')
    then show ?thesis using undo [OF failed(4)] by (auto simp: fact_add_object_def)
  next
    case (added j u a u')
    have "\<exists>rv f'. fact_add_pred mem (f\<lparr>fi_obj := u'\<rparr>) sj s_added j a pr rid = (rv, f') \<and>
        (rv = 0 \<and> fact_rep f' (M(rid \<mapsto> (s, n, x))) \<or> rv = -1 \<and> fact_rep f' M \<and> \<not> mem 8)"
      using ok pr one sub added(3) by (intro fact_add_pred_ok) simp_all
    then show ?thesis using added(1,2) by (auto simp: fact_add_object_def)
  qed
qed

lemma fact_add_subject_ok:
  assumes rep: "fact_rep f M" and pr: "pr = pid f n" "pr \<noteq> PRED_NONE" and one: "M rid = None \<or> M rid = Some (s, n, x)"
  shows "\<exists>rv f'. fact_add_subject mem f s (obj_slot x) pr rid = Some (rv, f') \<and>
    (rv = 0 \<and> fact_rep f' (M(rid \<mapsto> (s, n, x))) \<or> rv = -1 \<and> fact_rep f' M \<and> (\<exists>n. \<not> mem n))"
proof -
  have sub: "tab_holds (fi_subj f) (filed subj_key (pid f) M)" using rep by (simp add: fact_rep_def)
  have keep: "fact_rep (f\<lparr>fi_subj := t\<rparr>) M" if "tab_holds t (filed subj_key (pid f) M)" for t using rep that by (simp add: fact_rep_def)
  show ?thesis
  proof (cases rule: put_then_add [OF sub, where gm = "mem 3" and cm = True and k = "(s, None)" and m = "mem 4" and pr = pr and r = rid, case_names full failed added])
    case (full u)
    then show ?thesis using keep [OF full(2)] by (auto simp: fact_add_subject_def)
  next
    case (failed j u u')
    then show ?thesis using keep [OF failed(4)] by (auto simp: fact_add_subject_def)
  next
    case (added j u a u')
    have "\<exists>rv f'. fact_add_object mem (f\<lparr>fi_subj := u'\<rparr>) j a (obj_slot x) pr rid = Some (rv, f') \<and>
        (rv = 0 \<and> fact_rep f' (M(rid \<mapsto> (s, n, x))) \<or> rv = -1 \<and> fact_rep f' M \<and> (\<exists>n. \<not> mem n))"
      using rep pr one added(3) by (intro fact_add_object_ok) (simp_all add: fact_rep_def)
    then show ?thesis using added(1,2) by (auto simp: fact_add_subject_def)
  qed
qed

lemma fact_add_ok:
  assumes rep: "fact_rep f M" and one: "M rid = None \<or> M rid = Some (s, p, x)" and x: "fact_object okind oid ostr = Some x"
  shows "\<exists>rv f'. fact_index_add mem (Some f) rid s (Some p) okind oid ostr = Some (rv, Some f') \<and>
    (rv = 0 \<and> fact_rep f' (M(rid \<mapsto> (s, p, x))) \<or> rv = -1 \<and> fact_rep f' M \<and> (unnameable f p \<or> (\<exists>n. \<not> mem n)))"
proof -
  obtain pr f1 where i: "pred_intern mem f p = (pr, f1)" by (cases "pred_intern mem f p")
  note intern = pred_intern_ok [OF rep i]
  have ok: "object_key okind oid ostr = Some (obj_slot x)" by (simp add: object_key_slot x)
  show ?thesis
  proof (cases "pr = PRED_NONE")
    case True
    then show ?thesis using intern i ok by (auto simp: fact_index_add_def)
  next
    case False
    from fact_add_subject_ok [OF intern(1) intern(2) [OF False] False one, of mem] i ok False show ?thesis
      by (auto simp: fact_index_add_def)
  qed
qed

section \<open>Removing a fact\<close>

lemma tbl_drop_post_ok:
  assumes "tab_holds t P"
  shows "\<exists>t'. tbl_drop_post t k pr r = ((pr, r) \<in> P k, t') \<and> tab_holds t' (P(k := P k - {(pr, r)}))"
proof -
  have h: "tab_ok t" "filled_but {} t" "posts_of t = P" using assms by (simp_all add: tab_holds_def)
  show ?thesis
  proof (cases "tbl_find t (fst k) (snd k)")
    case None
    then have "P k = {}" using tbl_find_ok(2) [OF h(1), of "fst k" "snd k"] h(3) by (auto simp: posts_of_def)
    then show ?thesis using None assms by (simp add: tbl_drop_post_def fun_upd_idem)
  next
    case (Some j)
    have "slot_at t j k" using tbl_find_ok(1) [OF h(1) Some] by simp
    from slot_del_post_ok [OF h(1) this h(2), of pr r] h(3) Some show ?thesis by (auto simp: tbl_drop_post_def tab_holds_def)
  qed
qed

lemma fact_remove_ok:
  assumes rep: "fact_rep f M" and one: "M rid = None \<or> M rid = Some (s, p, x)" and x: "fact_object okind oid ostr = Some x"
  shows "\<exists>f'. fact_index_remove (Some f) rid s (Some p) okind oid ostr = Some f' \<and> fact_rep f' (M(rid := None))"
proof -
  have ok: "object_key okind oid ostr = Some (obj_slot x)" by (simp add: object_key_slot x)
  have po: "preds_ok f" and ro: "recs_ok f M" using rep by (simp_all add: fact_rep_def)
  define pr where "pr = pid f p"
  show ?thesis
  proof (cases "pr = PRED_NONE")
    case True
    then have "M rid = None" using one recs_named [OF ro, of rid] by (auto simp: pr_def)
    then show ?thesis using True ok rep by (simp add: fact_index_remove_def pr_def fun_upd_idem)
  next
    case False
    have sub: "tab_holds (fi_subj f) (filed subj_key (pid f) M)" and obj: "tab_holds (fi_obj f) (filed obj_key (pid f) M)"
      using rep by (simp_all add: fact_rep_def)
    obtain ts where ts: "tbl_drop_post (fi_subj f) (s, None) pr rid = ((pr, rid) \<in> filed subj_key (pid f) M (s, None), ts)"
      "tab_holds ts ((filed subj_key (pid f) M)((s, None) := filed subj_key (pid f) M (s, None) - {(pr, rid)}))"
      using tbl_drop_post_ok [OF sub] by blast
    obtain t where t: "tbl_drop_post (fi_obj f) (obj_slot x) pr rid = ((pr, rid) \<in> filed obj_key (pid f) M (obj_slot x), t)"
      "tab_holds t ((filed obj_key (pid f) M)(obj_slot x := filed obj_key (pid f) M (obj_slot x) - {(pr, rid)}))"
      using tbl_drop_post_ok [OF obj] by blast
    let ?f1 = "f\<lparr>fi_subj := ts, fi_obj := t\<rparr>"
    show ?thesis
    proof (cases "M rid")
      case None
      then have n: "(pr, rid) \<notin> filed subj_key (pid f) M (s, None)" "(pr, rid) \<notin> filed obj_key (pid f) M (obj_slot x)" by (simp_all add: filed_mem)
      have "tab_holds ts (filed subj_key (pid f) M)" "tab_holds t (filed obj_key (pid f) M)" using ts(2) t(2) n by (simp_all add: fun_upd_idem)
      then have "fact_rep ?f1 M" using po ro by (simp add: fact_rep_def)
      then show ?thesis using None n ts(1) t(1) False ok by (simp add: fact_index_remove_def pr_def fun_upd_idem)
    next
      case (Some y)
      then have y: "M rid = Some (s, p, x)" using one by auto
      then have m: "(pr, rid) \<in> filed subj_key (pid f) M (s, None)" by (simp add: filed_mem pr_def)
      obtain j where j: "j < length (fi_pred_by_id f)" "unat pr = j + 1" using pred_pos [OF po] False unfolding pr_def by metis
      have rj: "rid \<in> set (fi_pred_recs f j)" using y j(2) recs_set [OF ro, of j] by (auto simp: rec_ids_def pr_def)
      let ?v = "idlist_remove (fi_pred_recs f j) rid"
      note rm = idlist_remove_ok [OF recs_ids [OF ro, of j], of rid]
      have len: "length ?v = length (fi_pred_recs f j) - 1"
        using rm recs_ids [OF ro, of j] rj by (simp add: ids_ok_def distinct_card [symmetric])
      let ?f2 = "?f1\<lparr>fi_pred_recs := (fi_pred_recs f)(j := ?v)\<rparr>"
      have "length (fi_pred_recs f j) \<noteq> 0" using rj by auto
      then have "fi_uses f ! j \<noteq> 0" using ro j(1) po by (simp add: recs_ok_def preds_ok_def)
      then obtain l where u: "pred_use ?f2 pr (-1) = ?f2\<lparr>fi_uses := (fi_uses f)[j := fi_uses f ! j - 1], fi_preds_live := l\<rparr>"
        "preds_ok (?f2\<lparr>fi_uses := (fi_uses f)[j := fi_uses f ! j - 1], fi_preds_live := l\<rparr>)"
        using pred_use_ok [of ?f2 j pr "-1"] po j by auto
      let ?f3 = "?f2\<lparr>fi_uses := (fi_uses f)[j := fi_uses f ! j - 1], fi_preds_live := l, fi_facts := fi_facts f - 1\<rparr>" and ?M = "M(rid := None)"
      have pidf: "pred_lookup ?f3 = pred_lookup f" by simp
      have "fi_facts ?f3 = card (dom ?M)" using ro y by (simp add: recs_ok_def card_Diff_singleton_if domIff)
      moreover have "fi_uses ?f3 ! i = length (fi_pred_recs ?f3 i)" if "i < length (fi_uses ?f3)" for i
        using ro that len by (cases "i = j") (simp_all add: recs_ok_def)
      moreover have "ids_ok (fi_pred_recs ?f3 i) (fi_pred_cap ?f3 i) \<and> set (fi_pred_recs ?f3 i) = rec_ids (pid f) ?M i" for i
        unfolding rec_ids_del [of M rid, OF y] using rm recs_set [OF ro, of i] recs_ids [OF ro, of i] j(2) by (cases "i = j") (auto simp: pr_def)
      moreover have "pid f m \<noteq> PRED_NONE" if "?M r = Some (v, m, w)" for r v m w
        using that recs_named [OF ro, of r v m w] by (auto split: if_splits)
      ultimately have "recs_ok ?f3 ?M" unfolding recs_ok_def pidf by blast
      moreover have "tab_holds (fi_subj ?f3) (filed subj_key (pid f) ?M)" "tab_holds (fi_obj ?f3) (filed obj_key (pid f) ?M)"
        unfolding filed_del [of M rid, OF y] using ts(2) t(2) by (simp_all add: pr_def)
      moreover have "preds_ok ?f3" using u(2) by simp
      ultimately have "fact_rep ?f3 ?M" unfolding fact_rep_def pidf by blast
      moreover have "fact_index_remove (Some f) rid s (Some p) okind oid ostr = Some ?f3"
        using m ts(1) t(1) False ok u(1) j(2) by (simp add: fact_index_remove_def Let_def pr_def)
      ultimately show ?thesis by blast
    qed
  qed
qed

section \<open>Lookups\<close>

lemma idlist_add_room:
  assumes "ids_ok v cap" and "length v < cap"
  shows "\<exists>v'. idlist_add m v cap r = (0, v', cap) \<and> ids_ok v' cap \<and> set v' = insert r (set v) \<and> length v' \<le> length v + 1"
proof -
  have "\<exists>v'. idlist_add m v cap r = (0, v', cap)" using assms(2) by (simp add: idlist_add_def Let_def)
  then obtain v' where "idlist_add m v cap r = (0, v', cap)" ..
  moreover from this have "ids_ok v' cap \<and> set v' = insert r (set v)" using idlist_add_ok [OF assms(1), of m r] by auto
  moreover from this have "length v' \<le> length v + 1" using assms(1) by (simp add: ids_ok_def distinct_card [symmetric] card_insert_if)
  ultimately show ?thesis by blast
qed

lemma collect_loop_ok:
  assumes "ids_ok res cap" and "length res + length ps \<le> cap"
  shows "\<exists>v. collect_loop mem pr ps i res cap = Some v \<and> sorted v \<and> distinct v \<and>
    set v = set res \<union> {r. \<exists>p. (p, r) \<in> fpost_key ` set ps \<and> (pr = PRED_NONE \<or> p = pr)}"
  using assms
proof (induction ps arbitrary: i res)
  case Nil
  then show ?case by (simp add: ids_ok_def)
next
  case (Cons p ps)
  show ?case
  proof (cases "pr \<noteq> PRED_NONE \<and> po_pred p \<noteq> pr")
    case True
    then show ?thesis using Cons.IH [of res "i + 1"] Cons.prems by auto
  next
    case False
    obtain v where v: "idlist_add (mem i) res cap (po_record_id p) = (0, v, cap)" "ids_ok v cap" "set v = insert (po_record_id p) (set res)" "length v \<le> length res + 1"
      using idlist_add_room [of res cap "mem i" "po_record_id p"] Cons.prems by auto
    have "length v + length ps \<le> cap" using v(4) Cons.prems(2) by simp
    from Cons.IH [OF v(2) this, of "i + 1"] obtain w where w: "collect_loop mem pr ps (i + 1) v cap = Some w" "sorted w" "distinct w"
      "set w = set v \<union> {r. \<exists>p. (p, r) \<in> fpost_key ` set ps \<and> (pr = PRED_NONE \<or> p = pr)}" by blast
    have "collect_loop mem pr (p # ps) i res cap = Some w" using v(1) w(1) False by auto
    moreover have "set w = set res \<union> {r. \<exists>q. (q, r) \<in> fpost_key ` set (p # ps) \<and> (pr = PRED_NONE \<or> q = pr)}"
      unfolding w(4) v(3) using False by auto
    ultimately show ?thesis using w(2,3) by blast
  qed
qed

lemma collect_ok:
  assumes "tab_holds t P"
  shows "collect mem (slot_ptr t k) pr = Some (sorted_list_of_set {r. \<exists>p. (p, r) \<in> P k \<and> (pr = PRED_NONE \<or> p = pr)}) \<or>
    collect mem (slot_ptr t k) pr = None \<and> \<not> mem 0"
proof -
  have h: "tab_ok t" "posts_of t = P" using assms by (simp_all add: tab_holds_def)
  show ?thesis
  proof (cases "tbl_find t (fst k) (snd k)")
    case None
    then have "P k = {}" using tbl_find_ok(2) [OF h(1), of "fst k" "snd k"] h(2) by (auto simp: posts_of_def)
    then show ?thesis using None by (simp add: collect_def slot_ptr_def)
  next
    case (Some j)
    let ?s = "tb_slots t ! j"
    have "slots_of t k = Some ?s" using tbl_find_ok(1) [OF h(1) Some] by (simp add: slot_at_def)
    then have P: "P k = fpost_key ` set (sl_posts ?s)" using h(2) by (auto simp: posts_of_def)
    have "ids_ok [] (length (sl_posts ?s))" "length ([] :: u64 list) + length (sl_posts ?s) \<le> length (sl_posts ?s)" by (simp_all add: ids_ok_def)
    from collect_loop_ok [OF this, of mem pr 1] obtain v where
      v: "collect_loop mem pr (sl_posts ?s) 1 [] (length (sl_posts ?s)) = Some v" "sorted v" "distinct v" "set v = {r. \<exists>p. (p, r) \<in> P k \<and> (pr = PRED_NONE \<or> p = pr)}"
      unfolding P by auto
    have "v = sorted_list_of_set (set v)" using v(2,3) by (simp add: sorted_list_of_set.idem_if_sorted_distinct)
    then show ?thesis using v(1,4) Some P by (auto simp: collect_def slot_ptr_def)
  qed
qed

definition matching :: "fact_map \<Rightarrow> (u64 \<Rightarrow> fact_obj \<Rightarrow> bool) \<Rightarrow> cstr option \<Rightarrow> u64 set" where
  "matching M Q predicate = {r. \<exists>s n x. M r = Some (s, n, x) \<and> Q s x \<and> (predicate = None \<or> predicate = Some n)}"

lemma filed_matching:
  assumes "preds_ok f" "recs_ok f M" and "pr = (if predicate = None then PRED_NONE else pred_lookup f predicate)" and "predicate = None \<or> pr \<noteq> PRED_NONE"
  shows "{r. \<exists>p. (p, r) \<in> filed g (pid f) M k \<and> (pr = PRED_NONE \<or> p = pr)} = matching M (\<lambda>s x. g s x = k) predicate"
proof -
  have "pr = PRED_NONE \<or> pid f n = pr \<longleftrightarrow> predicate = None \<or> predicate = Some n" if "M r = Some (s, n, x)" for r s n x
    using assms(3,4) pid_inj [OF assms(1)] by (cases predicate) auto
  then show ?thesis unfolding matching_def filed_mem by blast
qed

lemma matching_unknown:
  assumes "recs_ok f M" and "predicate \<noteq> None" and "pred_lookup f predicate = PRED_NONE"
  shows "matching M Q predicate = {}"
  using assms recs_named [OF assms(1)] by (auto simp: matching_def)

lemma fact_table_query:
  assumes "fact_rep f M" and "tab_holds t (filed g (pid f) M)" and "pr = (if predicate = None then PRED_NONE else pred_lookup f predicate)"
  shows "(if predicate \<noteq> None \<and> pr = PRED_NONE then Some [] else collect mem (slot_ptr t k) pr) = Some (sorted_list_of_set (matching M (\<lambda>s x. g s x = k) predicate)) \<or>
    (if predicate \<noteq> None \<and> pr = PRED_NONE then Some [] else collect mem (slot_ptr t k) pr) = None \<and> \<not> mem 0"
proof (cases "predicate \<noteq> None \<and> pr = PRED_NONE")
  case True
  have "recs_ok f M" using assms(1) by (simp add: fact_rep_def)
  from matching_unknown [OF this, of predicate] True assms(3) show ?thesis by auto
next
  case False
  have ok: "preds_ok f" "recs_ok f M" using assms(1) by (simp_all add: fact_rep_def)
  from False have "predicate = None \<or> pr \<noteq> PRED_NONE" by auto
  from filed_matching [OF ok assms(3) this] collect_ok [OF assms(2), of mem k pr] show ?thesis unfolding if_not_P [OF False] by simp
qed

lemma rec_ids_disjoint: "i \<noteq> j \<Longrightarrow> rec_ids L M i \<inter> rec_ids L M j = {}"
  by (auto simp: rec_ids_def)

lemma distinct_concat_upt:
  assumes "\<And>j. distinct (F j)" and "\<And>i j. i \<noteq> j \<Longrightarrow> set (F i) \<inter> set (F j) = {}"
  shows "distinct (concat (map F [0..<n]))"
proof (induction n)
  case (Suc n)
  have "set (concat (map F [0..<n])) \<inter> set (F n) = {}"
  proof (rule equals0I)
    fix y assume "y \<in> set (concat (map F [0..<n])) \<inter> set (F n)"
    then obtain i where "i < n" "y \<in> set (F i)" "y \<in> set (F n)" by auto
    then show False using assms(2) [of i n] by auto
  qed
  then show ?case using Suc assms(1) by simp
qed simp

lemma all_records_ok:
  assumes rep: "fact_rep f M"
  shows "distinct (concat (map (fi_pred_recs f) [0..<FACT_MAX_PREDICATES]))"
    and "set (concat (map (fi_pred_recs f) [0..<FACT_MAX_PREDICATES])) = dom M"
proof -
  have po: "preds_ok f" and ro: "recs_ok f M" using rep by (simp_all add: fact_rep_def)
  show "distinct (concat (map (fi_pred_recs f) [0..<FACT_MAX_PREDICATES]))"
    using recs_ids [OF ro] rec_ids_disjoint recs_set [OF ro] by (intro distinct_concat_upt) (auto simp: ids_ok_def)
  have "\<exists>j < FACT_MAX_PREDICATES. r \<in> rec_ids (pid f) M j" if m: "M r = Some (s, n, x)" for r s n x
  proof -
    from pred_pos [OF po recs_named [OF ro m]] obtain j where "j < length (fi_pred_by_id f)" "unat (pid f n) = j + 1" by metis
    moreover have "length (fi_pred_by_id f) \<le> FACT_MAX_PREDICATES" using po by (simp add: preds_ok_def)
    ultimately show ?thesis using m by (intro exI [of _ j]) (auto simp: rec_ids_def)
  qed
  moreover have "r \<in> dom M" if "r \<in> rec_ids (pid f) M j" for r j using that by (auto simp: rec_ids_def)
  ultimately show "set (concat (map (fi_pred_recs f) [0..<FACT_MAX_PREDICATES])) = dom M"
    unfolding set_concat set_map recs_set [OF ro] by (fastforce simp: recs_set [OF ro])
qed

lemma predicates_live:
  assumes rep: "fact_rep f M"
  shows "fi_preds_live f = card {n. \<exists>r s x. M r = Some (s, n, x)}"
proof -
  have po: "preds_ok f" and ro: "recs_ok f M" using rep by (simp_all add: fact_rep_def)
  let ?name = "\<lambda>j. pn_name (fi_pred_by_id f ! j)" and ?J = "{j. j < length (fi_uses f) \<and> fi_uses f ! j \<noteq> 0}"
  have len: "length (fi_uses f) = length (fi_pred_by_id f)" using po by (simp add: preds_ok_def)
  have u: "unat (of_nat (j + 1) :: u16) = j + 1" if "j < length (fi_uses f)" for j
    using that po by (simp only: unat_of_nat) (simp add: preds_ok_def FACT_MAX_PREDICATES_def)
  have inj: "inj_on ?name ?J"
  proof (rule inj_onI)
    fix i j assume "i \<in> ?J" "j \<in> ?J" "?name i = ?name j"
    then have "(of_nat (i + 1) :: u16) = of_nat (j + 1)" "i < length (fi_uses f)" "j < length (fi_uses f)"
      using pred_name_pos [OF po, of i] pred_name_pos [OF po, of j] len by auto
    then show "i = j" using u by (metis add_right_cancel)
  qed
  have used: "j < length (fi_uses f) \<Longrightarrow> fi_uses f ! j \<noteq> 0 \<longleftrightarrow> rec_ids (pid f) M j \<noteq> {}" for j
    using ro recs_set [OF ro, of j] by (simp add: recs_ok_def) (metis set_empty)
  have "?name ` ?J = {n. \<exists>r s x. M r = Some (s, n, x)}"
  proof (intro set_eqI iffI)
    fix n assume "n \<in> ?name ` ?J"
    then obtain j where j: "j < length (fi_uses f)" "fi_uses f ! j \<noteq> 0" "n = ?name j" by auto
    then obtain r s m x where m: "M r = Some (s, m, x)" "unat (pid f m) = j + 1" using used [of j] by (auto simp: rec_ids_def)
    from pred_pos [OF po recs_named [OF ro m(1)]] m(2) have "?name j = m" by (metis add_right_cancel)
    then show "n \<in> {n. \<exists>r s x. M r = Some (s, n, x)}" using j m by auto
  next
    fix n assume "n \<in> {n. \<exists>r s x. M r = Some (s, n, x)}"
    then obtain r s x where m: "M r = Some (s, n, x)" by blast
    from pred_pos [OF po recs_named [OF ro m]] obtain j where j: "j < length (fi_pred_by_id f)" "unat (pid f n) = j + 1" "?name j = n" by metis
    then have "rec_ids (pid f) M j \<noteq> {}" using m by (auto simp: rec_ids_def)
    then show "n \<in> ?name ` ?J" using j used [of j] len by (intro image_eqI [of _ _ j]) auto
  qed
  then have "card {n. \<exists>r s x. M r = Some (s, n, x)} = card ?J" using card_image [OF inj] by metis
  also have "\<dots> = fi_preds_live f" using po by (simp add: preds_ok_def length_filter_conv_card)
  finally show ?thesis by simp
qed

section \<open>Properties\<close>

definition empty_facts :: FactIndex where
  "empty_facts = the (fact_index_create mem_ok)"

lemma create_rep: "fact_index_create mem = Some f \<Longrightarrow> fact_rep f Map.empty"
proof -
  assume "fact_index_create mem = Some f"
  then have f: "fi_subj f = \<lparr>tb_slots = [], tb_live = 0, tb_used = 0\<rparr>" "fi_obj f = \<lparr>tb_slots = [], tb_live = 0, tb_used = 0\<rparr>"
    "fi_pred_recs f = (\<lambda>_. [])" "fi_pred_cap f = (\<lambda>_. 0)" "fi_pred_buckets f = (\<lambda>_. [])" "fi_pred_by_id f = []" "fi_uses f = []"
    "fi_preds_live f = 0" "fi_facts f = 0"
    by (auto simp: fact_index_create_def split: if_splits)
  have "tab_holds \<lparr>tb_slots = [], tb_live = 0, tb_used = 0\<rparr> (\<lambda>_. {})"
    by (simp add: tab_holds_def tab_ok_def counted_ok_def filled_but_def posts_of_def slots_of_def slot_map_def fun_eq_iff)
  moreover have "filed g L Map.empty = (\<lambda>_. {})" for g L by (simp add: filed_def fun_eq_iff)
  moreover have "preds_ok f" by (simp add: preds_ok_def f pred_find_def)
  moreover have "recs_ok f Map.empty" by (simp add: recs_ok_def f rec_ids_def ids_ok_def)
  ultimately show ?thesis by (simp add: fact_rep_def f)
qed

text \<open>
  C13. The fact index implements a map from record ids to facts, given that a record has at most one fact. A new index is the empty map.
  Adding stores the fact, or returns -1 and leaves the map as it was, which happens only for a predicate that cannot be interned or
  when an allocation fails, however many of its steps had succeeded by then; adding the same fact again changes nothing. Removing deletes the
  fact of the record and nothing else, also when there is none.
\<close>

theorem fact_index_refines:
  assumes "fact_rep f M" and "M rid = None \<or> M rid = Some (s, p, x)" and "fact_object okind oid ostr = Some x"
  shows "(\<exists>rv f'. fact_index_add mem (Some f) rid s (Some p) okind oid ostr = Some (rv, Some f') \<and>
      (rv = 0 \<and> fact_rep f' (M(rid \<mapsto> (s, p, x))) \<or> rv = -1 \<and> fact_rep f' M \<and> (unnameable f p \<or> (\<exists>n. \<not> mem n)))) \<and>
    (\<exists>f'. fact_index_remove (Some f) rid s (Some p) okind oid ostr = Some f' \<and> fact_rep f' (M(rid := None))) \<and>
    (\<forall>mem g. fact_index_create mem = Some g \<longrightarrow> fact_rep g Map.empty)"
  using fact_add_ok [OF assms, of mem] fact_remove_ok [OF assms] create_rep by blast

lemma empty_facts_rep: "fact_rep empty_facts Map.empty"
  using create_rep [of mem_ok empty_facts] by (simp add: empty_facts_def fact_index_create_def)

theorem fact_index_refines_witness:
  "\<exists>f'. fact_index_add mem_ok (Some empty_facts) 7 1 (Some (lit ''in'')) FACT_OBJ_ID 2 None = Some (0, Some f') \<and>
     fact_rep f' [7 \<mapsto> (1, lit ''in'', Inl 2)]"
proof -
  have "fact_object FACT_OBJ_ID 2 None = Some (Inl 2)" by (simp add: fact_object_def)
  from fact_index_refines [OF empty_facts_rep _ this, where rid = 7 and s = 1 and p = "lit ''in''" and mem = mem_ok]
  obtain rv f' where r: "fact_index_add mem_ok (Some empty_facts) 7 1 (Some (lit ''in'')) FACT_OBJ_ID 2 None = Some (rv, Some f')"
    "rv = 0 \<and> fact_rep f' [7 \<mapsto> (1, lit ''in'', Inl 2)] \<or> rv = -1 \<and> unnameable empty_facts (lit ''in'')" by auto
  have "\<not> unnameable empty_facts (lit ''in'')"
    by (simp add: unnameable_def empty_facts_def fact_index_create_def FACT_MAX_PREDICATE_LEN_def FACT_MAX_PREDICATES_def lit_def)
  with r show ?thesis by auto
qed

lemma by_predicate_ids:
  assumes "fact_rep f M" and "pid f p \<noteq> PRED_NONE"
  shows "fi_pred_recs f (unat (pid f p) - 1) = sorted_list_of_set (matching M (\<lambda>_ _. True) (Some p))"
proof -
  have po: "preds_ok f" and ro: "recs_ok f M" using assms(1) by (simp_all add: fact_rep_def)
  from pred_pos [OF po assms(2)] obtain j where j: "unat (pid f p) = j + 1" by metis
  have "unat (pid f n) = j + 1 \<longleftrightarrow> n = p" for n
    using pid_inj [OF po assms(2), of n] j by (metis unsigned_word_eqI)
  then have "matching M (\<lambda>_ _. True) (Some p) = rec_ids (pid f) M j" by (auto simp: matching_def rec_ids_def)
  then have "set (fi_pred_recs f j) = matching M (\<lambda>_ _. True) (Some p)" by (simp add: recs_set [OF ro])
  moreover have "sorted (fi_pred_recs f j)" "distinct (fi_pred_recs f j)" using recs_ids [OF ro, of j] by (simp_all add: ids_ok_def)
  ultimately show ?thesis using j sorted_list_of_set.idem_if_sorted_distinct [of "fi_pred_recs f j"] by simp
qed

text \<open>A query answers with the ids in ascending order unless its allocation fails.\<close>

definition answers :: "alloc \<Rightarrow> u64 list option \<Rightarrow> u64 set \<Rightarrow> bool" where
  "answers mem r S \<longleftrightarrow> r = Some (sorted_list_of_set S) \<or> r = None \<and> \<not> mem 0"

text \<open>
  C17. Every lookup of the fact index returns the ids of exactly the records whose fact matches, ascending and without repetition: by subject or
  object with or without a predicate, by predicate, and all of them; it returns -1 only when its allocation fails. The
  numbers of facts, of facts of a predicate and of predicates in use are exact.
\<close>

theorem fact_index_lookup_exact:
  assumes "fact_rep f M" and "fact_object okind oid ostr = Some x"
  shows "answers mem (fact_index_by_subject mem (Some f) s pr) (matching M (\<lambda>s' _. s' = s) pr) \<and>
    answers mem (fact_index_by_object mem (Some f) okind oid ostr pr) (matching M (\<lambda>_ y. y = x) pr) \<and>
    answers mem (fact_index_by_predicate mem (Some f) (Some p)) (matching M (\<lambda>_ _. True) (Some p)) \<and>
    answers mem (fact_index_all_records mem (Some f)) (dom M) \<and>
    fact_index_predicate_facts (Some f) (Some p) = card (matching M (\<lambda>_ _. True) (Some p)) \<and>
    fact_index_facts (Some f) = card (dom M) \<and>
    fact_index_predicates (Some f) = card {n. \<exists>r s x. M r = Some (s, n, x)}"
proof (intro conjI)
  have ro: "recs_ok f M" and sub: "tab_holds (fi_subj f) (filed subj_key (pid f) M)" and obj: "tab_holds (fi_obj f) (filed obj_key (pid f) M)"
    using assms(1) by (simp_all add: fact_rep_def)
  show "answers mem (fact_index_by_subject mem (Some f) s pr) (matching M (\<lambda>s' _. s' = s) pr)"
    using fact_table_query [OF assms(1) sub refl, of pr mem "(s, None)"] by (simp add: answers_def fact_index_by_subject_def Let_def)
  show "answers mem (fact_index_by_object mem (Some f) okind oid ostr pr) (matching M (\<lambda>_ y. y = x) pr)"
    using fact_table_query [OF assms(1) obj refl, of pr mem "obj_slot x"] by (simp add: answers_def fact_index_by_object_def Let_def object_key_slot assms(2))
  show "answers mem (fact_index_by_predicate mem (Some f) (Some p)) (matching M (\<lambda>_ _. True) (Some p))"
    using by_predicate_ids [OF assms(1), of p] matching_unknown [OF ro, of "Some p" "\<lambda>_ _. True"]
    by (cases "pid f p = PRED_NONE") (auto simp: answers_def fact_index_by_predicate_def Let_def)
  show "fact_index_predicate_facts (Some f) (Some p) = card (matching M (\<lambda>_ _. True) (Some p))"
    using by_predicate_ids [OF assms(1), of p] matching_unknown [OF ro, of "Some p" "\<lambda>_ _. True"]
    by (cases "pid f p = PRED_NONE") (simp_all add: fact_index_predicate_facts_def Let_def)
  show "answers mem (fact_index_all_records mem (Some f)) (dom M)"
  proof -
    let ?ids = "concat (map (fi_pred_recs f) [0..<FACT_MAX_PREDICATES])"
    note all = all_records_ok [OF assms(1)]
    have "length ?ids = card (dom M)" using distinct_card [OF all(1)] all(2) by simp
    then have n: "fi_facts f = length ?ids" using ro by (simp add: recs_ok_def)
    have s: "sort ?ids = sorted_list_of_set (dom M)" using all by (metis distinct_remdups_id sorted_list_of_set_sort_remdups)
    have "fi_facts f = 0 \<Longrightarrow> dom M = {}" using ro by (simp add: recs_ok_def)
    then show ?thesis using n s by (auto simp: answers_def fact_index_all_records_def Let_def simp del: length_concat)
  qed
  show "fact_index_facts (Some f) = card (dom M)" using ro by (simp add: fact_index_facts_def recs_ok_def)
  show "fact_index_predicates (Some f) = card {n. \<exists>r s x. M r = Some (s, n, x)}"
    using predicates_live [OF assms(1)] by (simp add: fact_index_predicates_def)
qed

theorem fact_index_lookup_exact_witness:
  "fact_index_by_subject mem_ok (Some empty_facts) 1 None = Some []"
proof -
  have "fact_object FACT_OBJ_ID 2 None = Some (Inl 2)" by (simp add: fact_object_def)
  from fact_index_lookup_exact [OF empty_facts_rep this, of mem_ok 1 None "[]"] show ?thesis by (simp add: answers_def matching_def)
qed

end
