(* ===== verification/Lex_Tokenizer.thy ===== *)
theory Lex_Tokenizer
  imports Aegis_Prelude
begin

text \<open>
  The tokenizer of the lexical index, the first part of \<^verbatim>\<open>src/src/storage/lexical_index.c\<close>: a state machine that yields the lower-cased
  terms of a text one at a time, each followed by the parts of a compound identifier. The pointers \<^verbatim>\<open>p\<close> and
  \<^verbatim>\<open>end\<close> are the bytes between them; \<^verbatim>\<open>full\<close> is its first \<^verbatim>\<open>full_len\<close> bytes.

  Shown: the machine comes to an end and yields exactly the terms that the comments of the header describe, stated over the
  maximal runs of term characters of the text.
\<close>

section \<open>Characters\<close>

definition is_term_char :: "u8 \<Rightarrow> bool" where
  "is_term_char c \<longleftrightarrow>
     (if 0x80 \<le> c then True
      else if (0x61 \<le> c \<and> c \<le> 0x7A) \<or> (0x41 \<le> c \<and> c \<le> 0x5A) \<or> (0x30 \<le> c \<and> c \<le> 0x39) then True
      else c = 0x5F \<or> c = 0x2D \<or> c = 0x2E \<or> c = 0x3A \<or> c = 0x2F \<or> c = 0x2B \<or> c = 0x23)"

definition is_edge_char :: "u8 \<Rightarrow> bool" where
  "is_edge_char c \<longleftrightarrow> c = 0x2D \<or> c = 0x2E \<or> c = 0x3A \<or> c = 0x2F \<or> c = 0x2B \<or> c = 0x23"

definition is_sub_delim :: "u8 \<Rightarrow> bool" where
  "is_sub_delim c \<longleftrightarrow> c = 0x5F \<or> is_edge_char c"

section \<open>The machine\<close>

definition LEX_MAX_TERM :: nat where
  "LEX_MAX_TERM = 64"

record LexTokenizer =
  tk_rest :: bytes
  tk_full :: cstr
  tk_sub_pos :: nat
  tk_have_full :: bool
  tk_compound :: bool

definition lex_tokenizer_init :: "bytes option \<Rightarrow> LexTokenizer" where
  "lex_tokenizer_init text =
     \<lparr>tk_rest = (case text of None \<Rightarrow> [] | Some b \<Rightarrow> b), tk_full = [], tk_sub_pos = 0, tk_have_full = False, tk_compound = False\<rparr>"

definition run_end :: "(u8 \<Rightarrow> bool) \<Rightarrow> cstr \<Rightarrow> nat \<Rightarrow> nat" where
  "run_end P xs i = i + length (takeWhile P (drop i xs))"

text \<open>The loop over the parts of the current term: the new position and the part found.\<close>

function sub_part :: "cstr \<Rightarrow> nat \<Rightarrow> nat \<times> cstr option" where
  "sub_part full pos =
     (if \<not> pos < length full then (pos, None)
      else let s = run_end is_sub_delim full pos; e = run_end (\<lambda>c. \<not> is_sub_delim c) full s
           in if length full \<le> s then (e, None)
              else if 2 \<le> e - s \<and> e - s < length full then (e, Some (take (e - s) (drop s full)))
              else sub_part full e)"
  by pat_completeness auto

lemma run_end_ge: "i \<le> run_end P xs i"
  by (simp add: run_end_def)

lemma run_end_stop: "run_end P xs i < length xs \<Longrightarrow> \<not> P (xs ! run_end P xs i)"
proof -
  assume a: "run_end P xs i < length xs"
  then have "length (takeWhile P (drop i xs)) < length (drop i xs)" by (simp add: run_end_def)
  from nth_length_takeWhile [OF this] a show ?thesis by (simp add: run_end_def)
qed

lemma run_end_progress: "i < length xs \<Longrightarrow> P (xs ! i) \<Longrightarrow> i < run_end P xs i"
  by (simp add: run_end_def Cons_nth_drop_Suc [symmetric])

termination sub_part
proof (relation "measure (\<lambda>(full, pos). length full - pos)")
  fix full pos s e
  assume a: "\<not> \<not> pos < length full" and s: "s = run_end is_sub_delim full pos" and e: "e = run_end (\<lambda>c. \<not> is_sub_delim c) full s"
    and l: "\<not> length full \<le> s"
  have "s < e" unfolding e using l run_end_stop [of is_sub_delim full pos] s by (intro run_end_progress) simp_all
  moreover have "pos \<le> s" unfolding s by (rule run_end_ge)
  ultimately show "((full, e), full, pos) \<in> measure (\<lambda>(full, pos). length full - pos)" using a by simp
qed simp

declare sub_part.simps [simp del]

text \<open>Punctuation off both ends.\<close>

definition trim_edges :: "bytes \<Rightarrow> bytes" where
  "trim_edges run = rev (dropWhile is_edge_char (rev (dropWhile is_edge_char run)))"

text \<open>The loop to the next run of term characters that is not punctuation only.\<close>

function next_run :: "bytes \<Rightarrow> bytes \<times> bytes option" where
  "next_run xs =
     (if xs = [] then ([], None)
      else let ys = dropWhile (\<lambda>c. \<not> is_term_char c) xs;
               core = trim_edges (takeWhile is_term_char ys); rest = dropWhile is_term_char ys
           in if core = [] then next_run rest else (rest, Some core))"
  by pat_completeness auto

lemma skip_run_shorter: "xs \<noteq> [] \<Longrightarrow> length (dropWhile P (dropWhile (\<lambda>c. \<not> P c) xs)) < length xs"
proof (cases xs)
  case (Cons x ys)
  have "length (dropWhile P (dropWhile (\<lambda>c. \<not> P c) ys)) \<le> length ys"
    by (metis length_dropWhile_le le_trans)
  then show ?thesis using Cons length_dropWhile_le [of P ys] by auto
qed simp

termination next_run
proof (relation "measure length")
  fix xs ys core rest :: bytes
  assume "xs \<noteq> []" and "ys = dropWhile (\<lambda>c. \<not> is_term_char c) xs" and "rest = dropWhile is_term_char ys"
  then show "(rest, xs) \<in> measure length" using skip_run_shorter [of xs is_term_char] by simp
qed simp

declare next_run.simps [simp del]

definition to_lower :: "u8 \<Rightarrow> u8" where
  "to_lower c = (if 0x41 \<le> c \<and> c \<le> 0x5A then c - 0x41 + 0x61 else c)"

definition lex_tokenizer_next :: "LexTokenizer \<Rightarrow> LexTokenizer \<times> cstr option" where
  "lex_tokenizer_next t =
     (let (pos, sub) = (if tk_have_full t \<and> tk_compound t then sub_part (tk_full t) (tk_sub_pos t) else (tk_sub_pos t, None))
      in case sub of
           Some w \<Rightarrow> (t\<lparr>tk_sub_pos := pos\<rparr>, Some w)
         | None \<Rightarrow>
             let (rest, raw) = next_run (tk_rest t)
             in case raw of
                  None \<Rightarrow> (t\<lparr>tk_rest := rest, tk_full := [], tk_sub_pos := pos, tk_have_full := False\<rparr>, None)
                | Some core \<Rightarrow>
                    let s = take LEX_MAX_TERM core; full = map to_lower s
                    in (\<lparr>tk_rest = rest, tk_full = full, tk_sub_pos = 0, tk_have_full = True, tk_compound = (\<exists>c \<in> set s. is_sub_delim c)\<rparr>,
                        Some full))"

section \<open>Runs\<close>

text \<open>The maximal runs of characters with the property.\<close>

function runs :: "('c \<Rightarrow> bool) \<Rightarrow> 'c list \<Rightarrow> 'c list list" where
  "runs P xs =
     (let ys = dropWhile (\<lambda>c. \<not> P c) xs
      in if ys = [] then [] else takeWhile P ys # runs P (dropWhile P ys))"
  by pat_completeness auto

termination runs
proof (relation "measure (\<lambda>(P, xs). length xs)")
  fix P :: "'c \<Rightarrow> bool" and xs ys
  assume ys: "ys = dropWhile (\<lambda>c. \<not> P c) xs" "ys \<noteq> []"
  then have "xs \<noteq> []" by auto
  from skip_run_shorter [OF this, of P] ys show "((P, dropWhile P ys), P, xs) \<in> measure (\<lambda>(P, xs). length xs)" by simp
qed simp

declare runs.simps [simp del]

lemma runs_Nil [simp]: "runs P [] = []"
  by (simp add: runs.simps)

lemma next_run_ok:
  "next_run xs = (rest, raw) \<Longrightarrow>
     (case raw of
        None \<Rightarrow> rest = [] \<and> filter (\<lambda>w. w \<noteq> []) (map trim_edges (runs is_term_char xs)) = []
      | Some core \<Rightarrow> length rest < length xs \<and> core \<noteq> [] \<and>
          filter (\<lambda>w. w \<noteq> []) (map trim_edges (runs is_term_char xs)) = core # filter (\<lambda>w. w \<noteq> []) (map trim_edges (runs is_term_char rest)))"
proof (induction xs rule: next_run.induct)
  case (1 xs)
  define ys where "ys = dropWhile (\<lambda>c. \<not> is_term_char c) xs"
  define core where "core = trim_edges (takeWhile is_term_char ys)"
  define tl where "tl = dropWhile is_term_char ys"
  show ?case
  proof (cases "xs = []")
    case True
    then show ?thesis using "1.prems" by (auto simp: next_run.simps)
  next
    case ne: False
    have r: "runs is_term_char xs = (if ys = [] then [] else takeWhile is_term_char ys # runs is_term_char tl)"
      by (subst runs.simps) (simp add: ys_def tl_def Let_def)
    have n: "next_run xs = (if core = [] then next_run tl else (tl, Some core))"
      by (subst next_run.simps) (simp add: ne ys_def core_def tl_def Let_def)
    have short: "length tl < length xs" using skip_run_shorter [OF ne, of is_term_char] by (simp add: tl_def ys_def)
    have c0: "ys = [] \<Longrightarrow> core = []" by (simp add: core_def trim_edges_def)
    show ?thesis
    proof (cases "core = []")
      case True
      have IH: "case raw of
          None \<Rightarrow> rest = [] \<and> filter (\<lambda>w. w \<noteq> []) (map trim_edges (runs is_term_char tl)) = []
        | Some core \<Rightarrow> length rest < length tl \<and> core \<noteq> [] \<and>
            filter (\<lambda>w. w \<noteq> []) (map trim_edges (runs is_term_char tl)) = core # filter (\<lambda>w. w \<noteq> []) (map trim_edges (runs is_term_char rest))"
        using "1.IH" [OF ne ys_def core_def tl_def True] "1.prems" n True by simp
      have "filter (\<lambda>w. w \<noteq> []) (map trim_edges (runs is_term_char xs)) = filter (\<lambda>w. w \<noteq> []) (map trim_edges (runs is_term_char tl))"
        using True by (cases "ys = []") (auto simp: r core_def tl_def)
      then show ?thesis using IH short by (auto split: option.splits)
    next
      case False
      then have "ys \<noteq> []" using c0 by auto
      then show ?thesis using False "1.prems" n short by (auto simp: r core_def)
    qed
  qed
qed

text \<open>The parts of a term worth emitting.\<close>

definition part_kept :: "cstr \<Rightarrow> cstr \<Rightarrow> bool" where
  "part_kept full w \<longleftrightarrow> 2 \<le> length w \<and> length w < length full"

abbreviation parts_from :: "cstr \<Rightarrow> nat \<Rightarrow> cstr list" where
  "parts_from full pos \<equiv> filter (part_kept full) (runs (\<lambda>c. \<not> is_sub_delim c) (drop pos full))"

lemma drop_run_end: "drop (run_end P xs i) xs = dropWhile P (drop i xs)"
  by (simp add: run_end_def dropWhile_eq_drop add.commute)

lemma take_run_end: "take (run_end P xs i - i) (drop i xs) = takeWhile P (drop i xs)"
  by (simp add: run_end_def takeWhile_eq_take [symmetric])

lemma sub_part_ok:
  "pos \<le> length full \<Longrightarrow> sub_part full pos = (pos', sub) \<Longrightarrow>
     pos' \<le> length full \<and> (case sub of None \<Rightarrow> parts_from full pos = [] | Some w \<Rightarrow> pos < pos' \<and> parts_from full pos = w # parts_from full pos')"
proof (induction full pos rule: sub_part.induct)
  case (1 full pos)
  define s where "s = run_end is_sub_delim full pos"
  define e where "e = run_end (\<lambda>c. \<not> is_sub_delim c) full s"
  have le: "run_end P xs i \<le> length xs" if "i \<le> length xs" for P xs and i :: nat
    using that length_takeWhile_le [of P "drop i xs"] by (simp add: run_end_def)
  show ?case
  proof (cases "pos < length full")
    case False
    then show ?thesis using "1.prems" by (auto simp: sub_part.simps)
  next
    case True
    have ys: "dropWhile (\<lambda>c. \<not> \<not> is_sub_delim c) (drop pos full) = drop s full" by (simp add: s_def drop_run_end)
    have sl: "s \<le> length full" "e \<le> length full" using le True by (simp_all add: s_def e_def)
    have r: "runs (\<lambda>c. \<not> is_sub_delim c) (drop pos full) =
        (if length full \<le> s then [] else take (e - s) (drop s full) # runs (\<lambda>c. \<not> is_sub_delim c) (drop e full))"
      by (subst runs.simps) (simp only: ys Let_def, simp add: e_def take_run_end drop_run_end)
    have step: "sub_part full pos = (if length full \<le> s then (e, None)
        else if 2 \<le> e - s \<and> e - s < length full then (e, Some (take (e - s) (drop s full))) else sub_part full e)"
      by (subst sub_part.simps) (simp add: True s_def e_def Let_def)
    have prog: "pos < e" if "\<not> length full \<le> s"
      using that run_end_progress [of s full "\<lambda>c. \<not> is_sub_delim c"] run_end_stop [of is_sub_delim full pos] run_end_ge [of pos is_sub_delim full]
      by (simp add: s_def e_def)
    have len: "length (take (e - s) (drop s full)) = e - s" using sl run_end_ge [of s "\<lambda>c. \<not> is_sub_delim c" full] by (simp add: e_def)
    consider "length full \<le> s" | "\<not> length full \<le> s" "2 \<le> e - s \<and> e - s < length full" | "\<not> length full \<le> s" "\<not> (2 \<le> e - s \<and> e - s < length full)"
      by blast
    then show ?thesis
    proof cases
      case 1
      then show ?thesis using "1.prems" step r sl by auto
    next
      case 2
      then show ?thesis using "1.prems" step r sl prog len by (auto simp: part_kept_def)
    next
      case 3
      then have "sub_part full e = (pos', sub)" using "1.prems" step by auto
      with "1.IH" [OF _ s_def e_def] True 3 sl have "pos' \<le> length full \<and>
          (case sub of None \<Rightarrow> parts_from full e = [] | Some w \<Rightarrow> e < pos' \<and> parts_from full e = w # parts_from full pos')" by auto
      moreover have "parts_from full pos = parts_from full e" using 3 r len by (auto simp: part_kept_def)
      ultimately show ?thesis using prog 3 by (auto split: option.splits)
    qed
  qed
qed

section \<open>All terms of a text\<close>

text \<open>The loop of every caller: \<^verbatim>\<open>while (lex_tokenizer_next(&t, term)) ...\<close>.\<close>

lemma sub_part_shrinks: "sub_part full pos = (pos', Some w) \<Longrightarrow> length full - pos' < length full - pos"
proof -
  assume a: "sub_part full pos = (pos', Some w)"
  then have l: "pos < length full" by (subst (asm) sub_part.simps) (auto split: if_splits)
  from sub_part_ok [OF _ a] l have "pos < pos'" by simp
  with l show ?thesis by simp
qed

function lex_tokens :: "LexTokenizer \<Rightarrow> cstr list" where
  "lex_tokens t = (case lex_tokenizer_next t of (t', None) \<Rightarrow> [] | (t', Some w) \<Rightarrow> w # lex_tokens t')"
  by pat_completeness auto

lemma lex_tokenizer_next_cases:
  assumes "lex_tokenizer_next t = (t', Some w)"
  obtains (sub) pos where "tk_have_full t" "tk_compound t" "sub_part (tk_full t) (tk_sub_pos t) = (pos, Some w)" "t' = t\<lparr>tk_sub_pos := pos\<rparr>"
  | (run) pos rest core where "(if tk_have_full t \<and> tk_compound t then sub_part (tk_full t) (tk_sub_pos t) else (tk_sub_pos t, None)) = (pos, None)"
      "next_run (tk_rest t) = (rest, Some core)" "w = map to_lower (take LEX_MAX_TERM core)"
      "t' = \<lparr>tk_rest = rest, tk_full = w, tk_sub_pos = 0, tk_have_full = True, tk_compound = (\<exists>c \<in> set (take LEX_MAX_TERM core). is_sub_delim c)\<rparr>"
proof -
  obtain pos sub where ps: "(if tk_have_full t \<and> tk_compound t then sub_part (tk_full t) (tk_sub_pos t) else (tk_sub_pos t, None)) = (pos, sub)"
    by fastforce
  obtain rest raw where r: "next_run (tk_rest t) = (rest, raw)" by fastforce
  show ?thesis
  proof (cases sub)
    case (Some v)
    then show ?thesis using ps assms by (intro that(1)) (auto simp: lex_tokenizer_next_def split: if_splits)
  next
    case None
    then show ?thesis using ps r assms that(2) [of pos rest]
      by (cases raw) (auto simp: lex_tokenizer_next_def Let_def)
  qed
qed

lemma lex_tokenizer_next_end:
  assumes "lex_tokenizer_next t = (t', None)"
  shows "tk_have_full t \<and> tk_compound t \<Longrightarrow> \<exists>pos. sub_part (tk_full t) (tk_sub_pos t) = (pos, None)"
    and "\<exists>rest. next_run (tk_rest t) = (rest, None)"
  using assms by (auto simp: lex_tokenizer_next_def Let_def split: prod.splits option.splits if_splits)

definition tokens_left :: "(LexTokenizer \<times> LexTokenizer) set" where
  "tokens_left = inv_image (less_than <*lex*> less_than) (\<lambda>t. (length (tk_rest t), length (tk_full t) - tk_sub_pos t))"

lemma lex_tokenizer_next_decreases: "lex_tokenizer_next t = (t', Some w) \<Longrightarrow> (t', t) \<in> tokens_left"
proof (erule lex_tokenizer_next_cases)
  fix pos
  assume "sub_part (tk_full t) (tk_sub_pos t) = (pos, Some w)" and "t' = t\<lparr>tk_sub_pos := pos\<rparr>"
  then show ?thesis using sub_part_shrinks by (simp add: tokens_left_def)
next
  fix rest core
  assume r: "next_run (tk_rest t) = (rest, Some core)"
    and "t' = \<lparr>tk_rest = rest, tk_full = w, tk_sub_pos = 0, tk_have_full = True, tk_compound = (\<exists>c \<in> set (take LEX_MAX_TERM core). is_sub_delim c)\<rparr>"
  then show ?thesis using next_run_ok [OF r] by (simp add: tokens_left_def)
qed

termination lex_tokens
  by (relation tokens_left) (auto simp: tokens_left_def [THEN arg_cong [where f = wf]] intro: lex_tokenizer_next_decreases [OF sym])

declare lex_tokens.simps [simp del]

text \<open>What the terms of a text are, said without the machine.\<close>

definition term_parts :: "cstr \<Rightarrow> cstr list" where
  "term_parts full = full # filter (part_kept full) (runs (\<lambda>c. \<not> is_sub_delim c) full)"

definition raw_terms :: "bytes \<Rightarrow> bytes list" where
  "raw_terms text = filter (\<lambda>w. w \<noteq> []) (map trim_edges (runs is_term_char text))"

definition text_terms :: "bytes \<Rightarrow> cstr list" where
  "text_terms text = map (\<lambda>w. map to_lower (take LEX_MAX_TERM w)) (raw_terms text)"

lemma to_lower_delim [simp]: "is_sub_delim (to_lower c) = is_sub_delim c"
proof (cases "0x41 \<le> c \<and> c \<le> 0x5A")
  case True
  have "\<not> is_sub_delim c" using True by (auto simp: is_sub_delim_def is_edge_char_def)
  moreover have "unat (to_lower c) = unat c + 0x20"
    using True by (simp add: to_lower_def word_le_nat_alt unat_plus_if' unat_sub_if')
  then have "0x61 \<le> to_lower c" using True by (simp add: word_le_nat_alt)
  then have "\<not> is_sub_delim (to_lower c)" by (auto simp: is_sub_delim_def is_edge_char_def)
  ultimately show ?thesis by simp
qed (simp only: to_lower_def if_False)

lemma simple_term_no_parts:
  assumes "\<forall>c \<in> set full. \<not> is_sub_delim c"
  shows "parts_from full 0 = []"
proof (cases full)
  case (Cons c cs)
  then have ne: "full \<noteq> []" by simp
  have d: "dropWhile (\<lambda>c. \<not> \<not> is_sub_delim c) full = full" "takeWhile (\<lambda>c. \<not> is_sub_delim c) full = full"
      "dropWhile (\<lambda>c. \<not> is_sub_delim c) full = []"
    using assms Cons by (simp_all add: takeWhile_eq_all_conv dropWhile_eq_Nil_conv)
  have "runs (\<lambda>c. \<not> is_sub_delim c) full = [full]"
    using d by (subst runs.simps) (simp only: Let_def runs_Nil if_False ne)
  then show ?thesis by (simp add: part_kept_def)
qed simp

definition lex_inv :: "LexTokenizer \<Rightarrow> bool" where
  "lex_inv t \<longleftrightarrow> (tk_have_full t \<longrightarrow> tk_sub_pos t \<le> length (tk_full t) \<and>
     (\<not> tk_compound t \<longrightarrow> parts_from (tk_full t) (tk_sub_pos t) = []))"

lemma lex_inv_init [simp]: "lex_inv (lex_tokenizer_init text)"
  by (simp add: lex_inv_def lex_tokenizer_init_def)

lemma lex_tokens_from:
  "lex_inv t \<Longrightarrow> lex_tokens t =
     (if tk_have_full t then parts_from (tk_full t) (tk_sub_pos t) else []) @ concat (map term_parts (text_terms (tk_rest t)))"
proof (induction t rule: lex_tokens.induct)
  case (1 t)
  obtain t' res where n: "lex_tokenizer_next t = (t', res)" by fastforce
  show ?case
  proof (cases res)
    case None
    note e = lex_tokenizer_next_end [OF n [unfolded None]]
    have "raw_terms (tk_rest t) = []" using e(2) next_run_ok by (fastforce simp: raw_terms_def)
    moreover have "tk_have_full t \<Longrightarrow> parts_from (tk_full t) (tk_sub_pos t) = []"
      using e(1) "1.prems" sub_part_ok by (cases "tk_compound t") (fastforce simp: lex_inv_def)+
    ultimately show ?thesis using n None by (simp add: lex_tokens.simps [of t] text_terms_def)
  next
    case (Some w)
    have step: "lex_tokens t = w # lex_tokens t'" using n Some by (simp add: lex_tokens.simps [of t])
    note IH = "1.IH" [OF n [symmetric] Some]
    from n Some have n': "lex_tokenizer_next t = (t', Some w)" by simp
    then show ?thesis
    proof (cases rule: lex_tokenizer_next_cases)
      case (sub pos)
      have "pos \<le> length (tk_full t)" "parts_from (tk_full t) (tk_sub_pos t) = w # parts_from (tk_full t) pos"
        using sub_part_ok [OF _ sub(3)] "1.prems" sub(1) by (simp_all add: lex_inv_def)
      moreover from this have "lex_inv t'" using sub by (simp add: lex_inv_def)
      ultimately show ?thesis using IH step sub by simp
    next
      case (run pos rest core)
      have raw: "raw_terms (tk_rest t) = core # raw_terms rest"
        using next_run_ok [OF run(2)] by (simp add: raw_terms_def)
      have old: "tk_have_full t \<Longrightarrow> parts_from (tk_full t) (tk_sub_pos t) = []"
        using run(1) "1.prems" sub_part_ok [of "tk_sub_pos t" "tk_full t" pos None] by (cases "tk_compound t") (simp_all add: lex_inv_def)
      have "lex_inv t'" using simple_term_no_parts [of w] run by (auto simp: lex_inv_def simp del: filter_empty_conv)
      then have "lex_tokens t' = parts_from w 0 @ concat (map term_parts (text_terms rest))" using IH run by simp
      then show ?thesis using step raw old run(3) 
        by (simp add: text_terms_def term_parts_def [of "map to_lower (take LEX_MAX_TERM core)"])
    qed
  qed
qed

text \<open>
  C16. The tokenizer comes to an end on every text, and the sequence it yields is: for each maximal run of term characters, in order,
  that is not punctuation only, the run without its edge punctuation, cut to 64 bytes and lower-cased, followed by those of its
  delimiter-separated parts that have at least two bytes and are not the whole term.
\<close>

theorem lex_tokens_exact:
  "lex_tokens (lex_tokenizer_init (Some text)) = concat (map term_parts (text_terms text))"
proof -
  have "lex_tokens (lex_tokenizer_init (Some text)) = concat (map term_parts (text_terms (tk_rest (lex_tokenizer_init (Some text)))))"
    by (subst lex_tokens_from) (simp_all add: lex_tokenizer_init_def lex_inv_def)
  then show ?thesis by (simp add: lex_tokenizer_init_def)
qed

end
