(* ===== verification/Lexical_Index.thy ===== *)
theory Lexical_Index
  imports Lex_Tokenizer String_Table Counted_Table
begin

text \<open>
  The inverted index of \<^verbatim>\<open>src/src/storage/lexical_index.c\<close>: a chained table from terms to postings (record id and
  number of occurrences, sorted by id) and an open addressing table from documents to their lengths.

  Shown: the index is the map from the indexed documents to the terms of their texts. Adding a document extends it, removing one with
  its text takes it out, and an addition that runs out of memory at any term is rolled back to the state before it; the postings, the
  document lengths, the corpus length and the two counters always agree with the map.
\<close>

section \<open>State\<close>

record LexPost =
  lp_id :: u64
  lp_tf :: u32

record LexTerm =
  lt_term :: cstr
  lt_posts :: "LexPost list"
  lt_cap :: nat

record LexDoc =
  ld_id :: u64
  ld_len :: u32
  ld_state :: slot_state

record LexicalIndex =
  lx_buckets :: "nat \<Rightarrow> LexTerm list"
  lx_term_count :: nat
  lx_docs :: "LexDoc list"
  lx_doc_live :: nat
  lx_doc_used :: nat
  lx_total_len :: u64

definition LEX_NBUCKETS :: nat where
  "LEX_NBUCKETS = 4096"

definition blank_doc :: LexDoc where
  "blank_doc = \<lparr>ld_id = 0, ld_len = 0, ld_state = SLOT_EMPTY\<rparr>"

section \<open>The document table\<close>

definition doc_slot :: "LexicalIndex \<Rightarrow> u64 \<Rightarrow> nat option" where
  "doc_slot lx i =
     (let sl = lx_docs lx
      in if sl = [] then None
         else probe_find ld_state (\<lambda>d. ld_id d = i) sl (unat (mix64 i) AND (length sl - 1)) 0 (length sl))"

text \<open>The inner \<open>None\<close> is the failed allocation; the outer one a copy loop that would not end.\<close>

definition doc_grow :: "alloc \<Rightarrow> LexicalIndex \<Rightarrow> LexicalIndex option option" where
  "doc_grow mem lx =
     (let ncap = (if length (lx_docs lx) \<noteq> 0 then length (lx_docs lx) * 2 else 64)
      in if \<not> mem 0 then Some None
         else map_option (\<lambda>nd. Some (lx\<lparr>lx_docs := nd, lx_doc_used := lx_doc_live lx\<rparr>))
                (rehash_into ld_state (\<lambda>_ t. ld_state t \<noteq> SLOT_LIVE) (\<lambda>d. mix64 (ld_id d))
                   (lx_docs lx) (replicate ncap blank_doc)))"

definition doc_claim :: "LexicalIndex \<Rightarrow> u64 \<Rightarrow> u32 \<Rightarrow> int \<times> LexicalIndex" where
  "doc_claim lx i len =
     (let sl = lx_docs lx
      in case probe_claim ld_state (\<lambda>d. ld_id d = i) sl (unat (mix64 i) AND (length sl - 1)) 0 None (length sl) of
           None \<Rightarrow> (-1, lx)
         | Some (Inl _) \<Rightarrow> (0, lx)
         | Some (Inr j) \<Rightarrow>
             (0, lx\<lparr>lx_docs := sl[j := \<lparr>ld_id = i, ld_len = len, ld_state = SLOT_LIVE\<rparr>],
                    lx_doc_used := (if ld_state (sl ! j) = SLOT_EMPTY then lx_doc_used lx + 1 else lx_doc_used lx),
                    lx_doc_live := lx_doc_live lx + 1,
                    lx_total_len := lx_total_len lx + ucast len\<rparr>))"

definition doc_put :: "alloc \<Rightarrow> LexicalIndex \<Rightarrow> u64 \<Rightarrow> u32 \<Rightarrow> (int \<times> LexicalIndex) option" where
  "doc_put mem lx i len =
     (case (if length (lx_docs lx) = 0 \<or> length (lx_docs lx) * 3 \<le> (lx_doc_used lx + 1) * 4
            then doc_grow mem lx else Some (Some lx)) of
        None \<Rightarrow> None
      | Some None \<Rightarrow> Some (-1, lx)
      | Some (Some lx1) \<Rightarrow> Some (doc_claim lx1 i len))"

definition doc_del :: "LexicalIndex \<Rightarrow> u64 \<Rightarrow> LexicalIndex" where
  "doc_del lx i =
     (case doc_slot lx i of
        None \<Rightarrow> lx
      | Some j \<Rightarrow>
          let d = lx_docs lx ! j
          in lx\<lparr>lx_total_len := lx_total_len lx - ucast (ld_len d), lx_docs := (lx_docs lx)[j := d\<lparr>ld_state := SLOT_DEAD\<rparr>],
                lx_doc_live := lx_doc_live lx - 1\<rparr>)"

section \<open>The term table\<close>

definition term_bucket :: "cstr \<Rightarrow> nat" where
  "term_bucket s = hash_bucket LEX_NBUCKETS s"

definition term_find :: "LexicalIndex \<Rightarrow> cstr \<Rightarrow> LexTerm option" where
  "term_find lx w = table_find lt_term LEX_NBUCKETS (lx_buckets lx) w"

definition lex_post_lower_bound :: "LexPost list \<Rightarrow> u64 \<Rightarrow> nat" where
  "lex_post_lower_bound ps i = bsearch (\<lambda>mid. lp_id (ps ! mid) < i) 0 (length ps)"

text \<open>The test \<^verbatim>\<open>pos < n->n && n->posts[pos].id == id\<close>.\<close>

definition lex_post_at :: "LexPost list \<Rightarrow> nat \<Rightarrow> u64 \<Rightarrow> bool" where
  "lex_post_at ps pos i \<longleftrightarrow> pos < length ps \<and> lp_id (ps ! pos) = i"

text \<open>What happens to the node once it is there; \<open>None\<close> is the failed allocation.\<close>

definition node_add :: "alloc \<Rightarrow> LexTerm \<Rightarrow> u64 \<Rightarrow> LexTerm option" where
  "node_add mem n i =
     (let ps = lt_posts n; pos = lex_post_lower_bound ps i
      in if lex_post_at ps pos i
         then Some (if lp_tf (ps ! pos) < 0xFFFFFFFF then n\<lparr>lt_posts := ps[pos := (ps ! pos)\<lparr>lp_tf := lp_tf (ps ! pos) + 1\<rparr>]\<rparr> else n)
         else if length ps = lt_cap n \<and> \<not> mem 2 then None
         else Some (n\<lparr>lt_cap := (if length ps = lt_cap n then if lt_cap n \<noteq> 0 then lt_cap n * 2 else 4 else lt_cap n),
                      lt_posts := insert_at pos \<lparr>lp_id = i, lp_tf = 1\<rparr> ps\<rparr>))"

definition term_add :: "alloc \<Rightarrow> LexicalIndex \<Rightarrow> cstr \<Rightarrow> u64 \<Rightarrow> int \<times> LexicalIndex" where
  "term_add mem lx w i =
     (if term_find lx w = None \<and> (\<not> mem 0 \<or> \<not> mem 1) then (-1, lx)
      else let lx1 = (case term_find lx w of
                        Some _ \<Rightarrow> lx
                      | None \<Rightarrow> lx\<lparr>lx_buckets := table_push lt_term LEX_NBUCKETS (lx_buckets lx)
                                      \<lparr>lt_term = w, lt_posts = [], lt_cap = 0\<rparr>,
                                   lx_term_count := lx_term_count lx + 1\<rparr>)
           in case node_add mem (the (term_find lx1 w)) i of
                None \<Rightarrow> (-1, lx1)
              | Some n \<Rightarrow> (0, lx1\<lparr>lx_buckets := table_update lt_term LEX_NBUCKETS (lx_buckets lx1) w (\<lambda>_. n)\<rparr>))"

definition term_remove :: "LexicalIndex \<Rightarrow> cstr \<Rightarrow> u64 \<Rightarrow> LexicalIndex" where
  "term_remove lx w i =
     (case term_find lx w of
        None \<Rightarrow> lx
      | Some n \<Rightarrow>
          let pos = lex_post_lower_bound (lt_posts n) i;
              ps = (if lex_post_at (lt_posts n) pos i then remove_at pos (lt_posts n) else lt_posts n)
          in if length ps = 0
             then lx\<lparr>lx_buckets := table_unlink lt_term LEX_NBUCKETS (lx_buckets lx) w, lx_term_count := lx_term_count lx - 1\<rparr>
             else lx\<lparr>lx_buckets := table_update lt_term LEX_NBUCKETS (lx_buckets lx) w (\<lambda>n. n\<lparr>lt_posts := ps\<rparr>)\<rparr>)"

section \<open>The index\<close>

definition lexical_index_create :: "alloc \<Rightarrow> LexicalIndex option" where
  "lexical_index_create mem =
     (if mem 0 then Some \<lparr>lx_buckets = (\<lambda>_. []), lx_term_count = 0, lx_docs = [], lx_doc_live = 0, lx_doc_used = 0, lx_total_len = 0\<rparr>
      else None)"

definition lexical_index_terms :: "LexicalIndex option \<Rightarrow> nat" where
  "lexical_index_terms lxo = (case lxo of None \<Rightarrow> 0 | Some lx \<Rightarrow> lx_term_count lx)"

definition lexical_index_docs :: "LexicalIndex option \<Rightarrow> nat" where
  "lexical_index_docs lxo = (case lxo of None \<Rightarrow> 0 | Some lx \<Rightarrow> lx_doc_live lx)"

text \<open>The tokenizer does not read the index, so the loops over it run over the sequence of its terms.\<close>

definition text_tokens :: "bytes option \<Rightarrow> cstr list" where
  "text_tokens text = lex_tokens (lex_tokenizer_init text)"

definition unindex_text :: "LexicalIndex \<Rightarrow> u64 \<Rightarrow> bytes option \<Rightarrow> LexicalIndex" where
  "unindex_text lx i text = fold (\<lambda>w lx. term_remove lx w i) (text_tokens text) lx"

text \<open>
  The loop of the addition. \<open>mems k\<close> gives the outcomes of the allocations for the \<open>k\<close>-th term; \<open>None\<close> is the
  return from inside the loop, after which the caller rolls back.
\<close>

fun index_terms :: "(nat \<Rightarrow> alloc) \<Rightarrow> nat \<Rightarrow> LexicalIndex \<Rightarrow> u64 \<Rightarrow> cstr list \<Rightarrow> u32 \<Rightarrow> LexicalIndex \<times> u32 option" where
  "index_terms mems k lx i [] dl = (lx, Some dl)"
| "index_terms mems k lx i (w # ws) dl =
     (let (rv, lx1) = term_add (mems k) lx w i
      in if rv \<noteq> 0 then (lx1, None)
         else index_terms mems (Suc k) lx1 i ws (if dl < 0xFFFFFFFF then dl + 1 else dl))"

definition lexical_index_add ::
  "(nat \<Rightarrow> alloc) \<Rightarrow> alloc \<Rightarrow> LexicalIndex option \<Rightarrow> u64 \<Rightarrow> bytes option \<Rightarrow> (int \<times> LexicalIndex option) option" where
  "lexical_index_add mems mem lxo i text =
     (case lxo of
        None \<Rightarrow> Some (0, None)
      | Some lx \<Rightarrow>
          if doc_slot lx i \<noteq> None then Some (0, Some lx)
          else case index_terms mems 0 lx i (text_tokens text) 0 of
                 (lx1, None) \<Rightarrow> Some (-1, Some (unindex_text lx1 i text))
               | (lx1, Some dl) \<Rightarrow>
                   if dl = 0 then Some (0, Some lx1)
                   else case doc_put mem lx1 i dl of
                          None \<Rightarrow> None
                        | Some (rv, lx2) \<Rightarrow>
                            if rv \<noteq> 0 then Some (-1, Some (unindex_text lx2 i text)) else Some (0, Some lx2))"

definition lexical_index_remove :: "LexicalIndex option \<Rightarrow> u64 \<Rightarrow> bytes option \<Rightarrow> LexicalIndex option" where
  "lexical_index_remove lxo i text =
     (case lxo of
        None \<Rightarrow> None
      | Some lx \<Rightarrow> if doc_slot lx i = None then Some lx else Some (doc_del (unindex_text lx i text) i))"

section \<open>One term\<close>

definition lex_node_ok :: "LexTerm \<Rightarrow> bool" where
  "lex_node_ok n \<longleftrightarrow> sorted (map lp_id (lt_posts n)) \<and> distinct (map lp_id (lt_posts n)) \<and> length (lt_posts n) \<le> lt_cap n"

abbreviation post_pair :: "LexPost \<Rightarrow> u64 \<times> u32" where
  "post_pair p \<equiv> (lp_id p, lp_tf p)"

definition node_tf :: "LexTerm \<Rightarrow> u64 \<rightharpoonup> u32" where
  "node_tf n = map_of (map post_pair (lt_posts n))"

text \<open>A counter that stays at its largest value.\<close>

definition sat_inc :: "u32 \<Rightarrow> u32" where
  "sat_inc c = (if c < 0xFFFFFFFF then c + 1 else c)"

interpretation lpa: sorted_array lp_id "\<lambda>p i. lp_id p < i"
  by unfold_locales simp

lemma lex_post_at_iff: "lex_node_ok n \<Longrightarrow> lex_post_at (lt_posts n) (lex_post_lower_bound (lt_posts n) i) i \<longleftrightarrow> node_tf n i \<noteq> None"
  using lpa.found_iff [of "lt_posts n" _ i, OF _ refl]
  by (simp add: lex_post_at_def lex_post_lower_bound_def lex_node_ok_def node_tf_def map_of_eq_None_iff image_image del: not_None_eq)

lemma fst_post_pairs [simp]: "map fst (map post_pair ps) = map lp_id ps"
  by simp

lemma node_add_ok:
  assumes ok: "lex_node_ok n" and add: "node_add mem n i = Some n'"
  shows "lex_node_ok n'" and "lt_term n' = lt_term n" and "lt_posts n' \<noteq> []"
    and "node_tf n' = (node_tf n)(i \<mapsto> (case node_tf n i of None \<Rightarrow> 1 | Some c \<Rightarrow> sat_inc c))"
proof -
  define pos where "pos = lex_post_lower_bound (lt_posts n) i"
  have srt: "sorted (map lp_id (lt_posts n))" "distinct (map lp_id (lt_posts n))" "length (lt_posts n) \<le> lt_cap n"
    using ok by (simp_all add: lex_node_ok_def)
  have "lex_node_ok n' \<and> lt_term n' = lt_term n \<and> lt_posts n' \<noteq> [] \<and>
      node_tf n' = (node_tf n)(i \<mapsto> (case node_tf n i of None \<Rightarrow> 1 | Some c \<Rightarrow> sat_inc c))"
  proof (cases "lex_post_at (lt_posts n) pos i")
    case True
    let ?p = "lt_posts n ! pos"
    have at: "pos < length (lt_posts n)" "lp_id ?p = i" using True by (simp_all add: lex_post_at_def)
    note m = map_of_at [of "map post_pair (lt_posts n)" pos i, unfolded fst_post_pairs length_map, OF srt(2) at(1)]
    have c: "node_tf n i = Some (lp_tf ?p)" using m(1) at by (simp add: node_tf_def)
    have u: "map post_pair ((lt_posts n)[pos := ?p\<lparr>lp_tf := v\<rparr>]) = (map post_pair (lt_posts n))[pos := (i, v)]" for v
      using at by (simp add: map_update)
    have i: "map lp_id ((lt_posts n)[pos := ?p\<lparr>lp_tf := v\<rparr>]) = map lp_id (lt_posts n)" for v
      using at by (simp add: map_update list_update_same_conv)
    show ?thesis
    proof (cases "lp_tf ?p < 0xFFFFFFFF")
      case True
      have "n' = n\<lparr>lt_posts := (lt_posts n)[pos := ?p\<lparr>lp_tf := lp_tf ?p + 1\<rparr>]\<rparr>"
        using add True \<open>lex_post_at (lt_posts n) pos i\<close> by (simp add: node_add_def pos_def [symmetric] Let_def)
      then show ?thesis using i u m(2) at c srt True by (auto simp: lex_node_ok_def node_tf_def sat_inc_def)
    next
      case False
      then have "n' = n" using add \<open>lex_post_at (lt_posts n) pos i\<close> by (simp add: node_add_def pos_def [symmetric] Let_def)
      then show ?thesis using at c ok False by (auto simp: sat_inc_def)
    qed
  next
    case False
    then have new: "node_tf n i = None" using lex_post_at_iff [OF ok] by (simp add: pos_def)
    then have k: "i \<notin> fst ` set (map post_pair (lt_posts n))" by (simp add: node_tf_def map_of_eq_None_iff)
    let ?p = "\<lparr>lp_id = i, lp_tf = 1\<rparr>"
    have pos: "pos = bsearch (\<lambda>mid. lp_id (lt_posts n ! mid) < lp_id ?p) 0 (length (lt_posts n))"
      by (simp add: pos_def lex_post_lower_bound_def)
    have n': "lt_posts n' = insert_at pos ?p (lt_posts n) \<and> lt_term n' = lt_term n \<and> length (lt_posts n) < lt_cap n'"
      using add False srt(3) by (auto simp: node_add_def pos_def [symmetric] Let_def split: if_splits)
    moreover have "distinct (map lp_id (insert_at pos ?p (lt_posts n)))"
      by (rule lpa.distinct_insert [OF srt(1,2) _ pos]) (use k in \<open>force simp: image_iff\<close>)
    ultimately have "lex_node_ok n'" using lpa.sorted_insert [OF srt(1) pos] by (simp add: lex_node_ok_def length_insert_at)
    moreover have "node_tf n' = (node_tf n)(i \<mapsto> 1)"
      using map_of_insert_at [OF k, of pos 1] n' by (simp add: node_tf_def map_insert_at)
    moreover have "lt_posts n' \<noteq> []" using n' length_insert_at [of pos ?p "lt_posts n"] by force
    ultimately show ?thesis using n' new by simp
  qed
  then show "lex_node_ok n'" and "lt_term n' = lt_term n" and "lt_posts n' \<noteq> []"
    and "node_tf n' = (node_tf n)(i \<mapsto> (case node_tf n i of None \<Rightarrow> 1 | Some c \<Rightarrow> sat_inc c))" by blast+
qed

lemma node_remove_ok:
  assumes ok: "lex_node_ok n" and pos: "pos = lex_post_lower_bound (lt_posts n) i"
    and ps: "ps = (if lex_post_at (lt_posts n) pos i then remove_at pos (lt_posts n) else lt_posts n)"
  shows "lex_node_ok (n\<lparr>lt_posts := ps\<rparr>)" and "node_tf (n\<lparr>lt_posts := ps\<rparr>) = (node_tf n)(i := None)"
proof -
  have srt: "sorted (map lp_id (lt_posts n))" "distinct (map lp_id (lt_posts n))" "length (lt_posts n) \<le> lt_cap n"
    using ok by (simp_all add: lex_node_ok_def)
  have "lex_node_ok (n\<lparr>lt_posts := ps\<rparr>) \<and> node_tf (n\<lparr>lt_posts := ps\<rparr>) = (node_tf n)(i := None)"
  proof (cases "lex_post_at (lt_posts n) pos i")
    case True
    then have at: "pos < length (lt_posts n)" "lp_id (lt_posts n ! pos) = i" by (simp_all add: lex_post_at_def)
    note m = map_of_at(3) [of "map post_pair (lt_posts n)" pos i, unfolded fst_post_pairs length_map, OF srt(2) at(1)]
    show ?thesis using True ps m at srt lpa.sorted_remove [OF srt(1), of pos] lpa.distinct_remove [OF srt(2), of pos]
      by (simp add: lex_node_ok_def node_tf_def map_remove_at length_remove_at)
  next
    case False
    then show ?thesis using ps ok lex_post_at_iff [OF ok, of i] pos by (auto simp: lex_node_ok_def node_tf_def)
  qed
  then show "lex_node_ok (n\<lparr>lt_posts := ps\<rparr>)" and "node_tf (n\<lparr>lt_posts := ps\<rparr>) = (node_tf n)(i := None)" by blast+
qed

lemma node_tf_empty: "lt_posts n = [] \<longleftrightarrow> node_tf n = Map.empty"
  by (cases "lt_posts n") (auto simp: node_tf_def)

section \<open>The postings\<close>

definition terms_ok :: "LexicalIndex \<Rightarrow> bool" where
  "terms_ok lx \<longleftrightarrow> table_ok lt_term LEX_NBUCKETS (lx_buckets lx) \<and> (\<forall>b. \<forall>n \<in> set (lx_buckets lx b). lex_node_ok n) \<and>
     finite {w. term_find lx w \<noteq> None} \<and> lx_term_count lx = card {w. term_find lx w \<noteq> None}"

lemma term_find_ok: "terms_ok lx \<Longrightarrow> term_find lx w = Some n \<Longrightarrow> lex_node_ok n \<and> lt_term n = w"
  by (auto simp: terms_ok_def term_find_def dest: table_find_in table_find_key)

lemma terms_push:
  assumes ok: "terms_ok lx" and new: "term_find lx (lt_term n) = None" and n: "lex_node_ok n"
    and lx': "lx' = lx\<lparr>lx_buckets := table_push lt_term LEX_NBUCKETS (lx_buckets lx) n, lx_term_count := lx_term_count lx + 1\<rparr>"
  shows "terms_ok lx'" and "term_find lx' w = (if w = lt_term n then Some n else term_find lx w)"
proof -
  show f: "term_find lx' w = (if w = lt_term n then Some n else term_find lx w)" for w
    by (simp add: lx' term_find_def table_find_push)
  have "{w. term_find lx' w \<noteq> None} = insert (lt_term n) {w. term_find lx w \<noteq> None}" by (auto simp: f)
  then show "terms_ok lx'" using ok new n table_ok_push [of lt_term LEX_NBUCKETS "lx_buckets lx" n]
    by (auto simp: terms_ok_def lx' term_find_def table_push_def)
qed

lemma terms_update:
  assumes ok: "terms_ok lx" and n: "term_find lx w = Some n" and n': "lex_node_ok (f n)" and key: "\<And>m. lt_term m = w \<Longrightarrow> lt_term (f m) = w"
    and lx': "lx' = lx\<lparr>lx_buckets := table_update lt_term LEX_NBUCKETS (lx_buckets lx) w f\<rparr>"
  shows "terms_ok lx'" and "term_find lx' w' = (if w' = w then Some (f n) else term_find lx w')"
proof -
  show fd: "term_find lx' w' = (if w' = w then Some (f n) else term_find lx w')" for w'
    using table_find_update [of lt_term w f LEX_NBUCKETS "lx_buckets lx", OF key] n by (simp add: lx' term_find_def)
  have d: "{w. term_find lx' w \<noteq> None} = {w. term_find lx w \<noteq> None}" using n by (auto simp: fd)
  have all: "\<And>b m. m \<in> set (lx_buckets lx b) \<Longrightarrow> lex_node_ok m" using ok by (simp add: terms_ok_def)
  have "lex_node_ok m" if "m \<in> set (lx_buckets lx' b)" for m b
    by (rule table_all_update [of "lx_buckets lx" lex_node_ok, OF all]) (use that n n' in \<open>auto simp: lx' term_find_def\<close>)
  moreover have "table_ok lt_term LEX_NBUCKETS (lx_buckets lx')" using ok key by (auto simp: lx' terms_ok_def intro: table_ok_update)
  ultimately show "terms_ok lx'" using ok d by (simp add: terms_ok_def lx')
qed

lemma terms_unlink:
  assumes ok: "terms_ok lx" and n: "term_find lx w = Some n"
    and lx': "lx' = lx\<lparr>lx_buckets := table_unlink lt_term LEX_NBUCKETS (lx_buckets lx) w, lx_term_count := lx_term_count lx - 1\<rparr>"
  shows "terms_ok lx'" and "term_find lx' w' = (if w' = w then None else term_find lx w')"
proof -
  have t: "table_ok lt_term LEX_NBUCKETS (lx_buckets lx)" using ok by (simp add: terms_ok_def)
  show fd: "term_find lx' w' = (if w' = w then None else term_find lx w')" for w'
    using table_find_unlink [OF t] by (simp add: lx' term_find_def)
  have "{w. term_find lx' w \<noteq> None} = {w. term_find lx w \<noteq> None} - {w}" by (auto simp: fd)
  moreover have "w \<in> {w. term_find lx w \<noteq> None}" using n by simp
  moreover have "lex_node_ok m" if "m \<in> set (lx_buckets lx' b)" for m b
    using that ok t by (auto simp: lx' terms_ok_def table_unlink_def table_ok_def set_chain_unlink split: if_splits)
  moreover have "lx_term_count lx' = lx_term_count lx - 1" by (simp add: lx')
  ultimately show "terms_ok lx'" using ok table_ok_unlink [OF t, of w] unfolding terms_ok_def
    by (simp add: lx')
qed

definition sat32 :: "nat \<Rightarrow> u32" where
  "sat32 n = of_nat (min n 0xFFFFFFFF)"

lemma sat_inc_sat32 [simp]: "sat_inc (sat32 n) = sat32 (Suc n)"
proof -
  have u: "unat (sat32 n) = min n 0xFFFFFFFF" for n by (simp add: sat32_def unat_of_nat)
  show ?thesis
  proof (cases "n < 0xFFFFFFFF")
    case True
    then have "sat32 n < 0xFFFFFFFF" using u [of n] by (simp add: word_less_nat_alt)
    then show ?thesis using True by (simp add: sat_inc_def) (simp add: sat32_def)
  next
    case False
    then have "\<not> sat32 n < 0xFFFFFFFF" using u [of n] by (simp add: word_less_nat_alt)
    then show ?thesis using False by (simp add: sat_inc_def) (simp add: sat32_def min_def)
  qed
qed

lemma sat32_small [simp]: "sat32 0 = 0" "sat32 (Suc 0) = 1"
  by (simp_all add: sat32_def)

lemma sat32_zero_iff [simp]: "sat32 n = 0 \<longleftrightarrow> n = 0"
proof -
  have "unat (sat32 n) = min n 0xFFFFFFFF" by (simp add: sat32_def unat_of_nat)
  then show ?thesis using unat_eq_zero [of "sat32 n"] by auto
qed

text \<open>
  The postings of an index in which the document \<open>i\<close> has the terms \<open>T i\<close>. The terms in \<open>E\<close> may have a node without a posting,
  which is what a failed addition leaves until the rollback.
\<close>

definition term_tf :: "LexicalIndex \<Rightarrow> cstr \<Rightarrow> u64 \<rightharpoonup> u32" where
  "term_tf lx w = (case term_find lx w of None \<Rightarrow> Map.empty | Some n \<Rightarrow> node_tf n)"

definition occurs :: "cstr list \<Rightarrow> cstr \<Rightarrow> u32 option" where
  "occurs ws w = (if w \<in> set ws then Some (sat32 (count_list ws w)) else None)"

definition postings :: "LexicalIndex \<Rightarrow> (u64 \<Rightarrow> cstr list) \<Rightarrow> cstr set \<Rightarrow> bool" where
  "postings lx T E \<longleftrightarrow> terms_ok lx \<and> (\<forall>w i. term_tf lx w i = occurs (T i) w) \<and>
     (\<forall>w n. term_find lx w = Some n \<longrightarrow> w \<notin> E \<longrightarrow> lt_posts n \<noteq> [])"

lemma postings_tf: "postings lx T E \<Longrightarrow> term_tf lx w i = occurs (T i) w"
  by (simp add: postings_def)

lemma occurs_snoc: "occurs (ws @ [w]) w' = (if w' = w then Some (case occurs ws w of None \<Rightarrow> 1 | Some c \<Rightarrow> sat_inc c) else occurs ws w')"
  by (auto simp: occurs_def count_list_append count_notin)

lemma occurs_filter: "occurs (filter (\<lambda>v. v \<notin> X) ws) w = (if w \<in> X then None else occurs ws w)"
proof -
  have "w \<notin> X \<Longrightarrow> count_list (filter (\<lambda>v. v \<notin> X) ws) w = count_list ws w" by (induction ws) auto
  then show ?thesis by (simp add: occurs_def)
qed

lemma term_add_ok:
  assumes p: "postings lx T E" and add: "term_add mem lx w i = (rv, lx')"
  shows "rv = 0 \<and> postings lx' (T(i := T i @ [w])) E \<or> rv = -1 \<and> postings lx' T (insert w E) \<and> mem \<noteq> mem_ok"
proof (cases "term_find lx w = None \<and> (\<not> mem 0 \<or> \<not> mem 1)")
  case True
  then show ?thesis using p add by (auto simp: term_add_def postings_def)
next
  case False
  have ok: "terms_ok lx" using p by (simp add: postings_def)
  define lx1 where "lx1 = (case term_find lx w of Some _ \<Rightarrow> lx
      | None \<Rightarrow> lx\<lparr>lx_buckets := table_push lt_term LEX_NBUCKETS (lx_buckets lx) \<lparr>lt_term = w, lt_posts = [], lt_cap = 0\<rparr>,
                   lx_term_count := lx_term_count lx + 1\<rparr>)"
  have e: "terms_ok lx1" "\<And>v. term_find lx1 v = (if v = w \<and> term_find lx w = None then Some \<lparr>lt_term = w, lt_posts = [], lt_cap = 0\<rparr> else term_find lx v)"
    using ok terms_push [of lx "\<lparr>lt_term = w, lt_posts = [], lt_cap = 0\<rparr>" lx1]
    by (auto simp: lx1_def lex_node_ok_def split: option.splits)
  have tf: "term_tf lx1 = term_tf lx" by (auto simp: term_tf_def e(2) fun_eq_iff node_tf_def split: option.splits)
  obtain n where n: "term_find lx1 w = Some n" using e(2) [of w] by (cases "term_find lx w") auto
  have nok: "lex_node_ok n" "lt_term n = w" using term_find_ok [OF e(1) n] by simp_all
  have ntf: "node_tf n i = occurs (T i) w" for i
  proof -
    have "term_tf lx1 w = node_tf n" by (simp add: term_tf_def n)
    then show ?thesis using postings_tf [OF p] tf by metis
  qed
  have p1: "postings lx1 T (insert w E)" using p e tf by (auto simp: postings_def)
  have r: "term_add mem lx w i = (case node_add mem n i of None \<Rightarrow> (-1, lx1)
      | Some n' \<Rightarrow> (0, lx1\<lparr>lx_buckets := table_update lt_term LEX_NBUCKETS (lx_buckets lx1) w (\<lambda>_. n')\<rparr>))"
    unfolding term_add_def lx1_def [symmetric] Let_def if_not_P [OF False] n option.sel ..
  show ?thesis
  proof (cases "node_add mem n i")
    case None
    then have "\<not> mem 2" by (auto simp: node_add_def Let_def split: if_splits)
    then show ?thesis using None r add p1 by (auto simp:)
  next
    case (Some n')
    note a = node_add_ok [OF nok(1) Some]
    define lx2 where "lx2 = lx1\<lparr>lx_buckets := table_update lt_term LEX_NBUCKETS (lx_buckets lx1) w (\<lambda>_. n')\<rparr>"
    note u = terms_update [of lx1 w n "\<lambda>_. n'", OF e(1) n a(1) _ lx2_def]
    have u2: "term_find lx2 v = (if v = w then Some n' else term_find lx1 v)" "terms_ok lx2" for v using u a(2) nok(2) by simp_all
    have "term_tf lx2 v j = occurs ((T(i := T i @ [w])) j) v" for v j
    proof -
      have "term_tf lx2 v j = (if v = w then node_tf n' j else term_tf lx v j)"
        using tf by (simp add: term_tf_def u2 fun_eq_iff)
      then show ?thesis using a(4) ntf p by (auto simp: postings_def occurs_snoc)
    qed
    moreover have "lt_posts m \<noteq> []" if "term_find lx2 v = Some m" "v \<notin> E" for v m
      using that p1 a(3) by (auto simp: u2 postings_def split: if_splits)
    ultimately have "postings lx2 (T(i := T i @ [w])) E" using u2 by (simp add: postings_def)
    then show ?thesis using r add Some by (simp add: lx2_def)
  qed
qed

lemma term_remove_ok:
  assumes p: "postings lx T E"
  shows "postings (term_remove lx w i) (T(i := filter (\<lambda>v. v \<notin> {w}) (T i))) (E - {w})"
proof (cases "term_find lx w")
  case None
  then have "occurs (T i) w = None" using postings_tf [OF p, of w i] by (simp add: term_tf_def)
  then have "filter (\<lambda>v. v \<noteq> w) (T i) = T i" by (auto simp: occurs_def filter_id_conv split: if_splits)
  then show ?thesis using p None by (auto simp: term_remove_def postings_def)
next
  case (Some n)
  have ok: "terms_ok lx" and nok: "lex_node_ok n" "lt_term n = w" using p term_find_ok Some by (auto simp: postings_def)
  define pos where "pos = lex_post_lower_bound (lt_posts n) i"
  define ps where "ps = (if lex_post_at (lt_posts n) pos i then remove_at pos (lt_posts n) else lt_posts n)"
  define lx' where "lx' = term_remove lx w i"
  note d = node_remove_ok [OF nok(1) pos_def ps_def]
  have r: "lx' = (if length ps = 0
      then lx\<lparr>lx_buckets := table_unlink lt_term LEX_NBUCKETS (lx_buckets lx) w, lx_term_count := lx_term_count lx - 1\<rparr>
      else lx\<lparr>lx_buckets := table_update lt_term LEX_NBUCKETS (lx_buckets lx) w (\<lambda>n. n\<lparr>lt_posts := ps\<rparr>)\<rparr>)"
    unfolding lx'_def term_remove_def Some option.case Let_def pos_def [symmetric] ps_def [symmetric] ..
  have f: "terms_ok lx' \<and> (\<forall>v. term_find lx' v = (if v = w then if ps = [] then None else Some (n\<lparr>lt_posts := ps\<rparr>) else term_find lx v))"
  proof (cases "ps = []")
    case True
    then show ?thesis using r terms_unlink [OF ok Some, of lx'] by simp
  next
    case False
    then show ?thesis using r terms_update [of lx w n "\<lambda>n. n\<lparr>lt_posts := ps\<rparr>" lx', OF ok Some d(1)] by simp
  qed
  have "term_tf lx' w = (node_tf n)(i := None)"
    using f d(2) node_tf_empty [of "n\<lparr>lt_posts := ps\<rparr>"] by (auto simp: term_tf_def)
  moreover have "node_tf n j = occurs (T j) w" for j using postings_tf [OF p, of w j] Some by (simp add: term_tf_def)
  ultimately have "term_tf lx' v j = occurs ((T(i := filter (\<lambda>v. v \<notin> {w}) (T i))) j) v" for v j
    using f p by (cases "v = w") (auto simp: term_tf_def occurs_filter [of "{w}", simplified] postings_def)
  then show ?thesis using f p by (auto simp: postings_def lx'_def [symmetric])
qed

lemma postings_frame:
  "postings (lx\<lparr>lx_docs := d\<rparr>) T E = postings lx T E" "postings (lx\<lparr>lx_doc_live := n\<rparr>) T E = postings lx T E"
  "postings (lx\<lparr>lx_doc_used := n\<rparr>) T E = postings lx T E" "postings (lx\<lparr>lx_total_len := l\<rparr>) T E = postings lx T E"
  by (simp_all add: postings_def terms_ok_def term_tf_def term_find_def)

lemma unindex_ok:
  "postings lx T E \<Longrightarrow> postings (fold (\<lambda>w lx. term_remove lx w i) ws lx) (T(i := filter (\<lambda>v. v \<notin> set ws) (T i))) (E - set ws)"
proof (induction ws arbitrary: lx T E)
  case (Cons w ws)
  have eq: "(T(i := filter (\<lambda>v. v \<notin> {w}) (T i)))(i := filter (\<lambda>v. v \<notin> set ws) ((T(i := filter (\<lambda>v. v \<notin> {w}) (T i))) i)) =
      T(i := filter (\<lambda>v. v \<notin> set (w # ws)) (T i))" by (auto intro!: filter_cong)
  have e: "E - {w} - set ws = E - set (w # ws)" by auto
  from Cons.IH [OF term_remove_ok [OF Cons.prems, of w i]] show ?case
    unfolding eq e by (simp only: fold_simps)
qed (simp add: fun_upd_idem)

lemma index_terms_ok:
  assumes "postings lx T {}" and "index_terms mems k lx i ws (sat32 m) = (lx', res)"
  shows "(case res of
      None \<Rightarrow> (\<exists>us v. set us \<subseteq> set ws \<and> v \<in> set ws \<and> postings lx' (T(i := T i @ us)) {v}) \<and> (\<exists>j. mems j \<noteq> mem_ok)
    | Some dl \<Rightarrow> dl = sat32 (m + length ws) \<and> postings lx' (T(i := T i @ ws)) {})"
  using assms
proof (induction ws arbitrary: k lx T m)
  case Nil
  then show ?case by (auto simp: fun_upd_idem)
next
  case (Cons w ws)
  obtain rv lx1 where a: "term_add (mems k) lx w i = (rv, lx1)" by fastforce
  from term_add_ok [OF Cons.prems(1) a] show ?case
  proof (elim disjE conjE)
    assume "rv = -1" "postings lx1 T {w}" "mems k \<noteq> mem_ok"
    then show ?thesis using Cons.prems(2) a
      by (auto intro!: exI [of _ "[]"] exI [of _ w] exI [of _ k] simp: fun_upd_idem)
  next
    assume rv: "rv = 0" "postings lx1 (T(i := T i @ [w])) {}"
    then have n: "index_terms mems (Suc k) lx1 i ws (sat32 (Suc m)) = (lx', res)"
      using Cons.prems(2) a by (simp flip: sat_inc_sat32 add: sat_inc_def)
    from Cons.IH [OF rv(2) n] show ?thesis
    proof (cases res)
      case None
      with Cons.IH [OF rv(2) n] obtain us v where "set us \<subseteq> set ws" "v \<in> set ws" "postings lx' (T(i := T i @ w # us)) {v}" "\<exists>j. mems j \<noteq> mem_ok"
        by auto
      then show ?thesis using None by (auto intro!: exI [of _ "w # us"] exI [of _ v])
    qed simp
  qed
qed

section \<open>The documents\<close>

definition doc_lens :: "LexicalIndex \<Rightarrow> u64 \<rightharpoonup> u32" where
  "doc_lens lx i = map_option ld_len (slot_map ld_state ld_id (lx_docs lx) i)"

definition docs_ok :: "LexicalIndex \<Rightarrow> (u64 \<rightharpoonup> u32) \<Rightarrow> bool" where
  "docs_ok lx L \<longleftrightarrow> counted_ok ld_state ld_id mix64 64 (lx_docs lx) (lx_doc_live lx) (lx_doc_used lx) \<and> doc_lens lx = L \<and>
     lx_total_len lx = (\<Sum>i \<in> dom L. ucast (the (L i)))"

interpretation lds: probe_table ld_state ld_id mix64 "\<lambda>k d. ld_id d = k" "\<lambda>_ t. ld_state t \<noteq> SLOT_LIVE" blank_doc
  by unfold_locales (auto simp: blank_doc_def)

lemma doc_slot_ok:
  assumes "docs_ok lx L"
  shows "doc_slot lx i = Some j \<Longrightarrow>
      j < length (lx_docs lx) \<and> ld_state (lx_docs lx ! j) = SLOT_LIVE \<and> ld_id (lx_docs lx ! j) = i \<and>
      L i = Some (ld_len (lx_docs lx ! j))"
    and "doc_slot lx i = None \<longleftrightarrow> L i = None"
proof -
  have L: "L i = map_option ld_len (slot_map ld_state ld_id (lx_docs lx) i)" using assms by (auto simp: docs_ok_def doc_lens_def)
  show "doc_slot lx i = None \<longleftrightarrow> L i = None"
    using lds.counted_find(2) [of 64 "lx_docs lx" "lx_doc_live lx" "lx_doc_used lx" i] assms
    by (cases "lx_docs lx = []") (simp_all add: doc_slot_def Let_def docs_ok_def L slot_map_def)
  assume "doc_slot lx i = Some j"
  then show "j < length (lx_docs lx) \<and> ld_state (lx_docs lx ! j) = SLOT_LIVE \<and> ld_id (lx_docs lx ! j) = i \<and>
      L i = Some (ld_len (lx_docs lx ! j))"
    using lds.counted_find(1) [of 64 "lx_docs lx" "lx_doc_live lx" "lx_doc_used lx" i j] assms
    by (cases "lx_docs lx = []") (simp_all add: doc_slot_def Let_def docs_ok_def L)
qed

lemma total_len_upd:
  fixes L :: "u64 \<rightharpoonup> u32"
  shows "L i = None \<Longrightarrow> (\<Sum>j \<in> dom (L(i \<mapsto> l)). ucast (the ((L(i \<mapsto> l)) j)) :: u64) = (\<Sum>j \<in> dom L. ucast (the (L j))) + ucast l"
    and "L i = Some l \<Longrightarrow> (\<Sum>j \<in> dom (L(i := None)). ucast (the ((L(i := None)) j)) :: u64) = (\<Sum>j \<in> dom L. ucast (the (L j))) - ucast l"
proof -
  assume "L i = None"
  then have "i \<notin> dom L" by auto
  moreover have "dom (L(i \<mapsto> l)) = insert i (dom L)" by auto
  moreover have "(\<Sum>j \<in> dom L. ucast (the ((L(i \<mapsto> l)) j)) :: u64) = (\<Sum>j \<in> dom L. ucast (the (L j)))"
    using \<open>i \<notin> dom L\<close> by (intro sum.cong) auto
  ultimately show "(\<Sum>j \<in> dom (L(i \<mapsto> l)). ucast (the ((L(i \<mapsto> l)) j)) :: u64) = (\<Sum>j \<in> dom L. ucast (the (L j))) + ucast l"
    by (simp add: add.commute)
next
  assume a: "L i = Some l"
  then have "i \<in> dom L" by auto
  then have "(\<Sum>j \<in> dom L. ucast (the (L j)) :: u64) = ucast l + (\<Sum>j \<in> dom L - {i}. ucast (the (L j)))"
    using a by (subst sum.remove [of _ i]) auto
  moreover have "(\<Sum>j \<in> dom (L(i := None)). ucast (the ((L(i := None)) j)) :: u64) = (\<Sum>j \<in> dom L - {i}. ucast (the (L j)))"
    by (intro sum.cong) auto
  ultimately show "(\<Sum>j \<in> dom (L(i := None)). ucast (the ((L(i := None)) j)) :: u64) = (\<Sum>j \<in> dom L. ucast (the (L j))) - ucast l" by simp
qed

lemma doc_grow_ok:
  assumes "docs_ok lx L" and "mem 0"
  shows "\<exists>lx'. doc_grow mem lx = Some (Some lx') \<and> docs_ok lx' L \<and> lx_docs lx' \<noteq> [] \<and>
    4 * (lx_doc_used lx' + 1) < 3 * length (lx_docs lx') \<and> (\<forall>T E. postings lx' T E = postings lx T E)"
proof -
  have "counted_ok ld_state ld_id mix64 64 (lx_docs lx) (lx_doc_live lx) (lx_doc_used lx)" using assms(1) by (simp only: docs_ok_def)
  from lds.counted_grow [OF this, of 6] obtain nt
    where nt: "rehash_into ld_state (\<lambda>_ t. ld_state t \<noteq> SLOT_LIVE) (\<lambda>d. mix64 (ld_id d)) (lx_docs lx)
      (replicate (grown 64 (lx_docs lx)) blank_doc) = Some nt"
    "counted_ok ld_state ld_id mix64 64 nt (lx_doc_live lx) (lx_doc_live lx)" "nt \<noteq> []"
    "slot_map ld_state ld_id nt = slot_map ld_state ld_id (lx_docs lx)" "4 * (lx_doc_live lx + 1) < 3 * length nt"
    by (simp, blast)
  have "doc_grow mem lx = Some (Some (lx\<lparr>lx_docs := nt, lx_doc_used := lx_doc_live lx\<rparr>))"
    using nt(1) assms(2) unfolding grown_def doc_grow_def Let_def by simp
  with nt(2-5) assms(1) show ?thesis by (simp add: docs_ok_def doc_lens_def fun_eq_iff postings_frame)
qed

lemma doc_claim_ok:
  assumes ok: "docs_ok lx L" and "lx_docs lx \<noteq> []" and "4 * (lx_doc_used lx + 1) < 3 * length (lx_docs lx)" and new: "L i = None"
  shows "\<exists>lx'. doc_claim lx i len = (0, lx') \<and> docs_ok lx' (L(i \<mapsto> len)) \<and> (\<forall>T E. postings lx' T E = postings lx T E)"
proof -
  let ?d = "\<lparr>ld_id = i, ld_len = len, ld_state = SLOT_LIVE\<rparr>"
  have c: "counted_ok ld_state ld_id mix64 64 (lx_docs lx) (lx_doc_live lx) (lx_doc_used lx)" and L: "doc_lens lx = L"
    and t: "lx_total_len lx = (\<Sum>i \<in> dom L. ucast (the (L i)))" using ok by (simp_all add: docs_ok_def)
  show ?thesis
  proof (cases rule: lds.counted_claim [OF c assms(2,3), of ?d i, case_names _ _ old new])
    case (old j)
    then show ?thesis using new L by (auto simp: doc_lens_def)
  next
    case (new j)
    then show ?thesis using L t total_len_upd(1) [of L i len, OF assms(4)]
      by (auto simp: doc_claim_def Let_def docs_ok_def doc_lens_def fun_eq_iff postings_frame)
  qed simp_all
qed

lemma doc_put_ok:
  assumes "docs_ok lx L" and "L i = None"
  shows "\<exists>rv lx'. doc_put mem lx i len = Some (rv, lx') \<and> (\<forall>T E. postings lx' T E = postings lx T E) \<and>
    (rv = 0 \<and> docs_ok lx' (L(i \<mapsto> len)) \<or> rv = -1 \<and> docs_ok lx' L \<and> mem \<noteq> mem_ok)"
proof (cases "length (lx_docs lx) = 0 \<or> length (lx_docs lx) * 3 \<le> (lx_doc_used lx + 1) * 4")
  case False
  then have "lx_docs lx \<noteq> []" "4 * (lx_doc_used lx + 1) < 3 * length (lx_docs lx)" by auto
  from doc_claim_ok [OF assms(1) this assms(2), of len] obtain lx' where "doc_claim lx i len = (0, lx')" "docs_ok lx' (L(i \<mapsto> len))"
    "\<forall>T E. postings lx' T E = postings lx T E" by blast
  then show ?thesis unfolding doc_put_def if_not_P [OF False] by simp
next
  case grow: True
  show ?thesis
  proof (cases "mem 0")
    case True
    from doc_grow_ok [OF assms(1), of mem, OF True] obtain lx1 where l1: "doc_grow mem lx = Some (Some lx1)" "docs_ok lx1 L" "lx_docs lx1 \<noteq> []"
      "4 * (lx_doc_used lx1 + 1) < 3 * length (lx_docs lx1)" "\<forall>T E. postings lx1 T E = postings lx T E" by blast
    from doc_claim_ok [OF l1(2-4) assms(2), of len] obtain lx' where "doc_claim lx1 i len = (0, lx')" "docs_ok lx' (L(i \<mapsto> len))"
      "\<forall>T E. postings lx' T E = postings lx1 T E" by blast
    then show ?thesis unfolding doc_put_def if_P [OF grow] using l1 by simp
  next
    case False
    then have "mem \<noteq> mem_ok" by auto
    then show ?thesis unfolding doc_put_def if_P [OF grow] using False assms by (simp add: doc_grow_def)
  qed
qed

lemma doc_del_ok:
  assumes ok: "docs_ok lx L"
  shows "docs_ok (doc_del lx i) (L(i := None))" and "postings (doc_del lx i) T E = postings lx T E"
proof -
  show "docs_ok (doc_del lx i) (L(i := None))"
  proof (cases "doc_slot lx i")
    case None
    then show ?thesis using ok doc_slot_ok(2) [OF ok, of i] by (simp add: doc_del_def fun_upd_idem)
  next
    case (Some j)
    note d = doc_slot_ok(1) [OF ok Some]
    have c: "counted_ok ld_state ld_id mix64 64 (lx_docs lx) (lx_doc_live lx) (lx_doc_used lx)" and L: "doc_lens lx = L"
      and t: "lx_total_len lx = (\<Sum>i \<in> dom L. ucast (the (L i)))" using ok by (simp_all add: docs_ok_def)
    from lds.counted_kill [OF c, of j "(lx_docs lx ! j)\<lparr>ld_state := SLOT_DEAD\<rparr>"] d t L Some total_len_upd(2) [of L i "ld_len (lx_docs lx ! j)"]
    show ?thesis by (auto simp: doc_del_def Let_def docs_ok_def doc_lens_def fun_eq_iff)
  qed
  show "postings (doc_del lx i) T E = postings lx T E"
    by (simp add: doc_del_def Let_def postings_frame split: option.split)
qed

lemma docs_frame:
  "docs_ok (lx\<lparr>lx_buckets := b\<rparr>) L = docs_ok lx L" "docs_ok (lx\<lparr>lx_term_count := n\<rparr>) L = docs_ok lx L"
  by (simp_all add: docs_ok_def doc_lens_def [abs_def])

lemma docs_term_remove [simp]: "docs_ok (term_remove lx w i) L = docs_ok lx L"
  by (simp add: term_remove_def Let_def docs_frame split: option.split)

lemma docs_unindex [simp]: "docs_ok (unindex_text lx i text) L = docs_ok lx L"
proof -
  have "docs_ok (fold (\<lambda>w lx. term_remove lx w i) ws lx) L = docs_ok lx L" for ws
    by (induction ws arbitrary: lx) simp_all
  then show ?thesis by (simp add: unindex_text_def)
qed

lemma docs_term_add: "term_add mem lx w i = (rv, lx') \<Longrightarrow> docs_ok lx' L = docs_ok lx L"
  by (auto simp: term_add_def Let_def docs_frame split: if_splits option.splits)

lemma docs_index_terms: "index_terms mems k lx i ws dl = (lx', res) \<Longrightarrow> docs_ok lx' L = docs_ok lx L"
proof (induction ws arbitrary: k lx dl)
  case (Cons w ws)
  obtain rv lx1 where a: "term_add (mems k) lx w i = (rv, lx1)" by fastforce
  show ?case using Cons.prems Cons.IH [of "Suc k" lx1] a docs_term_add [OF a, of L] by (auto split: if_splits)
qed simp

section \<open>The index as a map from documents to terms\<close>

text \<open>A document without a term is not one: \<open>D i\<close> is empty for the ids that are not indexed.\<close>

definition doc_len_map :: "(u64 \<Rightarrow> cstr list) \<Rightarrow> u64 \<rightharpoonup> u32" where
  "doc_len_map D i = (if D i = [] then None else Some (sat32 (length (D i))))"

definition lex_rep :: "LexicalIndex \<Rightarrow> (u64 \<Rightarrow> cstr list) \<Rightarrow> bool" where
  "lex_rep lx D \<longleftrightarrow> postings lx D {} \<and> docs_ok lx (doc_len_map D)"

lemma doc_len_map_upd: "doc_len_map (D(i := ws)) = (doc_len_map D)(i := (if ws = [] then None else Some (sat32 (length ws))))"
  by (auto simp: doc_len_map_def fun_eq_iff)

lemma lex_rep_slot: "lex_rep lx D \<Longrightarrow> doc_slot lx i = None \<longleftrightarrow> D i = []"
  using doc_slot_ok(2) [of lx "doc_len_map D" i] by (simp add: lex_rep_def doc_len_map_def split: if_splits)

lemma lex_rep_create: "lexical_index_create mem = Some lx \<Longrightarrow> lex_rep lx (\<lambda>_. [])"
  by (auto simp: lexical_index_create_def lex_rep_def postings_def terms_ok_def term_find_def term_tf_def occurs_def docs_ok_def
      doc_lens_def slot_map_def counted_ok_def doc_len_map_def dom_def fun_eq_iff split: if_splits)

lemma rollback:
  assumes "postings lx (D(i := us)) E" and "E \<subseteq> set (text_tokens text)" and "set us \<subseteq> set (text_tokens text)" and "D i = []"
  shows "postings (unindex_text lx i text) D {}"
proof -
  have e: "E - set (text_tokens text) = {}" using assms(2) by blast
  have "filter (\<lambda>v. v \<notin> set (text_tokens text)) us = []" using assms(3) by (auto simp: filter_empty_conv)
  then have "(D(i := us))(i := filter (\<lambda>v. v \<notin> set (text_tokens text)) ((D(i := us)) i)) = D" using assms(4) by auto
  with unindex_ok [OF assms(1), of i "text_tokens text"] show ?thesis unfolding e by (simp add: unindex_text_def)
qed

lemma lexical_add_ok:
  assumes rep: "lex_rep lx D" and new: "D i = []"
  shows "\<exists>rv lx'. lexical_index_add mems mem (Some lx) i text = Some (rv, Some lx') \<and>
    (rv = 0 \<and> lex_rep lx' (D(i := text_tokens text)) \<or>
     rv = -1 \<and> lex_rep lx' D \<and> \<not> (mem = mem_ok \<and> (\<forall>k. mems k = mem_ok)))"
proof -
  have p: "postings lx D {}" and d: "docs_ok lx (doc_len_map D)" using rep by (simp_all add: lex_rep_def)
  have slot: "doc_slot lx i = None" using lex_rep_slot [OF rep] new by simp
  obtain lx1 res where t: "index_terms mems 0 lx i (text_tokens text) (sat32 0) = (lx1, res)" by fastforce
  have d1: "docs_ok lx1 (doc_len_map D)" using docs_index_terms [OF t] d by simp
  note it = index_terms_ok [OF p t]
  show ?thesis
  proof (cases res)
    case None
    with it new obtain us v where us: "set us \<subseteq> set (text_tokens text)" "{v} \<subseteq> set (text_tokens text)" "postings lx1 (D(i := us)) {v}"
      "\<exists>j. mems j \<noteq> mem_ok" by auto
    from rollback [OF us(3,2,1) new] d1 us(4) None slot t show ?thesis by (auto simp: lexical_index_add_def lex_rep_def)
  next
    case (Some dl)
    with it new have dl: "dl = sat32 (length (text_tokens text))" and p1: "postings lx1 (D(i := text_tokens text)) {}" by simp_all
    show ?thesis
    proof (cases "text_tokens text = []")
      case True
      then show ?thesis using Some dl p1 d1 slot t new by (simp add: lexical_index_add_def lex_rep_def doc_len_map_upd fun_upd_idem)
    next
      case False
      have "doc_len_map D i = None" using new by (simp add: doc_len_map_def)
      from doc_put_ok [OF d1 this, of mem dl] obtain rv lx2 where put: "doc_put mem lx1 i dl = Some (rv, lx2)"
        "\<forall>T E. postings lx2 T E = postings lx1 T E"
        "rv = 0 \<and> docs_ok lx2 ((doc_len_map D)(i \<mapsto> dl)) \<or> rv = -1 \<and> docs_ok lx2 (doc_len_map D) \<and> mem \<noteq> mem_ok" by blast
      have r: "lexical_index_add mems mem (Some lx) i text =
          Some (if rv \<noteq> 0 then (-1, Some (unindex_text lx2 i text)) else (0, Some lx2))"
        using Some dl slot t put(1) False by (simp add: lexical_index_add_def)
      have p2: "postings lx2 (D(i := text_tokens text)) {}" using p1 put(2) by blast
      from put(3) show ?thesis
      proof (elim disjE conjE)
        assume "rv = 0" "docs_ok lx2 ((doc_len_map D)(i \<mapsto> dl))"
        then show ?thesis using r p2 dl False by (simp add: lex_rep_def doc_len_map_upd)
      next
        assume "rv = -1" "docs_ok lx2 (doc_len_map D)" "mem \<noteq> mem_ok"
        then show ?thesis using r rollback [OF p2 _ _ new, of "text"] by (simp add: lex_rep_def)
      qed
    qed
  qed
qed

lemma lexical_remove_ok:
  assumes rep: "lex_rep lx D" and same: "D i = [] \<or> D i = text_tokens text"
  shows "\<exists>lx'. lexical_index_remove (Some lx) i text = Some lx' \<and> lex_rep lx' (D(i := []))"
proof (cases "D i = []")
  case True
  then show ?thesis using lex_rep_slot [OF rep, of i] rep by (simp add: lexical_index_remove_def fun_upd_idem)
next
  case False
  let ?lx = "unindex_text lx i text"
  have d: "docs_ok ?lx (doc_len_map D)" using rep by (simp add: lex_rep_def)
  have "filter (\<lambda>v. v \<notin> set (text_tokens text)) (D i) = []" using same False by (auto simp: filter_empty_conv)
  then have "postings ?lx (D(i := [])) {}"
    using unindex_ok [of lx D "{}" i "text_tokens text"] rep by (simp add: lex_rep_def unindex_text_def)
  moreover have "doc_slot lx i \<noteq> None" using lex_rep_slot [OF rep, of i] False by (simp del: not_None_eq)
  ultimately show ?thesis using doc_del_ok [OF d, of i]
    by (simp del: not_None_eq add: lexical_index_remove_def lex_rep_def doc_len_map_upd)
qed

lemma lexical_counts:
  assumes rep: "lex_rep lx D"
  shows "lexical_index_terms (Some lx) = card {w. \<exists>i. w \<in> set (D i)}" and "lexical_index_docs (Some lx) = card {i. D i \<noteq> []}"
proof -
  have p: "postings lx D {}" and d: "docs_ok lx (doc_len_map D)" using rep by (simp_all add: lex_rep_def)
  have "term_find lx w \<noteq> None \<longleftrightarrow> (\<exists>i. w \<in> set (D i))" for w
  proof -
    have "term_find lx w \<noteq> None \<longleftrightarrow> term_tf lx w \<noteq> Map.empty"
      using p node_tf_empty by (auto simp: term_tf_def postings_def split: option.splits)
    also have "\<dots> \<longleftrightarrow> (\<exists>i. w \<in> set (D i))" using postings_tf [OF p, of w] by (auto simp: occurs_def fun_eq_iff)
    finally show ?thesis .
  qed
  then show "lexical_index_terms (Some lx) = card {w. \<exists>i. w \<in> set (D i)}"
    using p by (simp add: lexical_index_terms_def postings_def terms_ok_def)
  have dm: "{i. D i \<noteq> []} = ld_id ` {s \<in> set (lx_docs lx). ld_state s = SLOT_LIVE}"
  proof -
    have "{i. D i \<noteq> []} = dom (doc_lens lx)" using d by (auto simp: docs_ok_def doc_len_map_def dom_def split: if_splits)
    then show ?thesis using dom_slot_map [of ld_state ld_id "lx_docs lx"] by (auto simp: doc_lens_def dom_def)
  qed
  show "lexical_index_docs (Some lx) = card {i. D i \<noteq> []}"
  proof (cases "lx_docs lx = []")
    case False
    then have "distinct (map ld_id (filter (\<lambda>s. ld_state s = SLOT_LIVE) (lx_docs lx)))"
      using d lds.ok_distinct_keys by (simp add: docs_ok_def counted_ok_def)
    from distinct_card [OF this] False d dm show ?thesis
      by (simp add: lexical_index_docs_def docs_ok_def counted_ok_def count_state_def)
  qed (use d dm in \<open>simp add: lexical_index_docs_def docs_ok_def counted_ok_def\<close>)
qed

text \<open>
  C14. The lexical index refines the map from record ids to the terms of their texts. Adding a text under an id that is not indexed
  either succeeds and sets the terms of that id, or reports an allocation failure, after which every half-made posting has been rolled
  back and the index stands for the same map as before; adding under an indexed id changes nothing. With enough memory it succeeds.
  Removing an id with the text it was indexed with takes it out. The two counters are the number of distinct terms and of documents.
\<close>

theorem lexical_index_refines:
  assumes "lex_rep lx D"
  shows "(if D i = [] then \<exists>rv lx'. lexical_index_add mems mem (Some lx) i doc = Some (rv, Some lx') \<and>
       (if rv = 0 then lex_rep lx' (D(i := text_tokens doc))
        else rv = -1 \<and> lex_rep lx' D \<and> \<not> (mem = mem_ok \<and> (\<forall>k. mems k = mem_ok)))
     else lexical_index_add mems mem (Some lx) i doc = Some (0, Some lx)) \<and>
    (D i = [] \<or> D i = text_tokens doc \<longrightarrow>
       (\<exists>lx'. lexical_index_remove (Some lx) i doc = Some lx' \<and> lex_rep lx' (D(i := [])))) \<and>
    lexical_index_terms (Some lx) = card {w. \<exists>i. w \<in> set (D i)} \<and> lexical_index_docs (Some lx) = card {i. D i \<noteq> []}"
proof (intro conjI impI)
  show "if D i = [] then \<exists>rv lx'. lexical_index_add mems mem (Some lx) i doc = Some (rv, Some lx') \<and>
       (if rv = 0 then lex_rep lx' (D(i := text_tokens doc))
        else rv = -1 \<and> lex_rep lx' D \<and> \<not> (mem = mem_ok \<and> (\<forall>k. mems k = mem_ok)))
     else lexical_index_add mems mem (Some lx) i doc = Some (0, Some lx)"
  proof (cases "D i = []")
    case True
    from lexical_add_ok [OF assms True, of mems mem doc] show ?thesis unfolding if_P [OF True]
      by (elim exE conjE disjE) (intro exI conjI; simp)+
  next
    case False
    then show ?thesis using lex_rep_slot [OF assms, of i] by (simp add: lexical_index_add_def)
  qed
qed (use lexical_remove_ok [OF assms] lexical_counts [OF assms] in simp_all)

theorem lexical_index_refines_witness:
  "\<exists>lx. lexical_index_create mem_ok = Some lx \<and> lexical_index_terms (Some lx) = 0 \<and>
     (\<exists>lx'. lexical_index_add (\<lambda>_. mem_ok) mem_ok (Some lx) 7 (Some (lit ''max'')) = Some (0, Some lx') \<and>
       lex_rep lx' ((\<lambda>_. [])(7 := text_tokens (Some (lit ''max'')))))"
proof -
  obtain lx where lx: "lexical_index_create mem_ok = Some lx" by (auto simp: lexical_index_create_def)
  note t = lexical_index_refines [OF lex_rep_create [OF lx], where i = 7 and mems = "\<lambda>_. mem_ok" and mem = mem_ok and doc = "Some (lit ''max'')"]
  then show ?thesis using lx by (auto split: if_splits)
qed

end
