(* ===== verification/Lexical_Search.thy ===== *)
theory Lexical_Search
  imports Lexical_Index "HOL-Library.Multiset"
begin

text \<open>
  The ranked search of \<^verbatim>\<open>src/src/storage/lexical_index.c\<close>. Floating point arithmetic, \<^verbatim>\<open>log\<close> and \<^verbatim>\<open>qsort\<close> are arguments
  of the definitions; the formulas over them are written out as in the source.

  Shown: on an index that stands for the map \<open>D\<close> from documents to terms, the search returns what scoring \<open>D\<close> itself gives; the
  accumulator table, its growth and the candidate array are only an implementation of the list of scored documents. The search ends,
  and every id it returns is an indexed document that has a term of the query.
\<close>

section \<open>Arithmetic\<close>

text \<open>\<open>fd_\<close> for \<^verbatim>\<open>double\<close>, \<open>ff_\<close> for \<^verbatim>\<open>float\<close>; \<open>fd_dec m e\<close> is the literal with the digits \<open>m\<close>, \<open>e\<close> of them after the point.\<close>

record ('d, 'f) LexFloat =
  fd_nat :: "nat \<Rightarrow> 'd"
  fd_dec :: "nat \<Rightarrow> nat \<Rightarrow> 'd"
  fd_add :: "'d \<Rightarrow> 'd \<Rightarrow> 'd"
  fd_sub :: "'d \<Rightarrow> 'd \<Rightarrow> 'd"
  fd_mul :: "'d \<Rightarrow> 'd \<Rightarrow> 'd"
  fd_div :: "'d \<Rightarrow> 'd \<Rightarrow> 'd"
  fd_log :: "'d \<Rightarrow> 'd"
  fd_le :: "'d \<Rightarrow> 'd \<Rightarrow> bool"
  fd_less :: "'d \<Rightarrow> 'd \<Rightarrow> bool"
  ff_of :: "'d \<Rightarrow> 'f"
  ff_add :: "'f \<Rightarrow> 'f \<Rightarrow> 'f"
  ff_less :: "'f \<Rightarrow> 'f \<Rightarrow> bool"

definition LEX_BM25_K1 :: "('d, 'f) LexFloat \<Rightarrow> 'd" where
  "LEX_BM25_K1 F = fd_dec F 12 1"

definition LEX_BM25_B :: "('d, 'f) LexFloat \<Rightarrow> 'd" where
  "LEX_BM25_B F = fd_dec F 75 2"

definition bm25_avgdl :: "('d, 'f) LexFloat \<Rightarrow> nat \<Rightarrow> u64 \<Rightarrow> 'd" where
  "bm25_avgdl F docs total_len =
     (let avgdl = (if total_len \<noteq> 0 then fd_div F (fd_nat F (unat total_len)) (fd_nat F docs) else fd_dec F 10 1)
      in if fd_le F avgdl (fd_dec F 0 1) then fd_dec F 10 1 else avgdl)"

definition bm25_idf :: "('d, 'f) LexFloat \<Rightarrow> nat \<Rightarrow> nat \<Rightarrow> 'd" where
  "bm25_idf F docs n =
     (let n_docs = fd_nat F docs; df = fd_nat F n; half = fd_dec F 5 1
      in fd_log F (fd_add F (fd_dec F 10 1) (fd_div F (fd_add F (fd_sub F n_docs df) half) (fd_add F df half))))"

definition bm25_contrib :: "('d, 'f) LexFloat \<Rightarrow> 'd \<Rightarrow> 'd \<Rightarrow> u32 \<Rightarrow> u32 \<Rightarrow> 'd" where
  "bm25_contrib F avgdl idf tf0 len =
     (let tf = fd_nat F (unat tf0); one = fd_dec F 10 1;
          norm = fd_add F tf (fd_mul F (LEX_BM25_K1 F)
                   (fd_add F (fd_sub F one (LEX_BM25_B F)) (fd_div F (fd_mul F (LEX_BM25_B F) (fd_nat F (unat len))) avgdl)))
      in fd_mul F idf (fd_div F (fd_mul F tf (fd_add F (LEX_BM25_K1 F) one)) (if fd_less F (fd_dec F 0 1) norm then norm else one)))"

section \<open>The accumulator\<close>

record 'f LexCand =
  lc_id :: u64
  lc_score :: 'f

record LexAcc =
  la_id :: u64
  la_idx :: u32
  la_used :: bool

definition blank_acc :: LexAcc where
  "blank_acc = \<lparr>la_id = 0, la_idx = 0, la_used = False\<rparr>"

text \<open>\<open>None\<close> is a walk that would not end.\<close>

definition acc_find :: "LexAcc list \<Rightarrow> u64 \<Rightarrow> nat option" where
  "acc_find acc i = probe_until (\<lambda>a. \<not> (la_used a \<and> la_id a \<noteq> i)) acc (unat (mix64 i) AND (length acc - 1))"

fun acc_fill :: "nat \<Rightarrow> 'f LexCand list \<Rightarrow> LexAcc list \<Rightarrow> LexAcc list option" where
  "acc_fill i [] na = Some na"
| "acc_fill i (c # cs) na =
     (case acc_find na (lc_id c) of
        None \<Rightarrow> None
      | Some s \<Rightarrow> acc_fill (i + 1) cs (na[s := \<lparr>la_id = lc_id c, la_idx = of_nat i, la_used = True\<rparr>]))"

text \<open>The inner \<open>None\<close> is the failed allocation.\<close>

definition acc_grow :: "bool \<Rightarrow> LexAcc list \<Rightarrow> 'f LexCand list \<Rightarrow> LexAcc list option option" where
  "acc_grow got acc cands =
     (if \<not> got then Some None else map_option Some (acc_fill 0 cands (replicate (length acc * 2) blank_acc)))"

definition cmp_cand_desc :: "('d, 'f) LexFloat \<Rightarrow> 'f LexCand \<Rightarrow> 'f LexCand \<Rightarrow> int" where
  "cmp_cand_desc F x y =
     (if ff_less F (lc_score x) (lc_score y) then 1
      else if ff_less F (lc_score y) (lc_score x) then -1
      else if lc_id x < lc_id y then -1
      else if lc_id y < lc_id x then 1
      else 0)"

section \<open>The search\<close>

definition LEX_MAX_QUERY_TERMS :: nat where
  "LEX_MAX_QUERY_TERMS = 32"

definition LEX_MAX_CANDIDATES :: nat where
  "LEX_MAX_CANDIDATES = 65536"

fun query_terms :: "cstr list \<Rightarrow> cstr list \<Rightarrow> cstr list" where
  "query_terms terms [] = terms"
| "query_terms terms (w # ws) =
     (if length terms < LEX_MAX_QUERY_TERMS then query_terms (if w \<in> set terms then terms else terms @ [w]) ws else terms)"

text \<open>The nodes with postings; then the insertion sort, on the reversed prefix: the inner loop walks down from its end.\<close>

fun resolve_terms :: "LexicalIndex \<Rightarrow> cstr list \<Rightarrow> LexTerm list" where
  "resolve_terms lx [] = []"
| "resolve_terms lx (w # ws) =
     (case term_find lx w of
        Some n \<Rightarrow> if lt_posts n \<noteq> [] then n # resolve_terms lx ws else resolve_terms lx ws
      | None \<Rightarrow> resolve_terms lx ws)"

fun rarest_insert :: "LexTerm \<Rightarrow> LexTerm list \<Rightarrow> LexTerm list" where
  "rarest_insert v [] = [v]"
| "rarest_insert v (n # ns) = (if length (lt_posts v) < length (lt_posts n) then n # rarest_insert v ns else v # n # ns)"

definition rarest_first :: "LexTerm list \<Rightarrow> LexTerm list" where
  "rarest_first nodes = rev (fold rarest_insert nodes [])"

text \<open>
  The state of the scoring loops. \<open>mem (4 + 2 * n)\<close> is the outcome of the \<^verbatim>\<open>realloc\<close> of a full candidate array with \<open>n\<close>
  candidates, \<open>mem (5 + 2 * n)\<close> of the table growth after the candidate \<open>n\<close>. In the results the outer \<open>None\<close> is a loop that
  would not end, the inner one the failed allocation.
\<close>

record 'f LexScoring =
  sc_acc :: "LexAcc list"
  sc_cands :: "'f LexCand list"
  sc_ccap :: nat

definition new_cand :: "alloc \<Rightarrow> u64 \<Rightarrow> 'f \<Rightarrow> nat \<Rightarrow> 'f LexScoring \<Rightarrow> 'f LexScoring option option" where
  "new_cand mem i score s st =
     (let cn = length (sc_cands st); tight = (cn = sc_ccap st)
      in if tight \<and> \<not> mem (4 + 2 * cn) then Some None
         else let acc = (sc_acc st)[s := \<lparr>la_id = i, la_idx = of_nat cn, la_used = True\<rparr>];
                  cands = sc_cands st @ [\<lparr>lc_id = i, lc_score = score\<rparr>];
                  ccap = (if tight then sc_ccap st * 2 else sc_ccap st)
              in if length acc * 3 \<le> (length cands + 1) * 4
                 then map_option (map_option (\<lambda>na. \<lparr>sc_acc = na, sc_cands = cands, sc_ccap = ccap\<rparr>)) (acc_grow (mem (5 + 2 * cn)) acc cands)
                 else Some (Some \<lparr>sc_acc = acc, sc_cands = cands, sc_ccap = ccap\<rparr>))"

definition score_post ::
  "('d, 'f) LexFloat \<Rightarrow> alloc \<Rightarrow> LexicalIndex \<Rightarrow> 'd \<Rightarrow> 'd \<Rightarrow> LexPost \<Rightarrow> 'f LexScoring \<Rightarrow> 'f LexScoring option option" where
  "score_post F mem lx avgdl idf p st =
     (case doc_slot lx (lp_id p) of
        None \<Rightarrow> Some (Some st)
      | Some j \<Rightarrow>
          let contrib = ff_of F (bm25_contrib F avgdl idf (lp_tf p) (ld_len (lx_docs lx ! j)))
          in case acc_find (sc_acc st) (lp_id p) of
               None \<Rightarrow> None
             | Some s \<Rightarrow>
                 if la_used (sc_acc st ! s)
                 then let k = unat (la_idx (sc_acc st ! s)); c = sc_cands st ! k
                      in Some (Some (st\<lparr>sc_cands := (sc_cands st)[k := c\<lparr>lc_score := ff_add F (lc_score c) contrib\<rparr>]\<rparr>))
                 else if LEX_MAX_CANDIDATES \<le> length (sc_cands st) then Some (Some st)
                 else new_cand mem (lp_id p) contrib s st)"

fun score_posts ::
  "('d, 'f) LexFloat \<Rightarrow> alloc \<Rightarrow> LexicalIndex \<Rightarrow> 'd \<Rightarrow> 'd \<Rightarrow> LexPost list \<Rightarrow> 'f LexScoring \<Rightarrow> 'f LexScoring option option" where
  "score_posts F mem lx avgdl idf [] st = Some (Some st)"
| "score_posts F mem lx avgdl idf (p # ps) st =
     (case score_post F mem lx avgdl idf p st of
        None \<Rightarrow> None
      | Some None \<Rightarrow> Some None
      | Some (Some st1) \<Rightarrow> score_posts F mem lx avgdl idf ps st1)"

fun score_nodes ::
  "('d, 'f) LexFloat \<Rightarrow> alloc \<Rightarrow> LexicalIndex \<Rightarrow> 'd \<Rightarrow> LexTerm list \<Rightarrow> 'f LexScoring \<Rightarrow> 'f LexScoring option option" where
  "score_nodes F mem lx avgdl [] st = Some (Some st)"
| "score_nodes F mem lx avgdl (n # ns) st =
     (let idf = bm25_idf F (lx_doc_live lx) (length (lt_posts n))
      in if fd_le F idf (fd_dec F 0 1) then score_nodes F mem lx avgdl ns st
         else case score_posts F mem lx avgdl idf (lt_posts n) st of
                None \<Rightarrow> None
              | Some None \<Rightarrow> Some None
              | Some (Some st1) \<Rightarrow> score_nodes F mem lx avgdl ns st1)"

text \<open>The return value and the two arrays.\<close>

definition lexical_index_search ::
  "('d, 'f) LexFloat \<Rightarrow> (('f LexCand \<Rightarrow> 'f LexCand \<Rightarrow> int) \<Rightarrow> 'f LexCand list \<Rightarrow> 'f LexCand list) \<Rightarrow> alloc \<Rightarrow>
     LexicalIndex option \<Rightarrow> cstr option \<Rightarrow> nat \<Rightarrow> (int \<times> u64 list \<times> 'f list) option" where
  "lexical_index_search F qsort mem lxo query top_k =
     (case (lxo, query) of
        (Some lx, Some q) \<Rightarrow>
          if top_k = 0 \<or> lx_doc_live lx = 0 then Some (0, [], [])
          else let terms = query_terms [] (text_tokens (Some q)); nodes = resolve_terms lx terms
               in if nodes = [] then Some (0, [], [])
                  else if \<not> mem 0 \<or> \<not> mem 1 then Some (-1, [], [])
                  else (case score_nodes F mem lx (bm25_avgdl F (lx_doc_live lx) (lx_total_len lx)) (rarest_first nodes)
                               \<lparr>sc_acc = replicate 256 blank_acc, sc_cands = [], sc_ccap = 64\<rparr> of
                          None \<Rightarrow> None
                        | Some None \<Rightarrow> Some (-1, [], [])
                        | Some (Some st) \<Rightarrow>
                            if sc_cands st = [] then Some (0, [], [])
                            else if \<not> mem 2 \<or> \<not> mem 3 then Some (-1, [], [])
                            else let best = take top_k (qsort (cmp_cand_desc F) (sc_cands st))
                                 in Some (0, map lc_id best, map lc_score best))
      | _ \<Rightarrow> Some (0, [], []))"

section \<open>The accumulator is the list of candidates\<close>

definition la_state :: "LexAcc \<Rightarrow> slot_state" where
  "la_state a = (if la_used a then SLOT_LIVE else SLOT_EMPTY)"

interpretation lac: probe_table la_state la_id mix64 "\<lambda>k a. la_id a = k" "\<lambda>_ t. \<not> la_used t" blank_acc
  by unfold_locales (auto simp: la_state_def blank_acc_def)

definition acc_rep :: "LexAcc list \<Rightarrow> 'f LexCand list \<Rightarrow> bool" where
  "acc_rep acc cs \<longleftrightarrow> acc \<noteq> [] \<and> sparse_ok la_state la_id mix64 acc (length cs) \<and> distinct (map lc_id cs) \<and>
     (\<forall>i. case slot_map la_state la_id acc i of
        None \<Rightarrow> i \<notin> lc_id ` set cs
      | Some a \<Rightarrow> unat (la_idx a) < length cs \<and> lc_id (cs ! unat (la_idx a)) = i)"

lemma acc_rep_new: "64 \<le> (2 :: nat) ^ m \<Longrightarrow> acc_rep (replicate (2 ^ m) blank_acc) []"
proof -
  assume m: "64 \<le> (2 :: nat) ^ m"
  have "(2 :: nat) ^ m \<noteq> 0" by simp
  then show ?thesis using m
    by (auto simp: acc_rep_def sparse_ok_def probe_ok_def count_state_def slot_map_def blank_acc_def la_state_def)
qed

lemma acc_find_ok:
  assumes "acc_rep acc cs"
  obtains (found) j where "acc_find acc i = Some j" "j < length acc" "la_used (acc ! j)" "unat (la_idx (acc ! j)) < length cs"
      "lc_id (cs ! unat (la_idx (acc ! j))) = i"
  | (free) j where "acc_find acc i = Some j" "j < length acc" "\<not> la_used (acc ! j)" "i \<notin> lc_id ` set cs"
      "slot_map la_state la_id acc i = None" "reach la_state acc (mix64 i) j"
proof -
  have s: "sparse_ok la_state la_id mix64 acc (length cs)" "acc \<noteq> []" using assms by (simp_all add: acc_rep_def)
  have c: "case slot_map la_state la_id acc i of None \<Rightarrow> i \<notin> lc_id ` set cs
      | Some a \<Rightarrow> unat (la_idx a) < length cs \<and> lc_id (cs ! unat (la_idx a)) = i" using assms by (simp add: acc_rep_def)
  have w: "\<not> (la_used a \<and> la_id a \<noteq> i) \<longleftrightarrow> la_state a \<noteq> SLOT_LIVE \<or> la_id a = i" for a by (simp add: la_state_def)
  show thesis
    by (rule lac.sparse_walk [where k = i, OF s w]) (use c found free in \<open>auto simp: acc_find_def la_state_def split: if_splits\<close>)
qed

lemma acc_place:
  assumes rep: "acc_rep acc cs" and room: "4 * length cs < 3 * length acc" and few: "length cs < 2 ^ 32"
    and j: "j < length acc" "\<not> la_used (acc ! j)" "lc_id c \<notin> lc_id ` set cs" "slot_map la_state la_id acc (lc_id c) = None"
      "reach la_state acc (mix64 (lc_id c)) j"
  shows "acc_rep (acc[j := \<lparr>la_id = lc_id c, la_idx = of_nat (length cs), la_used = True\<rparr>]) (cs @ [c])"
proof -
  let ?a = "\<lparr>la_id = lc_id c, la_idx = of_nat (length cs), la_used = True\<rparr>"
  have s: "sparse_ok la_state la_id mix64 acc (length cs)" using rep by (simp add: acc_rep_def)
  note p = lac.sparse_place [OF s room j(1), of ?a]
  have p1: "sparse_ok la_state la_id mix64 (acc[j := ?a]) (length cs + 1)" "slot_map la_state la_id (acc[j := ?a]) = (slot_map la_state la_id acc)(lc_id c \<mapsto> ?a)"
    using p j by (simp_all add: la_state_def)
  have u: "unat (of_nat (length cs) :: u32) = length cs" using few by (simp add: unat_of_nat)
  have old: "case slot_map la_state la_id acc i of None \<Rightarrow> i \<notin> lc_id ` set cs
      | Some a \<Rightarrow> unat (la_idx a) < length cs \<and> lc_id (cs ! unat (la_idx a)) = i" for i using rep by (simp add: acc_rep_def)
  have "case slot_map la_state la_id (acc[j := ?a]) i of None \<Rightarrow> i \<notin> lc_id ` set (cs @ [c])
      | Some a \<Rightarrow> unat (la_idx a) < length (cs @ [c]) \<and> lc_id ((cs @ [c]) ! unat (la_idx a)) = i" for i
    using old [of i] u by (auto simp: p1(2) nth_append split: option.splits)
  then show ?thesis using p1(1) rep j(3) by (simp add: acc_rep_def)
qed

lemma acc_fill_ok:
  assumes "acc_rep na cs" and "distinct (map lc_id (cs @ ds))" and "4 * length (cs @ ds) < 3 * length na" and "length (cs @ ds) < 2 ^ 32"
  shows "\<exists>na'. acc_fill (length cs) ds na = Some na' \<and> length na' = length na \<and> acc_rep na' (cs @ ds)"
  using assms
proof (induction ds arbitrary: cs na)
  case (Cons c ds)
  show ?case
  proof (cases rule: acc_find_ok [OF Cons.prems(1), of "lc_id c", case_names found free])
    case (found j)
    then show ?thesis using Cons.prems(2) by (metis (no_types, lifting) distinct_append distinct.simps(2) image_eqI in_set_conv_nth list.simps(9) map_append set_map Int_iff empty_iff list.set_intros(1))
  next
    case (free j)
    let ?na = "na[j := \<lparr>la_id = lc_id c, la_idx = of_nat (length cs), la_used = True\<rparr>]"
    have "acc_rep ?na (cs @ [c])" using acc_place [OF Cons.prems(1) _ _ free(2,3,4,5,6)] Cons.prems(3,4) by simp
    from Cons.IH [OF this] Cons.prems free(1) show ?thesis by simp
  qed
qed simp

text \<open>What one scored posting does to the list of candidates.\<close>

fun accumulate :: "('d, 'f) LexFloat \<Rightarrow> u64 \<times> 'f \<Rightarrow> 'f LexCand list \<Rightarrow> 'f LexCand list" where
  "accumulate F (i, x) cs =
     (if i \<in> lc_id ` set cs then map (\<lambda>c. if lc_id c = i then c\<lparr>lc_score := ff_add F (lc_score c) x\<rparr> else c) cs
      else if length cs < LEX_MAX_CANDIDATES then cs @ [\<lparr>lc_id = i, lc_score = x\<rparr>] else cs)"

definition scoring_ok :: "'f LexScoring \<Rightarrow> 'f LexCand list \<Rightarrow> bool" where
  "scoring_ok st cs \<longleftrightarrow> sc_cands st = cs \<and> acc_rep (sc_acc st) cs \<and> length cs \<le> LEX_MAX_CANDIDATES \<and>
     4 * (length cs + 1) < 3 * length (sc_acc st)"

definition scored :: "alloc \<Rightarrow> 'f LexScoring option option \<Rightarrow> 'f LexCand list \<Rightarrow> bool" where
  "scored mem r cs \<longleftrightarrow> r = Some None \<and> mem \<noteq> mem_ok \<or> (\<exists>st. r = Some (Some st) \<and> scoring_ok st cs)"

lemma map_update_at:
  assumes "distinct (map key xs)" and "k < length xs" and "key (xs ! k) = i"
  shows "xs[k := f (xs ! k)] = map (\<lambda>x. if key x = i then f x else x) xs"
proof (rule nth_equalityI)
  fix j
  assume "j < length (xs[k := f (xs ! k)])"
  then have j: "j < length xs" by simp
  have "key (xs ! j) = i \<longleftrightarrow> j = k" using assms j nth_eq_iff_index_eq [OF assms(1), of j k] by auto
  then show "xs[k := f (xs ! k)] ! j = map (\<lambda>x. if key x = i then f x else x) xs ! j" using j by (auto simp: nth_list_update)
qed simp

lemma acc_rep_same_ids:
  assumes "acc_rep acc cs" and "map lc_id cs' = map lc_id cs"
  shows "acc_rep acc cs'"
proof -
  have l: "length cs' = length cs" using assms(2) map_eq_imp_length_eq by blast
  have n: "lc_id (cs' ! k) = lc_id (cs ! k)" if "k < length cs" for k using assms(2) that l by (metis nth_map)
  have i: "lc_id ` set cs' = lc_id ` set cs" using assms(2) by (metis set_map)
  have "case slot_map la_state la_id acc i of None \<Rightarrow> i \<notin> lc_id ` set cs'
      | Some a \<Rightarrow> unat (la_idx a) < length cs' \<and> lc_id (cs' ! unat (la_idx a)) = i" for i
  proof -
    have "case slot_map la_state la_id acc i of None \<Rightarrow> i \<notin> lc_id ` set cs
      | Some a \<Rightarrow> unat (la_idx a) < length cs \<and> lc_id (cs ! unat (la_idx a)) = i" using assms(1) by (simp add: acc_rep_def)
    then show ?thesis unfolding i l using n by (cases "slot_map la_state la_id acc i") simp_all
  qed
  then show ?thesis using assms l by (simp add: acc_rep_def)
qed

lemma new_cand_ok:
  assumes st: "scoring_ok st cs" and few: "length cs < LEX_MAX_CANDIDATES"
    and j: "j < length (sc_acc st)" "\<not> la_used (sc_acc st ! j)" "i \<notin> lc_id ` set cs" "slot_map la_state la_id (sc_acc st) i = None"
      "reach la_state (sc_acc st) (mix64 i) j"
  shows "scored mem (new_cand mem i x j st) (cs @ [\<lparr>lc_id = i, lc_score = x\<rparr>])"
proof (cases "length cs = sc_ccap st \<and> \<not> mem (4 + 2 * length cs)")
  case True
  then have "mem \<noteq> mem_ok" by auto
  have c: "sc_cands st = cs" using st by (simp add: scoring_ok_def)
  have "new_cand mem i x j st = Some None" unfolding new_cand_def Let_def c if_P [OF True] ..
  with \<open>mem \<noteq> mem_ok\<close> show ?thesis by (simp add: scored_def)
next
  case False
  let ?c = "\<lparr>lc_id = i, lc_score = x\<rparr>"
  let ?acc = "(sc_acc st)[j := \<lparr>la_id = i, la_idx = of_nat (length cs), la_used = True\<rparr>]"
  define ccap where "ccap = (if length cs = sc_ccap st then sc_ccap st * 2 else sc_ccap st)"
  have cands: "sc_cands st = cs" and rep: "acc_rep (sc_acc st) cs" and room: "4 * (length cs + 1) < 3 * length (sc_acc st)"
    using st by (simp_all add: scoring_ok_def)
  have a: "acc_rep ?acc (cs @ [?c])"
    using acc_place [OF rep _ _ j(1,2), of ?c] j(3-5) room few by (simp add: LEX_MAX_CANDIDATES_def)
  have r: "new_cand mem i x j st =
      (if length ?acc * 3 \<le> (length (cs @ [?c]) + 1) * 4
       then map_option (map_option (\<lambda>na. \<lparr>sc_acc = na, sc_cands = cs @ [?c], sc_ccap = ccap\<rparr>)) (acc_grow (mem (5 + 2 * length cs)) ?acc (cs @ [?c]))
       else Some (Some \<lparr>sc_acc = ?acc, sc_cands = cs @ [?c], sc_ccap = ccap\<rparr>))"
    unfolding new_cand_def Let_def cands ccap_def if_not_P [OF False] ..
  show ?thesis
  proof (cases "length ?acc * 3 \<le> (length (cs @ [?c]) + 1) * 4")
    case False
    then have "scoring_ok \<lparr>sc_acc = ?acc, sc_cands = cs @ [?c], sc_ccap = ccap\<rparr> (cs @ [?c])"
      using a few by (simp add: scoring_ok_def)
    then show ?thesis unfolding r if_not_P [OF False] by (simp add: scored_def)
  next
    case grow: True
    show ?thesis
    proof (cases "mem (5 + 2 * length cs)")
      case False
      then have "mem \<noteq> mem_ok" by auto
      then show ?thesis unfolding r if_P [OF grow] using False by (simp add: acc_grow_def scored_def)
    next
      case True
      have "sparse_ok la_state la_id mix64 (sc_acc st) (length cs)" "sc_acc st \<noteq> []" using rep by (simp_all add: acc_rep_def)
      then obtain m where m: "length (sc_acc st) = 2 ^ m" and ge: "64 \<le> length (sc_acc st)"
        using probe_ok_pow2 [of la_state la_id mix64 "sc_acc st"] by (auto simp: sparse_ok_def)
      have "acc_rep (replicate (length ?acc * 2) blank_acc) []"
        using acc_rep_new [of "Suc m"] m ge by (simp add: mult.commute)
      from acc_fill_ok [OF this, of "cs @ [?c]"] obtain na where na: "acc_fill 0 (cs @ [?c]) (replicate (length ?acc * 2) blank_acc) = Some na"
        "length na = length ?acc * 2" "acc_rep na (cs @ [?c])"
        using a room few by (auto simp: acc_rep_def LEX_MAX_CANDIDATES_def)
      then have "scoring_ok \<lparr>sc_acc = na, sc_cands = cs @ [?c], sc_ccap = ccap\<rparr> (cs @ [?c])"
        using few room by (simp add: scoring_ok_def)
      then show ?thesis unfolding r if_P [OF grow] using True na(1) by (simp add: acc_grow_def scored_def)
    qed
  qed
qed

lemma score_post_ok:
  assumes st: "scoring_ok st cs" and d: "doc_slot lx (lp_id p) = Some j"
    and x: "x = ff_of F (bm25_contrib F avgdl idf (lp_tf p) (ld_len (lx_docs lx ! j)))"
  shows "scored mem (score_post F mem lx avgdl idf p st) (accumulate F (lp_id p, x) cs)"
proof -
  have cands: "sc_cands st = cs" and rep: "acc_rep (sc_acc st) cs" using st by (simp_all add: scoring_ok_def)
  show ?thesis
  proof (cases rule: acc_find_ok [OF rep, of "lp_id p", case_names found free])
    case (found s)
    define k where "k = unat (la_idx (sc_acc st ! s))"
    have k: "k < length cs" "lc_id (cs ! k) = lp_id p" using found by (simp_all add: k_def)
    let ?f = "\<lambda>c. c\<lparr>lc_score := ff_add F (lc_score c) x\<rparr>"
    have "distinct (map lc_id cs)" using rep by (simp add: acc_rep_def)
    from map_update_at [OF this k, of ?f] have u: "cs[k := ?f (cs ! k)] = map (\<lambda>c. if lc_id c = lp_id p then ?f c else c) cs" .
    have mem: "lp_id p \<in> lc_id ` set cs" using k by (metis image_eqI nth_mem)
    have "map lc_id (map (\<lambda>c. if lc_id c = lp_id p then ?f c else c) cs) = map lc_id cs" by simp
    from acc_rep_same_ids [OF rep this] have "scoring_ok (st\<lparr>sc_cands := cs[k := ?f (cs ! k)]\<rparr>) (accumulate F (lp_id p, x) cs)"
      using st mem u by (simp add: scoring_ok_def)
    moreover have "score_post F mem lx avgdl idf p st = Some (Some (st\<lparr>sc_cands := cs[k := ?f (cs ! k)]\<rparr>))"
      using found d by (simp add: score_post_def Let_def cands k_def x)
    ultimately show ?thesis by (simp add: scored_def del: accumulate.simps)
  next
    case (free s)
    show ?thesis
    proof (cases "length cs < LEX_MAX_CANDIDATES")
      case True
      have "score_post F mem lx avgdl idf p st = new_cand mem (lp_id p) x s st"
        using free d True by (simp add: score_post_def Let_def cands x)
      moreover have "accumulate F (lp_id p, x) cs = cs @ [\<lparr>lc_id = lp_id p, lc_score = x\<rparr>]" using True free(4) by simp
      ultimately show ?thesis using new_cand_ok [OF st True free(2-6), of mem x] by (simp only:)
    next
      case False
      then have "score_post F mem lx avgdl idf p st = Some (Some st)" using free d by (simp add: score_post_def Let_def cands)
      then show ?thesis using free(4) False st by (simp add: scored_def)
    qed
  qed
qed

section \<open>Scoring the corpus\<close>

text \<open>The same ranking, read off the map from documents to terms.\<close>

definition with_term :: "(u64 \<Rightarrow> cstr list) \<Rightarrow> cstr \<Rightarrow> u64 list" where
  "with_term D w = sorted_list_of_set {i. w \<in> set (D i)}"

definition corpus_terms :: "(u64 \<Rightarrow> cstr list) \<Rightarrow> cstr \<Rightarrow> cstr list" where
  "corpus_terms D q = sort_key (\<lambda>w. length (with_term D w)) (filter (\<lambda>w. with_term D w \<noteq> []) (query_terms [] (text_tokens (Some q))))"

definition corpus_avgdl :: "('d, 'f) LexFloat \<Rightarrow> (u64 \<Rightarrow> cstr list) \<Rightarrow> 'd" where
  "corpus_avgdl F D = bm25_avgdl F (card {i. D i \<noteq> []}) (\<Sum>i | D i \<noteq> []. ucast (sat32 (length (D i))))"

definition term_scores :: "('d, 'f) LexFloat \<Rightarrow> (u64 \<Rightarrow> cstr list) \<Rightarrow> cstr \<Rightarrow> (u64 \<times> 'f) list" where
  "term_scores F D w =
     (let idf = bm25_idf F (card {i. D i \<noteq> []}) (length (with_term D w))
      in if fd_le F idf (fd_dec F 0 1) then []
         else map (\<lambda>i. (i, ff_of F (bm25_contrib F (corpus_avgdl F D) idf (sat32 (count_list (D i) w)) (sat32 (length (D i))))))
                (with_term D w))"

definition corpus_scores :: "('d, 'f) LexFloat \<Rightarrow> (u64 \<Rightarrow> cstr list) \<Rightarrow> cstr \<Rightarrow> 'f LexCand list" where
  "corpus_scores F D q = fold (accumulate F) (concat (map (term_scores F D) (corpus_terms D q))) []"

lemma set_with_term [simp]: "set (with_term D w) = {i. w \<in> set (D i)}"
  by (simp add: with_term_def)

lemma term_find_corpus:
  assumes "lex_rep lx D"
  shows "term_find lx w = None \<longleftrightarrow> with_term D w = []"
    and "term_find lx w = Some n \<Longrightarrow> lt_posts n = map (\<lambda>i. \<lparr>lp_id = i, lp_tf = sat32 (count_list (D i) w)\<rparr>) (with_term D w)"
proof -
  have p: "postings lx D {}" using assms by (simp add: lex_rep_def)
  have posts: "lt_posts n = map (\<lambda>i. \<lparr>lp_id = i, lp_tf = sat32 (count_list (D i) w)\<rparr>) (with_term D w)" if "term_find lx w = Some n" for n
  proof -
    have ok: "sorted (map lp_id (lt_posts n))" "distinct (map lp_id (lt_posts n))"
      using term_find_ok that p by (auto simp: postings_def lex_node_ok_def)
    have tf: "node_tf n i = occurs (D i) w" for i using postings_tf [OF p, of w i] that by (simp add: term_tf_def)
    have "lp_tf x = sat32 (count_list (D (lp_id x)) w)" if "x \<in> set (lt_posts n)" for x
    proof -
      have "node_tf n (lp_id x) = Some (lp_tf x)" using that ok(2) by (auto simp: node_tf_def comp_def intro!: map_of_is_SomeI)
      then show ?thesis using tf [of "lp_id x"] by (simp add: occurs_def split: if_splits)
    qed
    then have "lt_posts n = map (\<lambda>i. \<lparr>lp_id = i, lp_tf = sat32 (count_list (D i) w)\<rparr>) (map lp_id (lt_posts n))"
      by (simp add: map_idI)
    moreover have "map lp_id (lt_posts n) = with_term D w"
    proof -
      have "i \<in> set (map lp_id (lt_posts n)) \<longleftrightarrow> w \<in> set (D i)" for i
      proof -
        have "i \<in> set (map lp_id (lt_posts n)) \<longleftrightarrow> node_tf n i \<noteq> None" by (simp add: node_tf_def map_of_eq_None_iff image_image del: not_None_eq)
        then show ?thesis using tf [of i] by (simp add: occurs_def)
      qed
      then have "set (map lp_id (lt_posts n)) = {i. w \<in> set (D i)}" by blast
      then show ?thesis using ok unfolding with_term_def by (metis sorted_list_of_set.idem_if_sorted_distinct)
    qed
    ultimately show ?thesis by simp
  qed
  then show "term_find lx w = Some n \<Longrightarrow> lt_posts n = map (\<lambda>i. \<lparr>lp_id = i, lp_tf = sat32 (count_list (D i) w)\<rparr>) (with_term D w)" .
  show "term_find lx w = None \<longleftrightarrow> with_term D w = []"
  proof (cases "term_find lx w")
    case None
    then have "occurs (D i) w = None" for i using postings_tf [OF p, of w i] by (simp add: term_tf_def)
    then have "w \<notin> set (D i)" for i by (metis occurs_def option.distinct(1))
    then show ?thesis using None by (simp add: with_term_def)
  next
    case (Some n)
    moreover have "lt_posts n \<noteq> []" using p Some by (auto simp: postings_def)
    ultimately show ?thesis using posts [OF Some] by auto
  qed
qed

definition corpus_posts :: "(u64 \<Rightarrow> cstr list) \<Rightarrow> cstr \<Rightarrow> LexPost list" where
  "corpus_posts D w = map (\<lambda>i. \<lparr>lp_id = i, lp_tf = sat32 (count_list (D i) w)\<rparr>) (with_term D w)"

lemma resolve_corpus:
  assumes "lex_rep lx D"
  shows "map lt_posts (resolve_terms lx ws) = map (corpus_posts D) (filter (\<lambda>w. with_term D w \<noteq> []) ws)"
proof (induction ws)
  case (Cons w ws)
  show ?case
  proof (cases "term_find lx w")
    case None
    then show ?thesis using Cons term_find_corpus(1) [OF assms, of w] by simp
  next
    case (Some n)
    then have "lt_posts n = corpus_posts D w" "with_term D w \<noteq> []"
      using term_find_corpus [OF assms, of w] by (simp_all add: corpus_posts_def)
    then show ?thesis using Cons Some by (simp add: corpus_posts_def)
  qed
qed simp

subsection \<open>The insertion sort\<close>

lemma rarest_insert_rev:
  "sorted (map (\<lambda>n. length (lt_posts n)) (rev ns)) \<Longrightarrow>
     mset (rarest_insert v ns) = add_mset v (mset ns) \<and> sorted (map (\<lambda>n. length (lt_posts n)) (rev (rarest_insert v ns))) \<and>
     (\<forall>k. filter (\<lambda>n. k = length (lt_posts n)) (rev (rarest_insert v ns)) = filter (\<lambda>n. k = length (lt_posts n)) (rev ns @ [v]))"
proof (induction ns)
  case (Cons n ns)
  show ?case
  proof (cases "length (lt_posts v) < length (lt_posts n)")
    case True
    have "sorted (map (\<lambda>n. length (lt_posts n)) (rev ns))" using Cons.prems by (simp add: sorted_append)
    note IH = Cons.IH [OF this]
    have "set (rarest_insert v ns) = insert v (set ns)" using IH by (metis set_mset_add_mset_insert set_mset_mset)
    then show ?thesis using True IH Cons.prems by (auto simp: sorted_append)
  next
    case False
    then show ?thesis using Cons.prems by (fastforce simp: sorted_append)
  qed
qed simp

lemma rarest_first_sorts: "rarest_first nodes = sort_key (\<lambda>n. length (lt_posts n)) nodes"
proof -
  have "mset (fold rarest_insert nodes ns) = mset ns + mset nodes \<and>
      sorted (map (\<lambda>n. length (lt_posts n)) (rev (fold rarest_insert nodes ns))) \<and>
      (\<forall>k. filter (\<lambda>n. k = length (lt_posts n)) (rev (fold rarest_insert nodes ns)) = filter (\<lambda>n. k = length (lt_posts n)) (rev ns @ nodes))"
    if "sorted (map (\<lambda>n. length (lt_posts n)) (rev ns))" for ns
    using that
  proof (induction nodes arbitrary: ns)
    case (Cons v nodes)
    note i = rarest_insert_rev [OF Cons.prems, of v]
    from Cons.IH [of "rarest_insert v ns"] i show ?case by simp
  qed simp
  from this [of "[]"] show ?thesis unfolding rarest_first_def
    by (intro properties_for_sort_key [symmetric]) simp_all
qed

lemma sort_key_map: "sort_key f (map g xs) = map g (sort_key (\<lambda>x. f (g x)) xs)"
proof -
  have "insort_key f (g x) (map g xs) = map g (insort_key (\<lambda>x. f (g x)) x xs)" for x xs by (induction xs) auto
  then show ?thesis by (induction xs) auto
qed

lemma rarest_corpus:
  assumes "lex_rep lx D"
  shows "map lt_posts (rarest_first (resolve_terms lx (query_terms [] (text_tokens (Some q))))) = map (corpus_posts D) (corpus_terms D q)"
proof -
  let ?ns = "resolve_terms lx (query_terms [] (text_tokens (Some q)))"
  have "map lt_posts (sort_key (\<lambda>n. length (lt_posts n)) ?ns) = sort_key length (map lt_posts ?ns)"
    using sort_key_map [of length lt_posts ?ns] by simp
  also have "\<dots> = map (corpus_posts D) (corpus_terms D q)"
    using sort_key_map [of length "corpus_posts D"] by (simp add: resolve_corpus [OF assms] corpus_terms_def corpus_posts_def)
  finally show ?thesis by (simp add: rarest_first_sorts)
qed

section \<open>The loops score the corpus\<close>

lemma doc_slot_corpus:
  assumes "lex_rep lx D" and "D i \<noteq> []"
  obtains j where "doc_slot lx i = Some j" "ld_len (lx_docs lx ! j) = sat32 (length (D i))"
proof -
  have d: "docs_ok lx (doc_len_map D)" using assms(1) by (simp add: lex_rep_def)
  obtain j where "doc_slot lx i = Some j" using lex_rep_slot [OF assms(1), of i] assms(2) by auto
  with doc_slot_ok(1) [OF d this] assms(2) that show thesis by (simp add: doc_len_map_def)
qed

lemma score_posts_ok:
  assumes rep: "lex_rep lx D" and "scoring_ok st cs" and "\<forall>i \<in> set is. D i \<noteq> []"
  shows "scored mem (score_posts F mem lx avgdl idf (map (\<lambda>i. \<lparr>lp_id = i, lp_tf = sat32 (count_list (D i) w)\<rparr>) is) st)
    (fold (accumulate F) (map (\<lambda>i. (i, ff_of F (bm25_contrib F avgdl idf (sat32 (count_list (D i) w)) (sat32 (length (D i)))))) is) cs)"
  using assms(2,3)
proof (induction "is" arbitrary: st cs)
  case (Cons i "is")
  obtain j where j: "doc_slot lx i = Some j" "ld_len (lx_docs lx ! j) = sat32 (length (D i))"
    using doc_slot_corpus [OF rep] Cons.prems(2) by auto
  let ?p = "\<lparr>lp_id = i, lp_tf = sat32 (count_list (D i) w)\<rparr>"
  let ?x = "ff_of F (bm25_contrib F avgdl idf (sat32 (count_list (D i) w)) (sat32 (length (D i))))"
  have "scored mem (score_post F mem lx avgdl idf ?p st) (accumulate F (i, ?x) cs)"
    using score_post_ok [OF Cons.prems(1), of lx ?p j ?x F avgdl idf mem] j by (simp del: accumulate.simps)
  then show ?case
  proof (unfold scored_def [of mem "score_post F mem lx avgdl idf ?p st"], elim disjE exE conjE)
    fix st1
    assume r: "score_post F mem lx avgdl idf ?p st = Some (Some st1)" and ok: "scoring_ok st1 (accumulate F (i, ?x) cs)"
    from Cons.IH [OF ok] Cons.prems(2) r show ?thesis by (simp del: accumulate.simps)
  qed (simp add: scored_def)
qed (simp add: scored_def)

lemma score_nodes_ok:
  assumes rep: "lex_rep lx D" and "scoring_ok st cs" and "map lt_posts ns = map (corpus_posts D) ws"
  shows "scored mem (score_nodes F mem lx (corpus_avgdl F D) ns st) (fold (accumulate F) (concat (map (term_scores F D) ws)) cs)"
  using assms(2,3)
proof (induction ns arbitrary: st cs ws)
  case (Cons n ns)
  then obtain w vs where ws: "ws = w # vs" and n: "lt_posts n = corpus_posts D w" and ns: "map lt_posts ns = map (corpus_posts D) vs" by auto
  have live: "lx_doc_live lx = card {i. D i \<noteq> []}" using lexical_counts(2) [OF rep] by (simp add: lexical_index_docs_def)
  define idf where "idf = bm25_idf F (lx_doc_live lx) (length (lt_posts n))"
  have idf: "idf = bm25_idf F (card {i. D i \<noteq> []}) (length (with_term D w))" by (simp add: idf_def live n corpus_posts_def)
  show ?case
  proof (cases "fd_le F idf (fd_dec F 0 1)")
    case True
    have "term_scores F D w = []" using True by (simp add: term_scores_def Let_def idf)
    moreover have "score_nodes F mem lx (corpus_avgdl F D) (n # ns) st = score_nodes F mem lx (corpus_avgdl F D) ns st"
      using True by (simp add: Let_def idf_def)
    ultimately show ?thesis using Cons.IH [OF Cons.prems(1) ns] ws by (simp del: score_nodes.simps)
  next
    case False
    have ts: "term_scores F D w = map (\<lambda>i. (i, ff_of F (bm25_contrib F (corpus_avgdl F D) idf (sat32 (count_list (D i) w)) (sat32 (length (D i))))))
        (with_term D w)" using False by (simp add: term_scores_def Let_def idf)
    have "\<forall>i \<in> set (with_term D w). D i \<noteq> []" by auto
    from score_posts_ok [OF rep Cons.prems(1) this, of mem F "corpus_avgdl F D" idf w]
    have "scored mem (score_posts F mem lx (corpus_avgdl F D) idf (lt_posts n) st) (fold (accumulate F) (term_scores F D w) cs)"
      unfolding ts n corpus_posts_def .
    then show ?thesis
    proof (unfold scored_def [of mem "score_posts F mem lx (corpus_avgdl F D) idf (lt_posts n) st"], elim disjE exE conjE)
      fix st1
      assume r: "score_posts F mem lx (corpus_avgdl F D) idf (lt_posts n) st = Some (Some st1)"
        and ok: "scoring_ok st1 (fold (accumulate F) (term_scores F D w) cs)"
      have "score_nodes F mem lx (corpus_avgdl F D) (n # ns) st = score_nodes F mem lx (corpus_avgdl F D) ns st1"
        using False r by (simp add: Let_def idf_def [symmetric])
      with Cons.IH [OF ok ns] show ?thesis using ws by (simp del: score_nodes.simps)
    next
      assume "score_posts F mem lx (corpus_avgdl F D) idf (lt_posts n) st = Some None" "mem \<noteq> mem_ok"
      then show ?thesis using False by (simp add: Let_def idf_def [symmetric] scored_def)
    qed
  qed
qed (simp add: scored_def)

lemma corpus_scores_ids:
  "distinct (map lc_id (corpus_scores F D q)) \<and> length (corpus_scores F D q) \<le> LEX_MAX_CANDIDATES \<and>
   lc_id ` set (corpus_scores F D q) \<subseteq> {i. \<exists>w \<in> set (text_tokens (Some q)). w \<in> set (D i)}"
proof -
  have step: "distinct (map lc_id (fold (accumulate F) es cs)) \<and> length (fold (accumulate F) es cs) \<le> LEX_MAX_CANDIDATES \<and>
      lc_id ` set (fold (accumulate F) es cs) \<subseteq> lc_id ` set cs \<union> fst ` set es"
    if "distinct (map lc_id cs)" "length cs \<le> LEX_MAX_CANDIDATES" for es cs
    using that
  proof (induction es arbitrary: cs)
    case (Cons e es)
    obtain i x where e: "e = (i, x)" by fastforce
    have "map lc_id (map (\<lambda>c. if lc_id c = i then c\<lparr>lc_score := ff_add F (lc_score c) x\<rparr> else c) cs) = map lc_id cs" by simp
    then have ids: "map lc_id (accumulate F (i, x) cs) =
        (if i \<in> lc_id ` set cs then map lc_id cs else if length cs < LEX_MAX_CANDIDATES then map lc_id cs @ [i] else map lc_id cs)"
      by (simp del: map_map)
    have "distinct (map lc_id (accumulate F (i, x) cs))" using ids Cons.prems(1) by auto
    moreover have "length (accumulate F (i, x) cs) \<le> LEX_MAX_CANDIDATES" using Cons.prems(2) by simp
    moreover have "lc_id ` set (accumulate F (i, x) cs) \<subseteq> insert i (lc_id ` set cs)"
      using arg_cong [OF ids, of set] by (auto simp del: accumulate.simps split: if_splits)
    moreover note IH = Cons.IH [OF calculation(1,2)]
    ultimately have "lc_id ` set (fold (accumulate F) es (accumulate F (i, x) cs)) \<subseteq> insert i (lc_id ` set cs) \<union> fst ` set es" by blast
    with IH show ?case unfolding e by (simp del: accumulate.simps)
  qed simp
  have qt: "set (query_terms ts ws) \<subseteq> set ts \<union> set ws" for ts ws
    by (induction ts ws rule: query_terms.induct) (auto split: if_splits)
  have "fst ` set (term_scores F D w) \<subseteq> {i. w \<in> set (D i)}" for w by (auto simp: term_scores_def Let_def)
  then have "fst ` set (concat (map (term_scores F D) (corpus_terms D q))) \<subseteq> {i. \<exists>w \<in> set (text_tokens (Some q)). w \<in> set (D i)}"
    using qt [of "[]" "text_tokens (Some q)"] by (fastforce simp: corpus_terms_def)
  with step [of "[]" "concat (map (term_scores F D) (corpus_terms D q))"] show ?thesis
    unfolding corpus_scores_def by (simp del: set_concat) blast
qed

text \<open>
  C15. On an index that stands for the map \<open>D\<close> from documents to terms the search ends, and unless an allocation fails it returns
  what scoring \<open>D\<close> gives: the best \<open>top_k\<close> of the documents that the BM25 contributions of the query terms, rarest term first,
  accumulate, ordered by the comparison of the source. Provided \<^verbatim>\<open>qsort\<close> permutes its array, the ids are distinct, at most
  \<open>top_k\<close> of them, and each is an indexed document with a term of the query; after a failed allocation the result is empty.
\<close>

theorem lexical_search_scores_corpus:
  assumes "lex_rep lx D" and "\<And>cmp xs. mset (qsort cmp xs) = mset xs"
  shows "\<exists>rv ids scores. lexical_index_search F qsort mem (Some lx) (Some q) top_k = Some (rv, ids, scores) \<and>
    (if rv = 0 then (let best = take top_k (qsort (cmp_cand_desc F) (corpus_scores F D q))
                     in ids = map lc_id best \<and> scores = map lc_score best)
     else rv = -1 \<and> ids = [] \<and> scores = [] \<and> mem \<noteq> mem_ok) \<and>
    distinct ids \<and> length ids \<le> top_k \<and> set ids \<subseteq> {i. \<exists>w \<in> set (text_tokens (Some q)). w \<in> set (D i)}"
proof -
  let ?cs = "corpus_scores F D q" and ?ns = "resolve_terms lx (query_terms [] (text_tokens (Some q)))"
  let ?best = "take top_k (qsort (cmp_cand_desc F) ?cs)"
  let ?goal = "\<lambda>r. r = (0, map lc_id ?best, map lc_score ?best) \<or> r = (-1, [], []) \<and> mem \<noteq> mem_ok"
  have live: "lx_doc_live lx = card {i. D i \<noteq> []}" using lexical_counts(2) [OF assms(1)] by (simp add: lexical_index_docs_def)
  have avg: "bm25_avgdl F (lx_doc_live lx) (lx_total_len lx) = corpus_avgdl F D"
  proof -
    have "dom (doc_len_map D) = {i. D i \<noteq> []}" by (auto simp: doc_len_map_def dom_def)
    then have "lx_total_len lx = (\<Sum>i | D i \<noteq> []. ucast (sat32 (length (D i))))"
      using assms(1) by (simp add: lex_rep_def docs_ok_def) (auto simp: doc_len_map_def intro!: sum.cong)
    then show ?thesis by (simp add: corpus_avgdl_def live)
  qed
  note rc = rarest_corpus [OF assms(1), of q]
  have q0: "?cs = [] \<Longrightarrow> ?best = []" using assms(2) [of "cmp_cand_desc F" "[]"] by simp
  have empty: "?ns = [] \<Longrightarrow> ?cs = []"
    using resolve_corpus [OF assms(1), of "query_terms [] (text_tokens (Some q))"] by (simp add: corpus_scores_def corpus_terms_def)
  have "\<exists>r. lexical_index_search F qsort mem (Some lx) (Some q) top_k = Some r \<and> ?goal r"
  proof (cases "top_k = 0 \<or> lx_doc_live lx = 0 \<or> ?ns = []")
    case True
    have "?cs = []" if "lx_doc_live lx = 0"
    proof -
      have "D i = []" for i using that live by simp
      then show ?thesis by (simp add: corpus_scores_def corpus_terms_def with_term_def)
    qed
    then have "?best = []" using True q0 empty by auto
    then show ?thesis using True by (auto simp: lexical_index_search_def Let_def)
  next
    case False
    have init: "scoring_ok \<lparr>sc_acc = replicate 256 blank_acc, sc_cands = [], sc_ccap = 64\<rparr> []"
      using acc_rep_new [of 8] by (simp add: scoring_ok_def)
    obtain r where r: "score_nodes F mem lx (corpus_avgdl F D) (rarest_first ?ns) \<lparr>sc_acc = replicate 256 blank_acc, sc_cands = [], sc_ccap = 64\<rparr> = Some r"
      "case r of None \<Rightarrow> mem \<noteq> mem_ok | Some st' \<Rightarrow> scoring_ok st' ?cs"
      using score_nodes_ok [OF assms(1) init rc, of mem F] by (fastforce simp: corpus_scores_def scored_def)
    have s: "lexical_index_search F qsort mem (Some lx) (Some q) top_k =
        (if \<not> mem 0 \<or> \<not> mem 1 then Some (-1, [], [])
         else case Some r of None \<Rightarrow> None | Some None \<Rightarrow> Some (-1, [], [])
              | Some (Some st) \<Rightarrow> if sc_cands st = [] then Some (0, [], [])
                  else if \<not> mem 2 \<or> \<not> mem 3 then Some (-1, [], [])
                  else let best = take top_k (qsort (cmp_cand_desc F) (sc_cands st)) in Some (0, map lc_id best, map lc_score best))"
      using False unfolding lexical_index_search_def prod.case option.case Let_def avg r(1) by simp
    have nomem: "\<not> mem k \<Longrightarrow> mem \<noteq> mem_ok" for k by auto
    show ?thesis
    proof (cases r)
      case None
      then show ?thesis using r(2) unfolding s by simp
    next
      case (Some st)
      with r(2) have "sc_cands st = ?cs" by (simp add: scoring_ok_def)
      then show ?thesis unfolding s using Some q0 nomem by (auto simp: Let_def)
    qed
  qed
  then obtain r where r: "lexical_index_search F qsort mem (Some lx) (Some q) top_k = Some r" "?goal r" by blast
  have m: "mset (qsort (cmp_cand_desc F) ?cs) = mset ?cs" by (rule assms(2))
  have "distinct (map lc_id (qsort (cmp_cand_desc F) ?cs))"
    using corpus_scores_ids [of F D q] m by (metis mset_eq_imp_distinct_iff mset_map)
  then have "distinct (map lc_id ?best)" by (metis distinct_take take_map)
  moreover have "set ?best \<subseteq> set ?cs" using m by (metis mset_eq_setD set_take_subset)
  then have "set (map lc_id ?best) \<subseteq> {i. \<exists>w \<in> set (text_tokens (Some q)). w \<in> set (D i)}"
    using corpus_scores_ids [of F D q] by auto
  moreover have "length (map lc_id ?best) \<le> top_k" by simp
  moreover obtain rv ids scores where eq: "r = (rv, ids, scores)" by (cases r) auto
  ultimately have "(if rv = 0 then (let best = ?best in ids = map lc_id best \<and> scores = map lc_score best)
      else rv = -1 \<and> ids = [] \<and> scores = [] \<and> mem \<noteq> mem_ok) \<and>
    distinct ids \<and> length ids \<le> top_k \<and> set ids \<subseteq> {i. \<exists>w \<in> set (text_tokens (Some q)). w \<in> set (D i)}"
    using r(2) unfolding eq by (elim disjE conjE) (simp_all add: Let_def)
  then show ?thesis using r(1) unfolding eq by blast
qed

text \<open>An instance: one document, integers for the scores, the identity as the sort of at most one candidate.\<close>

definition demo_lex_floats :: "(int, int) LexFloat" where
  "demo_lex_floats = \<lparr>fd_nat = int, fd_dec = (\<lambda>m e. int m), fd_add = (+), fd_sub = (-), fd_mul = (*), fd_div = (\<lambda>x y. x), fd_log = (\<lambda>x. x),
     fd_le = (\<le>), fd_less = (<), ff_of = (\<lambda>x. x), ff_add = (+), ff_less = (<)\<rparr>"

theorem lexical_search_scores_corpus_witness:
  "\<exists>lx ids scores. lex_rep lx ((\<lambda>_. [])(7 := text_tokens (Some (lit ''max'')))) \<and>
     lexical_index_search demo_lex_floats (\<lambda>_ xs. xs) mem_ok (Some lx) (Some (lit ''max'')) 5 = Some (0, ids, scores) \<and> set ids \<subseteq> {7}"
proof -
  obtain lx0 where lx0: "lexical_index_create mem_ok = Some lx0" by (auto simp: lexical_index_create_def)
  let ?D = "(\<lambda>_. [])(7 := text_tokens (Some (lit ''max'')))"
  from lexical_add_ok [OF lex_rep_create [OF lx0], of "\<lambda>_. mem_ok" mem_ok 7 "Some (lit ''max'')"]
  obtain lx where lx: "lex_rep lx ?D" by auto
  from lexical_search_scores_corpus [OF lx, of "\<lambda>_ xs. xs" demo_lex_floats mem_ok "lit ''max''" 5] obtain rv ids scores
    where r: "lexical_index_search demo_lex_floats (\<lambda>_ xs. xs) mem_ok (Some lx) (Some (lit ''max'')) 5 = Some (rv, ids, scores)"
      "rv = 0" "set ids \<subseteq> {i. \<exists>w \<in> set (text_tokens (Some (lit ''max''))). w \<in> set (?D i)}" by (auto split: if_splits)
  have "set ids \<subseteq> {7}" using r(3) by (auto split: if_splits)
  then show ?thesis using lx r by blast
qed

end
