(* ===== verification/Ieee_Double.thy ===== *)
theory Ieee_Double
  imports Complex_Main
begin

text \<open>
  The arithmetic of \<^verbatim>\<open>double\<close>. \<open>f64_ops\<close> is the interface the code of a component is written over, and \<open>double_f64\<close> is
  what a C compiler gives it: the binary format with 53 bits of significand of IEEE 754, rounding to nearest with ties to even,
  gradual underflow, infinities and not-a-number. The two zeros are not told apart; only a division by zero could see them. Every operation rounds on
  its own: there is no excess precision and no fusing of a multiplication with an addition.

  Shown: a rounded result differs from the exact one by at most \<open>2 ^ -53\<close> of it outside the subnormal range, rounding keeps
  zero, one and every integer below \<open>2 ^ 53\<close>, and never crosses zero or one.
\<close>

section \<open>Rounding\<close>

definition round_even :: "real \<Rightarrow> int" where
  "round_even y = (let n = \<lfloor>y\<rfloor>; d = y - of_int n in if d < 1 / 2 \<or> d = 1 / 2 \<and> even n then n else n + 1)"

text \<open>The exponent of the last bit of a significand.\<close>

definition f64_exp :: "real \<Rightarrow> int" where
  "f64_exp x = max (-1074) (\<lfloor>log 2 \<bar>x\<bar>\<rfloor> - 52)"

definition f64_ulp :: "real \<Rightarrow> real" where
  "f64_ulp x = 2 powr of_int (f64_exp x)"

definition f64_round :: "real \<Rightarrow> real" where
  "f64_round x = (if x = 0 then 0 else of_int (round_even (x / f64_ulp x)) * f64_ulp x)"

section \<open>The type and its operations\<close>

datatype f64 = F64 real | F64_PINF | F64_NINF | F64_NAN

definition f64_of :: "real \<Rightarrow> f64" where
  "f64_of x =
     (let r = f64_round x in if 2 ^ 1024 \<le> r then F64_PINF else if r \<le> - (2 ^ 1024) then F64_NINF else F64 r)"

definition f64_inf :: "bool \<Rightarrow> f64" where
  "f64_inf negative = (if negative then F64_NINF else F64_PINF)"

fun f64_negative :: "f64 \<Rightarrow> bool" where
  "f64_negative (F64 x) = (x < 0)"
| "f64_negative a = (a = F64_NINF)"

fun f64_uminus :: "f64 \<Rightarrow> f64" where
  "f64_uminus (F64 x) = F64 (- x)"
| "f64_uminus F64_PINF = F64_NINF"
| "f64_uminus F64_NINF = F64_PINF"
| "f64_uminus F64_NAN = F64_NAN"

fun f64_plus :: "f64 \<Rightarrow> f64 \<Rightarrow> f64" where
  "f64_plus (F64 x) (F64 y) = f64_of (x + y)"
| "f64_plus (F64 x) b = b"
| "f64_plus a (F64 y) = a"
| "f64_plus a b = (if a = b then a else F64_NAN)"

definition f64_minus :: "f64 \<Rightarrow> f64 \<Rightarrow> f64" where
  "f64_minus a b = f64_plus a (f64_uminus b)"

fun f64_times :: "f64 \<Rightarrow> f64 \<Rightarrow> f64" where
  "f64_times (F64 x) (F64 y) = f64_of (x * y)"
| "f64_times a b =
     (if a = F64_NAN \<or> b = F64_NAN \<or> a = F64 0 \<or> b = F64 0 then F64_NAN else f64_inf (f64_negative a \<noteq> f64_negative b))"

fun f64_divide :: "f64 \<Rightarrow> f64 \<Rightarrow> f64" where
  "f64_divide (F64 x) (F64 y) = (if y \<noteq> 0 then f64_of (x / y) else if x = 0 then F64_NAN else f64_inf (x < 0))"
| "f64_divide (F64 x) b = (if b = F64_NAN then F64_NAN else F64 0)"
| "f64_divide a (F64 y) = (if a = F64_NAN then F64_NAN else f64_inf (f64_negative a \<noteq> (y < 0)))"
| "f64_divide a b = F64_NAN"

fun f64_leq :: "f64 \<Rightarrow> f64 \<Rightarrow> bool" where
  "f64_leq (F64 x) (F64 y) = (x \<le> y)"
| "f64_leq a b = (a \<noteq> F64_NAN \<and> b \<noteq> F64_NAN \<and> (a = F64_NINF \<or> b = F64_PINF))"

definition f64_lt :: "f64 \<Rightarrow> f64 \<Rightarrow> bool" where
  "f64_lt a b \<longleftrightarrow> f64_leq a b \<and> \<not> f64_leq b a"

record 'd f64_ops =
  f64_nat :: "nat \<Rightarrow> 'd"
  f64_add :: "'d \<Rightarrow> 'd \<Rightarrow> 'd"
  f64_sub :: "'d \<Rightarrow> 'd \<Rightarrow> 'd"
  f64_mul :: "'d \<Rightarrow> 'd \<Rightarrow> 'd"
  f64_div :: "'d \<Rightarrow> 'd \<Rightarrow> 'd"
  f64_le :: "'d \<Rightarrow> 'd \<Rightarrow> bool"
  f64_less :: "'d \<Rightarrow> 'd \<Rightarrow> bool"

definition double_f64 :: "f64 f64_ops" where
  "double_f64 =
     \<lparr>f64_nat = (\<lambda>n. f64_of (real n)), f64_add = f64_plus, f64_sub = f64_minus, f64_mul = f64_times, f64_div = f64_divide,
      f64_le = f64_leq, f64_less = f64_lt\<rparr>"

lemma double_f64_simps [simp]:
  "f64_nat double_f64 n = f64_of (real n)" "f64_add double_f64 = f64_plus" "f64_sub double_f64 = f64_minus"
  "f64_mul double_f64 = f64_times" "f64_div double_f64 = f64_divide" "f64_le double_f64 = f64_leq" "f64_less double_f64 = f64_lt"
  by (simp_all add: double_f64_def)

section \<open>Rounding to an integer\<close>

lemma round_even_cases:
  obtains "round_even y = \<lfloor>y\<rfloor>" "y - of_int \<lfloor>y\<rfloor> \<le> 1 / 2" | "round_even y = \<lfloor>y\<rfloor> + 1" "1 / 2 \<le> y - of_int \<lfloor>y\<rfloor>"
proof (cases "y - of_int \<lfloor>y\<rfloor> < 1 / 2 \<or> y - of_int \<lfloor>y\<rfloor> = 1 / 2 \<and> even \<lfloor>y\<rfloor>")
  case True
  then have "round_even y = \<lfloor>y\<rfloor>" by (simp only: round_even_def Let_def if_True)
  then show thesis using that(1) True by linarith
next
  case False
  then have "round_even y = \<lfloor>y\<rfloor> + 1" by (simp only: round_even_def Let_def if_False)
  then show thesis using that(2) False by linarith
qed

lemma round_even_error: "\<bar>of_int (round_even y) - y\<bar> \<le> 1 / 2"
proof -
  have "of_int \<lfloor>y\<rfloor> \<le> y" "y < of_int \<lfloor>y\<rfloor> + 1" by linarith+
  then show ?thesis by (cases rule: round_even_cases [of y]) (simp_all only: abs_le_iff of_int_add of_int_1, linarith+)
qed

lemma round_even_int: "round_even (of_int n) = n"
  by (simp add: round_even_def)

lemma round_even_bounds: "of_int n \<le> y \<Longrightarrow> n \<le> round_even y" "y \<le> of_int n \<Longrightarrow> round_even y \<le> n"
proof -
  show "n \<le> round_even y" if "of_int n \<le> y"
  proof -
    have "n \<le> \<lfloor>y\<rfloor>" using that by (simp add: le_floor_iff)
    then show ?thesis by (cases rule: round_even_cases [of y]) simp_all
  qed
  show "round_even y \<le> n" if "y \<le> of_int n"
  proof (cases "y = of_int n")
    case False
    then have "\<lfloor>y\<rfloor> + 1 \<le> n" using that by linarith
    then show ?thesis by (cases rule: round_even_cases [of y]) simp_all
  qed (simp add: round_even_int)
qed

section \<open>The exponent\<close>

lemma f64_ulp_pos: "0 < f64_ulp x"
  by (simp add: f64_ulp_def)

lemma binade:
  assumes "x \<noteq> 0"
  shows "2 powr of_int \<lfloor>log 2 \<bar>x\<bar>\<rfloor> \<le> \<bar>x\<bar>" "\<bar>x\<bar> < 2 powr (of_int \<lfloor>log 2 \<bar>x\<bar>\<rfloor> + 1)"
  using floor_log_eq_powr_iff [of "\<bar>x\<bar>" 2 "\<lfloor>log 2 \<bar>x\<bar>\<rfloor>"] assms by simp_all

lemma powr_neg_nat: "(2 :: real) powr (- real n) = 1 / 2 ^ n"
  by (simp add: powr_minus_divide powr_realpow)

lemma log_normal: "x \<noteq> 0 \<Longrightarrow> - real n \<le> log 2 \<bar>x\<bar> \<longleftrightarrow> 1 / 2 ^ n \<le> \<bar>x\<bar>"
  by (simp add: le_log_iff powr_neg_nat)

lemma f64_ulp_normal:
  assumes "1 / 2 ^ 1022 \<le> \<bar>x\<bar>"
  shows "f64_ulp x = 2 powr (of_int \<lfloor>log 2 \<bar>x\<bar>\<rfloor> - 52)" "f64_ulp x \<le> \<bar>x\<bar> / 2 ^ 52"
proof -
  have x: "x \<noteq> 0" using assms by (auto simp: divide_le_0_iff)
  have "-1022 \<le> log 2 \<bar>x\<bar>" using log_normal [OF x, of 1022] assms by simp
  then have "-1022 \<le> \<lfloor>log 2 \<bar>x\<bar>\<rfloor>" by linarith
  then have "f64_exp x = \<lfloor>log 2 \<bar>x\<bar>\<rfloor> - 52" unfolding f64_exp_def by linarith
  then show u: "f64_ulp x = 2 powr (of_int \<lfloor>log 2 \<bar>x\<bar>\<rfloor> - 52)" by (simp add: f64_ulp_def)
  have "(2 :: real) powr 52 = 2 ^ 52" using powr_realpow [of 2 52] by simp
  then have "f64_ulp x = 2 powr of_int \<lfloor>log 2 \<bar>x\<bar>\<rfloor> / 2 ^ 52" unfolding u by (simp only: powr_diff)
  then show "f64_ulp x \<le> \<bar>x\<bar> / 2 ^ 52" using binade(1) [OF x] by (simp add: divide_right_mono)
qed

lemma f64_ulp_subnormal:
  assumes "\<bar>x\<bar> < 1 / 2 ^ 1022" and "x \<noteq> 0"
  shows "f64_ulp x = 1 / 2 ^ 1074"
proof -
  have "\<not> -1022 \<le> log 2 \<bar>x\<bar>" using log_normal [OF assms(2), of 1022] assms(1) by simp
  then have "f64_exp x = - 1074" unfolding f64_exp_def by linarith
  then show ?thesis using powr_neg_nat [of 1074] by (simp add: f64_ulp_def)
qed

section \<open>The rounding error\<close>

lemma f64_round_half: "\<bar>f64_round x - x\<bar> \<le> f64_ulp x / 2"
proof (cases "x = 0")
  case True
  then show ?thesis using f64_ulp_pos [of x] by (simp add: f64_round_def)
next
  case False
  let ?u = "f64_ulp x"
  have u: "0 < ?u" by (rule f64_ulp_pos)
  have "f64_round x - x = (of_int (round_even (x / ?u)) - x / ?u) * ?u" using False u by (simp add: f64_round_def left_diff_distrib)
  then have "\<bar>f64_round x - x\<bar> = \<bar>of_int (round_even (x / ?u)) - x / ?u\<bar> * ?u" using u by (simp add: abs_mult)
  also have "\<dots> \<le> 1 / 2 * ?u" using u by (intro mult_right_mono round_even_error) simp
  finally show ?thesis by simp
qed

lemma f64_round_error:
  assumes "1 / 2 ^ 1022 \<le> \<bar>x\<bar>"
  shows "\<bar>f64_round x - x\<bar> \<le> \<bar>x\<bar> / 2 ^ 53"
  using f64_round_half [of x] f64_ulp_normal(2) [OF assms] by simp

lemma f64_round_bound: "\<bar>f64_round x\<bar> \<le> 2 * \<bar>x\<bar> + 1"
proof (cases "1 / 2 ^ 1022 \<le> \<bar>x\<bar>")
  case True
  have "\<bar>x\<bar> / 2 ^ 53 \<le> \<bar>x\<bar>" by (simp add: divide_le_eq)
  then show ?thesis using f64_round_error [OF True] by linarith
next
  case False
  show ?thesis
  proof (cases "x = 0")
    case x: False
    have "f64_ulp x \<le> 1" using f64_ulp_subnormal [OF _ x] False by (simp add: divide_le_eq)
    then show ?thesis using f64_round_half [of x] by linarith
  qed (simp add: f64_round_def)
qed

lemma f64_of_round: "\<bar>x\<bar> \<le> 2 ^ 1000 \<Longrightarrow> f64_of x = F64 (f64_round x)"
proof -
  assume "\<bar>x\<bar> \<le> 2 ^ 1000"
  moreover have "(2 :: real) * 2 ^ 1000 + 1 < 2 ^ 1024" by (simp add: field_simps)
  ultimately have "\<bar>f64_round x\<bar> < 2 ^ 1024" using f64_round_bound [of x] by linarith
  then have "\<not> 2 ^ 1024 \<le> f64_round x" "\<not> f64_round x \<le> - (2 ^ 1024)" by linarith+
  then show ?thesis by (simp only: f64_of_def Let_def if_False)
qed

section \<open>Values that rounding does not cross\<close>

lemma f64_round_zero [simp]: "f64_round 0 = 0"
  by (simp add: f64_round_def)

lemma f64_round_nonneg:
  assumes "0 \<le> x"
  shows "0 \<le> f64_round x"
proof -
  have "0 \<le> round_even (x / f64_ulp x)" using round_even_bounds(1) [of 0 "x / f64_ulp x"] assms f64_ulp_pos [of x] by simp
  then show ?thesis using f64_ulp_pos [of x] by (simp add: f64_round_def)
qed

lemma f64_round_nonpos:
  assumes "x \<le> 0"
  shows "f64_round x \<le> 0"
proof -
  have "x / f64_ulp x \<le> 0" using assms f64_ulp_pos [of x] by (simp add: divide_le_0_iff)
  then have "round_even (x / f64_ulp x) \<le> 0" using round_even_bounds(2) [of "x / f64_ulp x" 0] by simp
  then show ?thesis using f64_ulp_pos [of x] by (simp add: f64_round_def mult_nonpos_nonneg)
qed

text \<open>From one on, the last bit is at least \<open>2 ^ -52\<close>, and every power of two is a multiple of the last bit of what is near it.\<close>

lemma f64_ulp_ge_one:
  assumes "1 \<le> x"
  shows "\<exists>k. f64_ulp x = 2 ^ k / 2 ^ 52 \<and> 2 ^ k \<le> x"
proof -
  define k where "k = nat \<lfloor>log 2 x\<rfloor>"
  have "0 \<le> log 2 x" using assms by simp
  then have k: "of_int \<lfloor>log 2 x\<rfloor> = real k" by (simp add: k_def)
  have "(1 :: real) / 2 ^ 1022 \<le> 1" by (simp add: divide_le_eq)
  then have n: "1 / 2 ^ 1022 \<le> \<bar>x\<bar>" using assms by linarith
  have p: "(2 :: real) powr 52 = 2 ^ 52" using powr_realpow [of 2 52] by simp
  have "\<bar>x\<bar> = x" using assms by simp
  then have "f64_ulp x = 2 powr (real k - 52)" using f64_ulp_normal(1) [OF n] k by simp
  also have "\<dots> = 2 powr real k / 2 powr 52" by (rule powr_diff)
  finally have "f64_ulp x = 2 ^ k / 2 ^ 52" unfolding p by (simp add: powr_realpow)
  moreover have "2 ^ k \<le> x" using binade(1) [of x] assms k by (simp add: powr_realpow)
  ultimately show ?thesis by blast
qed

lemma f64_round_ge_one:
  assumes "1 \<le> x"
  shows "1 \<le> f64_round x"
proof -
  obtain k where k: "f64_ulp x = 2 ^ k / 2 ^ 52" "2 ^ k \<le> x" using f64_ulp_ge_one [OF assms] by blast
  have "of_int (2 ^ 52) \<le> x / f64_ulp x" unfolding pos_le_divide_eq [OF f64_ulp_pos] using k by simp
  then have "2 ^ 52 \<le> round_even (x / f64_ulp x)" by (rule round_even_bounds(1))
  then have "of_int (2 ^ 52) * f64_ulp x \<le> of_int (round_even (x / f64_ulp x)) * f64_ulp x"
    using f64_ulp_pos [of x] by (intro mult_right_mono) (simp_all only: of_int_le_iff less_imp_le)
  moreover have "of_int (2 ^ 52) * f64_ulp x = 2 ^ k" by (simp add: k(1))
  ultimately have "2 ^ k \<le> f64_round x" using assms by (simp only: f64_round_def) simp
  moreover have "(1 :: real) \<le> 2 ^ k" by simp
  ultimately show ?thesis by linarith
qed

lemma f64_round_below_one:
  assumes "0 < x" and "x < 1"
  shows "f64_round x \<le> 1"
proof -
  define k where "k = nat (- f64_exp x)"
  have "log 2 x < 0" using assms by simp
  then have "\<lfloor>log 2 \<bar>x\<bar>\<rfloor> < 0" using assms(1) by (simp add: floor_less_iff)
  then have "f64_exp x \<le> 0" unfolding f64_exp_def by linarith
  then have "f64_ulp x = 2 powr - real k" by (simp add: f64_ulp_def k_def)
  then have u: "f64_ulp x = 1 / 2 ^ k" by (simp only: powr_neg_nat)
  then have "x / f64_ulp x \<le> of_int (2 ^ k)" using assms(2) by (simp add: mult_le_cancel_right2)
  then have "round_even (x / f64_ulp x) \<le> 2 ^ k" by (rule round_even_bounds(2))
  then have "of_int (round_even (x / f64_ulp x)) \<le> real_of_int (2 ^ k)" by (simp only: of_int_le_iff)
  then show ?thesis using u by (simp add: f64_round_def divide_le_eq)
qed

lemma f64_round_gap:
  assumes "1 \<le> f64_round x"
  shows "f64_round x = 1 \<or> 1 + 1 / 2 ^ 52 \<le> f64_round x"
proof (cases "1 \<le> x")
  case True
  obtain k where k: "f64_ulp x = 2 ^ k / 2 ^ 52" using f64_ulp_ge_one [OF True] by blast
  define m where "m = round_even (x / f64_ulp x) * 2 ^ k"
  have r: "f64_round x = of_int m / 2 ^ 52" using True by (simp add: f64_round_def k m_def)
  then have "real_of_int (2 ^ 52) \<le> of_int m" using assms by (simp add: le_divide_eq)
  then have "2 ^ 52 \<le> m" by (simp only: of_int_le_iff)
  then consider "m = 2 ^ 52" | "2 ^ 52 + 1 \<le> m" by linarith
  then show ?thesis
  proof cases
    case 2
    then have "real_of_int (2 ^ 52 + 1) \<le> of_int m" by (simp only: of_int_le_iff)
    then show ?thesis unfolding r by (simp add: field_simps)
  qed (simp add: r)
next
  case False
  then have "0 < x" using assms f64_round_nonpos [of x] by linarith
  then show ?thesis using f64_round_below_one [of x] False assms by linarith
qed

lemma f64_round_nat:
  assumes "n < 2 ^ 53"
  shows "f64_round (real n) = real n"
proof (cases "n = 0")
  case False
  then have n: "1 \<le> real n" by simp
  obtain k where k: "f64_ulp (real n) = 2 ^ k / 2 ^ 52" "2 ^ k \<le> real n" using f64_ulp_ge_one [OF n] by blast
  have "(2 :: nat) ^ k \<le> n" using k(2) by (metis of_nat_le_iff of_nat_numeral of_nat_power)
  then have "(2 :: nat) ^ k < 2 ^ 53" using assms by linarith
  then have "k \<le> 52" using power_less_imp_less_exp [of "2 :: nat" k 53] by simp
  then have "(2 :: real) ^ 52 = 2 ^ (52 - k) * 2 ^ k" by (simp add: power_add [symmetric])
  then have u: "f64_ulp (real n) = 1 / 2 ^ (52 - k)" using k(1) by (simp only: divide_divide_eq_left' [symmetric]) (simp add: field_simps)
  have "real n / f64_ulp (real n) = of_int (int n * 2 ^ (52 - k))" by (simp add: u)
  then have "round_even (real n / f64_ulp (real n)) = int n * 2 ^ (52 - k)" by (simp only: round_even_int)
  then show ?thesis using False by (simp add: f64_round_def u)
qed simp

end
