(* ===== verification/Tenant.thy ===== *)
theory Tenant
  imports Ieee_Double Aegis_Prelude
begin

text \<open>
  Accounting per namespace, \<^verbatim>\<open>src/src/util/tenant.c\<close>: live records and bytes, quotas, and a token bucket. Every public operation
  runs under the mutex of the table, so it is one step of the model. A \<^verbatim>\<open>long\<close> is an \<open>int\<close>; the operations on \<^verbatim>\<open>double\<close>
  are an argument, \<open>f64_ops\<close>, so that the accounting does not depend on them.

  Shown: the table is a map from namespaces to entries, an adjustment changes the counters of its namespace only and saturates at zero,
  and a write that passes the quota test stays within the limits. The bucket is the subject of \<open>Tenant_Rate\<close>.
\<close>

section \<open>State\<close>

record 'd Tenant =
  tm_ns :: cstr
  tm_records :: u64
  tm_bytes :: u64
  tm_tokens :: 'd
  tm_last_refill_us :: u64

record 'd TenantTable =
  tt_t :: "'d Tenant list"
  tt_cap :: nat

section \<open>Operations\<close>

definition tenant_table_create :: "alloc \<Rightarrow> bool \<Rightarrow> 'd TenantTable option" where
  "tenant_table_create mem mutex_ok =
     (if \<not> mem 0 then None else if \<not> mutex_ok then None else Some \<lparr>tt_t = [], tt_cap = 0\<rparr>)"

text \<open>The position of the entry stands for the pointer to it.\<close>

fun tenant_scan :: "'d Tenant list \<Rightarrow> cstr \<Rightarrow> nat \<Rightarrow> nat option" where
  "tenant_scan [] ns i = None"
| "tenant_scan (e # es) ns i = (if tm_ns e = ns then Some i else tenant_scan es ns (i + 1))"

definition tenant_find :: "'d TenantTable \<Rightarrow> cstr \<Rightarrow> 'd Tenant option" where
  "tenant_find tt ns = map_option (\<lambda>i. tt_t tt ! i) (tenant_scan (tt_t tt) ns 0)"

definition find_or_add :: "'d f64_ops \<Rightarrow> alloc \<Rightarrow> 'd TenantTable \<Rightarrow> cstr \<Rightarrow> nat option \<times> 'd TenantTable" where
  "find_or_add F mem tt ns =
     (case tenant_scan (tt_t tt) ns 0 of
        Some i \<Rightarrow> (Some i, tt)
      | None \<Rightarrow>
          let n = length (tt_t tt); full = (n = tt_cap tt)
          in if full \<and> \<not> mem 0 then (None, tt)
             else let tt1 = tt\<lparr>tt_cap := (if full then if tt_cap tt \<noteq> 0 then tt_cap tt * 2 else 8 else tt_cap tt)\<rparr>
                  in if \<not> mem 1 then (None, tt1)
                     else (Some n, tt1\<lparr>tt_t := tt_t tt @ [\<lparr>tm_ns = ns, tm_records = 0, tm_bytes = 0, tm_tokens = f64_nat F 0, tm_last_refill_us = 0\<rparr>]\<rparr>))"

definition adjust_count :: "u64 \<Rightarrow> int \<Rightarrow> u64" where
  "adjust_count c d = (if d < 0 \<and> c < of_int (- d) then 0 else c + of_int d)"

definition tenant_usage_adjust :: "'d f64_ops \<Rightarrow> alloc \<Rightarrow> 'd TenantTable option \<Rightarrow> cstr option \<Rightarrow> int \<Rightarrow> int \<Rightarrow> 'd TenantTable option" where
  "tenant_usage_adjust F mem tto nso d_records d_bytes =
     (case (tto, nso) of
        (Some tt, Some ns) \<Rightarrow>
          (case find_or_add F mem tt ns of
             (None, tt1) \<Rightarrow> Some tt1
           | (Some i, tt1) \<Rightarrow>
               let e = tt_t tt1 ! i
               in Some (tt1\<lparr>tt_t := (tt_t tt1)[i := e\<lparr>tm_records := adjust_count (tm_records e) d_records,
                                                        tm_bytes := adjust_count (tm_bytes e) d_bytes\<rparr>]\<rparr>))
      | _ \<Rightarrow> tto)"

definition tenant_usage_would_exceed :: "'d TenantTable option \<Rightarrow> cstr option \<Rightarrow> int \<Rightarrow> int \<Rightarrow> u64 \<Rightarrow> u64 \<Rightarrow> int" where
  "tenant_usage_would_exceed tto nso add_records add_bytes max_records max_bytes =
     (case (tto, nso) of
        (Some tt, Some ns) \<Rightarrow>
          if max_records = 0 \<and> max_bytes = 0 then 0
          else let e = tenant_find tt ns;
                   recs = (case e of None \<Rightarrow> 0 | Some e \<Rightarrow> tm_records e);
                   bytes = (case e of None \<Rightarrow> 0 | Some e \<Rightarrow> tm_bytes e)
               in if (max_records \<noteq> 0 \<and> 0 < add_records \<and> max_records < recs + of_int add_records) \<or>
                     (max_bytes \<noteq> 0 \<and> 0 < add_bytes \<and> max_bytes < bytes + of_int add_bytes) then -1 else 0
      | _ \<Rightarrow> 0)"

text \<open>The refill of one entry.\<close>

definition refill :: "'d f64_ops \<Rightarrow> 'd \<Rightarrow> 'd \<Rightarrow> u64 \<Rightarrow> 'd Tenant \<Rightarrow> 'd Tenant" where
  "refill F qps burst now_us e =
     (if tm_last_refill_us e = 0 then e\<lparr>tm_tokens := burst, tm_last_refill_us := now_us\<rparr>
      else if tm_last_refill_us e < now_us
      then let elapsed_s = f64_div F (f64_nat F (unat (now_us - tm_last_refill_us e))) (f64_nat F 1000000);
               tokens = f64_add F (tm_tokens e) (f64_mul F elapsed_s qps)
           in e\<lparr>tm_tokens := (if f64_less F burst tokens then burst else tokens), tm_last_refill_us := now_us\<rparr>
      else e)"

definition tenant_rate_allow ::
  "'d f64_ops \<Rightarrow> alloc \<Rightarrow> 'd TenantTable option \<Rightarrow> cstr option \<Rightarrow> 'd \<Rightarrow> 'd \<Rightarrow> u64 \<Rightarrow> bool \<times> 'd TenantTable option" where
  "tenant_rate_allow F mem tto nso qps burst0 now_us =
     (case (tto, nso) of
        (Some tt, Some ns) \<Rightarrow>
          if f64_le F qps (f64_nat F 0) then (True, tto)
          else let burst = (if f64_less F burst0 (f64_nat F 1) then f64_nat F 1 else burst0)
               in (case find_or_add F mem tt ns of
                     (None, tt1) \<Rightarrow> (True, Some tt1)
                   | (Some i, tt1) \<Rightarrow>
                       let e = refill F qps burst now_us (tt_t tt1 ! i); allow = f64_le F (f64_nat F 1) (tm_tokens e)
                       in (allow, Some (tt1\<lparr>tt_t := (tt_t tt1)[i :=
                             if allow then e\<lparr>tm_tokens := f64_sub F (tm_tokens e) (f64_nat F 1)\<rparr> else e]\<rparr>)))
      | _ \<Rightarrow> (True, tto))"

record TenantUsage =
  tu_ns :: cstr
  tu_records :: u64
  tu_bytes :: u64

text \<open>\<open>mem (i + 1)\<close> is the outcome of the copy of the \<open>i\<close>-th name; a failed one ends the loop.\<close>

fun snapshot_loop :: "alloc \<Rightarrow> nat \<Rightarrow> 'd Tenant list \<Rightarrow> TenantUsage list" where
  "snapshot_loop mem i [] = []"
| "snapshot_loop mem i (e # es) =
     (if \<not> mem (i + 1) then [] else \<lparr>tu_ns = tm_ns e, tu_records = tm_records e, tu_bytes = tm_bytes e\<rparr> # snapshot_loop mem (i + 1) es)"

definition tenant_usage_snapshot :: "alloc \<Rightarrow> 'd TenantTable option \<Rightarrow> TenantUsage list option" where
  "tenant_usage_snapshot mem tto =
     (case tto of
        None \<Rightarrow> None
      | Some tt \<Rightarrow>
          if tt_t tt = [] \<or> \<not> mem 0 then None
          else let out = snapshot_loop mem 0 (tt_t tt) in if out = [] then None else Some out)"

section \<open>The table as a map\<close>

definition tenants_ok :: "'d TenantTable \<Rightarrow> bool" where
  "tenants_ok tt \<longleftrightarrow> distinct (map tm_ns (tt_t tt)) \<and> length (tt_t tt) \<le> tt_cap tt"

lemma tenant_scan_Some: "tenant_scan es ns i = Some j \<Longrightarrow> i \<le> j \<and> j - i < length es \<and> tm_ns (es ! (j - i)) = ns"
proof (induction es arbitrary: i)
  case (Cons e es)
  show ?case
  proof (cases "tm_ns e = ns")
    case True
    then show ?thesis using Cons.prems by simp
  next
    case False
    then have h: "Suc i \<le> j" "j - Suc i < length es" "tm_ns (es ! (j - Suc i)) = ns" using Cons by simp_all
    then have "j - i = Suc (j - Suc i)" by linarith
    then show ?thesis using h by simp
  qed
qed simp

lemma tenant_scan_None: "tenant_scan es ns i = None \<longleftrightarrow> ns \<notin> tm_ns ` set es"
  by (induction es arbitrary: i) auto

abbreviation ns_pairs :: "'d Tenant list \<Rightarrow> (cstr \<times> 'd Tenant) list" where
  "ns_pairs es \<equiv> map (\<lambda>e. (tm_ns e, e)) es"

lemma ns_pairs_None: "map_of (ns_pairs es) ns = None \<longleftrightarrow> ns \<notin> tm_ns ` set es"
  by (induction es) auto

lemma tenant_find_map: "tenants_ok tt \<Longrightarrow> tenant_find tt = map_of (ns_pairs (tt_t tt))"
proof (rule ext)
  fix ns
  assume ok: "tenants_ok tt"
  show "tenant_find tt ns = map_of (ns_pairs (tt_t tt)) ns"
  proof (cases "tenant_scan (tt_t tt) ns 0")
    case None
    then have "map_of (ns_pairs (tt_t tt)) ns = None" unfolding tenant_scan_None ns_pairs_None .
    then show ?thesis using None by (simp add: tenant_find_def)
  next
    case (Some j)
    note j = tenant_scan_Some [OF Some]
    have "map_of (ns_pairs (tt_t tt)) ns = Some (snd (ns_pairs (tt_t tt) ! j))"
      by (rule map_of_at(1)) (use j ok in \<open>simp_all add: tenants_ok_def comp_def\<close>)
    then show ?thesis using j Some by (simp add: tenant_find_def)
  qed
qed

definition fresh_tenant :: "'d f64_ops \<Rightarrow> cstr \<Rightarrow> 'd Tenant" where
  "fresh_tenant F ns = \<lparr>tm_ns = ns, tm_records = 0, tm_bytes = 0, tm_tokens = f64_nat F 0, tm_last_refill_us = 0\<rparr>"

definition tenant_of :: "'d f64_ops \<Rightarrow> 'd TenantTable \<Rightarrow> cstr \<Rightarrow> 'd Tenant" where
  "tenant_of F tt ns = (case tenant_find tt ns of None \<Rightarrow> fresh_tenant F ns | Some e \<Rightarrow> e)"

lemma tenant_of_upd:
  assumes "tenant_find tt' = (tenant_find tt)(ns \<mapsto> e)"
  shows "tenant_of F tt' ns = e" "\<forall>n. n \<noteq> ns \<longrightarrow> tenant_of F tt' n = tenant_of F tt n"
  using assms by (simp_all add: tenant_of_def)

lemma find_or_add_ok:
  assumes ok: "tenants_ok tt"
  shows "\<exists>r tt1. find_or_add F mem tt ns = (r, tt1) \<and> tenants_ok tt1 \<and>
    (case r of
       None \<Rightarrow> tenant_find tt1 = tenant_find tt \<and> mem \<noteq> mem_ok
     | Some i \<Rightarrow> i < length (tt_t tt1) \<and> tt_t tt1 ! i = tenant_of F tt ns \<and> tm_ns (tt_t tt1 ! i) = ns \<and>
         tenant_find tt1 = (tenant_find tt)(ns \<mapsto> tenant_of F tt ns))"
proof (cases "tenant_scan (tt_t tt) ns 0")
  case (Some i)
  then have i: "i < length (tt_t tt)" "tm_ns (tt_t tt ! i) = ns" using tenant_scan_Some [OF Some] by simp_all
  have "tenant_find tt ns = Some (tt_t tt ! i)" using Some by (simp add: tenant_find_def)
  then show ?thesis using Some i ok by (simp add: find_or_add_def tenant_of_def fun_upd_idem)
next
  case None
  let ?n = "length (tt_t tt)"
  define cap where "cap = (if ?n = tt_cap tt then if tt_cap tt \<noteq> 0 then tt_cap tt * 2 else 8 else tt_cap tt)"
  have nf: "tenant_find tt ns = None" using None by (simp add: tenant_find_def)
  have ns: "ns \<notin> tm_ns ` set (tt_t tt)" using None tenant_scan_None by blast
  have cap: "?n < cap" using ok by (auto simp: cap_def tenants_ok_def)
  have ok1: "tenants_ok (tt\<lparr>tt_cap := cap\<rparr>)" using ok cap by (simp add: tenants_ok_def)
  have r: "find_or_add F mem tt ns = (if ?n = tt_cap tt \<and> \<not> mem 0 then (None, tt) else if \<not> mem 1 then (None, tt\<lparr>tt_cap := cap\<rparr>)
      else (Some ?n, tt\<lparr>tt_cap := cap, tt_t := tt_t tt @ [fresh_tenant F ns]\<rparr>))"
    by (simp add: find_or_add_def None Let_def cap_def fresh_tenant_def)
  consider "?n = tt_cap tt \<and> \<not> mem 0" | "\<not> (?n = tt_cap tt \<and> \<not> mem 0)" "\<not> mem 1" | "\<not> (?n = tt_cap tt \<and> \<not> mem 0)" "mem 1" by blast
  then show ?thesis
  proof cases
    case 1
    then show ?thesis unfolding r if_P [OF 1] using ok by auto
  next
    case 2
    then have "mem \<noteq> mem_ok" by auto
    then show ?thesis unfolding r if_not_P [OF 2(1)] using 2(2) ok1 by (simp add: tenant_find_def fun_eq_iff)
  next
    case 3
    let ?t = "tt\<lparr>tt_cap := cap, tt_t := tt_t tt @ [fresh_tenant F ns]\<rparr>"
    have ok2: "tenants_ok ?t" using ok ns cap by (simp add: tenants_ok_def fresh_tenant_def)
    have "tenant_find ?t = (tenant_find tt)(ns \<mapsto> fresh_tenant F ns)"
      unfolding tenant_find_map [OF ok2] tenant_find_map [OF ok] using ns
      by (simp add: fresh_tenant_def ns_pairs_None map_of_snoc del: map_of_append)
    then show ?thesis unfolding r if_not_P [OF 3(1)] using 3(2) ok2 nf by (simp add: tenant_of_def) (simp add: fresh_tenant_def)
  qed
qed

lemma tenant_store_ok:
  assumes ok: "tenants_ok tt" and i: "i < length (tt_t tt)" and ns: "tm_ns e = tm_ns (tt_t tt ! i)"
  shows "tenants_ok (tt\<lparr>tt_t := (tt_t tt)[i := e]\<rparr>)" and "tenant_find (tt\<lparr>tt_t := (tt_t tt)[i := e]\<rparr>) = (tenant_find tt)(tm_ns e \<mapsto> e)"
proof -
  have m: "map tm_ns ((tt_t tt)[i := e]) = map tm_ns (tt_t tt)" using i ns by (simp add: map_update list_update_same_conv)
  show ok1: "tenants_ok (tt\<lparr>tt_t := (tt_t tt)[i := e]\<rparr>)" using ok m by (simp add: tenants_ok_def)
  show "tenant_find (tt\<lparr>tt_t := (tt_t tt)[i := e]\<rparr>) = (tenant_find tt)(tm_ns e \<mapsto> e)"
    unfolding tenant_find_map [OF ok1] tenant_find_map [OF ok]
    using map_of_at(2) [of "ns_pairs (tt_t tt)" i "tm_ns e" e] i ns ok by (simp add: map_update tenants_ok_def comp_def)
qed

lemma usage_adjust_ok:
  assumes ok: "tenants_ok tt"
  shows "\<exists>tt'. tenant_usage_adjust F mem_ok (Some tt) (Some ns) dr db = Some tt' \<and> tenants_ok tt' \<and>
    tenant_find tt' = (tenant_find tt)(ns \<mapsto> (tenant_of F tt ns)\<lparr>tm_records := adjust_count (tm_records (tenant_of F tt ns)) dr,
       tm_bytes := adjust_count (tm_bytes (tenant_of F tt ns)) db\<rparr>)"
proof -
  obtain i tt1 where f: "find_or_add F mem_ok tt ns = (Some i, tt1)" "tenants_ok tt1" "i < length (tt_t tt1)" "tt_t tt1 ! i = tenant_of F tt ns"
    "tm_ns (tt_t tt1 ! i) = ns" "tenant_find tt1 = (tenant_find tt)(ns \<mapsto> tenant_of F tt ns)"
    using find_or_add_ok [OF ok, of F mem_ok ns] by (auto split: option.splits)
  let ?e = "(tenant_of F tt ns)\<lparr>tm_records := adjust_count (tm_records (tenant_of F tt ns)) dr,
       tm_bytes := adjust_count (tm_bytes (tenant_of F tt ns)) db\<rparr>"
  have "tm_ns ?e = tm_ns (tt_t tt1 ! i)" using f(4) by simp
  note s = tenant_store_ok [OF f(2,3) this]
  have "tm_ns ?e = ns" using f(4,5) by simp
  then show ?thesis using f s by (simp add: tenant_usage_adjust_def Let_def)
qed

section \<open>Properties\<close>

lemma word_add_exact: "0 \<le> d \<Longrightarrow> uint c + d < 2 ^ 64 \<Longrightarrow> uint (c + of_int d) = uint c + d" for c :: u64
  by (simp add: uint_word_ariths take_bit_int_eq_self_iff uint_word_of_int mod_add_right_eq)

text \<open>
  C20. A write that passes the quota test of its tenant and is then accounted (\<^verbatim>\<open>tenant_usage_would_exceed\<close> followed by
  \<^verbatim>\<open>tenant_usage_adjust\<close>) leaves the counters of the tenant at their exact sum and within every limit that is set and that the
  write counts against, and changes no counter of another tenant, as long as the sums stay below \<open>2 ^ 63\<close>, where
  the signed addition of the code is defined.
\<close>

theorem tenant_quota_kept:
  assumes ok: "tenants_ok tt" and d: "0 \<le> dr" "0 \<le> db"
    and f: "uint (tm_records (tenant_of F tt ns)) + dr < 2 ^ 63" "uint (tm_bytes (tenant_of F tt ns)) + db < 2 ^ 63"
    and q: "tenant_usage_would_exceed (Some tt) (Some ns) dr db max_records max_bytes = 0"
  shows "\<exists>tt'. tenant_usage_adjust F mem_ok (Some tt) (Some ns) dr db = Some tt' \<and> tenants_ok tt' \<and>
    uint (tm_records (tenant_of F tt' ns)) = uint (tm_records (tenant_of F tt ns)) + dr \<and>
    uint (tm_bytes (tenant_of F tt' ns)) = uint (tm_bytes (tenant_of F tt ns)) + db \<and>
    (max_records \<noteq> 0 \<and> 0 < dr \<longrightarrow> tm_records (tenant_of F tt' ns) \<le> max_records) \<and>
    (max_bytes \<noteq> 0 \<and> 0 < db \<longrightarrow> tm_bytes (tenant_of F tt' ns) \<le> max_bytes) \<and>
    (\<forall>n. n \<noteq> ns \<longrightarrow> tenant_find tt' n = tenant_find tt n)"
proof -
  let ?e = "tenant_of F tt ns"
  from usage_adjust_ok [OF ok, of F ns dr db] obtain tt' where a: "tenant_usage_adjust F mem_ok (Some tt) (Some ns) dr db = Some tt'"
    "tenants_ok tt'" "tenant_find tt' = (tenant_find tt)(ns \<mapsto> ?e\<lparr>tm_records := adjust_count (tm_records ?e) dr,
       tm_bytes := adjust_count (tm_bytes ?e) db\<rparr>)" by blast
  have adj: "adjust_count c z = c + of_int z" if "0 \<le> z" for c z using that by (simp add: adjust_count_def)
  have e: "tm_records (tenant_of F tt' ns) = tm_records ?e + of_int dr" "tm_bytes (tenant_of F tt' ns) = tm_bytes ?e + of_int db"
    using tenant_of_upd(1) [OF a(3), of F] adj d by simp_all
  have z: "(case tenant_find tt ns of None \<Rightarrow> 0 | Some e \<Rightarrow> tm_records e) = tm_records ?e"
    "(case tenant_find tt ns of None \<Rightarrow> 0 | Some e \<Rightarrow> tm_bytes e) = tm_bytes ?e"
    by (simp_all add: tenant_of_def fresh_tenant_def split: option.split)
  have "(max_records \<noteq> 0 \<and> 0 < dr \<longrightarrow> tm_records ?e + of_int dr \<le> max_records) \<and> (max_bytes \<noteq> 0 \<and> 0 < db \<longrightarrow> tm_bytes ?e + of_int db \<le> max_bytes)"
    using q by (auto simp: tenant_usage_would_exceed_def Let_def z not_less split: if_splits)
  then show ?thesis using a e word_add_exact d f by auto
qed

theorem tenant_quota_kept_witness:
  "\<exists>tt'. tenant_usage_adjust double_f64 mem_ok (Some \<lparr>tt_t = [fresh_tenant double_f64 [97]], tt_cap = 8\<rparr>) (Some [97]) 1 100 = Some tt' \<and>
     tm_records (tenant_of double_f64 tt' [97]) \<le> 2 \<and> tm_bytes (tenant_of double_f64 tt' [97]) \<le> 100"
  using tenant_quota_kept [of "\<lparr>tt_t = [fresh_tenant double_f64 [97]], tt_cap = 8\<rparr>" 1 100 double_f64 "[97]" 2 100]
  by (auto simp: tenants_ok_def tenant_of_def tenant_find_def fresh_tenant_def tenant_usage_would_exceed_def)

end
