(* ===== verification/Tenant_Rate.thy ===== *)
theory Tenant_Rate
  imports Tenant
begin

text \<open>
  The token bucket of \<^verbatim>\<open>tenant_rate_allow\<close> in \<^verbatim>\<open>src/src/util/tenant.c\<close>, over the \<^verbatim>\<open>double\<close> arithmetic of \<open>Ieee_Double\<close>,
  rounding included.

  Shown, for limits between \<open>2 ^ -53\<close> and \<open>2 ^ 53\<close>: the bucket lets at most \<open>burst\<close> plus \<open>qps\<close> per second through, up to a
  factor of \<open>1 + 2 ^ -53\<close> for each of the five roundings of a request, and a tenant that waits for one token, and \<open>2 ^ -51\<close> of a
  token more for the rounding, is served, whatever the other tenants do.
\<close>

section \<open>One request\<close>

text \<open>A request takes a token from the refilled bucket of its own namespace when there is one, and touches no other.\<close>

definition served :: "'d f64_ops \<Rightarrow> 'd \<Rightarrow> 'd \<Rightarrow> u64 \<Rightarrow> 'd Tenant \<Rightarrow> bool \<times> 'd Tenant" where
  "served F qps burst t e0 =
     (let e = refill F qps (if f64_less F burst (f64_nat F 1) then f64_nat F 1 else burst) t e0; allow = f64_le F (f64_nat F 1) (tm_tokens e)
      in (allow, if allow then e\<lparr>tm_tokens := f64_sub F (tm_tokens e) (f64_nat F 1)\<rparr> else e))"

lemma rate_allow_ok:
  assumes ok: "tenants_ok tt" and q: "\<not> f64_le F qps (f64_nat F 0)"
  shows "\<exists>tt'. tenant_rate_allow F mem_ok (Some tt) (Some ns) qps burst t = (fst (served F qps burst t (tenant_of F tt ns)), Some tt') \<and>
    tenants_ok tt' \<and> tenant_of F tt' ns = snd (served F qps burst t (tenant_of F tt ns)) \<and>
    (\<forall>n. n \<noteq> ns \<longrightarrow> tenant_of F tt' n = tenant_of F tt n)"
proof -
  obtain i tt1 where f: "find_or_add F mem_ok tt ns = (Some i, tt1)" "tenants_ok tt1" "i < length (tt_t tt1)" "tt_t tt1 ! i = tenant_of F tt ns"
    "tm_ns (tt_t tt1 ! i) = ns" "tenant_find tt1 = (tenant_find tt)(ns \<mapsto> tenant_of F tt ns)"
    using find_or_add_ok [OF ok, of F mem_ok ns] by (auto split: option.splits)
  let ?e = "snd (served F qps burst t (tenant_of F tt ns))"
  have n: "tm_ns ?e = tm_ns (tenant_of F tt ns)" by (simp add: served_def refill_def Let_def)
  then have "tm_ns ?e = tm_ns (tt_t tt1 ! i)" using f(4) by simp
  note s = tenant_store_ok [OF f(2,3) this]
  have r: "tenant_rate_allow F mem_ok (Some tt) (Some ns) qps burst t =
      (fst (served F qps burst t (tenant_of F tt ns)), Some (tt1\<lparr>tt_t := (tt_t tt1)[i := ?e]\<rparr>))"
    unfolding tenant_rate_allow_def served_def Let_def f(1) prod.case option.case f(4) using q by simp
  have ns: "tm_ns ?e = ns" using n f(4,5) by simp
  have "tenant_find (tt1\<lparr>tt_t := (tt_t tt1)[i := ?e]\<rparr>) = (tenant_find tt)(ns \<mapsto> ?e)" unfolding s(2) ns f(6) by simp
  note u = tenant_of_upd [OF this]
  show ?thesis by (rule exI, intro conjI, rule r, rule s(1), rule u(1), rule u(2))
qed

lemma rate_allow_off: "f64_le F qps (f64_nat F 0) \<Longrightarrow> tenant_rate_allow F mem (Some tt) (Some ns) qps burst t = (True, Some tt)"
  by (simp add: tenant_rate_allow_def)

section \<open>Rounded steps\<close>

lemma f64_consts: "f64_of (real 0) = F64 0" "f64_of (real 1) = F64 1" "f64_of (real 1000000) = F64 1000000"
proof -
  have "\<bar>real n\<bar> \<le> 2 ^ 1000" if "n \<le> 1000000" for n
  proof -
    have "real n \<le> 2 ^ 20" using that by simp
    also have "\<dots> \<le> 2 ^ 1000" by (rule power_increasing) simp_all
    finally show ?thesis by simp
  qed
  then show "f64_of (real 0) = F64 0" "f64_of (real 1) = F64 1" "f64_of (real 1000000) = F64 1000000"
    using f64_of_round [of "real 0"] f64_of_round [of "real 1"] f64_of_round [of "real 1000000"]
      f64_round_nat [of 1] f64_round_nat [of 1000000] by simp_all
qed

lemma f64_round_factor:
  assumes "1 / 2 ^ 1022 \<le> z"
  shows "f64_round z \<le> z * (1 + 1 / 2 ^ 53)" "z * (1 - 1 / 2 ^ 53) \<le> f64_round z"
proof -
  have "(0 :: real) < 1 / 2 ^ 1022" by simp
  then have "0 < z" using assms by linarith
  then have "\<bar>f64_round z - z\<bar> \<le> z / 2 ^ 53" using f64_round_error [of z] assms by simp
  then show "f64_round z \<le> z * (1 + 1 / 2 ^ 53)" "z * (1 - 1 / 2 ^ 53) \<le> f64_round z"
    unfolding abs_le_iff by (simp_all only: distrib_left right_diff_distrib mult_1_right times_divide_eq_right) linarith+
qed

text \<open>The tokens that \<open>n\<close> microseconds are worth, as the code computes them.\<close>

definition gain :: "real \<Rightarrow> nat \<Rightarrow> real" where
  "gain q n = f64_round (f64_round (f64_round (real n) / 1000000) * q)"

lemma elapsed_bounds:
  assumes "1 \<le> n" and "n < 2 ^ 64"
  defines "s \<equiv> f64_round (f64_round (real n) / 1000000)"
  shows "f64_round (real n) \<le> 2 ^ 65" "s \<le> real n / 1000000 * (1 + 1 / 2 ^ 53) ^ 2" "real n / 1000000 * (1 - 1 / 2 ^ 53) ^ 2 \<le> s"
    "1 / 2 ^ 20 \<le> s" "s \<le> 2 ^ 46"
proof -
  have small: "(1 :: real) / 2 ^ 1022 \<le> 1 / 1000000"
    by (rule order_trans [of _ "1 / 2 ^ 20"]) (simp_all add: divide_simps)
  have n: "1 \<le> real n" "real n < 2 ^ 64" using assms(1,2) by simp_all
  have r: "f64_round (real n) \<le> real n * (1 + 1 / 2 ^ 53)" "real n * (1 - 1 / 2 ^ 53) \<le> f64_round (real n)"
    by (rule f64_round_factor, use small n(1) in linarith)+
  have one: "1 \<le> f64_round (real n)" by (rule f64_round_ge_one [OF n(1)])
  have "f64_round (real n) \<le> 2 ^ 64 * 2" by (rule order_trans [OF r(1)]) (use n in \<open>intro mult_mono; simp\<close>)
  then show "f64_round (real n) \<le> 2 ^ 65" by simp
  have d: "1 / 2 ^ 1022 \<le> f64_round (real n) / 1000000" by (rule order_trans [OF small]) (use one in simp)
  note e = f64_round_factor [OF d, folded s_def]
  have "f64_round (real n) / 1000000 \<le> real n * (1 + 1 / 2 ^ 53) / 1000000" using r(1) by simp
  then have "f64_round (real n) / 1000000 * (1 + 1 / 2 ^ 53) \<le> real n * (1 + 1 / 2 ^ 53) / 1000000 * (1 + 1 / 2 ^ 53)"
    by (rule mult_right_mono) simp
  then show up: "s \<le> real n / 1000000 * (1 + 1 / 2 ^ 53) ^ 2" using e(1) by (simp add: power2_eq_square)
  have "real n * (1 - 1 / 2 ^ 53) / 1000000 * (1 - 1 / 2 ^ 53) \<le> f64_round (real n) / 1000000 * (1 - 1 / 2 ^ 53)"
    using r(2) by (intro mult_right_mono) simp_all
  then show "real n / 1000000 * (1 - 1 / 2 ^ 53) ^ 2 \<le> s" using e(2) by (simp add: power2_eq_square)
  have "1 / 1000000 * (1 - 1 / 2 ^ 53) \<le> f64_round (real n) / 1000000 * (1 - 1 / 2 ^ 53)"
    using one by (intro mult_right_mono) simp_all
  then show "1 / 2 ^ 20 \<le> s" using e(2) by simp
  have "real n / 1000000 * (1 + 1 / 2 ^ 53) ^ 2 \<le> 2 ^ 64 / 1000000 * 2" using n by (intro mult_mono) (simp_all add: power2_eq_square)
  then show "s \<le> 2 ^ 46" using up by simp
qed

text \<open>The limits of a tenant: doubles of a moderate size. \<^verbatim>\<open>burst\<close> may be anything below.\<close>

definition limits_ok :: "real \<Rightarrow> real \<Rightarrow> bool" where
  "limits_ok q b \<longleftrightarrow> 1 / 2 ^ 53 \<le> q \<and> q \<le> 2 ^ 53 \<and> b \<le> 2 ^ 53 \<and> b \<in> range f64_round"

lemma gain_bounds:
  assumes n: "1 \<le> n" "n < 2 ^ 64" and q: "1 / 2 ^ 53 \<le> q" "q \<le> 2 ^ 53"
  shows "gain q n \<le> q * real n / 1000000 * (1 + 1 / 2 ^ 53) ^ 3" "1 / 2 ^ 74 \<le> gain q n" "gain q n \<le> 2 ^ 100"
    "f64_round (f64_round (real n) / 1000000) * q \<le> 2 ^ 99"
    "1000000 * (1 + 1 / 2 ^ 51) \<le> q * real n \<Longrightarrow> 1 \<le> gain q n"
proof -
  define s where "s = f64_round (f64_round (real n) / 1000000)"
  note e = elapsed_bounds [OF n, folded s_def]
  have g: "gain q n = f64_round (s * q)" by (simp add: gain_def s_def)
  have q0: "0 < q" using q(1) by (rule less_le_trans [rotated]) simp
  have s0: "0 \<le> s" using e(4) by (rule order_trans [rotated]) simp
  have "1 / 2 ^ 20 * (1 / 2 ^ 53) \<le> s * q" by (rule mult_mono [OF e(4) q(1) s0]) simp
  then have lo: "1 / 2 ^ 73 \<le> s * q" by simp
  have up: "s * q \<le> 2 ^ 46 * 2 ^ 53" using q0 s0 by (intro mult_mono e(5) q(2)) simp_all
  then show "s * q \<le> 2 ^ 99" by simp
  have "(1 :: real) / 2 ^ 1022 \<le> 1 / 2 ^ 73" by (simp add: divide_simps)
  then have nrm: "1 / 2 ^ 1022 \<le> s * q" using lo by (rule order_trans)
  note f = f64_round_factor [OF nrm, folded g]
  have "s * q \<le> real n / 1000000 * (1 + 1 / 2 ^ 53) ^ 2 * q" using e(2) q0 by (intro mult_right_mono) simp_all
  then have "s * q * (1 + 1 / 2 ^ 53) \<le> real n / 1000000 * (1 + 1 / 2 ^ 53) ^ 2 * q * (1 + 1 / 2 ^ 53)" by (rule mult_right_mono) simp
  also have "\<dots> = q * real n / 1000000 * (1 + 1 / 2 ^ 53) ^ 3" by (simp only: power2_eq_square power3_eq_cube) simp
  finally show "gain q n \<le> q * real n / 1000000 * (1 + 1 / 2 ^ 53) ^ 3" using f(1) by linarith
  have "1 / 2 ^ 73 * (1 - 1 / 2 ^ 53) \<le> s * q * (1 - 1 / 2 ^ 53)" using lo by (intro mult_right_mono) simp_all
  moreover have "(1 :: real) / 2 ^ 74 \<le> 1 / 2 ^ 73 * (1 - 1 / 2 ^ 53)" by simp
  ultimately show "1 / 2 ^ 74 \<le> gain q n" using f(2) by linarith
  have "s * q * (1 + 1 / 2 ^ 53) \<le> 2 ^ 99 * 2" using up lo by (intro mult_mono) simp_all
  then show "gain q n \<le> 2 ^ 100" using f(1) by simp
  assume w: "1000000 * (1 + 1 / 2 ^ 51) \<le> q * real n"
  have "(1 :: real) \<le> (1 + 1 / 2 ^ 51) * (1 - 1 / 2 ^ 53) ^ 2" by (simp add: power2_eq_square)
  also have "\<dots> \<le> q * real n / 1000000 * (1 - 1 / 2 ^ 53) ^ 2" using w by (intro mult_right_mono) simp_all
  also have "\<dots> \<le> s * q" using e(3) q0 mult_right_mono [of "real n / 1000000 * (1 - 1 / 2 ^ 53) ^ 2" s q] by (simp add: mult.commute mult.left_commute)
  finally show "1 \<le> gain q n" unfolding g by (rule f64_round_ge_one)
qed

text \<open>What a refill leaves in a bucket that holds a number.\<close>

definition refilled :: "real \<Rightarrow> real \<Rightarrow> u64 \<Rightarrow> u64 \<Rightarrow> real \<Rightarrow> real" where
  "refilled q b t0 now x =
     (if t0 < now then let y = f64_round (x + gain q (unat (now - t0))) in if max 1 b < y then max 1 b else y else x)"

lemma small_1000: "(x :: real) \<le> 2 ^ 200 \<Longrightarrow> 0 \<le> x \<Longrightarrow> \<bar>x\<bar> \<le> 2 ^ 1000"
  unfolding abs_of_nonneg by (erule order_trans) (rule power_increasing, simp_all)

lemma burst_num: "(if f64_less double_f64 (F64 b) (f64_nat double_f64 1) then f64_nat double_f64 1 else F64 b) = F64 (max 1 b)"
  using f64_consts(2) by (auto simp: f64_lt_def max_def)

lemma refill_num:
  assumes l: "limits_ok q b" and e: "tm_tokens e = F64 x" "0 \<le> x" "x \<le> max 1 b" "tm_last_refill_us e \<noteq> 0" "tm_last_refill_us e \<le> t"
  shows "refill double_f64 (F64 q) (F64 (max 1 b)) t e = e\<lparr>tm_tokens := F64 (refilled q b (tm_last_refill_us e) t x), tm_last_refill_us := t\<rparr>"
proof (cases "tm_last_refill_us e < t")
  case False
  then show ?thesis using e by (auto simp: refill_def refilled_def intro!: Tenant.equality)
next
  case True
  define n where "n = unat (t - tm_last_refill_us e)"
  have "t - tm_last_refill_us e \<noteq> 0" using True by auto
  then have n: "1 \<le> n" "n < 2 ^ 64"
    using unat_lt [of "t - tm_last_refill_us e"] by (simp_all add: n_def Suc_le_eq unat_gt_0)
  have q: "1 / 2 ^ 53 \<le> q" "q \<le> 2 ^ 53" and b: "max 1 b \<le> 2 ^ 53" using l by (simp_all add: limits_ok_def)
  note g = gain_bounds [OF n q] and s = elapsed_bounds [OF n]
  have q0: "0 \<le> q" using q(1) by (rule order_trans [rotated]) simp
  have r0: "0 \<le> f64_round (real n)" "0 \<le> f64_round (f64_round (real n) / 1000000)" by (intro f64_round_nonneg divide_nonneg_nonneg; simp)+
  have c: "f64_of (real n) = F64 (f64_round (real n))"
    "f64_divide (F64 (f64_round (real n))) (F64 1000000) = F64 (f64_round (f64_round (real n) / 1000000))"
    "f64_times (F64 (f64_round (f64_round (real n) / 1000000))) (F64 q) = F64 (gain q n)"
    "f64_plus (F64 x) (F64 (gain q n)) = F64 (f64_round (x + gain q n))"
  proof -
    show "f64_of (real n) = F64 (f64_round (real n))" by (rule f64_of_round, rule small_1000) (use n(2) in simp_all)
    have "f64_round (real n) / 1000000 \<le> 2 ^ 65 / 1" using s(1) r0(1) by (intro frac_le) simp_all
    then show "f64_divide (F64 (f64_round (real n))) (F64 1000000) = F64 (f64_round (f64_round (real n) / 1000000))"
      using f64_of_round [OF small_1000, of "f64_round (real n) / 1000000"] r0 by simp
    show "f64_times (F64 (f64_round (f64_round (real n) / 1000000))) (F64 q) = F64 (gain q n)"
      using f64_of_round [OF small_1000, of "f64_round (f64_round (real n) / 1000000) * q"] g(4) r0(2) q0 by (simp add: gain_def)
    have "0 \<le> gain q n" using g(2) by (rule order_trans [rotated]) simp
    moreover have "x + gain q n \<le> 2 ^ 53 + 2 ^ 100" using e(3) b g(3) by linarith
    ultimately show "f64_plus (F64 x) (F64 (gain q n)) = F64 (f64_round (x + gain q n))"
      using f64_of_round [OF small_1000, of "x + gain q n"] e(2) by simp
  qed
  show ?thesis using True e(1,4)
    by (simp only: refill_def n_def [symmetric] Let_def double_f64_simps f64_consts c if_False if_True refilled_def)
      (simp add: f64_lt_def Let_def not_le)
qed

text \<open>The factor by which a request may be off: one for each rounding.\<close>

definition slack :: real where
  "slack = (1 + 1 / 2 ^ 53) ^ 5"

lemma power_steps: "c ^ 3 * c = c ^ 4" "c ^ 4 * c = c ^ 5" for c :: real
  by (simp_all add: eval_nat_numeral)

lemma slack_ge: "1 \<le> slack" "1 + 1 / 2 ^ 53 \<le> slack"
  unfolding slack_def by (rule one_le_power, simp, rule self_le_power, simp_all)

text \<open>A bucket holds a double between zero and the burst.\<close>

definition bucket_num :: "real \<Rightarrow> real \<Rightarrow> bool" where
  "bucket_num b x \<longleftrightarrow> 0 \<le> x \<and> x \<le> max 1 b \<and> x \<in> range f64_round"

lemma max_range: "limits_ok q b \<Longrightarrow> bucket_num b (max 1 b)"
  using f64_round_nat [of 1] by (auto simp: limits_ok_def bucket_num_def max_def intro: range_eqI [of _ _ 1])

lemma gain_sum:
  assumes n: "1 \<le> n" "n < 2 ^ 64" and q: "1 / 2 ^ 53 \<le> q" "q \<le> 2 ^ 53" and x0: "0 \<le> x"
  shows "0 \<le> f64_round (x + gain q n)" "f64_round (x + gain q n) \<le> (x + q * real n / 1000000) * (1 + 1 / 2 ^ 53) ^ 4"
    "1000000 * (1 + 1 / 2 ^ 51) \<le> q * real n \<Longrightarrow> 1 \<le> f64_round (x + gain q n)"
proof -
  note g = gain_bounds [OF n q]
  have g0: "0 \<le> gain q n" using g(2) by (rule order_trans [rotated]) simp
  show "0 \<le> f64_round (x + gain q n)" by (rule f64_round_nonneg) (use x0 g0 in simp)
  show "1 \<le> f64_round (x + gain q n)" if "1000000 * (1 + 1 / 2 ^ 51) \<le> q * real n"
    by (rule f64_round_ge_one) (use g(5) [OF that] x0 in simp)
  have "(1 :: real) / 2 ^ 1022 \<le> 1 / 2 ^ 74" by (simp add: divide_simps)
  then have "1 / 2 ^ 1022 \<le> x + gain q n" using g(2) x0 by linarith
  from f64_round_factor(1) [OF this] have "f64_round (x + gain q n) \<le> (x + gain q n) * (1 + 1 / 2 ^ 53)" .
  also have "\<dots> \<le> (x * (1 + 1 / 2 ^ 53) ^ 3 + q * real n / 1000000 * (1 + 1 / 2 ^ 53) ^ 3) * (1 + 1 / 2 ^ 53)"
  proof (rule mult_right_mono [OF add_mono [OF _ g(1)]])
    have "x * 1 \<le> x * (1 + 1 / 2 ^ 53) ^ 3" by (rule mult_left_mono [OF one_le_power x0]) simp
    then show "x \<le> x * (1 + 1 / 2 ^ 53) ^ 3" by (simp only: mult_1_right)
  qed simp
  also have "\<dots> = (x + q * real n / 1000000) * ((1 + 1 / 2 ^ 53) ^ 3 * (1 + 1 / 2 ^ 53))" by (simp only: distrib_right mult.assoc)
  also have "(1 + 1 / 2 ^ 53) ^ 3 * (1 + 1 / 2 ^ 53) = ((1 + 1 / 2 ^ 53) ^ 4 :: real)" by (rule power_steps)
  finally show "f64_round (x + gain q n) \<le> (x + q * real n / 1000000) * (1 + 1 / 2 ^ 53) ^ 4" .
qed

lemma refilled_num:
  assumes l: "limits_ok q b" and x: "bucket_num b x" and t: "t0 \<le> now"
  shows "bucket_num b (refilled q b t0 now x)"
    "refilled q b t0 now x \<le> (x + q * real (unat (now - t0)) / 1000000) * (1 + 1 / 2 ^ 53) ^ 4"
    "1000000 * (1 + 1 / 2 ^ 51) \<le> q * real (unat (now - t0)) \<Longrightarrow> 1 \<le> refilled q b t0 now x"
proof -
  have x0: "0 \<le> x" using x by (simp add: bucket_num_def)
  have q: "1 / 2 ^ 53 \<le> q" "q \<le> 2 ^ 53" using l by (simp_all add: limits_ok_def)
  define n where "n = unat (now - t0)"
  have "bucket_num b (refilled q b t0 now x) \<and> refilled q b t0 now x \<le> (x + q * real n / 1000000) * (1 + 1 / 2 ^ 53) ^ 4 \<and>
    (1000000 * (1 + 1 / 2 ^ 51) \<le> q * real n \<longrightarrow> 1 \<le> refilled q b t0 now x)"
  proof (cases "t0 < now")
    case False
    then have n: "n = 0" using t by (simp add: n_def)
    have "x * 1 \<le> x * (1 + 1 / 2 ^ 53) ^ 4" by (rule mult_left_mono [OF one_le_power x0]) simp
    then show ?thesis using x False n by (simp add: refilled_def)
  next
    case True
    then have "now - t0 \<noteq> 0" by auto
    then have n: "1 \<le> n" "n < 2 ^ 64" using unat_lt [of "now - t0"] by (simp_all add: n_def Suc_le_eq unat_gt_0)
    define y where "y = f64_round (x + gain q n)"
    note y = gain_sum [OF n q x0, folded y_def]
    have r: "refilled q b t0 now x = (if max 1 b < y then max 1 b else y)" using True by (simp only: refilled_def Let_def y_def n_def if_True)
    have "bucket_num b (if max 1 b < y then max 1 b else y)"
    proof (cases "max 1 b < y")
      case False
      then have "y \<le> max 1 b" by (simp only: not_less)
      then show ?thesis using False y(1) by (simp only: bucket_num_def if_False) (simp add: y_def)
    qed (simp only: if_True max_range [OF l])
    then show ?thesis using y(2,3) r by auto
  qed
  then show "bucket_num b (refilled q b t0 now x)"
    "refilled q b t0 now x \<le> (x + q * real (unat (now - t0)) / 1000000) * (1 + 1 / 2 ^ 53) ^ 4"
    "1000000 * (1 + 1 / 2 ^ 51) \<le> q * real (unat (now - t0)) \<Longrightarrow> 1 \<le> refilled q b t0 now x"
    unfolding n_def by blast+
qed

text \<open>Taking a token from a bucket that has one.\<close>

lemma take_num:
  assumes b: "max 1 b \<le> 2 ^ 53" and z: "bucket_num b z" "1 \<le> z"
  shows "f64_minus (F64 z) (F64 1) = F64 (f64_round (z - 1))" "bucket_num b (f64_round (z - 1))"
    "1 + f64_round (z - 1) \<le> z * (1 + 1 / 2 ^ 53)"
proof -
  have zb: "z \<le> max 1 b" using z(1) by (simp add: bucket_num_def)
  have z2: "z \<le> 2 ^ 53" by (rule order_trans [OF zb b])
  have f: "f64_of (z - 1) = F64 (f64_round (z - 1))"
    by (rule f64_of_round, rule small_1000) (use z2 z(2) in simp_all)
  show "f64_minus (F64 z) (F64 1) = F64 (f64_round (z - 1))" using f by (simp add: f64_minus_def)
  have "z = 1 \<or> 1 + 1 / 2 ^ 52 \<le> z" using f64_round_gap z by (auto simp: bucket_num_def)
  then have y: "f64_round (z - 1) \<le> (z - 1) * (1 + 1 / 2 ^ 53)"
  proof
    assume "1 + 1 / 2 ^ 52 \<le> z"
    moreover have "(1 :: real) / 2 ^ 1022 \<le> 1 / 2 ^ 52" by (simp add: divide_simps)
    ultimately show ?thesis by (intro f64_round_factor(1)) linarith
  qed simp
  then show "1 + f64_round (z - 1) \<le> z * (1 + 1 / 2 ^ 53)" by (simp add: algebra_simps)
  have "f64_round (z - 1) \<le> z" using y z2 by (simp add: field_simps)
  then show "bucket_num b (f64_round (z - 1))" using zb z(2) f64_round_nonneg [of "z - 1"] by (simp add: bucket_num_def)
qed

lemma served_eq:
  assumes l: "limits_ok q b" and r: "refill double_f64 (F64 q) (F64 (max 1 b)) t e = e\<lparr>tm_tokens := F64 z, tm_last_refill_us := t\<rparr>"
    and z: "bucket_num b z"
  shows "fst (served double_f64 (F64 q) (F64 b) t e) \<longleftrightarrow> 1 \<le> z"
    "\<exists>y. tm_tokens (snd (served double_f64 (F64 q) (F64 b) t e)) = F64 y \<and> bucket_num b y \<and>
       tm_last_refill_us (snd (served double_f64 (F64 q) (F64 b) t e)) = t \<and> (if 1 \<le> z then 1 else 0) + y \<le> z * (1 + 1 / 2 ^ 53)"
proof -
  have n: "f64_nat double_f64 1 = F64 1" using f64_consts(2) by simp
  have s: "served double_f64 (F64 q) (F64 b) t e =
    (1 \<le> z, e\<lparr>tm_tokens := if 1 \<le> z then f64_minus (F64 z) (F64 1) else F64 z, tm_last_refill_us := t\<rparr>)"
    unfolding served_def burst_num Let_def unfolding r unfolding n by simp
  then show "fst (served double_f64 (F64 q) (F64 b) t e) \<longleftrightarrow> 1 \<le> z" by simp
  have b: "max 1 b \<le> 2 ^ 53" using l by (simp add: limits_ok_def)
  have "z * 1 \<le> z * (1 + 1 / 2 ^ 53)" using z by (intro mult_left_mono) (simp_all add: bucket_num_def)
  then show "\<exists>y. tm_tokens (snd (served double_f64 (F64 q) (F64 b) t e)) = F64 y \<and> bucket_num b y \<and>
       tm_last_refill_us (snd (served double_f64 (F64 q) (F64 b) t e)) = t \<and> (if 1 \<le> z then 1 else 0) + y \<le> z * (1 + 1 / 2 ^ 53)"
    using take_num [OF b z] z unfolding s by (cases "1 \<le> z") simp_all
qed

lemma served_num:
  assumes l: "limits_ok q b" and x: "tm_tokens e = F64 x" "bucket_num b x" and t: "tm_last_refill_us e \<noteq> 0" "tm_last_refill_us e \<le> t"
  defines "n \<equiv> unat (t - tm_last_refill_us e)" and "r \<equiv> served double_f64 (F64 q) (F64 b) t e"
  shows "\<exists>y. tm_tokens (snd r) = F64 y \<and> bucket_num b y \<and> tm_last_refill_us (snd r) = t \<and>
      (if fst r then 1 else 0) + y \<le> (x + q * real n / 1000000) * slack"
    "1000000 * (1 + 1 / 2 ^ 51) \<le> q * real n \<Longrightarrow> fst r"
proof -
  let ?z = "refilled q b (tm_last_refill_us e) t x"
  have "0 \<le> x" "x \<le> max 1 b" using x(2) by (simp_all add: bucket_num_def)
  note f = refill_num [OF l x(1) this t]
  note z = refilled_num [OF l x(2) t(2), folded n_def]
  note s = served_eq [OF l f z(1), folded r_def]
  show "fst r" if "1000000 * (1 + 1 / 2 ^ 51) \<le> q * real n" using z(3) [OF that] s(1) by simp
  have "?z * (1 + 1 / 2 ^ 53) \<le> (x + q * real n / 1000000) * (1 + 1 / 2 ^ 53) ^ 4 * (1 + 1 / 2 ^ 53)"
    by (rule mult_right_mono [OF z(2)]) simp
  also have "\<dots> = (x + q * real n / 1000000) * slack" unfolding mult.assoc power_steps slack_def ..
  finally have u: "?z * (1 + 1 / 2 ^ 53) \<le> (x + q * real n / 1000000) * slack" .
  from s(2) obtain y where y: "tm_tokens (snd r) = F64 y" "bucket_num b y" "tm_last_refill_us (snd r) = t"
    "(if 1 \<le> ?z then 1 else 0) + y \<le> ?z * (1 + 1 / 2 ^ 53)" by blast
  show "\<exists>y. tm_tokens (snd r) = F64 y \<and> bucket_num b y \<and> tm_last_refill_us (snd r) = t \<and>
      (if fst r then 1 else 0) + y \<le> (x + q * real n / 1000000) * slack"
    by (rule exI [of _ y], intro conjI y(1-3), unfold s(1), rule order_trans [OF y(4) u])
qed

lemma served_first:
  fixes t :: u64
  assumes l: "limits_ok q b" and t: "tm_last_refill_us e = 0"
  defines "r \<equiv> served double_f64 (F64 q) (F64 b) t e"
  shows "fst r" "\<exists>y. tm_tokens (snd r) = F64 y \<and> bucket_num b y \<and> tm_last_refill_us (snd r) = t \<and> 1 + y \<le> max 1 b * slack"
proof -
  have f: "refill double_f64 (F64 q) (F64 (max 1 b)) t e = e\<lparr>tm_tokens := F64 (max 1 b), tm_last_refill_us := t\<rparr>"
    using t by (simp add: refill_def)
  note s = served_eq [OF l f max_range [OF l], folded r_def]
  show "fst r" using s(1) by simp
  have u: "max 1 b * (1 + 1 / 2 ^ 53) \<le> max 1 b * slack" by (rule mult_left_mono [OF slack_ge(2)]) simp
  from s(2) obtain y where y: "tm_tokens (snd r) = F64 y" "bucket_num b y" "tm_last_refill_us (snd r) = t"
    "1 + y \<le> max 1 b * (1 + 1 / 2 ^ 53)" by auto
  show "\<exists>y. tm_tokens (snd r) = F64 y \<and> bucket_num b y \<and> tm_last_refill_us (snd r) = t \<and> 1 + y \<le> max 1 b * slack"
    by (rule exI [of _ y], intro conjI y(1-3), rule order_trans [OF y(4) u])
qed

section \<open>Runs of requests\<close>

text \<open>The requests of all tenants, in order, each with its time; the limits are those configured for each namespace.\<close>

fun rate_run :: "f64 TenantTable \<Rightarrow> (cstr \<Rightarrow> f64) \<Rightarrow> (cstr \<Rightarrow> f64) \<Rightarrow> (cstr \<times> u64) list \<Rightarrow> (cstr \<times> bool) list \<times> f64 TenantTable option" where
  "rate_run tt qps burst [] = ([], Some tt)"
| "rate_run tt qps burst ((ns, t) # rs) =
     (case tenant_rate_allow double_f64 mem_ok (Some tt) (Some ns) (qps ns) (burst ns) t of
        (a, Some tt') \<Rightarrow> (case rate_run tt' qps burst rs of (out, tt2) \<Rightarrow> ((ns, a) # out, tt2))
      | (a, None) \<Rightarrow> ([(ns, a)], None))"



abbreviation bucket :: "f64 TenantTable \<Rightarrow> cstr \<Rightarrow> f64 Tenant" where
  "bucket tt ns \<equiv> tenant_of double_f64 tt ns"

text \<open>The limits of one tenant in a configuration.\<close>

definition limits_of :: "(cstr \<Rightarrow> f64) \<Rightarrow> (cstr \<Rightarrow> f64) \<Rightarrow> cstr \<Rightarrow> real \<Rightarrow> real \<Rightarrow> bool" where
  "limits_of qps burst ns q b \<longleftrightarrow> qps ns = F64 q \<and> burst ns = F64 b \<and> limits_ok q b"

lemma limits_pos: "limits_ok q b \<Longrightarrow> 0 < q"
  unfolding limits_ok_def by (erule conjE, erule less_le_trans [rotated]) simp

text \<open>One request of a run, seen from one namespace.\<close>

lemma rate_step:
  assumes ok: "tenants_ok tt" and q: "limits_of qps burst ns q b"
  obtains a tt' where "tenant_rate_allow double_f64 mem_ok (Some tt) (Some n) (qps n) (burst n) t = (a, Some tt')" "tenants_ok tt'"
    "n = ns \<longrightarrow> a = fst (served double_f64 (F64 q) (F64 b) t (bucket tt ns))"
    "n = ns \<longrightarrow> bucket tt' ns = snd (served double_f64 (F64 q) (F64 b) t (bucket tt ns))"
    "n \<noteq> ns \<longrightarrow> bucket tt' ns = bucket tt ns"
proof (cases "f64_le double_f64 (qps n) (f64_nat double_f64 0)")
  case False
  have l: "qps ns = F64 q" "burst ns = F64 b" using q by (simp_all add: limits_of_def)
  note h = rate_allow_ok [OF ok False, of n "burst n" t]
  show thesis
    by (rule exE [OF h], elim conjE, rule that, assumption, assumption) (auto simp: l)
next
  case True
  then have "n \<noteq> ns" using q limits_pos [of q b] f64_consts(1) by (auto simp: limits_of_def)
  then show thesis using that [OF rate_allow_off ok] True by simp
qed



lemma real_unat_sub: "a \<le> b \<Longrightarrow> real (unat (b - a)) = real (unat b) - real (unat a)" for a b :: u64
  by (simp only: unat_sub of_nat_diff word_le_nat_alt)



lemma run_bucket:
  assumes "tenants_ok tt" "limits_of qps burst ns q b"
    "tm_last_refill_us (bucket tt ns) = 0 \<or> (\<exists>x. tm_tokens (bucket tt ns) = F64 x \<and> bucket_num b x) \<and> tm_last_refill_us (bucket tt ns) \<in> S"
    "sorted (unat (tm_last_refill_us (bucket tt ns)) # map (\<lambda>r. unat (snd r)) rs)"
  shows "\<exists>out tt'. rate_run tt qps burst rs = (out, Some tt') \<and> tenants_ok tt' \<and>
    (tm_last_refill_us (bucket tt' ns) = 0 \<or>
     (\<exists>x. tm_tokens (bucket tt' ns) = F64 x \<and> bucket_num b x) \<and> tm_last_refill_us (bucket tt' ns) \<in> S \<union> {t. (ns, t) \<in> set rs})"
  using assms
proof (induction rs arbitrary: tt S)
  case Nil
  then show ?case by auto
next
  case (Cons r rs)
  obtain n t where r: "r = (n, t)" by (cases r)
  obtain a tt' where s: "tenant_rate_allow double_f64 mem_ok (Some tt) (Some n) (qps n) (burst n) t = (a, Some tt')" "tenants_ok tt'"
    "n = ns \<longrightarrow> a = fst (served double_f64 (F64 q) (F64 b) t (bucket tt ns))"
    "n = ns \<longrightarrow> bucket tt' ns = snd (served double_f64 (F64 q) (F64 b) t (bucket tt ns))"
    "n \<noteq> ns \<longrightarrow> bucket tt' ns = bucket tt ns"
    by (rule rate_step [where n = n and t = t, OF Cons.prems(1,2)])
  define S' where "S' = (if n = ns then insert t S else S)"
  have lo: "limits_ok q b" using Cons.prems(2) by (simp add: limits_of_def)
  have lt: "tm_last_refill_us (bucket tt ns) \<le> t" using Cons.prems(4) r by (simp add: word_le_nat_alt)
  have l: "tm_last_refill_us (bucket tt' ns) = t \<and> (\<exists>x. tm_tokens (bucket tt' ns) = F64 x \<and> bucket_num b x)" if "n = ns"
  proof (cases "tm_last_refill_us (bucket tt ns) = 0")
    case True
    show ?thesis using served_first(2) [OF lo True, of t] unfolding s(4) [rule_format, OF that] by blast
  next
    case False
    then obtain x where x: "tm_tokens (bucket tt ns) = F64 x" "bucket_num b x" using Cons.prems(3) by blast
    show ?thesis using served_num(1) [OF lo x False lt] unfolding s(4) [rule_format, OF that] by blast
  qed
  have b: "tm_last_refill_us (bucket tt' ns) = 0 \<or> (\<exists>x. tm_tokens (bucket tt' ns) = F64 x \<and> bucket_num b x) \<and> tm_last_refill_us (bucket tt' ns) \<in> S'"
    using l s(5) Cons.prems(3) by (cases "n = ns") (simp_all add: S'_def)
  have srt: "sorted (unat (tm_last_refill_us (bucket tt' ns)) # map (\<lambda>r. unat (snd r)) rs)"
    using l s(5) Cons.prems(4) r by (cases "n = ns") auto
  obtain out tt2 where R: "rate_run tt' qps burst rs = (out, Some tt2)" "tenants_ok tt2"
    "tm_last_refill_us (bucket tt2 ns) = 0 \<or>
     (\<exists>x. tm_tokens (bucket tt2 ns) = F64 x \<and> bucket_num b x) \<and> tm_last_refill_us (bucket tt2 ns) \<in> S' \<union> {t. (ns, t) \<in> set rs}"
    using Cons.IH [OF s(2) Cons.prems(2) b srt] by blast
  have "S' \<union> {t. (ns, t) \<in> set rs} = S \<union> {t. (ns, t) \<in> set (r # rs)}" by (auto simp: S'_def r)
  then show ?case using R s(1) by (simp add: r)
qed

section \<open>Properties\<close>

lemma limits_nat: "1 \<le> q \<Longrightarrow> q < 2 ^ 53 \<Longrightarrow> b < 2 ^ 53 \<Longrightarrow> limits_of (\<lambda>_. F64 (real q)) (\<lambda>_. F64 (real b)) ns (real q) (real b)"
  using f64_round_nat [of b] by (auto simp: limits_of_def limits_ok_def intro: range_eqI [of _ _ "real b"])



text \<open>
  C18. No tenant starves: on a table as created, after any run of requests of any tenants in the order of their times, a request of a tenant
  whose earlier requests all lie at least one token (\<open>1 / qps\<close> seconds), and \<open>2 ^ -51\<close> of a token more for the rounding, back is let
  through, however many of them were refused. The arithmetic is that of IEEE 754 doubles, rounding to nearest; the limits of the tenant
  are doubles, \<open>qps\<close> between \<open>2 ^ -53\<close> and \<open>2 ^ 53\<close> and \<open>burst\<close> at most \<open>2 ^ 53\<close>; those of the others are arbitrary.
\<close>

theorem tenant_rate_served:
  assumes c: "tenant_table_create mem mutex_ok = Some tt" and q: "limits_of qps burst ns q b"
    and srt: "sorted (map (\<lambda>r. unat (snd r)) (rs @ [(ns, t)]))"
    and wait: "\<forall>t'. (ns, t') \<in> set rs \<longrightarrow> 1000000 * (1 + 1 / 2 ^ 51) \<le> q * (real (unat t) - real (unat t'))"
  shows "\<exists>out tt'. rate_run tt qps burst rs = (out, Some tt') \<and>
    fst (tenant_rate_allow double_f64 mem_ok (Some tt') (Some ns) (qps ns) (burst ns) t)"
proof -
  have tt: "tt = \<lparr>tt_t = [], tt_cap = 0\<rparr>" using c by (simp add: tenant_table_create_def split: if_splits)
  have ok: "tenants_ok tt" and l: "tm_last_refill_us (bucket tt ns) = 0" by (simp_all add: tt tenants_ok_def tenant_of_def tenant_find_def fresh_tenant_def)
  have lo: "limits_ok q b" using q by (simp add: limits_of_def)
  obtain out tt' where R: "rate_run tt qps burst rs = (out, Some tt')" "tenants_ok tt'" "tm_last_refill_us (bucket tt' ns) = 0 \<or>
     (\<exists>x. tm_tokens (bucket tt' ns) = F64 x \<and> bucket_num b x) \<and> tm_last_refill_us (bucket tt' ns) \<in> {t. (ns, t) \<in> set rs}"
    using run_bucket [OF ok q, of "{}" rs] l srt by (auto simp: sorted_append)
  let ?l = "tm_last_refill_us (bucket tt' ns)"
  have "fst (served double_f64 (F64 q) (F64 b) t (bucket tt' ns))"
  proof (cases "?l = 0")
    case True
    then show ?thesis by (rule served_first(1) [OF lo])
  next
    case False
    then obtain x where x: "tm_tokens (bucket tt' ns) = F64 x" "bucket_num b x" "(ns, ?l) \<in> set rs" using R(3) by blast
    have "unat ?l \<le> unat t" using srt x(3) by (auto simp: sorted_append)
    then have lt: "?l \<le> t" by (simp only: word_le_nat_alt)
    have "1000000 * (1 + 1 / 2 ^ 51) \<le> q * real (unat (t - ?l))" unfolding real_unat_sub [OF lt] using wait x(3) by blast
    then show ?thesis by (rule served_num(2) [OF lo x(1,2) False lt])
  qed
  moreover obtain a tt2 where "tenant_rate_allow double_f64 mem_ok (Some tt') (Some ns) (qps ns) (burst ns) t = (a, Some tt2)" "tenants_ok tt2"
    "ns = ns \<longrightarrow> a = fst (served double_f64 (F64 q) (F64 b) t (bucket tt' ns))"
    "ns = ns \<longrightarrow> bucket tt2 ns = snd (served double_f64 (F64 q) (F64 b) t (bucket tt' ns))" "ns \<noteq> ns \<longrightarrow> bucket tt2 ns = bucket tt' ns"
    by (rule rate_step [where n = ns and t = t, OF R(2) q])
  ultimately show ?thesis using R(1) by simp
qed

theorem tenant_rate_served_witness:
  "\<exists>out tt'. rate_run \<lparr>tt_t = [], tt_cap = 0\<rparr> (\<lambda>_. F64 2) (\<lambda>_. F64 1) [([97], 1), ([98], 2), ([97], 3)] = (out, Some tt') \<and>
    fst (tenant_rate_allow double_f64 mem_ok (Some tt') (Some [97]) (F64 2) (F64 1) 500004)"
  using tenant_rate_served [of mem_ok True "\<lparr>tt_t = [], tt_cap = 0\<rparr>" "\<lambda>_. F64 2" "\<lambda>_. F64 1" "[97]" 2 1 "[([97], 1), ([98], 2), ([97], 3)]" 500004]
    limits_nat [of 2 1 "[97]"]
  by (simp add: tenant_table_create_def del: rate_run.simps)

end
