(* ===== verification/Spec2Isabelle.thy ===== *)
theory Spec2Isabelle
  imports Status Hash_Index Time_Index Tag_Index Edge_Index Memory_Record Record_Codec Sha256 Log_Recovery
    Usage_Index Working_Buffer Conflict_Set Inference Fact_Index Lexical_Search Tenant_Rate
begin

text \<open>
  \<^bold>\<open>A verification of AegisDB\<close>

  AegisDB (sources under \<^verbatim>\<open>src/\<close>) is a memory store for agents, written in C. Records are encoded to bytes, framed with a
  checksum (or sealed with authenticated encryption) and appended to one log file. In-memory indexes locate
  them: by id, by time of creation, by tag, by incoming relationship, by fact, by the words of their text. Checkpoint images of the indexes and a replay of the log
  rebuild the state after a restart. A working memory keeps short-lived records per session in rings. A
  query layer answers requests over the indexes, and a background pass derives new facts from stored ones by three rules
  that a registry of predicates declares.

  \<^bold>\<open>Modelling conventions\<close>

  C structs are records and C enumerations datatypes, with the names of the source. Fixed-width integers are words, so that
  wrap-around is that of the code; \<^verbatim>\<open>size_t\<close> counts of things held in memory are \<^typ>\<open>nat\<close>. A C string is its list of bytes
  before the terminator (\<open>cstr\<close>); a pointer that may be null is an option. A float is its 32 bits; where the code
  calculates with floats or doubles the operations are arguments, and \<open>Ieee_Double\<close> has the rounded arithmetic of doubles for the
  properties that depend on it. Every allocation may fail: an operation takes the outcomes of its
  allocations as a function from their number (\<open>alloc\<close>), and long-running ones count them. An outer \<open>None\<close>
  where a result is expected means a loop that would not end; no theorem excuses it, each shows that it does not happen.
  Reads and writes of files take what the system transferred as an argument, so a crash is a prefix of the writes. Names that differ
  from the source are parts of larger functions, such as a loop body, or avoid a clash.

  \<^bold>\<open>The parts and their theories\<close>

  \<^item> \<^bold>\<open>Foundations.\<close> \<open>Aegis_Prelude\<close> has the word and string types, the binary search that the sorted arrays share (locale
  \<open>sorted_array\<close>, interpreted by the time index, the tag index and the edge index) and insertion and removal at a position.
  \<open>Endian\<close> models \<^verbatim>\<open>endian.h\<close> and \<^verbatim>\<open>hash_mix.h\<close>; \<open>Status\<close> models \<^verbatim>\<open>status.c\<close>; \<open>Crc32\<close> models \<^verbatim>\<open>crc32.c\<close> and shows
  that the table-driven checksum is the bit-serial one, and that every change within four consecutive bytes is detected.
  \<open>Ordered_Lists\<close> has bounded sorted insertion.

  \<^item> \<^bold>\<open>Tables.\<close> \<open>Open_Addressing\<close> (locale \<open>probe_table\<close>) proves linear probing, claiming past tombstones and rehashing against a
  finite map, once for all tables; \<open>Counted_Table\<close> adds the counters and the growth rule; \<open>String_Table\<close> does the same for chained
  tables keyed by strings. Probing loops are bounded by the capacity as in the code; the unbounded walk of a rehash has
  the capacity as its bound, which is enough because the new table has a free slot.

  \<^item> \<^bold>\<open>Indexes.\<close> \<open>Hash_Index\<close> (\<^verbatim>\<open>hash_index.c\<close>), \<open>Time_Index\<close> (\<^verbatim>\<open>time_index.c\<close>), \<open>Tag_Index\<close> (\<^verbatim>\<open>tag_index.c\<close>),
  \<open>Edge_Index\<close> (\<^verbatim>\<open>edge_index.c\<close>) and \<open>Usage_Index\<close> (\<^verbatim>\<open>usage_index.c\<close>): every operation keeps the invariant and acts on the
  abstract content (a map, a multiset, a set of edges) as it should, also when an allocation fails; queries return exactly the entries asked
  for, in order; checkpoint images load back to the same content, and a damaged image is refused.

  \<^item> \<^bold>\<open>Records.\<close> \<open>Memory_Record\<close> and \<open>Record_Codec\<close> model \<^verbatim>\<open>record.c\<close>: routes of a derivation stay sorted and bounded, the first
  route of each pair of premises and rule is kept, and what is kept does not depend on the order of insertion; decoding inverts encoding; whatever bytes are decoded, a record that comes out is well-formed.

  \<^item> \<^bold>\<open>The log.\<close> \<open>Log\<close> models \<^verbatim>\<open>log.c\<close> over an explicit file: both frame formats, append, read, the scan with its
  resynchronisation, opening, migration. \<open>Log_Frames\<close> and \<open>Log_Recovery\<close> prove what it promises: an append is
  readable; a scan of arbitrary bytes delivers exactly the good frames among those that reading and resynchronising meet, whatever is
  damaged, a header or a payload; after a crash anywhere in an append everything acknowledged is
  delivered; opening fails closed; migration keeps the payloads. Two theorems exhibit files on which recovery loses data.

  \<^item> \<^bold>\<open>Cryptography.\<close> \<open>Chacha20\<close>, \<open>Poly1305\<close>, \<open>Aead\<close> and \<open>Sha256\<close> model \<^verbatim>\<open>chacha20poly1305.c\<close> and \<^verbatim>\<open>sha256.c\<close> at their word widths. The
  limb arithmetic of Poly1305 is shown to compute the polynomial modulo \<open>2^130 - 5\<close> without overflow, opening inverts
  sealing, and SHA-256 is the fold over the padded message.

  \<^item> \<^bold>\<open>Facts and text.\<close> \<open>Fact_Table\<close> and \<open>Fact_Index\<close> (\<^verbatim>\<open>fact_index.c\<close>) implement a map from records to facts, an addition that fails at any step being
  undone in all tables. For \<^verbatim>\<open>lexical_index.c\<close>, \<open>Lex_Tokenizer\<close> yields exactly the terms of a text, and \<open>Lexical_Index\<close> and
  \<open>Lexical_Search\<close> implement a map from documents to terms and a search whose scores depend on that map alone. The float operations of the scores are
  arguments, and of \<^verbatim>\<open>qsort\<close> it is used that it permutes.

  \<^item> \<^bold>\<open>Tenants.\<close> \<open>Tenant\<close> (\<^verbatim>\<open>tenant.c\<close>) has accounting, quotas and the token bucket; \<open>Tenant_Rate\<close> bounds the bucket from above and
  shows that it serves, over the doubles of \<open>Ieee_Double\<close>, with the margin that rounding needs.

  \<^item> \<^bold>\<open>Working memory.\<close> \<open>Working_Buffer\<close> models \<^verbatim>\<open>working_buffer.c\<close>: the rings as maps from ids to records, with
  eviction and expiry.

  \<^item> \<^bold>\<open>Inference.\<close> \<open>Json_Tree\<close> has the part of \<^verbatim>\<open>cJSON\<close> that \<open>Predicate_Registry\<close> (\<^verbatim>\<open>predicate_registry.c\<close>) reads; a registry that loads is
  coherent. \<open>Infer_Tables\<close> and \<open>Inference\<close> model \<^verbatim>\<open>inference.c\<close>: a pass concludes exactly what the rules allow,
  independently of the order of the facts, and within its caps. \<open>Conflict_Set\<close> models \<^verbatim>\<open>conflict_set.c\<close>.

  \<^bold>\<open>What is not modelled\<close>

  Freeing memory and the estimates of memory in use; locks (an operation under a lock is one step); retries on
  interrupted system calls; the text of error messages. The database object, recovery into the indexes, compaction and the request handlers
  mostly glue the parts above to the file system and to each other. The semantic index ranks by floating-point
  similarity and the vector graph is approximate by design. The server, replication and client are sockets and threads. The JSON parser and printer
  are taken as arguments where they are used.
\<close>

end
